(* ===== verification/Prelude.thy ===== *)
theory Prelude
  imports Main "HOL-Library.Word"
begin

text \<open>
  Shared vocabulary of the development: the C integer widths the bridge uses, the ways a
  C function can go wrong as values of one datatype, a bind for computations that may go
  wrong, bounds-checked reads from byte buffers, C strings inside buffers, and the
  little-endian splitting of a \<open>short\<close> into the two bytes that travel on the wire.

  A \<open>char*\<close> or \<open>void*\<close> that the code only reads forward from is modelled as the list
  of the bytes from the pointer to the end of the object it points into: dereferencing is
  reading the head, \<open>p + n\<close> is \<open>drop n p\<close>, and reading past the end of the object is
  the fault \<open>OutOfBounds\<close>.
\<close>

unbundle bit_operations_syntax

named_theorems res_simps \<open>evaluation of computations that may go wrong\<close>
named_theorems wire_simps \<open>splitting and joining of the bytes of a short\<close>

section \<open>C integers\<close>

type_synonym byte = "8 word"
type_synonym short = "16 word"
type_synonym uint32 = "32 word"

definition lo_byte :: "short \<Rightarrow> byte" where
  "lo_byte w = ucast w"

definition hi_byte :: "short \<Rightarrow> byte" where
  "hi_byte w = ucast (signed_drop_bit 8 w)"

definition join_u8 :: "byte \<Rightarrow> byte \<Rightarrow> short" where
  "join_u8 b0 b1 = (ucast b0 :: short) + push_bit 8 (ucast b1)"

definition join_s8 :: "byte \<Rightarrow> byte \<Rightarrow> short" where
  "join_s8 b0 b1 = (scast b0 :: short) OR push_bit 8 (scast b1)"

lemma hi_byte_alt [wire_simps]: "hi_byte w = ucast (drop_bit 8 w)"
  unfolding hi_byte_def by (rule bit_word_eqI) (auto simp: bit_simps)

lemma join_u8_or: "join_u8 b0 b1 = (ucast b0 OR push_bit 8 (ucast b1))"
  unfolding join_u8_def by (rule disjunctive_add) (auto simp: bit_simps dest: bit_imp_le_length)

lemma join_u8_split [simp]: "join_u8 (lo_byte w) (hi_byte w) = w"
  unfolding join_u8_or lo_byte_def hi_byte_alt
  by (rule bit_word_eqI) (auto simp: bit_simps)

lemma lo_byte_join [simp]: "lo_byte (join_u8 b0 b1) = b0"
  unfolding join_u8_or lo_byte_def
  by (rule bit_word_eqI) (auto simp: bit_simps)

lemma hi_byte_join [simp]: "hi_byte (join_u8 b0 b1) = b1"
  unfolding join_u8_or hi_byte_alt
  by (rule bit_word_eqI) (auto simp: bit_simps dest: bit_imp_le_length)

section \<open>Faults and computations that may go wrong\<close>

text \<open>
  \<open>OutOfBounds\<close>, \<open>NullPointer\<close>, \<open>Uninitialised\<close>, \<open>TypeConfusion\<close> and
  \<open>BadConversion\<close> (a number outside the target type) are undefined
  behaviour of the C code, made visible; \<open>Blocked\<close> is a call that never returns because
  its environment supplies nothing more; \<open>ExitProcess n\<close> is a call of \<open>exit(n)\<close>.
\<close>

datatype fault =
    OutOfBounds
  | NullPointer
  | DanglingPointer
  | Uninitialised
  | TypeConfusion
  | BadConversion
  | Blocked
  | ExitProcess int

type_synonym 'a res = "fault + 'a"

fun bind_res :: "'a res \<Rightarrow> ('a \<Rightarrow> 'b res) \<Rightarrow> 'b res" where
  "bind_res (Inl e) f = Inl e"
| "bind_res (Inr x) f = f x"

lemma bind_res_Inr_iff [res_simps]:
  "bind_res m f = Inr y \<longleftrightarrow> (\<exists>x. m = Inr x \<and> f x = Inr y)"
  by (cases m) auto

lemma bind_res_Inl_iff [res_simps]:
  "bind_res m f = Inl e \<longleftrightarrow> m = Inl e \<or> (\<exists>x. m = Inr x \<and> f x = Inl e)"
  by (cases m) auto

lemma bind_res_assoc: "bind_res (bind_res m f) g = bind_res m (\<lambda>x. bind_res (f x) g)"
  by (cases m) auto

lemma bind_res_cong [fundef_cong]:
  "m = m' \<Longrightarrow> (\<And>x. m' = Inr x \<Longrightarrow> f x = f' x) \<Longrightarrow> bind_res m f = bind_res m' f'"
  by (cases m') auto

section \<open>Buffers\<close>

definition rd :: "byte list \<Rightarrow> nat \<Rightarrow> byte res" where
  "rd buf i = (if i < length buf then Inr (buf ! i) else Inl OutOfBounds)"

definition deref :: "byte list \<Rightarrow> byte res" where
  "deref p = rd p 0"

lemma rd_Inr_iff [res_simps]: "rd buf i = Inr b \<longleftrightarrow> i < length buf \<and> b = buf ! i"
  by (auto simp: rd_def)

lemma rd_Inl_iff [res_simps]: "rd buf i = Inl e \<longleftrightarrow> \<not> i < length buf \<and> e = OutOfBounds"
  by (auto simp: rd_def)

lemma rd_in [simp]: "i < length buf \<Longrightarrow> rd buf i = Inr (buf ! i)"
  by (simp add: rd_def)

lemma deref_Cons [simp]: "deref (b # p) = Inr b"
  by (simp add: deref_def rd_def)

lemma deref_Nil [simp]: "deref [] = Inl OutOfBounds"
  by (simp add: deref_def rd_def)

section \<open>C strings\<close>

text \<open>
  \<open>c_strlen p\<close> reads up to the first NUL byte and faults when the object has none;
  \<open>c_str p\<close> is the string a library function sees behind \<open>p\<close>.
\<close>

fun c_strlen :: "byte list \<Rightarrow> nat res" where
  "c_strlen [] = Inl OutOfBounds"
| "c_strlen (b # p) = (if b = 0 then Inr 0 else bind_res (c_strlen p) (\<lambda>n. Inr (Suc n)))"

definition c_str :: "byte list \<Rightarrow> byte list res" where
  "c_str p = bind_res (c_strlen p) (\<lambda>n. Inr (take n p))"

definition skip_str :: "byte list \<Rightarrow> byte list res" where
  "skip_str p = bind_res (c_strlen p) (\<lambda>n. Inr (drop (n + 1) p))"

lemma c_strlen_append: "0 \<notin> set s \<Longrightarrow> c_strlen (s @ 0 # p) = Inr (length s)"
  by (induction s) auto

lemma c_strlen_InrD:
  "c_strlen p = Inr n \<Longrightarrow> n < length p \<and> p ! n = 0 \<and> 0 \<notin> set (take n p)"
proof (induction p arbitrary: n)
  case Nil
  then show ?case by simp
next
  case (Cons b p)
  then show ?case by (auto simp: res_simps split: if_splits)
qed

lemma c_strlen_None: "0 \<notin> set p \<Longrightarrow> c_strlen p = Inl OutOfBounds"
  by (induction p) auto

lemma c_strlen_Inl_iff: "(\<exists>e. c_strlen p = Inl e) \<longleftrightarrow> 0 \<notin> set p"
proof (induction p)
  case Nil
  then show ?case by simp
next
  case (Cons b p)
  then show ?case by (auto simp: res_simps)
qed

lemma c_str_append [res_simps]: "0 \<notin> set s \<Longrightarrow> c_str (s @ 0 # p) = Inr s"
  by (simp add: c_str_def c_strlen_append)

lemma skip_str_append [res_simps]: "0 \<notin> set s \<Longrightarrow> skip_str (s @ 0 # p) = Inr p"
  by (simp add: skip_str_def c_strlen_append)

lemma skip_str_shorter: "skip_str p = Inr q \<Longrightarrow> length q < length p"
  by (auto simp: skip_str_def res_simps dest: c_strlen_InrD)

text \<open>Literals of the source, as bytes.\<close>

definition bytes_of :: "string \<Rightarrow> byte list" where
  "bytes_of s = map of_char s"

lemma length_bytes_of [simp]: "length (bytes_of s) = length s"
  by (simp add: bytes_of_def)

section \<open>Numbers as text\<close>

text \<open>The decimal text of an integer, as \<open>sprintf\<close> writes it.\<close>

fun digits :: "nat \<Rightarrow> string" where
  "digits n = (if n < 10 then [char_of (48 + n)] else digits (n div 10) @ [char_of (48 + n mod 10)])"

declare digits.simps [simp del]

definition show_int :: "int \<Rightarrow> string" where
  "show_int i = (if i < 0 then ''-'' @ digits (nat (- i)) else digits (nat i))"

lemma length_digits: "n < 10 ^ Suc k \<Longrightarrow> length (digits n) \<le> Suc k"
proof (induction k arbitrary: n)
  case 0
  then show ?case by (subst digits.simps) simp
next
  case (Suc k)
  then have "n div 10 < 10 ^ Suc k" by (simp add: less_mult_imp_div_less mult.commute)
  from Suc.IH [OF this] show ?case by (subst digits.simps) simp
qed

section \<open>Lists\<close>

lemma take_le_append: "n \<le> length xs \<Longrightarrow> take n (xs @ ys) = take n xs"
  by simp

lemma list_all_update:
  "list_all P xs \<Longrightarrow> P x \<Longrightarrow> list_all P (xs[i := x])"
  by (auto simp: list_all_iff dest: set_update_subset_insert [THEN subsetD])

end
