(* ===== verification/MsgQueue.thy ===== *)
theory MsgQueue
  imports Prelude
begin

text \<open>
  The two message queues of \<open>Message/receivequeue.c\<close> and \<open>Message/sendqueue.c\<close>: a ring
  of 64 message pointers, a message count, two positions and two counting semaphores.
  An operation of the queue is two atomic parts, as the code has them: the \<open>sem_wait\<close>
  (guarded: it does not return while the semaphore is 0, modelled as \<open>None\<close>) and the
  section under the mutex, which ends with the \<open>sem_post\<close>. A pointer is an option, NULL
  is \<open>None\<close>. The abstract contract is a first-in first-out list of pointers
  (\<open>contents\<close>), stated as the locale \<open>bounded_fifo\<close> and interpreted for both queues.
\<close>

section \<open>Messages\<close>

record mmsg =
  msg_port :: short
  msg_size :: short
  msg_data :: "byte list"

section \<open>State and operations\<close>

definition MESSAGEQUEMAX :: int where
  "MESSAGEQUEMAX = 64"

record 'm msgqueue =
  queue :: "'m option list"
  messages :: int
  writePosition :: int
  readPosition :: int
  message_sem :: nat
  space_sem :: nat

definition initreceiveQueue :: "'m msgqueue \<Rightarrow> 'm msgqueue" where
  "initreceiveQueue q = q\<lparr>messages := 0, writePosition := 0, readPosition := 0,
     message_sem := 0, space_sem := nat MESSAGEQUEMAX\<rparr>"

definition addreceivequeue_wait :: "'m msgqueue \<Rightarrow> 'm msgqueue option" where
  "addreceivequeue_wait q =
     (if space_sem q = 0 then None else Some (q\<lparr>space_sem := space_sem q - 1\<rparr>))"

definition wrap_pos :: "int \<Rightarrow> int" where
  "wrap_pos p = (if p \<ge> MESSAGEQUEMAX then p - MESSAGEQUEMAX else p)"

definition in_ring :: "'m msgqueue \<Rightarrow> int \<Rightarrow> bool" where
  "in_ring q p \<longleftrightarrow> 0 \<le> p \<and> nat p < length (queue q)"

definition addreceivequeue_locked :: "'m option \<Rightarrow> 'm msgqueue \<Rightarrow> 'm msgqueue res" where
  "addreceivequeue_locked message q =
     (let w = wrap_pos (writePosition q)
      in if messages q = MESSAGEQUEMAX
         then (case message of None \<Rightarrow> Inl NullPointer
               | Some m \<Rightarrow> Inr (q\<lparr>writePosition := w\<rparr>))
         else if in_ring q w
         then Inr (q\<lparr>queue := (queue q)[nat w := message],
                     writePosition := w + 1,
                     messages := messages q + 1,
                     message_sem := message_sem q + 1\<rparr>)
         else Inl OutOfBounds)"

definition addreceivequeue :: "'m option \<Rightarrow> 'm msgqueue \<Rightarrow> 'm msgqueue res" where
  "addreceivequeue message q =
     (case addreceivequeue_wait q of None \<Rightarrow> Inl Blocked
      | Some q1 \<Rightarrow> addreceivequeue_locked message q1)"

definition pollReceiveQueue_wait :: "'m msgqueue \<Rightarrow> 'm msgqueue option" where
  "pollReceiveQueue_wait q =
     (if message_sem q = 0 then None else Some (q\<lparr>message_sem := message_sem q - 1\<rparr>))"

definition pollReceiveQueue_locked :: "'m msgqueue \<Rightarrow> ('m option \<times> 'm msgqueue) res" where
  "pollReceiveQueue_locked q =
     (let r = wrap_pos (readPosition q)
      in if in_ring q r
         then Inr (queue q ! nat r,
                   q\<lparr>readPosition := r + 1,
                     messages := messages q - 1,
                     space_sem := space_sem q + 1\<rparr>)
         else Inl OutOfBounds)"

definition pollReceiveQueue :: "'m msgqueue \<Rightarrow> ('m option \<times> 'm msgqueue) res" where
  "pollReceiveQueue q =
     (case pollReceiveQueue_wait q of None \<Rightarrow> Inl Blocked
      | Some q1 \<Rightarrow> pollReceiveQueue_locked q1)"

text \<open>
  \<open>deInitreceiveQueue\<close> frees what is left in the ring; the result is the list of freed
  messages, oldest first, and the final state. The loop runs while \<open>messages\<close> is not 0
  and dereferences every pointer. A negative count would never reach 0, so the loop is a
  partial function: \<open>None\<close> is a loop that does not end.
\<close>

partial_function (option) deInitreceiveQueue ::
    "'m list \<Rightarrow> 'm msgqueue \<Rightarrow> ('m list \<times> 'm msgqueue) res option" where
  "deInitreceiveQueue freed q =
     (if messages q = 0 then Some (Inr (freed, q))
      else if in_ring q (wrap_pos (readPosition q))
      then (case queue q ! nat (wrap_pos (readPosition q)) of
              None \<Rightarrow> Some (Inl NullPointer)
            | Some m \<Rightarrow> deInitreceiveQueue (freed @ [m])
                (q\<lparr>readPosition := wrap_pos (readPosition q) + 1, messages := messages q - 1\<rparr>))
      else Some (Inl OutOfBounds))"

section \<open>The send queue\<close>

text \<open>
  \<open>sendqueue.c\<close> has the same bodies over its own static variables; only its
  \<open>deInitSendQueue\<close> differs, which skips NULL pointers.
\<close>

definition initSendQueue :: "'m msgqueue \<Rightarrow> 'm msgqueue" where
  "initSendQueue q = q\<lparr>messages := 0, writePosition := 0, readPosition := 0,
     message_sem := 0, space_sem := nat MESSAGEQUEMAX\<rparr>"

definition addSendQueue_wait :: "'m msgqueue \<Rightarrow> 'm msgqueue option" where
  "addSendQueue_wait q =
     (if space_sem q = 0 then None else Some (q\<lparr>space_sem := space_sem q - 1\<rparr>))"

definition addSendQueue_locked :: "'m option \<Rightarrow> 'm msgqueue \<Rightarrow> 'm msgqueue res" where
  "addSendQueue_locked message q =
     (let w = wrap_pos (writePosition q)
      in if messages q = MESSAGEQUEMAX
         then (case message of None \<Rightarrow> Inl NullPointer
               | Some m \<Rightarrow> Inr (q\<lparr>writePosition := w\<rparr>))
         else if in_ring q w
         then Inr (q\<lparr>queue := (queue q)[nat w := message],
                     writePosition := w + 1,
                     messages := messages q + 1,
                     message_sem := message_sem q + 1\<rparr>)
         else Inl OutOfBounds)"

definition addSendQueue :: "'m option \<Rightarrow> 'm msgqueue \<Rightarrow> 'm msgqueue res" where
  "addSendQueue message q =
     (case addSendQueue_wait q of None \<Rightarrow> Inl Blocked
      | Some q1 \<Rightarrow> addSendQueue_locked message q1)"

definition pollSendQueue_wait :: "'m msgqueue \<Rightarrow> 'm msgqueue option" where
  "pollSendQueue_wait q =
     (if message_sem q = 0 then None else Some (q\<lparr>message_sem := message_sem q - 1\<rparr>))"

definition pollSendQueue_locked :: "'m msgqueue \<Rightarrow> ('m option \<times> 'm msgqueue) res" where
  "pollSendQueue_locked q =
     (let r = wrap_pos (readPosition q)
      in if in_ring q r
         then Inr (queue q ! nat r,
                   q\<lparr>readPosition := r + 1,
                     messages := messages q - 1,
                     space_sem := space_sem q + 1\<rparr>)
         else Inl OutOfBounds)"

definition pollSendQueue :: "'m msgqueue \<Rightarrow> ('m option \<times> 'm msgqueue) res" where
  "pollSendQueue q =
     (case pollSendQueue_wait q of None \<Rightarrow> Inl Blocked
      | Some q1 \<Rightarrow> pollSendQueue_locked q1)"

partial_function (option) deInitSendQueue ::
    "'m list \<Rightarrow> 'm msgqueue \<Rightarrow> ('m list \<times> 'm msgqueue) res option" where
  "deInitSendQueue freed q =
     (if messages q = 0 then Some (Inr (freed, q))
      else if in_ring q (wrap_pos (readPosition q))
      then deInitSendQueue
             (case queue q ! nat (wrap_pos (readPosition q)) of
                None \<Rightarrow> freed | Some m \<Rightarrow> freed @ [m])
             (q\<lparr>readPosition := wrap_pos (readPosition q) + 1, messages := messages q - 1\<rparr>)
      else Some (Inl OutOfBounds))"

lemmas send_queue_defs =
  initSendQueue_def addSendQueue_wait_def addSendQueue_locked_def
  pollSendQueue_wait_def pollSendQueue_locked_def
lemmas receive_queue_defs =
  initreceiveQueue_def addreceivequeue_wait_def addreceivequeue_locked_def
  pollReceiveQueue_wait_def pollReceiveQueue_locked_def

section \<open>Invariant and abstraction\<close>

text \<open>
  \<open>ring_inv\<close> is what the mutex protects: the positions stay between 0 and 64, and the
  write position is the read position advanced by the message count, modulo 64.
\<close>

definition ring_inv :: "'m msgqueue \<Rightarrow> bool" where
  "ring_inv q \<longleftrightarrow> length (queue q) = 64 \<and>
     0 \<le> messages q \<and> messages q \<le> 64 \<and>
     0 \<le> readPosition q \<and> readPosition q \<le> 64 \<and>
     0 \<le> writePosition q \<and> writePosition q \<le> 64 \<and>
     (readPosition q + messages q) mod 64 = writePosition q mod 64"

definition slot :: "'m msgqueue \<Rightarrow> nat \<Rightarrow> nat" where
  "slot q i = nat ((readPosition q + int i) mod 64)"

definition contents :: "'m msgqueue \<Rightarrow> 'm option list" where
  "contents q = map (\<lambda>i. queue q ! slot q i) [0..<nat (messages q)]"

lemma length_contents [simp]: "length (contents q) = nat (messages q)"
  by (simp add: contents_def)

lemma sem_frame [simp]:
  "contents (q\<lparr>space_sem := x\<rparr>) = contents q"
  "contents (q\<lparr>message_sem := x\<rparr>) = contents q"
  "ring_inv (q\<lparr>space_sem := x\<rparr>) = ring_inv q"
  "ring_inv (q\<lparr>message_sem := x\<rparr>) = ring_inv q"
  by (simp_all add: contents_def slot_def ring_inv_def)

lemma wrap_pos_mod: "0 \<le> p \<Longrightarrow> p \<le> 64 \<Longrightarrow> wrap_pos p = p mod 64"
  by (cases "p = 64") (auto simp: wrap_pos_def MESSAGEQUEMAX_def)

lemma slot_bound: "slot q i < 64"
  by (simp add: slot_def nat_less_iff)

lemma contents_put:
  assumes inv: "ring_inv q" and room: "messages q < 64"
  shows "contents (q\<lparr>queue := (queue q)[nat (writePosition q mod 64) := m],
           writePosition := w', messages := messages q + 1, message_sem := s'\<rparr>)
         = contents q @ [m]" (is "contents ?q' = _")
proof -
  from inv have len: "length (queue q) = 64" and m0: "0 \<le> messages q"
    and w: "nat (writePosition q mod 64) = slot q (nat (messages q))"
    by (auto simp: ring_inv_def slot_def)
  have neq: "slot q i \<noteq> slot q (nat (messages q))" if "i < nat (messages q)" for i
  proof
    assume "slot q i = slot q (nat (messages q))"
    then have "(readPosition q + int i) mod 64 = (readPosition q + messages q) mod 64"
      using m0 by (simp add: slot_def)
    then have "(messages q - int i) mod 64 = 0"
      by (metis add_diff_cancel_left mod_eq_dvd_iff mod_0_imp_dvd dvd_imp_mod_0)
    moreover have "0 < messages q - int i" "messages q - int i < 64"
      using that room m0 by auto
    ultimately show False by simp
  qed
  have "contents ?q' = map (\<lambda>i. (queue q)[slot q (nat (messages q)) := m] ! slot q i)
      [0..<Suc (nat (messages q))]"
    using m0 w by (simp add: contents_def slot_def nat_add_distrib)
  moreover have "map (\<lambda>i. (queue q)[slot q (nat (messages q)) := m] ! slot q i) [0..<nat (messages q)]
      = contents q"
    unfolding contents_def
    by (rule map_cong) (auto dest: neq simp: nth_list_update_neq)
  ultimately show ?thesis
    using len by (simp add: slot_bound)
qed

lemma contents_take:
  assumes inv: "ring_inv q" and some: "0 < messages q"
  shows "contents q = queue q ! nat (readPosition q mod 64)
           # contents (q\<lparr>readPosition := readPosition q mod 64 + 1,
                        messages := messages q - 1, space_sem := s'\<rparr>)"
    (is "_ = _ # contents ?q'")
proof -
  have "[0..<nat (messages q)] = 0 # map Suc [0..<nat (messages q - 1)]"
    using some by (metis Suc_nat_eq_nat_zadd1 add.commute diff_add_cancel map_Suc_upt
        nat_0_le upt_conv_Cons zero_less_nat_eq zle_diff1_eq)
  moreover have "slot ?q' i = slot q (Suc i)" for i
  proof -
    have "(readPosition q mod 64 + (1 + int i)) mod 64 = (readPosition q + (1 + int i)) mod 64"
      by (rule mod_add_left_eq)
    then show ?thesis by (simp add: slot_def add.assoc)
  qed
  ultimately show ?thesis
    by (simp add: contents_def slot_def)
qed

lemma put_law:
  assumes "ring_inv q" and "messages q < 64"
  shows "\<exists>q'. addreceivequeue_locked m q = Inr q' \<and> ring_inv q' \<and>
      contents q' = contents q @ [m] \<and> space_sem q' = space_sem q \<and>
      message_sem q' = Suc (message_sem q)"
proof -
  let ?w = "writePosition q mod 64"
  let ?q' = "q\<lparr>queue := (queue q)[nat ?w := m], writePosition := ?w + 1,
               messages := messages q + 1, message_sem := message_sem q + 1\<rparr>"
  from assms have wrap: "wrap_pos (writePosition q) = ?w" and len: "length (queue q) = 64"
    by (auto simp: ring_inv_def wrap_pos_mod)
  then have "addreceivequeue_locked m q = Inr ?q'"
    using assms(2)
    by (simp add: addreceivequeue_locked_def Let_def in_ring_def MESSAGEQUEMAX_def nat_less_iff)
  moreover have "(readPosition q + (messages q + 1)) mod 64 = (?w + 1) mod 64"
    using assms(1) by (simp add: ring_inv_def flip: add.assoc) (metis mod_add_left_eq)
  then have "ring_inv ?q'"
    using assms len by (auto simp: ring_inv_def)
  moreover have "contents ?q' = contents q @ [m]"
    using contents_put [OF assms, where m = m and w' = "?w + 1" and s' = "message_sem q + 1"] by simp
  ultimately show ?thesis by (intro exI [of _ ?q']) simp
qed

lemma take_law:
  assumes inv: "ring_inv q" and cons: "contents q = m # ms"
  shows "\<exists>q'. pollReceiveQueue_locked q = Inr (m, q') \<and> ring_inv q' \<and> contents q' = ms \<and>
      space_sem q' = Suc (space_sem q) \<and> message_sem q' = message_sem q"
proof -
  let ?r = "readPosition q mod 64"
  let ?q' = "q\<lparr>readPosition := ?r + 1, messages := messages q - 1, space_sem := space_sem q + 1\<rparr>"
  from cons have "length (contents q) > 0" by simp
  then have pos: "0 < messages q" by simp
  from inv have wrap: "wrap_pos (readPosition q) = ?r" and len: "length (queue q) = 64"
    by (auto simp: ring_inv_def wrap_pos_mod)
  then have "pollReceiveQueue_locked q = Inr (queue q ! nat ?r, ?q')"
    by (simp add: pollReceiveQueue_locked_def Let_def in_ring_def nat_less_iff)
  moreover have "(?r + 1 + (messages q - 1)) mod 64 = writePosition q mod 64"
    using inv by (simp add: ring_inv_def mod_add_left_eq)
  then have "ring_inv ?q'"
    using inv pos len by (auto simp: ring_inv_def)
  ultimately show ?thesis
    using contents_take [OF inv pos, where s' = "space_sem q + 1"] cons by auto
qed

section \<open>The contract of the queues\<close>

text \<open>
  What a caller of the whole operations may rely on when no other thread is inside one:
  \<open>add\<close> blocks exactly when the queue is full and otherwise appends, \<open>poll\<close> blocks
  exactly when it is empty and otherwise removes the oldest.
\<close>

locale bounded_fifo =
  fixes add :: "'m \<Rightarrow> 'q \<Rightarrow> 'q res"
    and poll :: "'q \<Rightarrow> ('m \<times> 'q) res"
    and content :: "'q \<Rightarrow> 'm list"
    and good :: "'q \<Rightarrow> bool"
    and cap :: nat
  assumes add_full: "good q \<Longrightarrow> length (content q) = cap \<Longrightarrow> add m q = Inl Blocked"
    and add_room: "good q \<Longrightarrow> length (content q) < cap \<Longrightarrow>
      \<exists>q'. add m q = Inr q' \<and> good q' \<and> content q' = content q @ [m]"
    and poll_empty: "good q \<Longrightarrow> content q = [] \<Longrightarrow> poll q = Inl Blocked"
    and poll_some: "good q \<Longrightarrow> content q = m # ms \<Longrightarrow>
      \<exists>q'. poll q = Inr (m, q') \<and> good q' \<and> content q' = ms"
    and content_cap: "good q \<Longrightarrow> length (content q) \<le> cap"

text \<open>A program of queue calls, run on an implementation and on a plain list.\<close>

datatype 'm qop = QAdd 'm | QPoll

fun run_queue :: "('m \<Rightarrow> 'q \<Rightarrow> 'q res) \<Rightarrow> ('q \<Rightarrow> ('m \<times> 'q) res) \<Rightarrow> 'm qop list \<Rightarrow> 'q
    \<Rightarrow> ('m list \<times> 'q) res" where
  "run_queue add poll [] q = Inr ([], q)"
| "run_queue add poll (QAdd m # ops) q =
     bind_res (add m q) (\<lambda>q'. run_queue add poll ops q')"
| "run_queue add poll (QPoll # ops) q =
     bind_res (poll q) (\<lambda>(m, q'). bind_res (run_queue add poll ops q') (\<lambda>(ms, q''). Inr (m # ms, q'')))"

fun fifo_add :: "nat \<Rightarrow> 'm \<Rightarrow> 'm list \<Rightarrow> 'm list res" where
  "fifo_add cap m xs = (if length xs < cap then Inr (xs @ [m]) else Inl Blocked)"

fun fifo_poll :: "'m list \<Rightarrow> ('m \<times> 'm list) res" where
  "fifo_poll [] = Inl Blocked"
| "fifo_poll (x # xs) = Inr (x, xs)"

definition abs_run :: "('q \<Rightarrow> 'm list) \<Rightarrow> ('m list \<times> 'q) res \<Rightarrow> ('m list \<times> 'm list) res" where
  "abs_run content r = bind_res r (\<lambda>(ms, q). Inr (ms, content q))"

context bounded_fifo begin

lemma run_refines:
  "good q \<Longrightarrow> abs_run content (run_queue add poll ops q)
     = run_queue (fifo_add cap) fifo_poll ops (content q)"
proof (induction ops arbitrary: q)
  case Nil
  then show ?case by (simp add: abs_run_def)
next
  case (Cons op ops)
  show ?case
  proof (cases op)
    case (QAdd m)
    show ?thesis
    proof (cases "length (content q) < cap")
      case True
      then obtain q' where "add m q = Inr q'" "good q'" "content q' = content q @ [m]"
        using add_room Cons.prems by blast
      then show ?thesis using QAdd True Cons.IH [of q'] by simp
    next
      case False
      with content_cap [OF Cons.prems] have "add m q = Inl Blocked"
        using Cons.prems by (intro add_full) auto
      then show ?thesis using QAdd False by (simp add: abs_run_def)
    qed
  next
    case QPoll
    show ?thesis
    proof (cases "content q")
      case Nil
      then show ?thesis using QPoll poll_empty [OF Cons.prems] by (simp add: abs_run_def)
    next
      case (Cons m ms)
      then obtain q' where q': "poll q = Inr (m, q')" "good q'" "content q' = ms"
        using poll_some \<open>good q\<close> by blast
      have "abs_run content (run_queue add poll (op # ops) q)
          = bind_res (abs_run content (run_queue add poll ops q')) (\<lambda>(xs, c). Inr (m # xs, c))"
        using QPoll q' by (cases "run_queue add poll ops q'") (auto simp: abs_run_def)
      then show ?thesis using Cons.IH [OF q'(2)] QPoll q' \<open>content q = m # ms\<close> by simp
    qed
  qed
qed

end

text \<open>
  The two halves of each operation, with the semaphore counts: the contract the
  concurrent system of the theory \<open>QueueThreads\<close> rests on.
\<close>

locale sem_queue =
  fixes wait_space :: "'q \<Rightarrow> 'q option"
    and put :: "'m \<Rightarrow> 'q \<Rightarrow> 'q res"
    and wait_msg :: "'q \<Rightarrow> 'q option"
    and take_msg :: "'q \<Rightarrow> ('m \<times> 'q) res"
    and content :: "'q \<Rightarrow> 'm list"
    and space :: "'q \<Rightarrow> nat"
    and avail :: "'q \<Rightarrow> nat"
    and good :: "'q \<Rightarrow> bool"
    and cap :: nat
  assumes wait_space_None: "wait_space q = None \<longleftrightarrow> space q = 0"
    and wait_space_Some: "wait_space q = Some q' \<Longrightarrow> good q \<Longrightarrow>
      good q' \<and> content q' = content q \<and> space q = Suc (space q') \<and> avail q' = avail q"
    and wait_msg_None: "wait_msg q = None \<longleftrightarrow> avail q = 0"
    and wait_msg_Some: "wait_msg q = Some q' \<Longrightarrow> good q \<Longrightarrow>
      good q' \<and> content q' = content q \<and> avail q = Suc (avail q') \<and> space q' = space q"
    and put_room: "good q \<Longrightarrow> length (content q) < cap \<Longrightarrow>
      \<exists>q'. put m q = Inr q' \<and> good q' \<and> content q' = content q @ [m] \<and>
        space q' = space q \<and> avail q' = Suc (avail q)"
    and take_some: "good q \<Longrightarrow> content q = m # ms \<Longrightarrow>
      \<exists>q'. take_msg q = Inr (m, q') \<and> good q' \<and> content q' = ms \<and>
        space q' = Suc (space q) \<and> avail q' = avail q"
    and inv_cap: "good q \<Longrightarrow> length (content q) \<le> cap"

definition seq_add :: "('q \<Rightarrow> 'q option) \<Rightarrow> ('m \<Rightarrow> 'q \<Rightarrow> 'q res) \<Rightarrow> 'm \<Rightarrow> 'q \<Rightarrow> 'q res" where
  "seq_add wait_space put m q = (case wait_space q of None \<Rightarrow> Inl Blocked | Some q1 \<Rightarrow> put m q1)"

definition seq_poll :: "('q \<Rightarrow> 'q option) \<Rightarrow> ('q \<Rightarrow> ('m \<times> 'q) res) \<Rightarrow> 'q \<Rightarrow> ('m \<times> 'q) res" where
  "seq_poll wait_msg take_msg q = (case wait_msg q of None \<Rightarrow> Inl Blocked | Some q1 \<Rightarrow> take_msg q1)"

definition quiet :: "('q \<Rightarrow> 'm list) \<Rightarrow> ('q \<Rightarrow> nat) \<Rightarrow> ('q \<Rightarrow> nat) \<Rightarrow> ('q \<Rightarrow> bool) \<Rightarrow> nat \<Rightarrow> 'q \<Rightarrow> bool" where
  "quiet content space avail good cap q \<longleftrightarrow>
     good q \<and> space q + length (content q) = cap \<and> avail q = length (content q)"

sublocale sem_queue \<subseteq> bounded_fifo
  "seq_add wait_space put" "seq_poll wait_msg take_msg" content
  "quiet content space avail good cap" cap
proof unfold_locales
  fix q :: 'q and m :: 'm
  assume "quiet content space avail good cap q" "length (content q) = cap"
  then show "seq_add wait_space put m q = Inl Blocked"
    using wait_space_None [of q] by (auto simp: quiet_def seq_add_def split: option.splits)
next
  fix q :: 'q and m :: 'm
  assume q: "quiet content space avail good cap q" "length (content q) < cap"
  then obtain q1 where q1: "wait_space q = Some q1"
    using wait_space_None [of q] by (auto simp: quiet_def)
  with q have "good q1 \<and> content q1 = content q \<and> space q = Suc (space q1) \<and> avail q1 = avail q"
    using wait_space_Some by (auto simp: quiet_def)
  moreover from this q obtain q' where "put m q1 = Inr q'" "good q'"
    "content q' = content q1 @ [m]" "space q' = space q1" "avail q' = Suc (avail q1)"
    using put_room [of q1 m] by auto
  ultimately show "\<exists>q'. seq_add wait_space put m q = Inr q' \<and>
      quiet content space avail good cap q' \<and> content q' = content q @ [m]"
    using q q1 by (auto simp: quiet_def seq_add_def)
next
  fix q :: 'q
  assume "quiet content space avail good cap q" "content q = []"
  then show "seq_poll wait_msg take_msg q = Inl Blocked"
    using wait_msg_None [of q] by (auto simp: quiet_def seq_poll_def split: option.splits)
next
  fix q :: 'q and m ms
  assume q: "quiet content space avail good cap q" "content q = m # ms"
  then obtain q1 where q1: "wait_msg q = Some q1"
    using wait_msg_None [of q] by (auto simp: quiet_def)
  with q have "good q1 \<and> content q1 = content q \<and> avail q = Suc (avail q1) \<and> space q1 = space q"
    using wait_msg_Some by (auto simp: quiet_def)
  moreover from this q obtain q' where "take_msg q1 = Inr (m, q')" "good q'"
    "content q' = ms" "space q' = Suc (space q1)" "avail q' = avail q1"
    using take_some [of q1 m ms] by auto
  ultimately show "\<exists>q'. seq_poll wait_msg take_msg q = Inr (m, q') \<and>
      quiet content space avail good cap q' \<and> content q' = ms"
    using q q1 by (auto simp: quiet_def seq_poll_def)
next
  fix q :: 'q
  assume "quiet content space avail good cap q"
  then show "length (content q) \<le> cap" by (auto simp: quiet_def)
qed

section \<open>Both queues keep the contract\<close>

lemma send_is_receive:
  "addSendQueue_wait = addreceivequeue_wait"
  "addSendQueue_locked = addreceivequeue_locked"
  "pollSendQueue_wait = pollReceiveQueue_wait"
  "pollSendQueue_locked = pollReceiveQueue_locked"
  by (auto simp: send_queue_defs receive_queue_defs fun_eq_iff)

interpretation recv: sem_queue addreceivequeue_wait addreceivequeue_locked
  pollReceiveQueue_wait pollReceiveQueue_locked contents space_sem message_sem ring_inv 64
proof unfold_locales
  fix q :: "'a msgqueue" and m
  assume "ring_inv q" "length (contents q) < 64"
  then show "\<exists>q'. addreceivequeue_locked m q = Inr q' \<and> ring_inv q' \<and>
      contents q' = contents q @ [m] \<and> space_sem q' = space_sem q \<and>
      message_sem q' = Suc (message_sem q)"
    by (intro put_law) (auto simp: ring_inv_def)
next
  fix q :: "'a msgqueue"
  assume "ring_inv q"
  then show "length (contents q) \<le> 64" by (auto simp: ring_inv_def)
qed (auto simp: addreceivequeue_wait_def pollReceiveQueue_wait_def intro: take_law split: if_splits)

interpretation send: sem_queue addSendQueue_wait addSendQueue_locked
  pollSendQueue_wait pollSendQueue_locked contents space_sem message_sem ring_inv 64
  unfolding send_is_receive by (rule recv.sem_queue_axioms)

lemma whole_ops:
  "addreceivequeue = seq_add addreceivequeue_wait addreceivequeue_locked"
  "pollReceiveQueue = seq_poll pollReceiveQueue_wait pollReceiveQueue_locked"
  "addSendQueue = seq_add addSendQueue_wait addSendQueue_locked"
  "pollSendQueue = seq_poll pollSendQueue_wait pollSendQueue_locked"
  by (simp_all add: fun_eq_iff addreceivequeue_def pollReceiveQueue_def addSendQueue_def
      pollSendQueue_def seq_add_def seq_poll_def)

abbreviation queue_ok :: "'m msgqueue \<Rightarrow> bool" where
  "queue_ok \<equiv> quiet contents space_sem message_sem ring_inv 64"

lemma init_quiet:
  assumes "length (queue q) = 64"
  shows "queue_ok (initreceiveQueue q)" "contents (initreceiveQueue q) = []"
    "queue_ok (initSendQueue q)" "contents (initSendQueue q) = []"
  using assms
  by (simp_all add: quiet_def ring_inv_def contents_def initreceiveQueue_def initSendQueue_def
      MESSAGEQUEMAX_def)

section \<open>Emptying a queue at the end of a connection\<close>

definition pop_slot :: "'m msgqueue \<Rightarrow> 'm msgqueue" where
  "pop_slot q = q\<lparr>readPosition := wrap_pos (readPosition q) + 1, messages := messages q - 1\<rparr>"

lemma pop_slot_law:
  assumes inv: "ring_inv q" and cons: "contents q = m # ms"
  shows "ring_inv (pop_slot q)" "contents (pop_slot q) = ms"
    "queue q ! nat (wrap_pos (readPosition q)) = m"
    "in_ring q (wrap_pos (readPosition q))" "messages q \<noteq> 0"
proof -
  from cons have "length (contents q) > 0" by simp
  then have pos: "0 < messages q" by simp
  from inv have wrap: "wrap_pos (readPosition q) = readPosition q mod 64"
    and len: "length (queue q) = 64"
    by (auto simp: ring_inv_def wrap_pos_mod)
  have "(readPosition q mod 64 + 1 + (messages q - 1)) mod 64 = writePosition q mod 64"
    using inv by (simp add: ring_inv_def mod_add_left_eq)
  then show "ring_inv (pop_slot q)"
    using inv pos by (auto simp: ring_inv_def pop_slot_def wrap)
  show "contents (pop_slot q) = ms" "queue q ! nat (wrap_pos (readPosition q)) = m"
    using contents_take [OF inv pos, where s' = 0] cons
    by (auto simp: pop_slot_def wrap)
  show "in_ring q (wrap_pos (readPosition q))"
    by (simp add: in_ring_def wrap len nat_less_iff)
  show "messages q \<noteq> 0" using pos by simp
qed

lemma deInitreceiveQueue_frees:
  "ring_inv q \<Longrightarrow> contents q = map Some ms \<Longrightarrow>
     \<exists>q'. deInitreceiveQueue freed q = Some (Inr (freed @ ms, q')) \<and> messages q' = 0"
proof (induction ms arbitrary: q freed)
  case Nil
  then have "messages q = 0"
    by (auto simp: contents_def ring_inv_def)
  then show ?case by (subst deInitreceiveQueue.simps) simp
next
  case (Cons m ms)
  then have c: "contents q = Some m # map Some ms" by simp
  note pop = pop_slot_law [OF Cons.prems(1) c]
  from Cons.IH [OF pop(1,2), of "freed @ [m]"] show ?case
    using pop(3-5) by (subst deInitreceiveQueue.simps) (simp add: pop_slot_def)
qed

lemma deInitreceiveQueue_null:
  "ring_inv q \<Longrightarrow> contents q = map Some ms @ None # rest \<Longrightarrow>
     deInitreceiveQueue freed q = Some (Inl NullPointer)"
proof (induction ms arbitrary: q freed)
  case Nil
  then have c: "contents q = None # rest" by simp
  show ?case
    using pop_slot_law(3-5) [OF Nil.prems(1) c]
    by (subst deInitreceiveQueue.simps) simp
next
  case (Cons m ms)
  then have c: "contents q = Some m # map Some ms @ None # rest" by simp
  note pop = pop_slot_law [OF Cons.prems(1) c]
  from Cons.IH [OF pop(1,2), of "freed @ [m]"] show ?case
    using pop(3-5) by (subst deInitreceiveQueue.simps) (simp add: pop_slot_def)
qed

lemma deInitSendQueue_frees:
  "ring_inv q \<Longrightarrow> \<exists>q'. deInitSendQueue freed q =
     Some (Inr (freed @ map the (filter (\<lambda>m. m \<noteq> None) (contents q)), q')) \<and> messages q' = 0"
proof (induction "contents q" arbitrary: q freed)
  case Nil
  then have "messages q = 0"
    by (auto simp: contents_def ring_inv_def)
  then show ?case using Nil(1) by (subst deInitSendQueue.simps) simp
next
  case (Cons m ms)
  note pop = pop_slot_law [OF Cons.prems Cons.hyps(2) [symmetric]]
  from Cons.hyps(1) [OF pop(2) [symmetric] pop(1),
      of "case m of None \<Rightarrow> freed | Some x \<Rightarrow> freed @ [x]"]
  show ?case
    using pop(2-5) Cons.hyps(2) [symmetric]
    by (subst deInitSendQueue.simps) (auto simp: pop_slot_def split: option.splits)
qed

section \<open>Properties\<close>

text \<open>
  C23: from its initialisation on, the receive queue behaves on every sequence of calls as
  an unbounded-precision FIFO list of capacity 64: the same results in the same order, the
  same remaining content, and a call waits in exactly the same places.
\<close>

theorem receive_queue_refines_fifo:
  assumes "length (queue q0) = 64"
  shows "abs_run contents (run_queue addreceivequeue pollReceiveQueue ops (initreceiveQueue q0))
    = run_queue (fifo_add 64) fifo_poll ops []"
  using recv.run_refines [OF init_quiet(1) [OF assms], of ops] init_quiet(2) [OF assms]
  by (simp add: whole_ops)

definition static_queue :: "'m msgqueue" where
  "static_queue = \<lparr>queue = replicate 64 None, messages = 0, writePosition = 0,
     readPosition = 0, message_sem = 0, space_sem = 0\<rparr>"

theorem receive_queue_refines_fifo_witness:
  "abs_run contents (run_queue addreceivequeue pollReceiveQueue
      [QAdd (Some 7), QAdd None, QPoll, QPoll] (initreceiveQueue static_queue))
    = Inr ([Some (7::nat), None], [])"
  by (subst receive_queue_refines_fifo) (simp_all add: static_queue_def)

end
