(* ===== verification/QueueThreads.thy ===== *)
theory QueueThreads
  imports MsgQueue "HOL-Library.Multiset"
begin

text \<open>
  The queues as the threads of the bridge use them: any number of threads add (the main
  thread, the bulk and the signal threads all call \<open>addSendQueue\<close>), any number poll, and
  they interleave between the semaphore and the mutex. A thread that has passed
  \<open>sem_wait(&space_sem)\<close> and does not yet own the mutex is an element of \<open>adding\<close>, one
  that has passed \<open>sem_wait(&message_sem)\<close> counts in \<open>polling\<close>. \<open>entered\<close> and \<open>left\<close>
  record, in the order of the critical sections, what went in and what came out.
\<close>

record ('m, 'q) qsys =
  sq :: 'q
  adding :: "'m multiset"
  polling :: nat
  entered :: "'m list"
  left :: "'m list"

inductive queue_step ::
  "('q \<Rightarrow> 'q option) \<Rightarrow> ('m \<Rightarrow> 'q \<Rightarrow> 'q res) \<Rightarrow> ('q \<Rightarrow> 'q option) \<Rightarrow> ('q \<Rightarrow> ('m \<times> 'q) res)
   \<Rightarrow> ('m, 'q) qsys \<Rightarrow> ('m, 'q) qsys \<Rightarrow> bool"
  for wait_space put wait_msg take_msg where
  add_wait: "wait_space (sq s) = Some q' \<Longrightarrow>
    queue_step wait_space put wait_msg take_msg s (s\<lparr>sq := q', adding := add_mset m (adding s)\<rparr>)"
| add_locked: "m \<in># adding s \<Longrightarrow> put m (sq s) = Inr q' \<Longrightarrow>
    queue_step wait_space put wait_msg take_msg s
      (s\<lparr>sq := q', adding := adding s - {#m#}, entered := entered s @ [m]\<rparr>)"
| poll_wait: "wait_msg (sq s) = Some q' \<Longrightarrow>
    queue_step wait_space put wait_msg take_msg s (s\<lparr>sq := q', polling := polling s + 1\<rparr>)"
| poll_locked: "0 < polling s \<Longrightarrow> take_msg (sq s) = Inr (m, q') \<Longrightarrow>
    queue_step wait_space put wait_msg take_msg s
      (s\<lparr>sq := q', polling := polling s - 1, left := left s @ [m]\<rparr>)"

inductive queue_reach ::
  "('q \<Rightarrow> 'q option) \<Rightarrow> ('m \<Rightarrow> 'q \<Rightarrow> 'q res) \<Rightarrow> ('q \<Rightarrow> 'q option) \<Rightarrow> ('q \<Rightarrow> ('m \<times> 'q) res)
   \<Rightarrow> 'q \<Rightarrow> ('m, 'q) qsys \<Rightarrow> bool"
  for wait_space put wait_msg take_msg q0 where
  start: "queue_reach wait_space put wait_msg take_msg q0
    \<lparr>sq = q0, adding = {#}, polling = 0, entered = [], left = []\<rparr>"
| step: "queue_reach wait_space put wait_msg take_msg q0 s \<Longrightarrow>
    queue_step wait_space put wait_msg take_msg s t \<Longrightarrow>
    queue_reach wait_space put wait_msg take_msg q0 t"

definition queue_sys_inv ::
  "('q \<Rightarrow> 'm list) \<Rightarrow> ('q \<Rightarrow> nat) \<Rightarrow> ('q \<Rightarrow> nat) \<Rightarrow> ('q \<Rightarrow> bool) \<Rightarrow> nat \<Rightarrow> ('m, 'q) qsys \<Rightarrow> bool" where
  "queue_sys_inv content space avail good cap s \<longleftrightarrow>
     good (sq s) \<and> entered s = left s @ content (sq s) \<and>
     space (sq s) + size (adding s) + length (content (sq s)) = cap \<and>
     avail (sq s) + polling s = length (content (sq s))"

context sem_queue begin

lemma put_pending:
  assumes inv: "queue_sys_inv content space avail good cap s" and m: "m \<in># adding s"
  shows "\<exists>q'. put m (sq s) = Inr q' \<and> good q' \<and> content q' = content (sq s) @ [m] \<and>
    space q' = space (sq s) \<and> avail q' = Suc (avail (sq s))"
proof -
  from m have "0 < size (adding s)"
    by (metis empty_not_add_mset gr0I multi_member_split size_eq_0_iff_empty)
  with inv have "length (content (sq s)) < cap"
    by (auto simp: queue_sys_inv_def)
  with inv show ?thesis using put_room [of "sq s" m] by (auto simp: queue_sys_inv_def)
qed

lemma take_pending:
  assumes inv: "queue_sys_inv content space avail good cap s" and p: "0 < polling s"
  shows "\<exists>m ms q'. content (sq s) = m # ms \<and> take_msg (sq s) = Inr (m, q') \<and> good q' \<and>
    content q' = ms \<and> space q' = Suc (space (sq s)) \<and> avail q' = avail (sq s)"
proof -
  from assms have "content (sq s) \<noteq> []"
    by (auto simp: queue_sys_inv_def)
  then obtain m ms where "content (sq s) = m # ms" by (cases "content (sq s)") auto
  with inv show ?thesis using take_some [of "sq s" m ms] by (auto simp: queue_sys_inv_def)
qed

lemma step_inv:
  assumes "queue_step wait_space put wait_msg take_msg s t"
    and "queue_sys_inv content space avail good cap s"
  shows "queue_sys_inv content space avail good cap t"
  using assms
proof (induction rule: queue_step.induct)
  case (add_wait s q' m)
  then show ?case using wait_space_Some [of "sq s" q'] by (auto simp: queue_sys_inv_def)
next
  case (add_locked m s q')
  then show ?case
    using put_pending [OF add_locked(3,1)] size_Suc_Diff1 [OF add_locked(1)]
    by (auto simp: queue_sys_inv_def simp del: size_Diff_singleton)
next
  case (poll_wait s q')
  then show ?case using wait_msg_Some [of "sq s" q'] by (auto simp: queue_sys_inv_def)
next
  case (poll_locked s m q')
  then show ?case using take_pending [OF poll_locked(3,1)] by (auto simp: queue_sys_inv_def)
qed

lemma reach_inv:
  assumes "quiet content space avail good cap q0" and "content q0 = []"
    and "queue_reach wait_space put wait_msg take_msg q0 s"
  shows "queue_sys_inv content space avail good cap s"
  using assms(3)
proof (induction rule: queue_reach.induct)
  case start
  then show ?case using assms(1,2) by (simp add: queue_sys_inv_def quiet_def)
next
  case (step s t)
  then show ?case by (blast intro: step_inv)
qed

lemma inv_progress:
  assumes inv: "queue_sys_inv content space avail good cap s" and cap: "0 < cap"
  shows "\<exists>t. queue_step wait_space put wait_msg take_msg s t"
proof -
  consider (locked_add) m where "m \<in># adding s" | (locked_poll) "0 < polling s"
    | (free) "space (sq s) \<noteq> 0" | (avail) "avail (sq s) \<noteq> 0"
  proof (cases "adding s = {#}")
    case True
    then have "polling s \<noteq> 0 \<or> space (sq s) \<noteq> 0 \<or> avail (sq s) \<noteq> 0"
      using inv cap by (auto simp: queue_sys_inv_def)
    then show thesis using locked_poll free avail by blast
  next
    case False
    then show thesis using locked_add by (auto elim: multiset_nonemptyE)
  qed
  then show ?thesis
  proof cases
    case locked_add
    then show ?thesis using put_pending [OF inv] by (metis queue_step.add_locked)
  next
    case locked_poll
    then show ?thesis using take_pending [OF inv] by (metis queue_step.poll_locked)
  next
    case free
    then obtain q' where "wait_space (sq s) = Some q'"
      using wait_space_None [of "sq s"] by (cases "wait_space (sq s)") auto
    then show ?thesis by (metis queue_step.add_wait)
  next
    case avail
    then obtain q' where "wait_msg (sq s) = Some q'"
      using wait_msg_None [of "sq s"] by (cases "wait_msg (sq s)") auto
    then show ?thesis by (metis queue_step.poll_wait)
  qed
qed

end

section \<open>The queues of the bridge under any interleaving\<close>

abbreviation send_reach :: "'m msgqueue \<Rightarrow> ('m option, 'm msgqueue) qsys \<Rightarrow> bool" where
  "send_reach \<equiv> queue_reach addSendQueue_wait addSendQueue_locked
     pollSendQueue_wait pollSendQueue_locked"

abbreviation recv_reach :: "'m msgqueue \<Rightarrow> ('m option, 'm msgqueue) qsys \<Rightarrow> bool" where
  "recv_reach \<equiv> queue_reach addreceivequeue_wait addreceivequeue_locked
     pollReceiveQueue_wait pollReceiveQueue_locked"

text \<open>A run of one thread, used by the witnesses: it passes the semaphore of an empty queue.\<close>

definition one_adding :: "(nat option, nat msgqueue) qsys" where
  "one_adding = \<lparr>sq = (initSendQueue static_queue)\<lparr>space_sem := 63\<rparr>, adding = {#Some 5#},
     polling = 0, entered = [], left = []\<rparr>"

lemma one_adding_reach: "send_reach (initSendQueue static_queue) one_adding"
proof -
  let ?s = "\<lparr>sq = initSendQueue static_queue :: nat msgqueue, adding = {#}, polling = 0,
      entered = [] :: nat option list, left = []\<rparr>"
  have "addSendQueue_wait (sq ?s) = Some ((initSendQueue static_queue)\<lparr>space_sem := 63\<rparr>)"
    by (simp add: addSendQueue_wait_def initSendQueue_def MESSAGEQUEMAX_def)
  from queue_reach.step [OF queue_reach.start queue_step.add_wait [where s = ?s and wait_space = addSendQueue_wait
      and m = "Some 5", OF this]]
  show ?thesis by (simp add: one_adding_def)
qed

text \<open>
  C15: however many threads use the send queue and however they interleave, what has come
  out is a prefix of what went in, in the same order, and the rest is what the ring holds:
  no message is lost, duplicated or reordered, and never more than 64 are held.
\<close>

theorem send_queue_keeps_order:
  assumes "length (queue q0) = 64" and "send_reach (initSendQueue q0) s"
  shows "entered s = left s @ contents (sq s) \<and> length (contents (sq s)) \<le> 64"
  using send.reach_inv [OF init_quiet(3,4) assms(2)] assms(1) send.inv_cap
  by (auto simp: queue_sys_inv_def)

theorem send_queue_keeps_order_witness:
  "entered one_adding = left one_adding @ contents (sq one_adding) \<and>
   length (contents (sq one_adding)) \<le> 64 \<and> adding one_adding = {#Some 5#}"
  using send_queue_keeps_order [OF _ one_adding_reach]
  by (simp add: static_queue_def one_adding_def)

text \<open>
  The branch of \<open>addSendQueue\<close> marked "This should never happen", which drops the
  message, is unreachable: whenever a thread is about to run the critical section the
  message count is below 64, the section does not fault, and its message is appended.
\<close>

theorem send_queue_never_drops:
  assumes "length (queue q0) = 64" and "send_reach (initSendQueue q0) s" and "m \<in># adding s"
  shows "messages (sq s) < MESSAGEQUEMAX \<and>
    (\<exists>q'. addSendQueue_locked m (sq s) = Inr q' \<and> contents q' = contents (sq s) @ [m])"
proof -
  from assms have inv: "queue_sys_inv contents space_sem message_sem ring_inv 64 s"
    by (intro send.reach_inv [OF init_quiet(3,4)])
  from assms(3) obtain n where "size (adding s) = Suc n" by (metis insert_DiffM size_add_mset)
  with inv have "messages (sq s) < MESSAGEQUEMAX"
    by (auto simp: queue_sys_inv_def MESSAGEQUEMAX_def)
  with send.put_pending [OF inv assms(3)] show ?thesis by auto
qed

theorem send_queue_never_drops_witness:
  "messages (sq one_adding) < MESSAGEQUEMAX \<and>
    (\<exists>q'. addSendQueue_locked (Some 5) (sq one_adding) = Inr q' \<and>
       contents q' = contents (sq one_adding) @ [Some 5])"
  by (rule send_queue_never_drops [OF _ one_adding_reach])
    (simp_all add: static_queue_def one_adding_def)

text \<open>
  The receive queue never runs into a state in which no thread can move: a thread
  holding a pending add or poll can always finish it, and otherwise an add or a poll can
  start. A thread that has passed \<open>sem_wait(&message_sem)\<close> finds a message.
\<close>

theorem receive_queue_never_stuck:
  assumes "length (queue q0) = 64" and "recv_reach (initreceiveQueue q0) s"
  shows "(\<exists>t. queue_step addreceivequeue_wait addreceivequeue_locked
            pollReceiveQueue_wait pollReceiveQueue_locked s t) \<and>
    (polling s \<noteq> 0 \<longrightarrow> (\<exists>m q'. pollReceiveQueue_locked (sq s) = Inr (m, q') \<and>
       contents (sq s) = m # contents q'))"
proof -
  from assms have inv: "queue_sys_inv contents space_sem message_sem ring_inv 64 s"
    by (intro recv.reach_inv [OF init_quiet(1,2)])
  then show ?thesis using recv.inv_progress [OF inv] recv.take_pending [OF inv] by fastforce
qed

theorem receive_queue_never_stuck_witness:
  "\<exists>t. queue_step addreceivequeue_wait addreceivequeue_locked
     pollReceiveQueue_wait pollReceiveQueue_locked
     \<lparr>sq = initreceiveQueue static_queue :: nat msgqueue, adding = {#}, polling = 0,
      entered = [] :: nat option list, left = []\<rparr> t"
  using receive_queue_never_stuck [OF _ queue_reach.start, of static_queue]
  by (simp add: static_queue_def)

end
