(* ===== verification/Transport.thy ===== *)
theory Transport
  imports Prelude
begin

text \<open>
  The connection to the Android device (\<open>accessory.c\<close>, the read and write functions of
  \<open>usb.c\<close> and \<open>bt.c\<close>): a connection is a bluetooth socket or a USB handle, with function
  pointers for reading, writing and closing. What the kernel and libusb answer is part of
  the connection as a script of results, consumed one per call, over which every statement
  is quantified: chunk boundaries, short writes, zero-length transfers, end of file and
  errors are all possible scripts. An exhausted script is a call that does not return.
  \<open>bt_wire\<close> and \<open>usb_wire\<close> record the bytes handed to the peer.

  The contract of a readable connection is the locale \<open>byte_source\<close>, that of a writable one
  \<open>byte_sink\<close>; the loops \<open>readAllAccessory\<close> and \<open>writeAllAccessory\<close> are their clients.
\<close>

section \<open>Connections\<close>

text \<open>
  A \<open>read\<close> on the socket delivers a prefix of the next chunk (\<open>BtData\<close>), reports the end of
  the stream with 0, for ever (\<open>BtEof\<close>), or fails with -1 (\<open>BtErr\<close>). A \<open>write\<close> accepts at
  most \<open>k\<close> bytes (\<open>WrAccept k\<close>) or fails.
\<close>

datatype bt_event = BtData "byte list" | BtEof | BtErr
datatype wr_event = WrAccept nat | WrErr

record btconn =
  bt_fd :: int
  bt_in :: "bt_event list"
  bt_out :: "wr_event list"
  bt_wire :: "byte list"

text \<open>
  A bulk transfer reports an error code (0 is success) and the bytes it transferred.
\<close>

datatype usb_event = UsbXfer int "byte list"

record usbconn =
  dev_handle :: nat
  ep_in :: int
  ep_out :: int
  receiveBuffer :: "byte list"
  read_count :: nat
  startValidData :: nat
  buf_length :: nat
  usb_in :: "usb_event list"
  usb_out :: "(int \<times> nat) list"
  usb_wire :: "byte list"

datatype physical = BTConn btconn | USBConn usbconn
datatype conn_fn = FnUSB | FnBT

record aap =
  physicalConnection :: physical
  readFn :: conn_fn
  writeFn :: conn_fn
  closeFn :: conn_fn

section \<open>Reading and writing once\<close>

fun readAccessoryBT :: "btconn \<Rightarrow> int \<Rightarrow> (btconn \<times> int \<times> byte list) res" where
  "readAccessoryBT c sz =
     (case bt_in c of
        [] \<Rightarrow> Inl Blocked
      | BtData bs # evs \<Rightarrow>
          (let n = min (nat sz) (length bs)
           in Inr (c\<lparr>bt_in := (if n < length bs then BtData (drop n bs) # evs else evs)\<rparr>,
                   int n, take n bs))
      | BtEof # evs \<Rightarrow> Inr (c, 0, [])
      | BtErr # evs \<Rightarrow> Inr (c\<lparr>bt_in := evs\<rparr>, -1, []))"

fun writeAccessoryBT :: "btconn \<Rightarrow> byte list \<Rightarrow> int \<Rightarrow> (btconn \<times> int) res" where
  "writeAccessoryBT c buf sz =
     (if nat sz > length buf then Inl OutOfBounds
      else case bt_out c of
        [] \<Rightarrow> Inl Blocked
      | WrAccept k # evs \<Rightarrow>
          (let n = min (nat sz) k
           in Inr (c\<lparr>bt_out := evs, bt_wire := bt_wire c @ take n buf\<rparr>, int n))
      | WrErr # evs \<Rightarrow> Inr (c\<lparr>bt_out := evs\<rparr>, -1))"

text \<open>
  The USB read first serves what is left in the receive buffer; \<open>sz > read\<close> compares an
  \<open>int\<close> with an \<open>unsigned int\<close>, hence the reduction of \<open>sz\<close> modulo \<open>2 ^ 32\<close>. Otherwise it
  starts a bulk transfer into the buffer and calls itself again, so a transfer of zero bytes
  is followed by another transfer. The amount transferred is stored even when an error is
  reported.
\<close>

function readAccessoryUSB :: "usbconn \<Rightarrow> int \<Rightarrow> (usbconn \<times> int \<times> byte list) res" where
  "readAccessoryUSB c sz =
     (if read_count c \<noteq> 0 then
        (let n = (if sz mod 2 ^ 32 > int (read_count c) then int (read_count c) else sz)
         in if startValidData c + nat n \<le> length (receiveBuffer c)
            then Inr (c\<lparr>read_count := read_count c - nat n,
                        startValidData := startValidData c + nat n\<rparr>,
                      n, take (nat n) (drop (startValidData c) (receiveBuffer c)))
            else Inl OutOfBounds)
      else
        (case usb_in c of
           [] \<Rightarrow> Inl Blocked
         | UsbXfer err bs # evs \<Rightarrow>
             if length bs > buf_length c then Inl OutOfBounds
             else if err \<noteq> 0
             then Inr (c\<lparr>startValidData := 0,
                         receiveBuffer := bs @ drop (length bs) (receiveBuffer c),
                         read_count := length bs, usb_in := evs\<rparr>, err, [])
             else readAccessoryUSB
                    (c\<lparr>startValidData := 0,
                       receiveBuffer := bs @ drop (length bs) (receiveBuffer c),
                       read_count := length bs, usb_in := evs\<rparr>) sz))"
  by pat_completeness auto
termination
  by (relation "measure (\<lambda>(c, sz). length (usb_in c))") auto

declare readAccessoryUSB.simps [simp del]

fun writeAccessoryUSB :: "usbconn \<Rightarrow> byte list \<Rightarrow> int \<Rightarrow> (usbconn \<times> int) res" where
  "writeAccessoryUSB c buf sz =
     (if nat sz > length buf then Inl OutOfBounds
      else case usb_out c of
        [] \<Rightarrow> Inl Blocked
      | (err, k) # evs \<Rightarrow>
          (let n = min (nat sz) k
           in Inr (c\<lparr>usb_out := evs, usb_wire := usb_wire c @ take n buf\<rparr>,
                   if err \<noteq> 0 then err else int n)))"

definition readAccessory :: "aap \<Rightarrow> int \<Rightarrow> (aap \<times> int \<times> byte list) res" where
  "readAccessory con sz =
     (case (readFn con, physicalConnection con) of
        (FnBT, BTConn c) \<Rightarrow>
          bind_res (readAccessoryBT c sz)
            (\<lambda>(c', r, bs). Inr (con\<lparr>physicalConnection := BTConn c'\<rparr>, r, bs))
      | (FnUSB, USBConn c) \<Rightarrow>
          bind_res (readAccessoryUSB c sz)
            (\<lambda>(c', r, bs). Inr (con\<lparr>physicalConnection := USBConn c'\<rparr>, r, bs))
      | _ \<Rightarrow> Inl TypeConfusion)"

definition writeAccessory :: "aap \<Rightarrow> byte list \<Rightarrow> int \<Rightarrow> (aap \<times> int) res" where
  "writeAccessory con buf sz =
     (case (writeFn con, physicalConnection con) of
        (FnBT, BTConn c) \<Rightarrow>
          bind_res (writeAccessoryBT c buf sz)
            (\<lambda>(c', r). Inr (con\<lparr>physicalConnection := BTConn c'\<rparr>, r))
      | (FnUSB, USBConn c) \<Rightarrow>
          bind_res (writeAccessoryUSB c buf sz)
            (\<lambda>(c', r). Inr (con\<lparr>physicalConnection := USBConn c'\<rparr>, r))
      | _ \<Rightarrow> Inl TypeConfusion)"

section \<open>The loops\<close>

text \<open>
  The loops call the connection's function pointer, here an argument. They end when all
  bytes are through or a call fails; \<open>None\<close> is a loop that never ends. The first component
  of a result is the connection afterwards, the second the return value of the C function,
  the third the bytes stored in the caller's buffer.
\<close>

partial_function (option) readAll_loop ::
    "('c \<Rightarrow> int \<Rightarrow> ('c \<times> int \<times> byte list) res) \<Rightarrow> 'c \<Rightarrow> int \<Rightarrow> int \<Rightarrow> byte list
     \<Rightarrow> ('c \<times> int \<times> byte list) res option" where
  "readAll_loop read c sz response got =
     (if sz > 0 \<and> response \<ge> 0
      then (case read c sz of
              Inl f \<Rightarrow> Some (Inl f)
            | Inr (c', r, bs) \<Rightarrow> readAll_loop read c' (sz - r) r (got @ bs))
      else Some (Inr (c, if response < 0 then response else 0, got)))"

definition readAllAccessory :: "aap \<Rightarrow> int \<Rightarrow> (aap \<times> int \<times> byte list) res option" where
  "readAllAccessory con sz = readAll_loop readAccessory con sz 0 []"

partial_function (option) writeAll_loop ::
    "('c \<Rightarrow> byte list \<Rightarrow> int \<Rightarrow> ('c \<times> int) res) \<Rightarrow> 'c \<Rightarrow> byte list \<Rightarrow> int \<Rightarrow> int
     \<Rightarrow> ('c \<times> int) res option" where
  "writeAll_loop write c buf sz response =
     (if sz > 0 \<and> response \<ge> 0
      then (case write c buf sz of
              Inl f \<Rightarrow> Some (Inl f)
            | Inr (c', r) \<Rightarrow> writeAll_loop write c' (drop (nat r) buf) (sz - r) r)
      else Some (Inr (c, if response < 0 then response else 0)))"

definition writeAllAccessory :: "aap \<Rightarrow> byte list \<Rightarrow> int \<Rightarrow> (aap \<times> int) res option" where
  "writeAllAccessory con buf sz = writeAll_loop writeAccessory con buf sz 0"

section \<open>The contract of a readable connection\<close>

text \<open>
  \<open>stream c\<close> are the bytes still to come. A read that does not fail delivers exactly the
  next ones, at most as many as asked for, and a read that fails delivers none.
\<close>

locale byte_source =
  fixes read :: "'c \<Rightarrow> int \<Rightarrow> ('c \<times> int \<times> byte list) res"
    and stream :: "'c \<Rightarrow> byte list"
    and ok :: "'c \<Rightarrow> bool"
  assumes read_ok: "ok c \<Longrightarrow> 0 < n \<Longrightarrow> n < 2 ^ 31 \<Longrightarrow> read c n = Inr (c', r, bs) \<Longrightarrow>
      ok c' \<and> r \<le> n \<and> stream c = bs @ stream c' \<and> int (length bs) = max 0 r"

text \<open>
  A \<open>clean\<close> connection has no error and no end of file before its last byte: a read
  delivers something as long as there is something.
\<close>

locale live_source = byte_source +
  fixes clean :: "'c \<Rightarrow> bool"
  assumes clean_read: "ok c \<Longrightarrow> clean c \<Longrightarrow> 0 < n \<Longrightarrow> n < 2 ^ 31 \<Longrightarrow> stream c \<noteq> [] \<Longrightarrow>
      \<exists>c' r bs. read c n = Inr (c', r, bs) \<and> 0 < r \<and> clean c'"

context byte_source begin

lemma readAll_sound:
  assumes "readAll_loop read c sz resp got = Some (Inr (c', e, bs))" and "ok c" and "0 \<le> resp"
    and "sz < 2 ^ 31"
  shows "\<exists>xs. bs = got @ xs \<and> stream c = xs @ stream c' \<and> ok c' \<and> length xs \<le> nat sz
    \<and> (e = 0 \<longrightarrow> length xs = nat sz) \<and> e \<le> 0"
proof -
  define P where "P rd c sz resp got res \<longleftrightarrow> (rd = read \<longrightarrow> ok c \<longrightarrow> (0 \<le> resp \<longrightarrow> sz < 2 ^ 31) \<longrightarrow>
      (\<forall>c' e bs. res = Inr (c', e, bs) \<longrightarrow> (\<exists>xs. bs = got @ xs \<and> stream c = xs @ stream c' \<and> ok c'
        \<and> (0 \<le> resp \<longrightarrow> length xs \<le> nat sz \<and> (e = 0 \<longrightarrow> length xs = nat sz) \<and> e \<le> 0)
        \<and> (resp < 0 \<longrightarrow> xs = [] \<and> e = resp))))"
    for rd :: "'c \<Rightarrow> int \<Rightarrow> ('c \<times> int \<times> byte list) res" and c sz resp got
      and res :: "('c \<times> int \<times> byte list) res"
  have "P read c sz resp got (Inr (c', e, bs))"
  proof (rule readAll_loop.raw_induct [where P = P, OF _ assms(1)])
    fix f :: "('c \<Rightarrow> int \<Rightarrow> ('c \<times> int \<times> byte list) res) \<Rightarrow> 'c \<Rightarrow> int \<Rightarrow> int \<Rightarrow> byte list
        \<Rightarrow> ('c \<times> int \<times> byte list) res option"
      and rd :: "'c \<Rightarrow> int \<Rightarrow> ('c \<times> int \<times> byte list) res" and c sz resp got res
    assume IH: "\<And>rd c sz resp got res. f rd c sz resp got = Some res \<Longrightarrow> P rd c sz resp got res"
      and eq: "(if 0 < sz \<and> 0 \<le> resp then
          case rd c sz of Inl e \<Rightarrow> Some (Inl e)
          | Inr (c', r, bs) \<Rightarrow> f rd c' (sz - r) r (got @ bs)
        else Some (Inr (c, if resp < 0 then resp else 0, got))) = Some res"
    show "P rd c sz resp got res"
    proof (cases "0 < sz \<and> 0 \<le> resp")
      case False
      with eq show ?thesis by (auto simp: P_def)
    next
      case True
      show ?thesis
      proof (cases "rd c sz")
        case (Inl e)
        with eq True show ?thesis by (auto simp: P_def)
      next
        case (Inr t)
        then obtain c1 r xs where t: "rd c sz = Inr (c1, r, xs)" by (cases t) auto
        with eq True have "P rd c1 (sz - r) r (got @ xs) res" by (intro IH) simp
        then show ?thesis
          using True t read_ok [of c sz c1 r xs]
          by (fastforce simp: P_def max_def split: if_splits)
      qed
    qed
  qed
  with assms(2-4) show ?thesis by (auto simp: P_def)
qed

lemma readAll_eof_loops:
  assumes eof: "\<And>n. 0 < n \<Longrightarrow> read c n = Inr (c, 0, [])" and "0 < sz"
  shows "readAll_loop read c sz 0 got = None"
proof (cases "readAll_loop read c sz 0 got")
  case (Some res)
  define P where "P rd c' sz resp got res \<longleftrightarrow> (rd = read \<longrightarrow> c' = c \<longrightarrow> 0 < sz \<longrightarrow> resp \<noteq> 0)"
    for rd :: "'c \<Rightarrow> int \<Rightarrow> ('c \<times> int \<times> byte list) res" and c' :: 'c and sz :: int and resp :: int
      and got :: "byte list" and res :: "('c \<times> int \<times> byte list) res"
  have "P read c sz 0 got res"
  proof (rule readAll_loop.raw_induct [where P = P, OF _ Some])
    fix f :: "('c \<Rightarrow> int \<Rightarrow> ('c \<times> int \<times> byte list) res) \<Rightarrow> 'c \<Rightarrow> int \<Rightarrow> int \<Rightarrow> byte list
        \<Rightarrow> ('c \<times> int \<times> byte list) res option"
      and rd :: "'c \<Rightarrow> int \<Rightarrow> ('c \<times> int \<times> byte list) res" and c' sz resp got res
    assume IH: "\<And>rd c sz resp got res. f rd c sz resp got = Some res \<Longrightarrow> P rd c sz resp got res"
      and eq: "(if 0 < sz \<and> 0 \<le> resp then
          case rd c' sz of Inl e \<Rightarrow> Some (Inl e)
          | Inr (c', r, bs) \<Rightarrow> f rd c' (sz - r) r (got @ bs)
        else Some (Inr (c', if resp < 0 then resp else 0, got))) = Some res"
    show "P rd c' sz resp got res"
      unfolding P_def
    proof (intro impI notI)
      assume "rd = read" "c' = c" "0 < sz" "resp = 0"
      with eq eof have "f read c sz 0 got = Some res" by simp
      then show False using IH [of read c sz 0 got res] \<open>0 < sz\<close> by (simp add: P_def)
    qed
  qed
  with assms(2) show ?thesis by (simp add: P_def)
qed simp

end

context live_source begin

lemma readAll_total:
  "ok c \<Longrightarrow> clean c \<Longrightarrow> nat sz \<le> length (stream c) \<Longrightarrow> sz < 2 ^ 31 \<Longrightarrow> 0 \<le> resp \<Longrightarrow>
     \<exists>c'. readAll_loop read c sz resp got = Some (Inr (c', 0, got @ take (nat sz) (stream c)))
       \<and> ok c' \<and> clean c' \<and> stream c' = drop (nat sz) (stream c)"
proof (induction "nat sz" arbitrary: c sz resp got rule: less_induct)
  case less
  show ?case
  proof (cases "0 < sz")
    case False
    with less.prems show ?thesis by (subst readAll_loop.simps) auto
  next
    case True
    with less.prems obtain c1 r xs where step: "read c sz = Inr (c1, r, xs)" "0 < r" "clean c1"
      using clean_read [of c sz] by fastforce
    with read_ok [OF less.prems(1) True less.prems(4) step(1)]
    have law: "ok c1" "r \<le> sz" "stream c = xs @ stream c1" "length xs = nat r"
      by auto
    have "\<exists>c'. readAll_loop read c1 (sz - r) r (got @ xs)
        = Some (Inr (c', 0, (got @ xs) @ take (nat (sz - r)) (stream c1)))
       \<and> ok c' \<and> clean c' \<and> stream c' = drop (nat (sz - r)) (stream c1)"
      using less.prems law step True by (intro less.hyps) auto
    then show ?thesis
      using less.prems True step law
      by (subst readAll_loop.simps) (auto simp: nat_diff_distrib)
  qed
qed

end

section \<open>The contract of a writable connection\<close>

locale byte_sink =
  fixes wrt :: "'c \<Rightarrow> byte list \<Rightarrow> int \<Rightarrow> ('c \<times> int) res"
    and wire :: "'c \<Rightarrow> byte list"
    and ok :: "'c \<Rightarrow> bool"
  assumes wrt_ok: "ok c \<Longrightarrow> 0 < n \<Longrightarrow> wrt c buf n = Inr (c', r) \<Longrightarrow>
      ok c' \<and> r \<le> n \<and> nat n \<le> length buf \<and>
      (\<exists>k \<le> nat n. wire c' = wire c @ take k buf \<and> (0 \<le> r \<longrightarrow> int k = r))"

context byte_sink begin

lemma writeAll_sound:
  assumes "writeAll_loop wrt c buf sz resp = Some (Inr (c', e))" and "ok c" and "0 \<le> resp"
  shows "ok c' \<and> e \<le> 0 \<and> (\<exists>k \<le> nat sz. k \<le> length buf \<and> wire c' = wire c @ take k buf
    \<and> (e = 0 \<longrightarrow> k = nat sz))"
proof -
  define P where "P wr c buf sz resp res \<longleftrightarrow> (wr = wrt \<longrightarrow> ok c \<longrightarrow>
      (\<forall>c' e. res = Inr (c', e) \<longrightarrow> ok c'
        \<and> (0 \<le> resp \<longrightarrow> e \<le> 0 \<and> (\<exists>k \<le> nat sz. k \<le> length buf \<and> wire c' = wire c @ take k buf
             \<and> (e = 0 \<longrightarrow> k = nat sz)))
        \<and> (resp < 0 \<longrightarrow> wire c' = wire c \<and> e = resp)))"
    for wr :: "'c \<Rightarrow> byte list \<Rightarrow> int \<Rightarrow> ('c \<times> int) res" and c buf sz resp
      and res :: "('c \<times> int) res"
  have "P wrt c buf sz resp (Inr (c', e))"
  proof (rule writeAll_loop.raw_induct [where P = P, OF _ assms(1)])
    fix f :: "('c \<Rightarrow> byte list \<Rightarrow> int \<Rightarrow> ('c \<times> int) res) \<Rightarrow> 'c \<Rightarrow> byte list \<Rightarrow> int \<Rightarrow> int
        \<Rightarrow> ('c \<times> int) res option"
      and wr :: "'c \<Rightarrow> byte list \<Rightarrow> int \<Rightarrow> ('c \<times> int) res" and c buf sz resp res
    assume IH: "\<And>wr c buf sz resp res. f wr c buf sz resp = Some res \<Longrightarrow> P wr c buf sz resp res"
      and eq: "(if 0 < sz \<and> 0 \<le> resp then
          case wr c buf sz of Inl e \<Rightarrow> Some (Inl e)
          | Inr (c', r) \<Rightarrow> f wr c' (drop (nat r) buf) (sz - r) r
        else Some (Inr (c, if resp < 0 then resp else 0))) = Some res"
    show "P wr c buf sz resp res"
    proof (cases "0 < sz \<and> 0 \<le> resp")
      case False
      with eq show ?thesis by (auto simp: P_def)
    next
      case True
      show ?thesis
      proof (cases "wr c buf sz")
        case (Inl e)
        with eq True show ?thesis by (auto simp: P_def)
      next
        case (Inr t)
        then obtain c1 r where t: "wr c buf sz = Inr (c1, r)" by (cases t) auto
        with eq True have rec: "P wr c1 (drop (nat r) buf) (sz - r) r res" by (intro IH) simp
        show ?thesis
          unfolding P_def
        proof (intro impI allI)
          fix c' e
          assume wr: "wr = wrt" and c: "ok c" and res: "res = Inr (c', e)"
          from wrt_ok [OF c] True t wr obtain k where law: "ok c1" "r \<le> sz" "nat sz \<le> length buf"
            "k \<le> nat sz" "wire c1 = wire c @ take k buf" "0 \<le> r \<longrightarrow> int k = r"
            by blast
          show "ok c' \<and> (0 \<le> resp \<longrightarrow> e \<le> 0 \<and> (\<exists>k \<le> nat sz. k \<le> length buf \<and>
              wire c' = wire c @ take k buf \<and> (e = 0 \<longrightarrow> k = nat sz)))
              \<and> (resp < 0 \<longrightarrow> wire c' = wire c \<and> e = resp)"
          proof (cases "r < 0")
            case True
            with rec wr res law \<open>0 < sz \<and> 0 \<le> resp\<close> show ?thesis
              by (auto simp: P_def intro!: exI [of _ k])
          next
            case False
            with rec wr res law(1) obtain j where j: "ok c'" "e \<le> 0" "j \<le> nat (sz - r)"
              "j \<le> length (drop (nat r) buf)" "wire c' = wire c1 @ take j (drop (nat r) buf)"
              "e = 0 \<longrightarrow> j = nat (sz - r)"
              by (auto simp: P_def)
            from False law(6) have k: "k = nat r" by simp
            have "wire c' = wire c @ take (k + j) buf"
              using j(5) law(5) k by (simp add: take_add)
            moreover have "k + nat (sz - r) = nat sz"
              using False law(2) k by arith
            ultimately show ?thesis using j law False \<open>0 < sz \<and> 0 \<le> resp\<close> k
              by (intro conjI impI exI [of _ "k + j"]) auto
          qed
        qed
      qed
    qed
  qed
  with assms(2,3) show ?thesis by (simp add: P_def)
qed

end

text \<open>
  A lower bound on the calls that will accept something: with enough of them the write loop
  returns.
\<close>

locale live_sink = byte_sink +
  fixes ready :: "'c \<Rightarrow> nat"
  assumes ready_wrt: "ok c \<Longrightarrow> 0 < n \<Longrightarrow> nat n \<le> length buf \<Longrightarrow> 0 < ready c \<Longrightarrow>
      \<exists>c' r. wrt c buf n = Inr (c', r) \<and> 0 < r \<and> ready c \<le> Suc (ready c')"

context live_sink begin

lemma writeAll_total:
  "ok c \<Longrightarrow> nat sz \<le> length buf \<Longrightarrow> nat sz \<le> ready c \<Longrightarrow> 0 \<le> resp \<Longrightarrow>
     \<exists>c'. writeAll_loop wrt c buf sz resp = Some (Inr (c', 0)) \<and> ok c' \<and>
       wire c' = wire c @ take (nat sz) buf \<and> ready c \<le> ready c' + nat sz"
proof (induction "nat sz" arbitrary: c buf sz resp rule: less_induct)
  case less
  show ?case
  proof (cases "0 < sz")
    case False
    with less.prems show ?thesis by (subst writeAll_loop.simps) auto
  next
    case True
    with less.prems obtain c1 r where step: "wrt c buf sz = Inr (c1, r)" "0 < r"
      "ready c \<le> Suc (ready c1)"
      using ready_wrt [of c sz buf] by fastforce
    with wrt_ok [OF less.prems(1) True step(1)]
    have law: "ok c1" "r \<le> sz" "wire c1 = wire c @ take (nat r) buf"
      by auto
    have n: "nat (sz - r) < nat sz" "nat sz = nat r + nat (sz - r)"
      "Suc 0 \<le> nat r"
      using True step(2) law(2) by arith+
    have "\<exists>c'. writeAll_loop wrt c1 (drop (nat r) buf) (sz - r) r = Some (Inr (c', 0)) \<and> ok c' \<and>
        wire c' = wire c1 @ take (nat (sz - r)) (drop (nat r) buf) \<and>
        ready c1 \<le> ready c' + nat (sz - r)"
      using less.prems law step n by (intro less.hyps) (auto simp: le_diff_conv2)
    then show ?thesis
      using less.prems True step law n
      by (subst writeAll_loop.simps) (auto simp: take_add)
  qed
qed

end

section \<open>Bluetooth and USB connections keep the contract\<close>

fun bt_events_stream :: "bt_event list \<Rightarrow> byte list" where
  "bt_events_stream [] = []"
| "bt_events_stream (BtData bs # evs) = bs @ bt_events_stream evs"
| "bt_events_stream (BtEof # evs) = []"
| "bt_events_stream (BtErr # evs) = bt_events_stream evs"

fun bt_events_clean :: "bt_event list \<Rightarrow> bool" where
  "bt_events_clean [] = True"
| "bt_events_clean (BtData bs # evs) = (bs \<noteq> [] \<and> bt_events_clean evs)"
| "bt_events_clean (BtEof # evs) = True"
| "bt_events_clean (BtErr # evs) = False"

definition bt_stream :: "btconn \<Rightarrow> byte list" where
  "bt_stream c = bt_events_stream (bt_in c)"

definition bt_clean :: "btconn \<Rightarrow> bool" where
  "bt_clean c = bt_events_clean (bt_in c)"

interpretation bt: live_source readAccessoryBT bt_stream "\<lambda>_. True" bt_clean
proof unfold_locales
  fix c c' :: btconn and n r bs
  assume "0 < n" "readAccessoryBT c n = Inr (c', r, bs)"
  then show "True \<and> r \<le> n \<and> bt_stream c = bs @ bt_stream c' \<and> int (length bs) = max 0 r"
    by (auto simp: bt_stream_def Let_def min_def split: list.splits bt_event.splits if_splits)
next
  fix c :: btconn and n :: int
  assume "bt_clean c" "0 < n" "bt_stream c \<noteq> []"
  then show "\<exists>c' r bs. readAccessoryBT c n = Inr (c', r, bs) \<and> 0 < r \<and> bt_clean c'"
    by (cases "bt_in c" rule: bt_events_clean.cases)
      (auto simp: bt_stream_def bt_clean_def Let_def)
qed

definition usb_ok :: "usbconn \<Rightarrow> bool" where
  "usb_ok c \<longleftrightarrow> length (receiveBuffer c) = buf_length c \<and> buf_length c < 2 ^ 31 \<and>
     startValidData c + read_count c \<le> length (receiveBuffer c) \<and>
     list_all (\<lambda>ev. case ev of UsbXfer err bs \<Rightarrow> err \<le> 0 \<and> length bs \<le> buf_length c) (usb_in c)"

definition usb_stream :: "usbconn \<Rightarrow> byte list" where
  "usb_stream c = take (read_count c) (drop (startValidData c) (receiveBuffer c))
     @ concat (map (\<lambda>ev. case ev of UsbXfer err bs \<Rightarrow> bs) (usb_in c))"

definition usb_clean :: "usbconn \<Rightarrow> bool" where
  "usb_clean c \<longleftrightarrow> list_all (\<lambda>ev. case ev of UsbXfer err bs \<Rightarrow> err = 0) (usb_in c)"

lemma readAccessoryUSB_buffered:
  assumes ok: "usb_ok c" and n: "0 < n" "n < 2 ^ 31" and rc: "read_count c \<noteq> 0"
  shows "\<exists>k c'. readAccessoryUSB c n = Inr (c', int k, take k (usb_stream c)) \<and> usb_ok c' \<and>
    0 < k \<and> int k \<le> n \<and> k \<le> length (usb_stream c) \<and> usb_stream c' = drop k (usb_stream c) \<and>
    usb_in c' = usb_in c"
proof -
  let ?k = "min (nat n) (read_count c)"
  let ?c' = "c\<lparr>read_count := read_count c - ?k, startValidData := startValidData c + ?k\<rparr>"
  have modn: "n mod 2 ^ 32 = n" using n by simp
  from ok have fit: "read_count c \<le> buf_length c - startValidData c"
    by (auto simp: usb_ok_def)
  have "readAccessoryUSB c n = Inr (?c', int ?k,
      take ?k (drop (startValidData c) (receiveBuffer c)))"
    using ok n rc by (subst readAccessoryUSB.simps) (auto simp: Let_def usb_ok_def min_def)
  moreover have "?k \<le> buf_length c - startValidData c"
    using ok by (auto simp: usb_ok_def min_def)
  then have "take ?k (drop (startValidData c) (receiveBuffer c)) = take ?k (usb_stream c)"
    using ok by (simp add: usb_stream_def usb_ok_def min.commute)
  moreover have "usb_stream ?c' = drop ?k (usb_stream c)"
    using ok fit by (simp add: usb_stream_def usb_ok_def drop_take add.commute min_absorb2)
  moreover have "usb_ok ?c'" "0 < ?k" "int ?k \<le> n"
    using ok n rc by (auto simp: usb_ok_def)
  moreover have "?k \<le> length (usb_stream c)"
    using ok fit by (simp add: usb_stream_def usb_ok_def min_absorb2)
  ultimately show ?thesis by (intro exI [of _ ?k] exI [of _ ?c']) simp
qed

lemma usb_refill:
  assumes "usb_ok c" "usb_in c = UsbXfer err bs # evs" "read_count c = 0"
  shows "usb_ok (c\<lparr>startValidData := 0, receiveBuffer := bs @ drop (length bs) (receiveBuffer c),
      read_count := length bs, usb_in := evs\<rparr>)"
    and "usb_stream (c\<lparr>startValidData := 0, receiveBuffer := bs @ drop (length bs) (receiveBuffer c),
      read_count := length bs, usb_in := evs\<rparr>) = usb_stream c"
  using assms by (auto simp: usb_ok_def usb_stream_def)

lemma readAccessoryUSB_law:
  "usb_ok c \<Longrightarrow> 0 < n \<Longrightarrow> n < 2 ^ 31 \<Longrightarrow> readAccessoryUSB c n = Inr (c', r, bs) \<Longrightarrow>
     usb_ok c' \<and> r \<le> n \<and> usb_stream c = bs @ usb_stream c' \<and> int (length bs) = max 0 r"
proof (induction c n arbitrary: c' r bs rule: readAccessoryUSB.induct)
  case (1 c n)
  show ?case
  proof (cases "read_count c = 0")
    case False
    from readAccessoryUSB_buffered [OF "1.prems"(1-3) False] "1.prems"(4) show ?thesis
      by auto
  next
    case True
    with "1.prems"(4) obtain err xs evs where ev: "usb_in c = UsbXfer err xs # evs"
      by (subst (asm) readAccessoryUSB.simps) (auto split: list.splits usb_event.splits)
    note refill = usb_refill [OF "1.prems"(1) ev True]
    from "1.prems"(1) ev have fits: "\<not> buf_length c < length xs" "err \<le> 0"
      by (auto simp: usb_ok_def)
    show ?thesis
    proof (cases "err = 0")
      case False
      with "1.prems" True ev fits refill show ?thesis
        by (subst (asm) readAccessoryUSB.simps) auto
    next
      case err0: True
      with "1.prems"(4) True ev fits have "readAccessoryUSB (c\<lparr>startValidData := 0,
          receiveBuffer := xs @ drop (length xs) (receiveBuffer c), read_count := length xs,
          usb_in := evs\<rparr>) n = Inr (c', r, bs)"
        by (subst (asm) readAccessoryUSB.simps) auto
      with "1.IH" [OF _ ev] True fits err0 refill "1.prems"(2,3) show ?thesis by auto
    qed
  qed
qed

lemma readAccessoryUSB_live:
  "usb_ok c \<Longrightarrow> usb_clean c \<Longrightarrow> 0 < n \<Longrightarrow> n < 2 ^ 31 \<Longrightarrow> usb_stream c \<noteq> [] \<Longrightarrow>
     \<exists>c' r bs. readAccessoryUSB c n = Inr (c', r, bs) \<and> 0 < r \<and> usb_clean c'"
proof (induction c n rule: readAccessoryUSB.induct)
  case (1 c n)
  show ?case
  proof (cases "read_count c = 0")
    case False
    from readAccessoryUSB_buffered [OF "1.prems"(1,3,4) False] "1.prems"(2) show ?thesis
      by (auto simp: usb_clean_def)
  next
    case True
    with "1.prems"(5) obtain err xs evs where ev: "usb_in c = UsbXfer err xs # evs"
      by (cases "usb_in c") (auto simp: usb_stream_def split: usb_event.splits)
    note refill = usb_refill [OF "1.prems"(1) ev True]
    from "1.prems"(1,2) ev have fits: "\<not> buf_length c < length xs" "err = 0"
      by (auto simp: usb_ok_def usb_clean_def)
    let ?c = "c\<lparr>startValidData := 0, receiveBuffer := xs @ drop (length xs) (receiveBuffer c),
        read_count := length xs, usb_in := evs\<rparr>"
    have "readAccessoryUSB c n = readAccessoryUSB ?c n"
      using True ev fits by (subst readAccessoryUSB.simps) simp
    moreover have "usb_clean ?c" using "1.prems"(2) ev by (simp add: usb_clean_def)
    ultimately show ?thesis
      using "1.IH" [OF _ ev] True fits refill "1.prems" by auto
  qed
qed

interpretation usb: live_source readAccessoryUSB usb_stream usb_ok usb_clean
  by unfold_locales (use readAccessoryUSB_law readAccessoryUSB_live in blast)+

interpretation bt_out: byte_sink writeAccessoryBT bt_wire "\<lambda>_. True"
  by unfold_locales
    (auto simp: Let_def min_def split: if_splits list.splits wr_event.splits)

definition usb_out_ok :: "usbconn \<Rightarrow> bool" where
  "usb_out_ok c \<longleftrightarrow> list_all (\<lambda>(err, k). err \<le> 0) (usb_out c)"

interpretation usb_out: byte_sink writeAccessoryUSB usb_wire usb_out_ok
proof unfold_locales
  fix c c' :: usbconn and n r buf
  assume ok: "usb_out_ok c" "0 < n" and wr: "writeAccessoryUSB c buf n = Inr (c', r)"
  from wr obtain err k evs where "usb_out c = (err, k) # evs" "nat n \<le> length buf"
    "usb_out c' = evs" "usb_wire c' = usb_wire c @ take (min (nat n) k) buf"
    "r = (if err \<noteq> 0 then err else int (min (nat n) k))"
    by (auto simp: Let_def split: if_splits list.splits)
  with ok show "usb_out_ok c' \<and> r \<le> n \<and> nat n \<le> length buf \<and>
      (\<exists>k \<le> nat n. usb_wire c' = usb_wire c @ take k buf \<and> (0 \<le> r \<longrightarrow> int k = r))"
    by (auto simp: usb_out_ok_def intro!: exI [of _ "min (nat n) k"])
qed

section \<open>A connection of either kind\<close>

text \<open>
  The function pointers of a connection agree with the member of the union in use, as
  \<open>getNextAndroidConnection\<close> sets them.
\<close>

definition aap_ok :: "aap \<Rightarrow> bool" where
  "aap_ok con \<longleftrightarrow> (case physicalConnection con of
       BTConn c \<Rightarrow> readFn con = FnBT \<and> writeFn con = FnBT \<and> closeFn con = FnBT
     | USBConn c \<Rightarrow> readFn con = FnUSB \<and> writeFn con = FnUSB \<and> closeFn con = FnUSB
         \<and> usb_ok c \<and> usb_out_ok c)"

definition aap_stream :: "aap \<Rightarrow> byte list" where
  "aap_stream con = (case physicalConnection con of
     BTConn c \<Rightarrow> bt_stream c | USBConn c \<Rightarrow> usb_stream c)"

definition aap_clean :: "aap \<Rightarrow> bool" where
  "aap_clean con = (case physicalConnection con of
     BTConn c \<Rightarrow> bt_clean c | USBConn c \<Rightarrow> usb_clean c)"

definition aap_wire :: "aap \<Rightarrow> byte list" where
  "aap_wire con = (case physicalConnection con of
     BTConn c \<Rightarrow> bt_wire c | USBConn c \<Rightarrow> usb_wire c)"

lemmas aap_defs = aap_ok_def aap_stream_def aap_clean_def aap_wire_def

lemma readAccessoryUSB_keeps_out:
  "readAccessoryUSB c n = Inr (c', r, bs) \<Longrightarrow>
     usb_out c' = usb_out c \<and> usb_wire c' = usb_wire c"
proof (induction c n arbitrary: c' r bs rule: readAccessoryUSB.induct)
  case (1 c n)
  show ?case
  proof (cases "read_count c = 0")
    case False
    with "1.prems" show ?thesis
      by (subst (asm) readAccessoryUSB.simps) (auto simp: Let_def split: if_splits)
  next
    case True
    with "1.prems" obtain err xs evs where ev: "usb_in c = UsbXfer err xs # evs"
      "\<not> buf_length c < length xs"
      by (subst (asm) readAccessoryUSB.simps) (auto split: list.splits usb_event.splits if_splits)
    show ?thesis
      using "1.prems" True ev "1.IH" [OF _ ev(1) refl ev(2)]
      by (subst (asm) readAccessoryUSB.simps) (auto split: if_splits)
  qed
qed

lemma usb_out_frame: "usb_ok c \<Longrightarrow> usb_ok (c\<lparr>usb_out := a, usb_wire := b\<rparr>)"
  by (auto simp: usb_ok_def list_all_iff split: usb_event.splits)

lemma writeAccessoryUSB_keeps_in:
  "writeAccessoryUSB c buf n = Inr (c', r) \<Longrightarrow> usb_ok c \<Longrightarrow> usb_ok c'"
  by (auto simp: Let_def usb_out_frame split: if_splits list.splits)

interpretation conn: live_source readAccessory aap_stream aap_ok aap_clean
proof unfold_locales
  fix c c' :: aap and n r bs
  assume c: "aap_ok c" "0 < n" "n < 2 ^ 31" "readAccessory c n = Inr (c', r, bs)"
  show "aap_ok c' \<and> r \<le> n \<and> aap_stream c = bs @ aap_stream c' \<and> int (length bs) = max 0 r"
  proof (cases "physicalConnection c")
    case (BTConn b)
    with c bt.read_ok [where c = b and n = n] show ?thesis
      by (auto simp: aap_defs readAccessory_def res_simps simp del: readAccessoryBT.simps)
  next
    case (USBConn u)
    with c obtain u' where u': "readAccessoryUSB u n = Inr (u', r, bs)"
      "c' = c\<lparr>physicalConnection := USBConn u'\<rparr>" "usb_ok u"
      by (auto simp: aap_defs readAccessory_def res_simps)
    with c USBConn usb.read_ok [OF u'(3) c(2,3) u'(1)] readAccessoryUSB_keeps_out [OF u'(1)]
    show ?thesis by (auto simp: aap_defs usb_out_ok_def)
  qed
next
  fix c :: aap and n :: int
  assume c: "aap_ok c" "aap_clean c" "0 < n" "n < 2 ^ 31" "aap_stream c \<noteq> []"
  show "\<exists>c' r bs. readAccessory c n = Inr (c', r, bs) \<and> 0 < r \<and> aap_clean c'"
  proof (cases "physicalConnection c")
    case (BTConn b)
    with c bt.clean_read [where c = b and n = n] show ?thesis
      by (fastforce simp: aap_defs readAccessory_def simp del: readAccessoryBT.simps)
  next
    case (USBConn u)
    with c usb.clean_read [where c = u and n = n] show ?thesis
      by (fastforce simp: aap_defs readAccessory_def)
  qed
qed

interpretation conn_out: byte_sink writeAccessory aap_wire aap_ok
proof unfold_locales
  fix c c' :: aap and n r buf
  assume c: "aap_ok c" "0 < n" "writeAccessory c buf n = Inr (c', r)"
  show "aap_ok c' \<and> r \<le> n \<and> nat n \<le> length buf \<and>
      (\<exists>k \<le> nat n. aap_wire c' = aap_wire c @ take k buf \<and> (0 \<le> r \<longrightarrow> int k = r))"
  proof (cases "physicalConnection c")
    case (BTConn b)
    with c bt_out.wrt_ok [where c = b and n = n and buf = buf] show ?thesis
      by (auto simp: aap_defs writeAccessory_def res_simps simp del: writeAccessoryBT.simps)
  next
    case (USBConn u)
    with c obtain u' where u': "writeAccessoryUSB u buf n = Inr (u', r)"
      "c' = c\<lparr>physicalConnection := USBConn u'\<rparr>" "usb_ok u" "usb_out_ok u"
      by (auto simp: aap_defs writeAccessory_def res_simps simp del: writeAccessoryUSB.simps)
    with c USBConn usb_out.wrt_ok [OF u'(4) c(2) u'(1)] writeAccessoryUSB_keeps_in [OF u'(1,3)]
    show ?thesis by (auto simp: aap_defs simp del: writeAccessoryUSB.simps)
  qed
qed

definition bt_ready :: "btconn \<Rightarrow> nat" where
  "bt_ready c = length (takeWhile
     (\<lambda>ev. case ev of WrAccept k \<Rightarrow> 0 < k | WrErr \<Rightarrow> False) (bt_out c))"

definition usb_ready :: "usbconn \<Rightarrow> nat" where
  "usb_ready c = length (takeWhile (\<lambda>(err, k). err = 0 \<and> 0 < k) (usb_out c))"

definition aap_ready :: "aap \<Rightarrow> nat" where
  "aap_ready con = (case physicalConnection con of
     BTConn c \<Rightarrow> bt_ready c | USBConn c \<Rightarrow> usb_ready c)"

interpretation conn_out: live_sink writeAccessory aap_wire aap_ok aap_ready
proof unfold_locales
  fix c :: aap and n and buf :: "byte list"
  assume c: "aap_ok c" "0 < n" "nat n \<le> length buf" "0 < aap_ready c"
  show "\<exists>c' r. writeAccessory c buf n = Inr (c', r) \<and> 0 < r \<and> aap_ready c \<le> Suc (aap_ready c')"
  proof (cases "physicalConnection c")
    case (BTConn b)
    with c obtain k evs where "bt_out b = WrAccept k # evs" "0 < k"
      by (cases "bt_out b")
        (auto simp: aap_ready_def bt_ready_def split: wr_event.splits if_splits)
    with c BTConn show ?thesis
      by (auto simp: aap_ok_def aap_ready_def bt_ready_def writeAccessory_def Let_def)
  next
    case (USBConn u)
    with c obtain k evs where "usb_out u = (0, k) # evs" "0 < k"
      by (cases "usb_out u")
        (auto simp: aap_ready_def usb_ready_def split: prod.splits if_splits)
    with c USBConn show ?thesis
      by (auto simp: aap_ok_def aap_ready_def usb_ready_def writeAccessory_def Let_def)
  qed
qed

section \<open>One direction leaves the other alone\<close>

text \<open>
  Writing leaves alone what will be read, and reading what has been written: each is the
  contract of the transport with one more invariant.
\<close>

lemma writeAccessory_stream: "writeAccessory c buf n = Inr (c', r) \<Longrightarrow> aap_stream c' = aap_stream c"
  by (auto simp: writeAccessory_def aap_stream_def bt_stream_def usb_stream_def res_simps Let_def
      split: conn_fn.splits physical.splits if_splits list.splits wr_event.splits)

lemma readAccessory_wire: "readAccessory c n = Inr (c', r, bs) \<Longrightarrow> aap_wire c' = aap_wire c"
  by (auto simp: readAccessory_def aap_wire_def res_simps Let_def dest: readAccessoryUSB_keeps_out
      split: conn_fn.splits physical.splits if_splits list.splits bt_event.splits)

lemma sink_keeps_stream: "byte_sink writeAccessory aap_wire (\<lambda>c. aap_ok c \<and> aap_stream c = S)"
  by unfold_locales (use conn_out.wrt_ok writeAccessory_stream in blast)

lemma source_keeps_wire: "byte_source readAccessory aap_stream (\<lambda>c. aap_ok c \<and> aap_wire c = W)"
  by unfold_locales (use conn.read_ok readAccessory_wire in blast)

lemma readAll_keeps:
  assumes "readAllAccessory c n = Some (Inr (c', e, bs))" and "aap_ok c" and "n < 2 ^ 31"
  shows "aap_ok c'" "aap_wire c' = aap_wire c" "aap_stream c = bs @ aap_stream c'"
    "e = 0 \<Longrightarrow> length bs = nat n"
  using byte_source.readAll_sound [OF source_keeps_wire, of c n 0 "[]" c' e bs "aap_wire c"] assms
  by (auto simp: readAllAccessory_def)

lemma writeAll_keeps:
  assumes "writeAllAccessory c buf n = Some (Inr (c', e))" and "aap_ok c"
  shows "aap_ok c'" "aap_stream c' = aap_stream c"
    "\<exists>k \<le> nat n. k \<le> length buf \<and> aap_wire c' = aap_wire c @ take k buf \<and> (e = 0 \<longrightarrow> k = nat n)"
  using byte_sink.writeAll_sound [OF sink_keeps_stream, of c buf n 0 c' e "aap_stream c"] assms
  by (auto simp: writeAllAccessory_def)

section \<open>Properties\<close>

text \<open>Connections the witnesses use: three chunks over USB, one of them empty.\<close>

definition demo_usb :: aap where
  "demo_usb = \<lparr>physicalConnection = USBConn \<lparr>dev_handle = 1, ep_in = 129, ep_out = 1,
       receiveBuffer = replicate 8 0, read_count = 0, startValidData = 0, buf_length = 8,
       usb_in = [UsbXfer 0 [1, 2], UsbXfer 0 [], UsbXfer 0 [3, 4, 5]],
       usb_out = [(0, 1), (0, 5), (0, 2)], usb_wire = []\<rparr>,
     readFn = FnUSB, writeFn = FnUSB, closeFn = FnUSB\<rparr>"

definition demo_bt_eof :: aap where
  "demo_bt_eof = \<lparr>physicalConnection = BTConn \<lparr>bt_fd = 5, bt_in = [BtEof], bt_out = [],
       bt_wire = []\<rparr>, readFn = FnBT, writeFn = FnBT, closeFn = FnBT\<rparr>"

text \<open>
  C36: however the device and the transport cut the byte stream into chunks, and however
  many empty USB transfers come between, \<open>readAllAccessory\<close> of n bytes returns 0 with
  exactly the next n bytes of the stream, and leaves the rest of the stream for later.
\<close>

theorem readAll_delivers:
  assumes "aap_ok con" and "aap_clean con" and "n < 2 ^ 31" and "nat n \<le> length (aap_stream con)"
  shows "\<exists>con'. readAllAccessory con n = Some (Inr (con', 0, take (nat n) (aap_stream con))) \<and>
    aap_ok con' \<and> aap_clean con' \<and> aap_stream con' = drop (nat n) (aap_stream con)"
  using conn.readAll_total [OF assms(1,2,4,3), of 0 "[]"] by (simp add: readAllAccessory_def)

theorem readAll_delivers_witness:
  "\<exists>con'. readAllAccessory demo_usb 4 = Some (Inr (con', 0, [1, 2, 3, 4])) \<and>
    aap_ok con' \<and> aap_clean con' \<and> aap_stream con' = [5]"
  using readAll_delivers [of demo_usb 4]
  by (simp add: demo_usb_def aap_defs usb_ok_def usb_clean_def usb_stream_def usb_out_ok_def)

text \<open>
  On a bluetooth connection whose peer has closed its end, \<open>readAllAccessory\<close> of one or
  more bytes never returns: \<open>read\<close> answers 0, the loop leaves its count and its condition
  unchanged, and asks again. The header file promises a non-zero value in case of error.
\<close>

theorem readAll_hangs_at_eof:
  assumes "physicalConnection con = BTConn c" and "readFn con = FnBT"
    and "bt_in c = BtEof # evs" and "0 < n"
  shows "readAllAccessory con n = None"
  unfolding readAllAccessory_def
proof (rule conn.readAll_eof_loops)
  fix n :: int
  have "con\<lparr>physicalConnection := BTConn c\<rparr> = con"
    using assms(1) by (cases con) simp
  then show "readAccessory con n = Inr (con, 0, [])"
    using assms(1-3) by (simp add: readAccessory_def)
qed (rule assms(4))

theorem readAll_hangs_at_eof_witness: "readAllAccessory demo_bt_eof 4 = None"
  by (rule readAll_hangs_at_eof [where evs = "[]" and
      c = "\<lparr>bt_fd = 5, bt_in = [BtEof], bt_out = [], bt_wire = []\<rparr>"]) (simp_all add: demo_bt_eof_def)

text \<open>
  C37: \<open>writeAllAccessory\<close> hands the transport a prefix of the caller's buffer, in order and
  without repetition, and the whole of it exactly when it returns 0; when the transport
  keeps accepting at least one byte per call it does return 0.
\<close>

theorem writeAll_exact:
  assumes "aap_ok con"
  shows "(\<forall>con' e. writeAllAccessory con buf n = Some (Inr (con', e)) \<longrightarrow> e \<le> 0 \<and>
      (\<exists>k \<le> nat n. aap_wire con' = aap_wire con @ take k buf \<and> (e = 0 \<longrightarrow> k = nat n))) \<and>
    (nat n \<le> length buf \<longrightarrow> nat n \<le> aap_ready con \<longrightarrow>
      (\<exists>con'. writeAllAccessory con buf n = Some (Inr (con', 0)) \<and>
        aap_wire con' = aap_wire con @ take (nat n) buf))"
  using conn_out.writeAll_sound [OF _ assms] conn_out.writeAll_total [OF assms, of n buf 0]
  unfolding writeAllAccessory_def by fastforce

theorem writeAll_exact_witness:
  "\<exists>con'. writeAllAccessory demo_usb [7, 8, 9] 3 = Some (Inr (con', 0)) \<and>
    aap_wire con' = [7, 8, 9]"
  using writeAll_exact [of demo_usb "[7, 8, 9]" 3]
  by (simp add: demo_usb_def aap_defs usb_ok_def usb_out_ok_def aap_ready_def usb_ready_def)

end
