(* ===== verification/Frames.thy ===== *)
theory Frames
  imports Transport MsgQueue
begin

text \<open>
  The two threads of \<open>bridge.c\<close> that move messages over the connection: \<open>receiver\<close> reads a
  header of four bytes (port and size, little endian) and then the body into a buffer of
  4000 bytes, and adds the message to the receive queue; \<open>sender\<close> polls the send queue and
  writes header and body. \<open>bridge->work\<close> is volatile and cleared by the other thread, so
  each test of the loop condition consumes one observed value from a list; a run over a
  finite list of observations is a prefix of an execution. The polled messages of the
  sender are a list too (the contract of the send queue, theory \<open>MsgQueue\<close>).
\<close>

section \<open>The receive thread\<close>

definition RECV_BUFFER :: nat where
  "RECV_BUFFER = 4000"

definition receiver_iter :: "aap \<Rightarrow> (aap \<times> int \<times> mmsg option) res option" where
  "receiver_iter con =
     (case readAllAccessory con 4 of
        None \<Rightarrow> None
      | Some (Inl f) \<Rightarrow> Some (Inl f)
      | Some (Inr (con1, error, hdr)) \<Rightarrow>
          if error \<noteq> 0 then Some (Inr (con1, error, None))
          else
            (let buffer = hdr @ replicate (RECV_BUFFER - length hdr) 0;
                 port = join_u8 (buffer ! 0) (buffer ! 1);
                 sz = join_u8 (buffer ! 2) (buffer ! 3)
             in case readAllAccessory con1 (sint sz) of
                  None \<Rightarrow> None
                | Some (Inl f) \<Rightarrow> Some (Inl f)
                | Some (Inr (con2, error, body)) \<Rightarrow>
                    if length body > RECV_BUFFER then Some (Inl OutOfBounds)
                    else if error \<noteq> 0 then Some (Inr (con2, error, None))
                    else if sint sz < 0
                    then Some (Inl NullPointer) \<comment> \<open>malloc of a size above PTRDIFF_MAX gives NULL\<close>
                    else Some (Inr (con2, 0,
                           Some \<lparr>msg_port = port, msg_size = sz, msg_data = body\<rparr>))))"

datatype thread_status =
    Stopped int
  | Running
  | Waiting
  | Hung
  | Crashed fault

text \<open>The result: the arguments of the calls of \<open>addreceivequeue\<close> in order, the connection, the status.\<close>

fun receiver :: "bool list \<Rightarrow> aap \<Rightarrow> int \<Rightarrow> mmsg option list \<times> aap \<times> thread_status" where
  "receiver [] con error = ([], con, Running)"
| "receiver (work # works) con error =
     (if work \<and> error = 0
      then (case receiver_iter con of
              None \<Rightarrow> ([], con, Hung)
            | Some (Inl f) \<Rightarrow> ([], con, Crashed f)
            | Some (Inr (con', error', msg)) \<Rightarrow>
                (case receiver works con' error' of (added, con'', status) \<Rightarrow>
                   ((case msg of None \<Rightarrow> added | Some m \<Rightarrow> Some m # added), con'', status)))
      else ([None], con, Stopped error))"

section \<open>The send thread\<close>

definition header_bytes :: "mmsg \<Rightarrow> byte list" where
  "header_bytes msg = [lo_byte (msg_port msg), hi_byte (msg_port msg),
     lo_byte (msg_size msg), hi_byte (msg_size msg)]"

definition sender_iter :: "aap \<Rightarrow> mmsg \<Rightarrow> (aap \<times> int) res option" where
  "sender_iter con msg =
     (case writeAllAccessory con (header_bytes msg) 4 of
        None \<Rightarrow> None
      | Some (Inl f) \<Rightarrow> Some (Inl f)
      | Some (Inr (con1, error)) \<Rightarrow>
          if error \<noteq> 0 then Some (Inr (con1, error))
          else writeAllAccessory con1 (msg_data msg) (sint (msg_size msg)))"

text \<open>
  \<open>alive\<close> is false once the loop itself has cleared \<open>bridge->work\<close> after a write error. The
  result: the connection, the final value of \<open>connectedToAndroid\<close>, the status.
\<close>

fun sender :: "bool list \<Rightarrow> mmsg option list \<Rightarrow> aap \<Rightarrow> bool \<Rightarrow> aap \<times> bool \<times> thread_status" where
  "sender [] polls con alive = (con, True, Running)"
| "sender (work # works) polls con alive =
     (if work \<and> alive
      then (case polls of
              [] \<Rightarrow> (con, True, Waiting)
            | None # polls' \<Rightarrow> (con, False, Stopped 0)
            | Some msg # polls' \<Rightarrow>
                (case sender_iter con msg of
                   None \<Rightarrow> (con, True, Hung)
                 | Some (Inl f) \<Rightarrow> (con, True, Crashed f)
                 | Some (Inr (con', error)) \<Rightarrow> sender works polls' con' (error = 0)))
      else (con, False, Stopped (if alive then 0 else 1)))"

section \<open>The frame of a message\<close>

definition frame :: "mmsg \<Rightarrow> byte list" where
  "frame msg = header_bytes msg @ msg_data msg"

definition well_sized :: "mmsg \<Rightarrow> bool" where
  "well_sized msg \<longleftrightarrow> sint (msg_size msg) = int (length (msg_data msg))"

definition fits :: "mmsg \<Rightarrow> bool" where
  "fits msg \<longleftrightarrow> well_sized msg \<and> length (msg_data msg) \<le> RECV_BUFFER"

lemma length_header [simp]: "length (header_bytes msg) = 4"
  by (simp add: header_bytes_def)

lemma readAllAccessory_total:
  assumes "aap_ok con" "aap_clean con" "n < 2 ^ 31" "nat n \<le> length (aap_stream con)"
  shows "\<exists>con'. readAllAccessory con n = Some (Inr (con', 0, take (nat n) (aap_stream con))) \<and>
    aap_ok con' \<and> aap_clean con' \<and> aap_stream con' = drop (nat n) (aap_stream con)"
  using conn.readAll_total [OF assms(1,2,4,3), of 0 "[]"] by (simp add: readAllAccessory_def)

lemma writeAllAccessory_total:
  assumes "aap_ok con" "nat n \<le> length buf" "nat n \<le> aap_ready con"
  shows "\<exists>con'. writeAllAccessory con buf n = Some (Inr (con', 0)) \<and> aap_ok con' \<and>
    aap_wire con' = aap_wire con @ take (nat n) buf \<and> aap_ready con \<le> aap_ready con' + nat n"
  using conn_out.writeAll_total [OF assms, of 0] by (auto simp: writeAllAccessory_def)

lemma sint_short_bound: "sint (w :: short) < 2 ^ 31" "- (2 ^ 15) \<le> sint w" "sint w < 2 ^ 15"
  using sint_lt [of w] sint_ge [of w] by simp_all

lemma receiver_iter_header:
  assumes con: "aap_ok con" "aap_clean con"
    and stream: "aap_stream con = [b0, b1, b2, b3] @ rest"
  obtains con1 where "readAllAccessory con 4 = Some (Inr (con1, 0, [b0, b1, b2, b3]))"
    "aap_ok con1" "aap_clean con1" "aap_stream con1 = rest"
  using readAllAccessory_total [OF con, of 4] stream by auto

lemma receiver_iter_frame:
  assumes con: "aap_ok con" "aap_clean con" and stream: "aap_stream con = frame msg @ rest"
    and fits: "fits msg"
  shows "\<exists>con'. receiver_iter con = Some (Inr (con', 0, Some msg)) \<and>
    aap_ok con' \<and> aap_clean con' \<and> aap_stream con' = rest"
proof -
  from stream obtain con1 where one: "readAllAccessory con 4 = Some (Inr (con1, 0, header_bytes msg))"
    "aap_ok con1" "aap_clean con1" "aap_stream con1 = msg_data msg @ rest"
    using receiver_iter_header [OF con] unfolding frame_def header_bytes_def
    by (metis append.assoc)
  from fits have sz: "sint (msg_size msg) = int (length (msg_data msg))"
    "length (msg_data msg) \<le> RECV_BUFFER"
    by (auto simp: fits_def well_sized_def)
  from readAllAccessory_total [OF one(2,3), of "sint (msg_size msg)"] one(4) sz
  obtain con2 where "readAllAccessory con1 (sint (msg_size msg)) = Some (Inr (con2, 0, msg_data msg))"
    "aap_ok con2" "aap_clean con2" "aap_stream con2 = rest"
    using sint_short_bound(1) [of "msg_size msg"] by auto
  with one(1) sz show ?thesis
    by (simp add: receiver_iter_def header_bytes_def Let_def)
qed

lemma receiver_frames:
  "aap_ok con \<Longrightarrow> aap_clean con \<Longrightarrow> aap_stream con = concat (map frame msgs) @ rest \<Longrightarrow>
     list_all fits msgs \<Longrightarrow>
     \<exists>con'. receiver (replicate (length msgs) True @ works) con 0
         = (map Some msgs @ fst (receiver works con' 0), snd (receiver works con' 0)) \<and>
       aap_ok con' \<and> aap_clean con' \<and> aap_stream con' = rest"
proof (induction msgs arbitrary: con)
  case Nil
  then show ?case by (intro exI [of _ con]) simp
next
  case (Cons msg msgs)
  then obtain con1 where one: "receiver_iter con = Some (Inr (con1, 0, Some msg))"
    "aap_ok con1" "aap_clean con1" "aap_stream con1 = concat (map frame msgs) @ rest"
    using receiver_iter_frame [of con msg "concat (map frame msgs) @ rest"] by auto
  with Cons.IH [OF one(2-4)] Cons.prems(4) show ?case by auto
qed

lemma sender_iter_frame:
  assumes "aap_ok con" and "well_sized msg" and "length (frame msg) \<le> aap_ready con"
  shows "\<exists>con'. sender_iter con msg = Some (Inr (con', 0)) \<and> aap_ok con' \<and>
    aap_wire con' = aap_wire con @ frame msg \<and>
    aap_ready con \<le> aap_ready con' + length (frame msg)"
proof -
  from writeAllAccessory_total [OF assms(1), of 4 "header_bytes msg"] assms(3)
  obtain con1 where one: "writeAllAccessory con (header_bytes msg) 4 = Some (Inr (con1, 0))"
    "aap_ok con1" "aap_wire con1 = aap_wire con @ header_bytes msg"
    "aap_ready con \<le> aap_ready con1 + 4"
    by (auto simp: frame_def)
  from writeAllAccessory_total [OF one(2), of "sint (msg_size msg)" "msg_data msg"] assms(2,3) one(4)
  obtain con2 where "writeAllAccessory con1 (msg_data msg) (sint (msg_size msg)) = Some (Inr (con2, 0))"
    "aap_ok con2" "aap_wire con2 = aap_wire con1 @ msg_data msg"
    "aap_ready con1 \<le> aap_ready con2 + length (msg_data msg)"
    by (auto simp: frame_def well_sized_def)
  with one show ?thesis by (simp add: sender_iter_def frame_def)
qed

lemma sender_frames:
  "aap_ok con \<Longrightarrow> list_all well_sized msgs \<Longrightarrow>
     length (concat (map frame msgs)) \<le> aap_ready con \<Longrightarrow>
     \<exists>con'. sender (replicate (length msgs) True @ works) (map Some msgs @ polls) con True
         = sender works polls con' True \<and> aap_ok con' \<and>
       aap_wire con' = aap_wire con @ concat (map frame msgs)"
proof (induction msgs arbitrary: con)
  case Nil
  then show ?case by auto
next
  case (Cons msg msgs)
  then obtain con1 where one: "sender_iter con msg = Some (Inr (con1, 0))" "aap_ok con1"
    "aap_wire con1 = aap_wire con @ frame msg"
    "aap_ready con \<le> aap_ready con1 + length (frame msg)"
    using sender_iter_frame [of con msg] by auto
  with Cons.IH [OF one(2)] Cons.prems(2,3) show ?case by auto
qed

section \<open>Properties\<close>

text \<open>Two ends of a USB connection for the witnesses, and a message.\<close>

definition demo_msg :: mmsg where
  "demo_msg = \<lparr>msg_port = 300, msg_size = 2, msg_data = [10, 20]\<rparr>"

definition demo_sender_end :: aap where
  "demo_sender_end = \<lparr>physicalConnection = USBConn \<lparr>dev_handle = 1, ep_in = 129, ep_out = 1,
       receiveBuffer = [], read_count = 0, startValidData = 0, buf_length = 0,
       usb_in = [], usb_out = replicate 6 (0, 3), usb_wire = []\<rparr>,
     readFn = FnUSB, writeFn = FnUSB, closeFn = FnUSB\<rparr>"

definition demo_bt_end :: "byte list list \<Rightarrow> aap" where
  "demo_bt_end chunks = \<lparr>physicalConnection = BTConn \<lparr>bt_fd = 5, bt_in = map BtData chunks,
       bt_out = [], bt_wire = []\<rparr>, readFn = FnBT, writeFn = FnBT, closeFn = FnBT\<rparr>"

text \<open>
  C1: the two threads are inverse to each other over the wire. If the sender polls a list of
  messages whose size field is their length and is at most 4000, it writes bytes from which
  a receiver on the other end, however they are cut into chunks on the way, adds exactly
  these messages, with their ports, in the same order.
\<close>

theorem frames_round_trip:
  assumes "aap_ok A" and "aap_wire A = []" and "list_all fits msgs"
    and "length (concat (map frame msgs)) \<le> aap_ready A"
  shows "\<exists>A'. sender (replicate (length msgs) True @ [True]) (map Some msgs) A True
       = (A', True, Waiting) \<and>
     (\<forall>B. aap_ok B \<and> aap_clean B \<and> aap_stream B = aap_wire A' \<longrightarrow>
       (\<exists>B'. receiver (replicate (length msgs) True) B 0 = (map Some msgs, B', Running) \<and>
          aap_stream B' = []))"
proof -
  have "list_all well_sized msgs"
    using assms(3) by (auto simp: list_all_iff fits_def)
  from sender_frames [OF assms(1) this assms(4), of "[True]" "[]"] assms(2)
  obtain A' where A': "sender (replicate (length msgs) True @ [True]) (map Some msgs) A True
       = (A', True, Waiting)" "aap_wire A' = concat (map frame msgs)"
    by auto
  moreover have "\<exists>B'. receiver (replicate (length msgs) True) B 0 = (map Some msgs, B', Running) \<and>
      aap_stream B' = []"
    if "aap_ok B" "aap_clean B" "aap_stream B = concat (map frame msgs)" for B
    using receiver_frames [of B msgs "[]" "[]"] that assms(3) by auto
  ultimately show ?thesis by auto
qed

theorem frames_round_trip_witness:
  "\<exists>A'. sender [True, True] [Some demo_msg] demo_sender_end True = (A', True, Waiting) \<and>
     (\<forall>B. aap_ok B \<and> aap_clean B \<and> aap_stream B = aap_wire A' \<longrightarrow>
       (\<exists>B'. receiver [True] B 0 = ([Some demo_msg], B', Running) \<and> aap_stream B' = []))"
proof -
  have "aap_ok demo_sender_end" "aap_wire demo_sender_end = []"
    by (simp_all add: demo_sender_end_def aap_defs usb_ok_def usb_out_ok_def list_all_iff)
  moreover have "list_all fits [demo_msg]"
    by (simp add: demo_msg_def fits_def well_sized_def RECV_BUFFER_def)
  moreover have "length (concat (map frame [demo_msg])) \<le> aap_ready demo_sender_end"
    by (simp add: demo_msg_def demo_sender_end_def frame_def aap_ready_def usb_ready_def)
  ultimately show ?thesis
    using frames_round_trip [of demo_sender_end "[demo_msg]"]
    by (simp del: sender.simps receiver.simps)
qed

text \<open>
  C8: the receive thread survives a frame exactly when the size in its header, read as a
  signed 16-bit number, is between 0 and 4000. A size of 0x8000 or more reaches
  \<open>memcpy\<close> with a null pointer, and one between 4001 and 32767 overflows the 4000-byte
  buffer as soon as the bytes it announces arrive; nothing checks the field.
\<close>

theorem receiver_survives_iff:
  assumes "aap_ok con" and "aap_clean con" and "aap_stream con = [b0, b1, b2, b3] @ body"
    and "sint (join_u8 b2 b3) \<le> int (length body)"
  shows "if sint (join_u8 b2 b3) < 0 then receiver_iter con = Some (Inl NullPointer)
    else if 4000 < sint (join_u8 b2 b3) then receiver_iter con = Some (Inl OutOfBounds)
    else \<exists>con'. receiver_iter con = Some (Inr (con', 0,
           Some \<lparr>msg_port = join_u8 b0 b1, msg_size = join_u8 b2 b3,
                 msg_data = take (nat (sint (join_u8 b2 b3))) body\<rparr>))"
proof -
  let ?n = "sint (join_u8 b2 b3)"
  from receiver_iter_header [OF assms(1-3)] obtain con1
    where one: "readAllAccessory con 4 = Some (Inr (con1, 0, [b0, b1, b2, b3]))"
      "aap_ok con1" "aap_clean con1" "aap_stream con1 = body" by auto
  have "\<exists>con2. readAllAccessory con1 ?n = Some (Inr (con2, 0, take (nat ?n) body))"
    using readAllAccessory_total [OF one(2,3), of ?n] sint_short_bound(1) [of "join_u8 b2 b3"]
      assms(4) one(4) by (auto simp: nat_le_iff)
  with one(1) assms(4) show ?thesis
    by (auto simp: receiver_iter_def Let_def RECV_BUFFER_def)
qed

theorem receiver_survives_iff_witness:
  "receiver_iter (demo_bt_end [[1, 0, 0], [128, 7]]) = Some (Inl NullPointer)"
  using receiver_survives_iff [of "demo_bt_end [[1, 0, 0], [128, 7]]" 1 0 0 128 "[7]"]
  by (simp add: demo_bt_end_def aap_defs bt_clean_def bt_stream_def join_u8_def)

text \<open>
  The receive thread adds a null pointer to the receive queue exactly once, as its last
  addition, and only when it stops; so the main loop that ends at the null pointer has taken
  every message that was received before.
\<close>

theorem receiver_null_comes_last:
  "\<exists>msgs. fst (receiver works con error) = map Some msgs @
     (case snd (snd (receiver works con error)) of Stopped e \<Rightarrow> [None] | _ \<Rightarrow> [])"
proof (induction works con error rule: receiver.induct)
  case (1 con error)
  show ?case by simp
next
  case (2 work works con error)
  show ?case
  proof (cases "work \<and> error = 0")
    case False
    then show ?thesis by auto
  next
    case True
    show ?thesis
    proof (cases "receiver_iter con")
      case None
      with True show ?thesis by simp
    next
      case (Some res)
      show ?thesis
      proof (cases res)
        case (Inl f)
        with True Some show ?thesis by simp
      next
        case (Inr t)
        obtain con' error' msg where t: "t = (con', error', msg)" by (cases t) auto
        from "2.IH" [OF True Some Inr t [symmetric] refl] obtain msgs where
          "fst (receiver works con' error') = map Some msgs @
             (case snd (snd (receiver works con' error')) of Stopped e \<Rightarrow> [None] | _ \<Rightarrow> [])"
          by blast
        then have "fst (receiver (work # works) con error) =
            map Some (case msg of None \<Rightarrow> msgs | Some m \<Rightarrow> m # msgs) @
            (case snd (snd (receiver (work # works) con error)) of Stopped e \<Rightarrow> [None] | _ \<Rightarrow> [])"
          using True Some Inr t by (auto split: prod.splits option.splits)
        then show ?thesis by blast
      qed
    qed
  qed
qed

end
