(* ===== verification/Services.thy ===== *)
theory Services
  imports Transport MsgQueue
begin

text \<open>
  The data the services of the bridge share: calls into the operating system and libdbus
  as a recorded trace, the private structs of the services, \<open>BridgeService\<close> and
  \<open>BridgeConnection\<close> of \<open>BridgeService.h\<close> and \<open>bridge.c\<close>, and \<open>writeAllPort\<close>.

  The results of external calls are not computed here: each operation that needs them
  takes them as an argument (a record of answers), over which the theorems quantify.
\<close>

section \<open>External calls\<close>

datatype dbusval =
    DByte byte
  | DBool uint32
  | DInt16 short
  | DUint16 short
  | DInt32 uint32
  | DUint32 uint32
  | DInt64 "64 word"
  | DUint64 "64 word"
  | DDouble "64 word"
  | DString "byte list"

datatype extcall =
    Mkdir string
  | Mkdtemp string
  | Mkfifo string
  | OpenRead string int
  | OpenWrite string int
  | SetBlocking int
  | CloseFd int
  | RemoveFile string
  | Rmdir string
  | WriteFd int "byte list"
  | ThreadCreate nat
  | ThreadJoin nat
  | ThreadDetach nat
  | DbusCall "byte list" "byte list" "byte list" "byte list" "dbusval list"
  | AddMatch nat "byte list"
  | RemoveMatch nat "byte list"
  | ConnectionUnref nat
  | MutexDestroy nat

section \<open>The private data of the services\<close>

record bulk =
  bulk_service :: nat
  tmpdir :: "string option"
  fifoToPayloadFD :: int
  fifoToAndroidFD :: int
  bulkTransferThread :: nat
  startLock :: nat
  threadStarted :: bool

record signals =
  sig_service :: nat
  sig_con :: nat
  dbusSignalWatcher :: nat
  sig_work :: bool
  sig_startLock :: nat

record methods =
  meth_con :: nat
  meth_service :: nat

record spawn_data =
  startingLock :: nat

text \<open>What \<open>service_data\<close> points to; the null pointer is \<open>None\<close> of an option.\<close>

datatype sdata =
    SD_Bridge
  | SD_Spawn spawn_data
  | SD_Bulk bulk
  | SD_Methods methods
  | SD_Signals signals

section \<open>BridgeService and BridgeConnection\<close>

text \<open>
  The functions a service points to: those the code stores in \<open>onBytesReceived\<close>, in \<open>onEof\<close>
  and in \<open>onCleanupService\<close> (where \<open>initServer\<close> stores \<open>KeepaliveOnEof\<close> for the keepalive).
\<close>

datatype recv_fn =
    FnPortStatusOnBytesReceived
  | FnServiceSpawnerOnBytesReceived
  | FnKeepaliveOnBytesReceived
  | FnBulkOnBytesReceived
  | FnMethodOnBytesReceived
  | FnSignalsOnBytesReceived

datatype eof_fn =
    FnPortStatusOnEof
  | FnServiceSpawnerOnEof
  | FnKeepaliveOnEof
  | FnBulkOnEof
  | FnMethodOnEof
  | FnSignalsOnEof

datatype cleanup_fn =
    FnPortStatusCleanup
  | FnServiceSpawnerCleanup
  | FnKeepaliveOnEofAsCleanup
  | FnBulkCleanup
  | FnMethodCleanup
  | FnSignalsCleanup

record service =
  port :: short
  service_data :: "sdata option"
  inputOpen :: bool
  outputOpen :: bool
  onBytesReceived :: "recv_fn option"
  onEof :: "eof_fn option"
  onCleanupService :: "cleanup_fn option"

definition MAX_PORTS :: int where
  "MAX_PORTS = 400"

text \<open>
  The back pointer \<open>service->bridge\<close> is the state itself. \<open>sendq\<close> are the pointers given to
  \<open>addSendQueue\<close> so far, in order; \<open>ext\<close> are the external calls made so far, in order.
\<close>

record bridge =
  services :: "service list"
  portStatusService :: nat
  lastAllocatedPort :: short
  work :: bool
  connectedToAndroid :: bool
  sendq :: "mmsg option list"
  ext :: "extcall list"

text \<open>\<open>&bridge->services[i]\<close>, with the bounds of the array made visible.\<close>

definition svc_at :: "bridge \<Rightarrow> int \<Rightarrow> service res" where
  "svc_at b i = (if 0 \<le> i \<and> nat i < length (services b) then Inr (services b ! nat i)
                 else Inl OutOfBounds)"

definition upd_svc :: "nat \<Rightarrow> (service \<Rightarrow> service) \<Rightarrow> bridge \<Rightarrow> bridge" where
  "upd_svc i f b = b\<lparr>services := (services b)[i := f (services b ! i)]\<rparr>"

definition add_ext :: "extcall list \<Rightarrow> bridge \<Rightarrow> bridge" where
  "add_ext cs b = b\<lparr>ext := ext b @ cs\<rparr>"

definition NO_PORT :: short where
  "NO_PORT = -1"

section \<open>Writing to the other side\<close>

text \<open>
  \<open>msg->size = size\<close> narrows an \<open>int\<close> to a \<open>short\<close>; \<open>memcpy\<close> copies \<open>size\<close> bytes of the
  caller's buffer.
\<close>

definition port_message :: "short \<Rightarrow> byte list \<Rightarrow> mmsg" where
  "port_message p buffer = \<lparr>msg_port = p, msg_size = word_of_int (int (length buffer)),
     msg_data = buffer\<rparr>"

definition writeAllPort :: "nat \<Rightarrow> byte list \<Rightarrow> bridge \<Rightarrow> bridge" where
  "writeAllPort i buffer b =
     b\<lparr>sendq := sendq b @ [Some (port_message (port (services b ! i)) buffer)]\<rparr>"

section \<open>Frame lemmas\<close>

lemma upd_svc_simps [simp]:
  "length (services (upd_svc i f b)) = length (services b)"
  "portStatusService (upd_svc i f b) = portStatusService b"
  "lastAllocatedPort (upd_svc i f b) = lastAllocatedPort b"
  "sendq (upd_svc i f b) = sendq b"
  "ext (upd_svc i f b) = ext b"
  "work (upd_svc i f b) = work b"
  by (simp_all add: upd_svc_def)

lemma services_upd_svc [simp]:
  "i < length (services b) \<Longrightarrow> services (upd_svc i f b) ! j =
     (if i = j then f (services b ! i) else services b ! j)"
  by (simp add: upd_svc_def)

lemma add_ext_simps [simp]:
  "services (add_ext cs b) = services b"
  "portStatusService (add_ext cs b) = portStatusService b"
  "lastAllocatedPort (add_ext cs b) = lastAllocatedPort b"
  "sendq (add_ext cs b) = sendq b"
  "ext (add_ext cs b) = ext b @ cs"
  "work (add_ext cs b) = work b"
  by (simp_all add: add_ext_def)

lemma writeAllPort_simps [simp]:
  "services (writeAllPort i buf b) = services b"
  "portStatusService (writeAllPort i buf b) = portStatusService b"
  "lastAllocatedPort (writeAllPort i buf b) = lastAllocatedPort b"
  "ext (writeAllPort i buf b) = ext b"
  "work (writeAllPort i buf b) = work b"
  by (simp_all add: writeAllPort_def)

lemma svc_at_Inr_iff [res_simps]:
  "svc_at b i = Inr s \<longleftrightarrow> 0 \<le> i \<and> nat i < length (services b) \<and> s = services b ! nat i"
  by (auto simp: svc_at_def)

lemma svc_at_in [simp]:
  "i < length (services b) \<Longrightarrow> svc_at b (int i) = Inr (services b ! i)"
  by (simp add: svc_at_def)

end
