(* ===== verification/Bulk.thy ===== *)
theory Bulk
  imports Services "HOL-Library.Multiset"
begin

text \<open>
  \<open>bulkTransfer.c\<close>: the two fifos of a bulk transfer, the request to the payload over
  D-Bus, the data in the direction of the payload, end of file and cleanup. (The thread that
  copies the other direction calls back into the bridge; it is in the theory \<open>Bridge\<close>.)
  The answers of the system calls and of libdbus are the record \<open>bulk_env\<close>.
\<close>

record bulk_env =
  be_mkdtemp :: string       \<comment> \<open>what \<open>mkdtemp\<close> puts for \<open>XXXXXX\<close>\<close>
  be_mkfifo_payload :: int
  be_mkfifo_android :: int
  be_msg_ok :: bool          \<comment> \<open>\<open>dbus_message_new_method_call\<close> is not NULL\<close>
  be_con_ok :: bool          \<comment> \<open>\<open>dbus_bus_get\<close> is not NULL\<close>
  be_pending_ok :: bool      \<comment> \<open>the pending call is not NULL\<close>
  be_reply_error :: bool     \<comment> \<open>the reply has an error name\<close>
  be_open_android :: int
  be_open_payload :: int
  be_thread :: nat

text \<open>\<open>sprintf(buf, "%s/...", bulk->tmpdir)\<close> into \<open>char buf[100]\<close>.\<close>

definition fifo_path :: "string option \<Rightarrow> string \<Rightarrow> string res" where
  "fifo_path dir name =
     (case dir of None \<Rightarrow> Inl NullPointer
      | Some d \<Rightarrow> if length (d @ ''/'' @ name) < 100 then Inr (d @ ''/'' @ name)
                  else Inl OutOfBounds)"

definition BulkCleanup :: "nat \<Rightarrow> bulk \<Rightarrow> extcall list res" where
  "BulkCleanup self bulk =
     bind_res (fifo_path (tmpdir bulk) ''fifoToPayload'') (\<lambda>fifoToPayloadPath.
     bind_res (fifo_path (tmpdir bulk) ''fifoToAndroid'') (\<lambda>fifoToAndroidPath.
       Inr ((if fifoToAndroidFD bulk \<noteq> -1 then [CloseFd (fifoToAndroidFD bulk)] else [])
          @ (if fifoToPayloadFD bulk \<noteq> -1 then [CloseFd (fifoToPayloadFD bulk)] else [])
          @ [RemoveFile fifoToAndroidPath, RemoveFile fifoToPayloadPath]
          @ (case tmpdir bulk of None \<Rightarrow> [] | Some d \<Rightarrow> [Rmdir d])
          @ (if threadStarted bulk
             then (if self = bulkTransferThread bulk
                   then [ThreadDetach (bulkTransferThread bulk)]
                   else [ThreadJoin (bulkTransferThread bulk)])
             else []))))"

text \<open>
  \<open>notifyPayload\<close>: whether the pending call is non-NULL, and the calls made. The strings
  are read by libdbus.
\<close>

definition notifyPayload ::
    "bulk_env \<Rightarrow> byte list \<Rightarrow> byte list \<Rightarrow> byte list \<Rightarrow> string \<Rightarrow> string
     \<Rightarrow> (bool \<times> extcall list) res" where
  "notifyPayload env busname objectpath arguments_for_payload fifoToPayloadPath fifoToAndroidPath =
     bind_res (c_str busname) (\<lambda>bus.
     bind_res (c_str objectpath) (\<lambda>path.
       if \<not> be_msg_ok env \<or> \<not> be_con_ok env then Inr (False, [])
       else bind_res (c_str arguments_for_payload) (\<lambda>args.
         Inr (be_pending_ok env,
              [DbusCall bus path (bytes_of ''nl.ict.aapbridge.bulk'') (bytes_of ''onBulkRequest'')
                 [DString (bytes_of fifoToPayloadPath), DString (bytes_of fifoToAndroidPath),
                  DString args]]))))"

definition checkPayloadResponse :: "bulk_env \<Rightarrow> int" where
  "checkPayloadResponse env = (if be_reply_error env then 1 else 0)"

text \<open>
  \<open>give_up\<close> is the \<open>BulkCleanup(bulk, NULL); return NULL;\<close> of every failed step.
\<close>

definition give_up :: "nat \<Rightarrow> bulk \<Rightarrow> extcall list \<Rightarrow> (bulk option \<times> extcall list) res" where
  "give_up self bulk calls = bind_res (BulkCleanup self bulk) (\<lambda>cs. Inr (None, calls @ cs))"

definition BulkInitInternal ::
    "bulk_env \<Rightarrow> nat \<Rightarrow> nat \<Rightarrow> nat \<Rightarrow> byte list \<Rightarrow> byte list \<Rightarrow> byte list
     \<Rightarrow> (bulk option \<times> extcall list) res" where
  "BulkInitInternal env self service lock busname objectpath arguments_for_payload =
     (let dir = ''/tmp/aap-bridge/bulk/'' @ be_mkdtemp env;
          bulk = \<lparr>bulk_service = service, tmpdir = Some dir, fifoToPayloadFD = -1,
                  fifoToAndroidFD = -1, bulkTransferThread = 0, startLock = lock,
                  threadStarted = False\<rparr>;
          calls0 = [Mkdir ''/tmp/aap-bridge'', Mkdir ''/tmp/aap-bridge/bulk'', Mkdtemp dir]
      in
      bind_res (fifo_path (Some dir) ''fifoToPayload'') (\<lambda>fifoToPayloadPath.
      let calls1 = calls0 @ [Mkfifo fifoToPayloadPath] in
      if be_mkfifo_payload env \<noteq> 0 then give_up self bulk calls1 else
      bind_res (fifo_path (Some dir) ''fifoToAndroid'') (\<lambda>fifoToAndroidPath.
      let calls2 = calls1 @ [Mkfifo fifoToAndroidPath] in
      if be_mkfifo_android env \<noteq> 0 then give_up self bulk calls2 else
      bind_res (notifyPayload env busname objectpath arguments_for_payload
                  fifoToPayloadPath fifoToAndroidPath) (\<lambda>(pending, cs).
      let calls3 = calls2 @ cs in
      if \<not> pending then give_up self bulk calls3 else
      if checkPayloadResponse env \<noteq> 0 then give_up self bulk calls3 else
      let bulk = bulk\<lparr>fifoToAndroidFD := be_open_android env\<rparr>;
          calls4 = calls3 @ [OpenRead fifoToAndroidPath (be_open_android env)] in
      if fifoToAndroidFD bulk = -1 then give_up self bulk calls4 else
      let bulk = bulk\<lparr>fifoToPayloadFD := be_open_payload env\<rparr>;
          calls5 = calls4 @ [OpenWrite fifoToPayloadPath (be_open_payload env)] in
      if fifoToPayloadFD bulk = -1 then give_up self bulk calls5 else
      Inr (Some (bulk\<lparr>bulkTransferThread := be_thread env, threadStarted := True\<rparr>),
           calls5 @ [SetBlocking (fifoToAndroidFD bulk), ThreadCreate (be_thread env)])))))"

definition BulkInit ::
    "bulk_env \<Rightarrow> nat \<Rightarrow> nat \<Rightarrow> nat \<Rightarrow> byte list \<Rightarrow> (bulk option \<times> extcall list) res" where
  "BulkInit env self service lock arguments =
     bind_res (skip_str arguments) (\<lambda>objectpath.
     bind_res (skip_str objectpath) (\<lambda>arguments_for_payload.
       BulkInitInternal env self service lock arguments objectpath arguments_for_payload))"

text \<open>
  The loop of \<open>BulkOnBytesReceived\<close>. \<open>write\<close> gets the same \<open>buffer\<close> in every round. The
  result: the writes made, and whether the loop ended with the error that sends a CLOSE.
\<close>

fun bulk_write_loop :: "int \<Rightarrow> byte list \<Rightarrow> int \<Rightarrow> wr_event list \<Rightarrow> (extcall list \<times> bool) res" where
  "bulk_write_loop fd buffer sz [] = (if sz > 0 then Inl Blocked else Inr ([], False))"
| "bulk_write_loop fd buffer sz (ev # evs) =
     (if sz > 0
      then (case ev of
              WrErr \<Rightarrow> Inr ([], True)
            | WrAccept k \<Rightarrow>
                (let wrote = min k (nat sz)
                 in bind_res (bulk_write_loop fd buffer (sz - int wrote) evs) (\<lambda>(cs, err).
                      Inr (WriteFd fd (take wrote buffer) # cs, err))))
      else Inr ([], False))"

definition BulkOnEof :: "bulk \<Rightarrow> bulk \<times> extcall list" where
  "BulkOnEof bulk = (bulk\<lparr>fifoToPayloadFD := -1\<rparr>, [CloseFd (fifoToPayloadFD bulk)])"


section \<open>File descriptors and paths over a trace of calls\<close>

text \<open>
  \<open>fd_run\<close> replays a trace on the multiset of open descriptors; closing one that is not
  open gives \<open>None\<close>. \<open>paths_left\<close> are the files and directories that were made and not
  removed.
\<close>

fun fd_step :: "extcall \<Rightarrow> int multiset \<Rightarrow> int multiset option" where
  "fd_step (OpenRead path fd) F = Some (if fd = -1 then F else add_mset fd F)"
| "fd_step (OpenWrite path fd) F = Some (if fd = -1 then F else add_mset fd F)"
| "fd_step (CloseFd fd) F = (if fd \<in># F then Some (F - {#fd#}) else None)"
| "fd_step _ F = Some F"

fun fd_run :: "extcall list \<Rightarrow> int multiset \<Rightarrow> int multiset option" where
  "fd_run [] F = Some F"
| "fd_run (c # cs) F = (case fd_step c F of None \<Rightarrow> None | Some F' \<Rightarrow> fd_run cs F')"

fun paths_left :: "extcall list \<Rightarrow> string set \<Rightarrow> string set" where
  "paths_left [] P = P"
| "paths_left (Mkdtemp d # cs) P = paths_left cs (insert d P)"
| "paths_left (Mkfifo d # cs) P = paths_left cs (insert d P)"
| "paths_left (RemoveFile d # cs) P = paths_left cs (P - {d})"
| "paths_left (Rmdir d # cs) P = paths_left cs (P - {d})"
| "paths_left (_ # cs) P = paths_left cs P"

lemma fd_run_append:
  "fd_run (cs @ ds) F = (case fd_run cs F of None \<Rightarrow> None | Some F' \<Rightarrow> fd_run ds F')"
  by (induction cs arbitrary: F) (auto split: option.splits)

lemma paths_left_append: "paths_left (cs @ ds) P = paths_left ds (paths_left cs P)"
  by (induction cs P rule: paths_left.induct) auto

definition bulk_paths :: "string \<Rightarrow> string set" where
  "bulk_paths d = {d, d @ ''/'' @ ''fifoToPayload'', d @ ''/'' @ ''fifoToAndroid''}"

definition bulk_fds :: "bulk \<Rightarrow> int multiset" where
  "bulk_fds b = filter_mset (\<lambda>fd. fd \<noteq> -1) {#fifoToAndroidFD b, fifoToPayloadFD b#}"

lemma fifo_path_Inr_iff [res_simps]:
  "fifo_path dir name = Inr p \<longleftrightarrow>
     (\<exists>d. dir = Some d \<and> length d + 1 + length name < 100 \<and> p = d @ ''/'' @ name)"
  by (auto simp: fifo_path_def split: option.splits)

text \<open>Cleanup closes what the struct holds and removes what \<open>BulkInitInternal\<close> made.\<close>

lemma BulkCleanup_releases:
  assumes "BulkCleanup self b = Inr cs" and "tmpdir b = Some d"
    and "bulk_fds b \<subseteq># F" and "P \<subseteq> bulk_paths d"
  shows "fd_run cs F = Some (F - bulk_fds b) \<and> paths_left cs P = {}"
  using assms
  by (auto simp: BulkCleanup_def res_simps bulk_fds_def bulk_paths_def fd_run_append
      paths_left_append insert_subset_eq_iff add_mset_commute dest: mset_subset_eqD split: if_splits)

lemma BulkCleanup_total:
  assumes "tmpdir b = Some d" and "length d < 86"
  shows "\<exists>cs. BulkCleanup self b = Inr cs"
  using assms by (auto simp: BulkCleanup_def fifo_path_def)


lemma give_up_releases:
  assumes "give_up self b calls = Inr (r, cs)" and "tmpdir b = Some d"
    and "fd_run calls {#} = Some (bulk_fds b)" and "paths_left calls {} \<subseteq> bulk_paths d"
  shows "r = None \<and> fd_run cs {#} = Some {#} \<and> paths_left cs {} = {}"
proof -
  from assms(1) obtain ds where ds: "BulkCleanup self b = Inr ds" "r = None" "cs = calls @ ds"
    by (auto simp: give_up_def res_simps)
  from BulkCleanup_releases [OF ds(1) assms(2) _ assms(4), of "bulk_fds b"] ds(2,3) assms(3)
  show ?thesis by (simp add: fd_run_append paths_left_append)
qed

lemma notifyPayload_frame:
  "notifyPayload env bus path args p q = Inr (r, cs) \<Longrightarrow>
     fd_run cs F = Some F \<and> paths_left cs P = P"
  by (auto simp: notifyPayload_def res_simps split: if_splits)

text \<open>
  \<open>releases res\<close> is what every exit of \<open>BulkInitInternal\<close> establishes; \<open>holds b calls\<close> is
  what is true between its steps.
\<close>

definition holds :: "bulk \<Rightarrow> extcall list \<Rightarrow> bool" where
  "holds b calls \<longleftrightarrow> fd_run calls {#} = Some (bulk_fds b) \<and>
     (\<exists>d. tmpdir b = Some d \<and> length d < 86 \<and> paths_left calls {} \<subseteq> bulk_paths d)"

definition releases :: "nat \<Rightarrow> nat \<Rightarrow> (bulk option \<times> extcall list) res \<Rightarrow> bool" where
  "releases sv lock res \<longleftrightarrow> (\<forall>r calls. res = Inr (r, calls) \<longrightarrow>
     (case r of None \<Rightarrow> fd_run calls {#} = Some {#} \<and> paths_left calls {} = {}
      | Some b \<Rightarrow> holds b calls \<and> bulk_service b = sv \<and> startLock b = lock \<and>
          threadStarted b \<and> fifoToPayloadFD b \<noteq> -1 \<and> fifoToAndroidFD b \<noteq> -1))"

lemma releases_bind:
  "(\<And>x. m = Inr x \<Longrightarrow> releases sv lock (f x)) \<Longrightarrow> releases sv lock (bind_res m f)"
  by (auto simp: releases_def res_simps)

lemma releases_if:
  "(c \<Longrightarrow> releases sv lock x) \<Longrightarrow> (\<not> c \<Longrightarrow> releases sv lock y) \<Longrightarrow> releases sv lock (if c then x else y)"
  by simp

lemma releases_give_up: "holds b calls \<Longrightarrow> releases sv lock (give_up self b calls)"
  by (auto simp: releases_def holds_def split: option.splits dest: give_up_releases)

lemma holds_append:
  "holds b calls \<Longrightarrow> (\<And>F. fd_run cs F = Some F) \<Longrightarrow> (\<And>P. paths_left cs P = P) \<Longrightarrow> holds b (calls @ cs)"
  by (auto simp: holds_def fd_run_append paths_left_append)

lemma holds_open:
  "holds b calls \<Longrightarrow> fifoToAndroidFD b = -1 \<Longrightarrow> fifoToPayloadFD b = -1 \<Longrightarrow>
     holds (b\<lparr>fifoToAndroidFD := fd\<rparr>) (calls @ [OpenRead p fd])"
  "holds b calls \<Longrightarrow> fifoToPayloadFD b = -1 \<Longrightarrow>
     holds (b\<lparr>fifoToPayloadFD := fd\<rparr>) (calls @ [OpenWrite p fd])"
  by (auto simp: holds_def fd_run_append paths_left_append bulk_fds_def add_mset_commute)

lemma releases_prod:
  "(\<And>a b. x = (a, b) \<Longrightarrow> releases sv lock (f a b)) \<Longrightarrow> releases sv lock (case x of (a, b) \<Rightarrow> f a b)"
  by (cases x) simp

lemma releases_success:
  "holds b calls \<Longrightarrow> bulk_service b = sv \<Longrightarrow> startLock b = lock \<Longrightarrow> fifoToPayloadFD b \<noteq> -1 \<Longrightarrow>
     fifoToAndroidFD b \<noteq> -1 \<Longrightarrow>
     releases sv lock (Inr (Some (b\<lparr>bulkTransferThread := t, threadStarted := True\<rparr>),
       calls @ [SetBlocking fd, ThreadCreate t]))"
  by (auto simp: releases_def holds_def fd_run_append paths_left_append bulk_fds_def)

lemma holds_start:
  assumes "tmpdir b = Some d" and "fifoToPayloadFD b = -1" and "fifoToAndroidFD b = -1"
    and "fifo_path (Some d) ''fifoToPayload'' = Inr p"
  shows "holds b ([Mkdir x, Mkdir y, Mkdtemp d] @ [Mkfifo p])"
    and "fifo_path (Some d) ''fifoToAndroid'' = Inr q \<Longrightarrow>
      holds b (([Mkdir x, Mkdir y, Mkdtemp d] @ [Mkfifo p]) @ [Mkfifo q])"
  using assms by (auto simp: holds_def res_simps bulk_fds_def bulk_paths_def)

lemma BulkInitInternal_releases:
  "releases sv lock (BulkInitInternal env self sv lock bus path args)"
proof -
  define b0 where "b0 = \<lparr>bulk_service = sv,
    tmpdir = Some (''/tmp/aap-bridge/bulk/'' @ be_mkdtemp env), fifoToPayloadFD = -1,
    fifoToAndroidFD = -1, bulkTransferThread = 0, startLock = lock, threadStarted = False\<rparr>"
  have b0: "tmpdir b0 = Some (''/tmp/aap-bridge/bulk/'' @ be_mkdtemp env)"
    "fifoToPayloadFD b0 = -1" "fifoToAndroidFD b0 = -1" "bulk_service b0 = sv"
    "startLock b0 = lock"
    by (simp_all add: b0_def)
  note started = holds_start [OF b0(1-3)]
  have notified: "notifyPayload env bus path args p q = Inr (r, cs) \<Longrightarrow> holds b0 calls \<Longrightarrow>
      holds b0 (calls @ cs)" for p q r cs calls
    by (rule holds_append) (simp_all add: notifyPayload_frame)
  show ?thesis
    unfolding BulkInitInternal_def Let_def b0_def [symmetric]
    by (intro releases_bind releases_if releases_prod releases_give_up releases_success)
      (assumption | rule started(1) started(2) holds_open notified | (simp add: b0; fail))+
qed


lemma holds_cleanup:
  assumes "holds b calls"
  shows "\<exists>cs. BulkCleanup self b = Inr cs \<and> fd_run (calls @ cs) {#} = Some {#} \<and>
    paths_left (calls @ cs) {} = {}"
proof -
  from assms obtain d where d: "tmpdir b = Some d" "length d < 86"
    "fd_run calls {#} = Some (bulk_fds b)" "paths_left calls {} \<subseteq> bulk_paths d"
    by (auto simp: holds_def)
  from BulkCleanup_total [OF d(1,2)] obtain cs where cs: "BulkCleanup self b = Inr cs" by blast
  with BulkCleanup_releases [OF cs d(1) _ d(4), of "bulk_fds b"] d(3)
  show ?thesis by (auto simp: fd_run_append paths_left_append)
qed

lemma holds_eof:
  "holds b calls \<Longrightarrow> fifoToPayloadFD b \<noteq> -1 \<Longrightarrow>
     holds (fst (BulkOnEof b)) (calls @ snd (BulkOnEof b))"
  by (auto simp: holds_def BulkOnEof_def fd_run_append paths_left_append bulk_fds_def)

text \<open>
  C19: a bulk transfer leaks nothing and closes nothing twice. A \<open>BulkInit\<close> that gives up,
  at whichever step, has closed each descriptor it opened exactly once and removed its fifos
  and its directory; one that succeeds holds the two open fifos, and cleaning it up, with or
  without an end of file from Android in between, and on whichever thread, does the same.
\<close>

theorem bulk_releases_everything:
  assumes "BulkInit env self sv lock arguments = Inr (r, calls)"
  shows "case r of
      None \<Rightarrow> fd_run calls {#} = Some {#} \<and> paths_left calls {} = {}
    | Some b \<Rightarrow>
        (\<exists>cs. BulkCleanup who b = Inr cs \<and>
           fd_run (calls @ cs) {#} = Some {#} \<and> paths_left (calls @ cs) {} = {}) \<and>
        (\<exists>cs. BulkCleanup who (fst (BulkOnEof b)) = Inr cs \<and>
           fd_run ((calls @ snd (BulkOnEof b)) @ cs) {#} = Some {#} \<and>
           paths_left ((calls @ snd (BulkOnEof b)) @ cs) {} = {})"
proof -
  from assms have "releases sv lock (Inr (r, calls))"
    unfolding BulkInit_def bind_res_Inr_iff by (metis BulkInitInternal_releases)
  then show ?thesis
    by (auto simp: releases_def holds_cleanup holds_eof simp del: append_assoc
        split: option.splits)
qed

definition demo_bulk_env :: bulk_env where
  "demo_bulk_env = \<lparr>be_mkdtemp = ''a1b2c3'', be_mkfifo_payload = 0, be_mkfifo_android = 0,
     be_msg_ok = True, be_con_ok = True, be_pending_ok = True, be_reply_error = False,
     be_open_android = 7, be_open_payload = 8, be_thread = 3\<rparr>"

theorem bulk_releases_everything_witness:
  "\<exists>b calls. BulkInit demo_bulk_env 1 5 9 (bytes_of ''p'' @ 0 # bytes_of ''/o'' @ 0 # [0]) =
       Inr (Some b, calls) \<and> fifoToPayloadFD b = 8 \<and>
     (\<exists>cs. BulkCleanup 1 b = Inr cs \<and> fd_run (calls @ cs) {#} = Some {#})"
proof -
  obtain b calls where run:
    "BulkInit demo_bulk_env 1 5 9 (bytes_of ''p'' @ 0 # bytes_of ''/o'' @ 0 # [0]) =
       Inr (Some b, calls)" and fd: "fifoToPayloadFD b = 8"
    by (simp add: BulkInit_def BulkInitInternal_def demo_bulk_env_def Let_def fifo_path_def
        notifyPayload_def checkPayloadResponse_def bytes_of_def skip_str_def c_str_def)
  with bulk_releases_everything [OF run, of 1] show ?thesis by auto
qed

lemma fifo_path_short:
  "length d < 86 \<Longrightarrow> length name \<le> 13 \<Longrightarrow> fifo_path (Some d) name = Inr (d @ ''/'' @ name)"
  by (simp add: fifo_path_def)

lemma give_up_total:
  "tmpdir b = Some d \<Longrightarrow> length d < 86 \<Longrightarrow> \<exists>cs. give_up self b calls = Inr (None, cs)"
  using BulkCleanup_total [of b d self] by (auto simp: give_up_def)

text \<open>
  For a request that holds three C strings, \<open>BulkInit\<close> runs to its end without any
  undefined behaviour, and when it succeeds it has asked the named object, over D-Bus, to
  open exactly the two fifos it made, with the arguments of the request.
\<close>

theorem BulkInit_notifies_payload:
  assumes "0 \<notin> set bus" and "0 \<notin> set path" and "0 \<notin> set args"
    and "length (be_mkdtemp env) = 6"
  shows "\<exists>r calls. BulkInit env self sv lock (bus @ 0 # path @ 0 # args @ 0 # rest) = Inr (r, calls) \<and>
    (r \<noteq> None \<longrightarrow> (\<exists>p q. {Mkfifo p, OpenWrite p (be_open_payload env),
        Mkfifo q, OpenRead q (be_open_android env),
        DbusCall bus path (bytes_of ''nl.ict.aapbridge.bulk'') (bytes_of ''onBulkRequest'')
          [DString (bytes_of p), DString (bytes_of q), DString args]} \<subseteq> set calls))"
proof -
  define d where "d = ''/tmp/aap-bridge/bulk/'' @ be_mkdtemp env"
  have short: "length d < 86" using assms(4) by (simp add: d_def)
  have paths: "fifo_path (Some d) ''fifoToPayload'' = Inr (d @ ''/'' @ ''fifoToPayload'')"
    "fifo_path (Some d) ''fifoToAndroid'' = Inr (d @ ''/'' @ ''fifoToAndroid'')"
    by (rule fifo_path_short [OF short]; simp)+
  have stop: "\<exists>cs. give_up self b calls = Inr (None, cs)" if "tmpdir b = Some d" for b calls
    using give_up_total [OF that short] .
  have strs: "c_str (bus @ 0 # q) = Inr bus" "c_str (path @ 0 # q) = Inr path"
    "c_str (args @ 0 # q) = Inr args" "skip_str (bus @ 0 # q) = Inr q"
    "skip_str (path @ 0 # q) = Inr q" for q
    using assms(1-3) by (simp_all add: res_simps)
  have notify: "bind_res (notifyPayload env (bus @ 0 # u) (path @ 0 # v) (args @ 0 # w) p q) f =
      (if \<not> be_msg_ok env \<or> \<not> be_con_ok env then f (False, [])
       else f (be_pending_ok env,
         [DbusCall bus path (bytes_of ''nl.ict.aapbridge.bulk'') (bytes_of ''onBulkRequest'')
            [DString (bytes_of p), DString (bytes_of q), DString args]]))" for u v w p q f
    by (simp add: notifyPayload_def strs)
  define Q where "Q res \<longleftrightarrow> (\<exists>r calls. res = Inr (r, calls) \<and> (r \<noteq> None \<longrightarrow>
      (\<exists>p q. {Mkfifo p, OpenWrite p (be_open_payload env), Mkfifo q,
        OpenRead q (be_open_android env),
        DbusCall bus path (bytes_of ''nl.ict.aapbridge.bulk'') (bytes_of ''onBulkRequest'')
          [DString (bytes_of p), DString (bytes_of q), DString args]} \<subseteq> set calls)))"
    for res :: "(bulk option \<times> extcall list) res"
  have Q_if: "(c \<Longrightarrow> Q x) \<Longrightarrow> (\<not> c \<Longrightarrow> Q y) \<Longrightarrow> Q (if c then x else y)" for c x y
    by simp
  have Q_stop: "tmpdir b = Some d \<Longrightarrow> Q (give_up self b calls)" for b calls
    using stop [of b calls] by (auto simp: Q_def)
  have "Q (BulkInit env self sv lock (bus @ 0 # path @ 0 # args @ 0 # rest))"
    unfolding BulkInit_def BulkInitInternal_def Let_def d_def [symmetric] strs paths
      bind_res.simps notify prod.case
    by (intro Q_if Q_stop) (auto simp: Q_def)
  then show ?thesis by (simp add: Q_def)
qed

theorem BulkInit_notifies_payload_witness:
  "\<exists>r calls. BulkInit demo_bulk_env 1 5 9 (bytes_of ''p'' @ 0 # bytes_of ''/o'' @ 0 # [1, 2] @ 0 # [])
     = Inr (r, calls) \<and>
    (r \<noteq> None \<longrightarrow> (\<exists>p q. {Mkfifo p, OpenWrite p 8, Mkfifo q, OpenRead q 7,
        DbusCall (bytes_of ''p'') (bytes_of ''/o'') (bytes_of ''nl.ict.aapbridge.bulk'')
          (bytes_of ''onBulkRequest'')
          [DString (bytes_of p), DString (bytes_of q), DString [1, 2]]} \<subseteq> set calls))"
  using BulkInit_notifies_payload [of "bytes_of ''p''" "bytes_of ''/o''" "[1, 2]" demo_bulk_env 1 5 9 "[]"]
  by (simp add: bytes_of_def demo_bulk_env_def)


section \<open>What the payload reads\<close>

fun written :: "extcall \<Rightarrow> byte list" where
  "written (WriteFd fd bs) = bs"
| "written _ = []"

lemma bulk_write_loop_prefixes:
  assumes "bulk_write_loop fd buffer sz evs = Inr (cs, False)" and "nat sz \<le> length buffer"
  shows "\<exists>ks. cs = map (\<lambda>k. WriteFd fd (take k buffer)) ks \<and> sum_list ks = nat sz \<and>
    (\<forall>k\<in>set ks. k \<le> length buffer)"
  using assms
proof (induction evs arbitrary: sz cs)
  case Nil
  then show ?case by (auto split: if_splits)
next
  case (Cons ev evs)
  show ?case
  proof (cases "sz > 0")
    case False
    with Cons.prems show ?thesis by auto
  next
    case True
    with Cons.prems obtain k ds where ev: "ev = WrAccept k"
      and rest: "bulk_write_loop fd buffer (sz - int (min k (nat sz))) evs = Inr (ds, False)"
      and cs: "cs = WriteFd fd (take (min k (nat sz)) buffer) # ds"
      by (auto simp: Let_def res_simps split: wr_event.splits)
    have "nat (sz - int (min k (nat sz))) \<le> length buffer" using Cons.prems(2) by linarith
    from Cons.IH [OF rest this] obtain ks where
      "ds = map (\<lambda>k. WriteFd fd (take k buffer)) ks" "sum_list ks = nat (sz - int (min k (nat sz)))"
      "\<forall>k\<in>set ks. k \<le> length buffer" by auto
    moreover have "min k (nat sz) + nat (sz - int (min k (nat sz))) = nat sz"
      using True by linarith
    ultimately show ?thesis
      using cs Cons.prems(2) by (intro exI [of _ "min k (nat sz) # ks"]) auto
  qed
qed

lemma concat_prefixes_distinct:
  assumes "distinct (concat (map (\<lambda>k. take k buf) ks))" and "buf \<noteq> []"
  shows "\<forall>k\<in>set ks. k = 0 \<or> k = sum_list ks"
  using assms(1)
proof (induction ks)
  case Nil
  then show ?case by simp
next
  case (Cons k ks)
  show ?case
  proof (cases k)
    case 0
    with Cons show ?thesis by simp
  next
    case (Suc i)
    have "j = 0" if "j \<in> set ks" for j
    proof (rule ccontr)
      assume "j \<noteq> 0"
      with assms(2) Suc have "hd buf \<in> set (take k buf)" "hd buf \<in> set (take j buf)"
        by (cases buf; cases j; simp)+
      with Cons.prems that show False by auto
    qed
    then show ?thesis by auto
  qed
qed

lemma concat_whole_prefix:
  "\<forall>k\<in>set ks. k = 0 \<or> k = n \<Longrightarrow> sum_list ks = n \<Longrightarrow> concat (map (\<lambda>k. take k buf) ks) = take n buf"
proof (induction ks)
  case Nil
  then show ?case by simp
next
  case (Cons k ks)
  have "concat (map (\<lambda>k. take k buf) ks) = []" if "sum_list ks = 0"
    using that by (auto simp: sum_list_eq_0_iff)
  with Cons show ?case by (cases "k = 0") auto
qed

text \<open>
  The data loop of \<open>BulkOnBytesReceived\<close> passes the buffer to \<open>write\<close> from its start in
  every round, never advancing it. When it ends without an error, the payload has received
  the right number of bytes; for a buffer of pairwise different bytes it has received the
  right bytes exactly when \<open>write\<close> never accepted only a part of what it was given.
\<close>

theorem bulk_write_partial:
  assumes "bulk_write_loop fd buffer (int (length buffer)) evs = Inr (cs, False)"
    and "distinct buffer"
  shows "length (concat (map written cs)) = length buffer \<and>
    (concat (map written cs) = buffer \<longleftrightarrow> (\<forall>c\<in>set cs. written c = [] \<or> written c = buffer))"
proof (cases "buffer = []")
  case True
  with assms(1) show ?thesis by (cases evs) auto
next
  case False
  from bulk_write_loop_prefixes [OF assms(1)] obtain ks where
    cs: "cs = map (\<lambda>k. WriteFd fd (take k buffer)) ks" and sum: "sum_list ks = length buffer"
    and le: "\<forall>k\<in>set ks. k \<le> length buffer" by auto
  have "map written cs = map (\<lambda>k. take k buffer) ks" by (simp add: cs comp_def)
  moreover have "length (concat (map (\<lambda>k. take k buffer) ks)) = sum_list ks"
    using le by (induction ks) auto
  moreover have "(\<forall>c\<in>set cs. written c = [] \<or> written c = buffer) \<longleftrightarrow>
      (\<forall>k\<in>set ks. k = 0 \<or> k = length buffer)"
    using False le by (fastforce simp: cs)
  ultimately show ?thesis
    using concat_prefixes_distinct [of buffer ks] concat_whole_prefix [of ks "length buffer" buffer]
      False sum assms(2) by auto
qed

theorem bulk_write_partial_witness:
  "\<exists>cs. bulk_write_loop 8 [1, 2, 3] 3 [WrAccept 2, WrAccept 9] = Inr (cs, False) \<and>
     concat (map written cs) = [1, 2, 1] \<and> \<not> (\<forall>c\<in>set cs. written c = [] \<or> written c = [1, 2, 3])"
  using bulk_write_partial [of 8 "[1, 2, 3]" "[WrAccept 2, WrAccept 9]"]
  by (auto simp: Let_def)

end
