(* ===== verification/BString.thy ===== *)
theory BString
  imports Prelude
begin

text \<open>
  The string library \<open>bstrlib.c\<close>, as far as the bridge builds its match rules with it:
  the growth policy, \<open>balloc\<close>, construction from a C string, the appending functions,
  conversion back to a C string and destruction.

  A \<open>bstring\<close> is a possibly null pointer to its struct. The cells of its buffer are
  \<open>None\<close> until they are written. \<open>int\<close> arithmetic wraps at 32 bits where the source computes
  sums (\<open>s32\<close>). The answers of \<open>malloc\<close> and \<open>realloc\<close> are a list of booleans that is threaded
  through, over which the theorems quantify; when it is used up, memory is available.
\<close>

section \<open>Memory\<close>

record bstring =
  mlen :: int
  slen :: int
  data :: "byte option list option"

type_synonym alloc = "bool list"

definition BSTR_ERR :: int where
  "BSTR_ERR = -1"

definition BSTR_OK :: int where
  "BSTR_OK = 0"

definition s32 :: "int \<Rightarrow> int" where
  "s32 i = sint (word_of_int i :: 32 word)"

fun answer :: "alloc \<Rightarrow> bool \<times> alloc" where
  "answer [] = (True, [])"
| "answer (a # as) = (a, as)"

text \<open>\<open>(size_t) n\<close> of a negative \<open>n\<close> is larger than any object.\<close>

definition bstr_alloc :: "int \<Rightarrow> alloc \<Rightarrow> byte option list option \<times> alloc" where
  "bstr_alloc n al = (let (ok, al) = answer al in
     (if ok \<and> 0 \<le> n then Some (replicate (nat n) None) else None, al))"

definition bstr_realloc ::
    "byte option list \<Rightarrow> int \<Rightarrow> alloc \<Rightarrow> byte option list option \<times> alloc" where
  "bstr_realloc d n al = (let (ok, al) = answer al in
     (if ok \<and> 0 \<le> n then Some (take (nat n) (d @ replicate (nat n) None)) else None, al))"

definition put :: "byte option list \<Rightarrow> int \<Rightarrow> byte \<Rightarrow> byte option list res" where
  "put d i c = (if 0 \<le> i \<and> nat i < length d then Inr (d[nat i := Some c]) else Inl OutOfBounds)"

definition overwrite :: "byte option list \<Rightarrow> int \<Rightarrow> byte option list \<Rightarrow> byte option list res" where
  "overwrite d i ys =
     (if 0 \<le> i \<and> nat i + length ys \<le> length d
      then Inr (take (nat i) d @ ys @ drop (nat i + length ys) d) else Inl OutOfBounds)"

definition first_cells :: "byte option list \<Rightarrow> int \<Rightarrow> byte option list res" where
  "first_cells d n = (if nat n \<le> length d then Inr (take (nat n) d) else Inl OutOfBounds)"

section \<open>Growth\<close>

definition snapUpSize :: "int \<Rightarrow> int" where
  "snapUpSize i =
     (if i < 8 then 8
      else let j = (word_of_int i :: uint32);
               j = j OR drop_bit 1 j;
               j = j OR drop_bit 2 j;
               j = j OR drop_bit 4 j;
               j = j OR drop_bit 8 j;
               j = j OR drop_bit 16 j;
               j = j + 1
           in if sint j \<ge> i then sint j else i)"

text \<open>The label \<open>reallocStrategy\<close> of \<open>balloc\<close>: first the snapped size, then the tight one.\<close>

definition reallocStrategy ::
    "byte option list \<Rightarrow> int \<Rightarrow> int \<Rightarrow> alloc \<Rightarrow> (byte option list \<times> int) option \<times> alloc" where
  "reallocStrategy d len olen al =
     (case bstr_realloc d len al of
        (Some x, al) \<Rightarrow> (Some (x, len), al)
      | (None, al) \<Rightarrow>
          (case bstr_realloc d olen al of
             (Some x, al) \<Rightarrow> (Some (x, olen), al)
           | (None, al) \<Rightarrow> (None, al)))"

text \<open>The choice of strategy in \<open>balloc\<close>: the new buffer and its size, if there is memory.\<close>

definition balloc_grow ::
    "int \<Rightarrow> int \<Rightarrow> byte option list \<Rightarrow> int \<Rightarrow> int \<Rightarrow> alloc
     \<Rightarrow> ((byte option list \<times> int) option \<times> alloc) res" where
  "balloc_grow ml sl d len olen al =
     (if s32 (7 * ml) < s32 (8 * sl) then Inr (reallocStrategy d len olen al)
      else (case bstr_alloc len al of
              (None, al) \<Rightarrow> Inr (reallocStrategy d len olen al)
            | (Some x, al) \<Rightarrow>
                bind_res (first_cells d sl) (\<lambda>cs.
                bind_res (if sl \<noteq> 0 then overwrite x 0 cs else Inr x) (\<lambda>x.
                Inr (Some (x, len), al)))))"

definition balloc :: "bstring option \<Rightarrow> int \<Rightarrow> alloc \<Rightarrow> (int \<times> bstring option \<times> alloc) res" where
  "balloc bp olen al =
     (case bp of None \<Rightarrow> Inr (BSTR_ERR, bp, al) | Some b \<Rightarrow>
     (case data b of None \<Rightarrow> Inr (BSTR_ERR, bp, al) | Some d \<Rightarrow>
       if slen b < 0 \<or> mlen b \<le> 0 \<or> mlen b < slen b \<or> olen \<le> 0 then Inr (BSTR_ERR, bp, al)
       else if olen \<ge> mlen b then
         (let len = snapUpSize olen in
          if len \<le> mlen b then Inr (BSTR_OK, bp, al)
          else
            bind_res (balloc_grow (mlen b) (slen b) d len olen al)
              (\<lambda>(got, al). case got of
                 None \<Rightarrow> Inr (BSTR_ERR, bp, al)
               | Some (x, len) \<Rightarrow>
                   bind_res (put x (slen b) 0) (\<lambda>x.
                   Inr (BSTR_OK, Some (b\<lparr>data := Some x, mlen := len\<rparr>), al))))
       else Inr (BSTR_OK, bp, al)))"

section \<open>Construction\<close>

text \<open>\<open>const char*\<close> arguments are the bytes from the pointer on, or \<open>None\<close> for NULL.\<close>

definition bfromcstr :: "byte list option \<Rightarrow> alloc \<Rightarrow> (bstring option \<times> alloc) res" where
  "bfromcstr str al =
     (case str of None \<Rightarrow> Inr (None, al) | Some p \<Rightarrow>
      bind_res (c_strlen p) (\<lambda>j.
      let i = snapUpSize (s32 (int j + (2 - (if j \<noteq> 0 then 1 else 0)))) in
      if i \<le> s32 (int j) then Inr (None, al)
      else case answer al of
        (False, al) \<Rightarrow> Inr (None, al)
      | (True, al) \<Rightarrow>
          (case bstr_alloc i al of
             (None, al) \<Rightarrow> Inr (None, al)
           | (Some d, al) \<Rightarrow>
               bind_res (overwrite d 0 (map Some (take (j + 1) p))) (\<lambda>d.
               Inr (Some \<lparr>mlen = i, slen = s32 (int j), data = Some d\<rparr>, al)))))"

section \<open>Appending\<close>

definition bconchar :: "bstring option \<Rightarrow> byte \<Rightarrow> alloc \<Rightarrow> (int \<times> bstring option \<times> alloc) res" where
  "bconchar bp c al =
     (case bp of None \<Rightarrow> Inr (BSTR_ERR, bp, al) | Some b \<Rightarrow>
      let d = slen b in
      if d < 0 \<or> s32 (mlen b - d) < 0 then Inr (BSTR_ERR, bp, al)
      else bind_res (balloc bp (s32 (d + 2)) al) (\<lambda>(r, bp, al).
        if r \<noteq> BSTR_OK then Inr (BSTR_ERR, bp, al)
        else case bp of None \<Rightarrow> Inl NullPointer | Some b \<Rightarrow>
        (case data b of None \<Rightarrow> Inl NullPointer | Some x \<Rightarrow>
         bind_res (put x d c) (\<lambda>x.
         bind_res (put x (d + 1) 0) (\<lambda>x.
         Inr (BSTR_OK, Some (b\<lparr>data := Some x, slen := s32 (slen b + 1)\<rparr>), al))))))"

definition bcatblk ::
    "bstring option \<Rightarrow> byte list option \<Rightarrow> int \<Rightarrow> alloc \<Rightarrow> (int \<times> bstring option \<times> alloc) res" where
  "bcatblk bp sp len al =
     (case bp of None \<Rightarrow> Inr (BSTR_ERR, bp, al) | Some b \<Rightarrow>
     (case data b of None \<Rightarrow> Inr (BSTR_ERR, bp, al) | Some _ \<Rightarrow>
       if slen b < 0 \<or> mlen b < slen b \<or> mlen b \<le> 0 then Inr (BSTR_ERR, bp, al) else
     (case sp of None \<Rightarrow> Inr (BSTR_ERR, bp, al) | Some s \<Rightarrow>
       if len < 0 then Inr (BSTR_ERR, bp, al) else
       let nl = s32 (slen b + len) in
       if 0 > nl then Inr (BSTR_ERR, bp, al) else
       bind_res (if mlen b \<le> nl then balloc bp (s32 (nl + 1)) al else Inr (BSTR_OK, bp, al))
         (\<lambda>(r, bp, al).
           if 0 > r then Inr (BSTR_ERR, bp, al) else
           case bp of None \<Rightarrow> Inl NullPointer | Some b \<Rightarrow>
           (case data b of None \<Rightarrow> Inl NullPointer | Some d \<Rightarrow>
            bind_res (first_cells (map Some s) len) (\<lambda>cs.
            bind_res (if len > 0 then overwrite d (slen b) cs else Inr d) (\<lambda>d.
            bind_res (put d nl 0) (\<lambda>d.
            Inr (BSTR_OK, Some (b\<lparr>data := Some d, slen := nl\<rparr>), al)))))))))"

text \<open>
  The optimistic loop of \<open>bcatcstr\<close>: the buffer after it, the value of \<open>i\<close>, where \<open>s\<close> points,
  and whether the terminator was copied.
\<close>

fun cat_loop :: "byte option list \<Rightarrow> int \<Rightarrow> byte list \<Rightarrow> nat
    \<Rightarrow> (byte option list \<times> nat \<times> byte list \<times> bool) res" where
  "cat_loop d i s 0 = Inr (d, 0, s, False)"
| "cat_loop d i s (Suc l) =
     bind_res (deref s) (\<lambda>c.
     bind_res (put d i c) (\<lambda>d.
       if c = 0 then Inr (d, 0, drop 1 s, True)
       else bind_res (cat_loop d (i + 1) (drop 1 s) l) (\<lambda>(d, n, s, found).
         Inr (d, Suc n, s, found))))"

definition bcatcstr ::
    "bstring option \<Rightarrow> byte list option \<Rightarrow> alloc \<Rightarrow> (int \<times> bstring option \<times> alloc) res" where
  "bcatcstr bp sp al =
     (case bp of None \<Rightarrow> Inr (BSTR_ERR, bp, al) | Some b \<Rightarrow>
     (case data b of None \<Rightarrow> Inr (BSTR_ERR, bp, al) | Some d \<Rightarrow>
       if slen b < 0 \<or> mlen b < slen b \<or> mlen b \<le> 0 then Inr (BSTR_ERR, bp, al) else
     (case sp of None \<Rightarrow> Inr (BSTR_ERR, bp, al) | Some s \<Rightarrow>
       bind_res (cat_loop d (slen b) s (nat (mlen b - slen b))) (\<lambda>(d, i, s, found).
         let bp = Some (b\<lparr>data := Some d, slen := slen b + int i\<rparr>) in
         if found then Inr (BSTR_OK, bp, al)
         else bind_res (c_strlen s) (\<lambda>n. bcatblk bp (Some s) (s32 (int n)) al)))))"

section \<open>Conversion and destruction\<close>

fun cells_cstr :: "byte \<Rightarrow> byte option list \<Rightarrow> byte list res" where
  "cells_cstr z [] = Inr []"
| "cells_cstr z (None # cs) = Inl Uninitialised"
| "cells_cstr z (Some c # cs) =
     bind_res (cells_cstr z cs) (\<lambda>r. Inr ((if c = 0 then z else c) # r))"

definition bstr2cstr :: "bstring option \<Rightarrow> byte \<Rightarrow> alloc \<Rightarrow> (byte list option \<times> alloc) res" where
  "bstr2cstr bp z al =
     (case bp of None \<Rightarrow> Inr (None, al) | Some b \<Rightarrow>
      if slen b < 0 then Inr (None, al) else
      (case data b of None \<Rightarrow> Inr (None, al) | Some d \<Rightarrow>
       (case bstr_alloc (s32 (slen b + 1)) al of
          (None, al) \<Rightarrow> Inr (None, al)
        | (Some _, al) \<Rightarrow>
            bind_res (first_cells d (slen b)) (\<lambda>cs.
            bind_res (cells_cstr z cs) (\<lambda>r. Inr (Some (r @ [0]), al))))))"

definition bcstrfree :: "byte list option \<Rightarrow> int" where
  "bcstrfree s = (case s of None \<Rightarrow> BSTR_ERR | Some _ \<Rightarrow> BSTR_OK)"

text \<open>\<open>None\<close> as the resulting pointer: the string has been freed.\<close>

definition bdestroy :: "bstring option \<Rightarrow> int \<times> bstring option" where
  "bdestroy bp =
     (case bp of None \<Rightarrow> (BSTR_ERR, None) | Some b \<Rightarrow>
      if slen b < 0 \<or> mlen b \<le> 0 \<or> mlen b < slen b \<or> data b = None then (BSTR_ERR, bp)
      else (BSTR_OK, None))"


section \<open>The growth policy\<close>

lemma s32_id [simp]: "- (2 ^ 31) \<le> i \<Longrightarrow> i < 2 ^ 31 \<Longrightarrow> s32 i = i"
  by (simp add: s32_def sint_sbintrunc' signed_take_bit_int_eq_self)

text \<open>Each step of \<open>snapUpSize\<close> doubles the number of positions over which bits spread down.\<close>

definition spread :: "nat \<Rightarrow> uint32 \<Rightarrow> uint32 \<Rightarrow> bool" where
  "spread d i j \<longleftrightarrow> (\<forall>k. bit j k \<longleftrightarrow> (\<exists>n<d. bit i (k + n)))"

lemma spread_step:
  assumes "spread d i j"
  shows "spread (d + d) i (j OR drop_bit d j)"
proof -
  have "(\<exists>n<d + d. P n) \<longleftrightarrow> (\<exists>n<d. P n) \<or> (\<exists>n<d. P (d + n))" for P :: "nat \<Rightarrow> bool"
    by (metis add_less_cancel_left add_diff_inverse_nat not_less trans_less_add1)
  with assms show ?thesis
    by (simp add: spread_def bit_simps ac_simps)
qed

lemma spread_all: "spread 32 i (let j = i; j = j OR drop_bit 1 j; j = j OR drop_bit 2 j;
    j = j OR drop_bit 4 j; j = j OR drop_bit 8 j; j = j OR drop_bit 16 j in j)"
proof -
  have "spread 1 i i" by (simp add: spread_def)
  have "spread 2 i (i OR drop_bit 1 i)"
    using spread_step [OF \<open>spread 1 i i\<close>] by (simp add: numeral_2_eq_2)
  from spread_step [OF spread_step [OF spread_step [OF spread_step [OF this]]]]
  show ?thesis by (simp add: Let_def)
qed

lemma spread_mask:
  assumes "spread 32 i j" and "bit i m" and "\<And>n. bit i n \<Longrightarrow> n \<le> m"
  shows "j = mask (Suc m)"
proof (rule bit_word_eqI)
  fix k assume "k < LENGTH(32)"
  have "(\<exists>n<32. bit i (k + n)) \<longleftrightarrow> k \<le> m"
  proof
    assume "\<exists>n<32. bit i (k + n)"
    then show "k \<le> m" using assms(3) by force
  next
    assume "k \<le> m"
    moreover from assms(2) have "m < 32" using bit_imp_le_length [of i m] by simp
    ultimately show "\<exists>n<32. bit i (k + n)" using assms(2) by (intro exI [of _ "m - k"]) auto
  qed
  with assms(1) \<open>k < LENGTH(32)\<close> show "bit j k = bit (mask (Suc m) :: uint32) k"
    by (auto simp: spread_def bit_mask_iff)
qed

lemma top_bit:
  assumes "2 ^ m \<le> n" and "n < 2 ^ Suc m" and "m < 32"
  shows "bit (word_of_nat n :: uint32) m" and "bit (word_of_nat n :: uint32) k \<Longrightarrow> k \<le> m"
proof -
  from assms(1,2) have "n div 2 ^ m = 1" by (intro div_nat_eqI) simp_all
  then have "bit n m" by (simp add: bit_iff_odd)
  with assms(3) show "bit (word_of_nat n :: uint32) m" by (simp add: bit_simps)
  assume "bit (word_of_nat n :: uint32) k"
  then have "bit n k" by (simp add: bit_simps)
  then have "2 ^ k \<le> n" by (metis bit_iff_odd div_less even_zero not_le)
  with assms(2) have "(2::nat) ^ k < 2 ^ Suc m" by linarith
  then have "k < Suc m" by (simp only: power_strict_increasing_iff)
  then show "k \<le> m" by simp
qed

lemma snapUpSize_cases:
  assumes "2 ^ m \<le> i" and "i < 2 ^ Suc m" and "3 \<le> m" and "m \<le> 30"
  shows "snapUpSize i = (if m < 30 then 2 ^ Suc m else i)"
proof -
  have eight: "\<not> i < 8"
    using assms(1,3) power_increasing [of 3 m "2::int"] by simp
  define n where "n = nat i"
  have i: "i = int n" using eight by (simp add: n_def)
  from assms(1,2) have "int (2 ^ m) \<le> int n" "int n < int (2 ^ Suc m)" by (simp_all add: i)
  then have n: "2 ^ m \<le> n" "n < 2 ^ Suc m" unfolding of_nat_le_iff of_nat_less_iff .
  have "(let j = word_of_int i; j = j OR drop_bit 1 j; j = j OR drop_bit 2 j;
      j = j OR drop_bit 4 j; j = j OR drop_bit 8 j; j = j OR drop_bit 16 j in j)
      = (mask (Suc m) :: uint32)"
    using spread_mask [OF spread_all, of "word_of_nat n" m] top_bit [OF n] assms(4) i
    by (simp add: Let_def)
  then have "snapUpSize i = (let j = mask (Suc m) + 1 :: uint32 in if sint j \<ge> i then sint j else i)"
    using eight by (simp add: snapUpSize_def Let_def)
  moreover have "mask (Suc m) + 1 = (2 ^ Suc m :: uint32)" by (simp add: mask_eq_decr_exp)
  moreover have "sint (2 ^ Suc m :: uint32) = (if m < 30 then 2 ^ Suc m else - (2 ^ 31))"
  proof (cases "m < 30")
    case True
    then have "(2::int) ^ Suc m < 2 ^ 31" by (intro power_strict_increasing) simp_all
    moreover have "- (2 ^ 31) \<le> (2::int) ^ Suc m" by (rule order_trans [of _ 0]) simp_all
    ultimately have "s32 (2 ^ Suc m) = 2 ^ Suc m" by (intro s32_id)
    with True show ?thesis by (simp add: s32_def)
  next
    case False
    with assms(4) have "m = 30" by simp
    then show ?thesis by simp
  qed
  ultimately show ?thesis using assms(2) eight by (auto simp: Let_def)
qed


lemma snapUpSize_bounds:
  assumes "i < 2 ^ 31"
  shows "i \<le> snapUpSize i" and "8 \<le> snapUpSize i" and "snapUpSize i < 2 ^ 31"
    and "i < 2 ^ 30 \<Longrightarrow> i < snapUpSize i"
proof -
  have "i \<le> snapUpSize i \<and> 8 \<le> snapUpSize i \<and> snapUpSize i < 2 ^ 31 \<and>
      (i < 2 ^ 30 \<longrightarrow> i < snapUpSize i)"
  proof (cases "i < 8")
    case True
    then show ?thesis by (simp add: snapUpSize_def)
  next
    case False
    then have "1 \<le> nat i" by linarith
    then obtain m where "2 ^ m \<le> nat i" "nat i < 2 ^ Suc m"
      using ex_power_ivl1 [of 2 "nat i"] by auto
    then have "int (2 ^ m) \<le> int (nat i)" "int (nat i) < int (2 ^ Suc m)"
      unfolding of_nat_le_iff of_nat_less_iff .
    with False have m: "2 ^ m \<le> i" "i < 2 ^ Suc m" by simp_all
    with False assms have "(2::int) ^ 3 < 2 ^ Suc m" "(2::int) ^ m < 2 ^ 31" by simp_all
    then have "3 < Suc m" "m < 31" by (simp_all only: power_strict_increasing_iff one_less_numeral_iff semiring_norm)
    then have le: "3 \<le> m" "m \<le> 30" by simp_all
    have "m < 30 \<Longrightarrow> (2::int) ^ Suc m < 2 ^ 31" by (intro power_strict_increasing) simp_all
    moreover have "m = 30 \<Longrightarrow> 2 ^ 30 \<le> i" using m by simp
    ultimately show ?thesis
      using snapUpSize_cases [OF m le] m False assms le by (auto simp: not_less)
  qed
  then show "i \<le> snapUpSize i" "8 \<le> snapUpSize i" "snapUpSize i < 2 ^ 31"
    "i < 2 ^ 30 \<Longrightarrow> i < snapUpSize i" by auto
qed

text \<open>
  \<open>snapUpSize\<close> snaps every size from 8 up to the next power of two above it, and from
  2 to the 30th on, where that power is no \<open>int\<close> any more, returns the size itself.
\<close>

theorem snapUpSize_power:
  assumes "2 ^ m \<le> i" and "i < 2 ^ Suc m" and "3 \<le> m" and "m \<le> 30"
  shows "snapUpSize i = (if m < 30 then 2 ^ Suc m else i)"
  using assms by (rule snapUpSize_cases)

theorem snapUpSize_power_witness: "snapUpSize 1000 = 1024"
  using snapUpSize_power [of 9 1000] by simp


section \<open>What a bstring holds\<close>

text \<open>
  \<open>bs_rep b xs\<close>: the first \<open>slen\<close> cells are the bytes \<open>xs\<close>, inside the buffer; this is all
  that is left after an append that ran out of memory. \<open>bs_ok b xs\<close>: they are followed by a
  terminator as well.
\<close>

definition bs_rep :: "bstring \<Rightarrow> byte list \<Rightarrow> bool" where
  "bs_rep b xs \<longleftrightarrow> (\<exists>d. data b = Some d \<and> length d = nat (mlen b) \<and> 0 < mlen b \<and> mlen b < 2 ^ 31 \<and>
     slen b = int (length xs) \<and> slen b \<le> mlen b \<and> take (length xs) d = map Some xs)"

definition bs_ok :: "bstring \<Rightarrow> byte list \<Rightarrow> bool" where
  "bs_ok b xs \<longleftrightarrow> bs_rep b xs \<and> slen b < mlen b \<and> the (data b) ! length xs = Some 0"

lemma bstr_allocE:
  obtains al' where "bstr_alloc n al = (None, al')" "al \<noteq> [] \<or> n < 0"
  | al' where "bstr_alloc n al = (Some (replicate (nat n) None), al')" "0 \<le> n" "al = [] \<longrightarrow> al' = []"
proof (cases al)
  case Nil
  then show ?thesis using that by (cases "0 \<le> n") (auto simp: bstr_alloc_def)
next
  case (Cons a as)
  then show ?thesis using that by (cases "0 \<le> n"; cases a) (auto simp: bstr_alloc_def)
qed

lemma bstr_reallocE:
  obtains al' where "bstr_realloc d n al = (None, al')" "al \<noteq> [] \<or> n < 0"
  | al' where "bstr_realloc d n al = (Some (take (nat n) (d @ replicate (nat n) None)), al')"
      "0 \<le> n" "al = [] \<longrightarrow> al' = []"
proof (cases al)
  case Nil
  then show ?thesis using that by (cases "0 \<le> n") (auto simp: bstr_realloc_def)
next
  case (Cons a as)
  then show ?thesis using that by (cases "0 \<le> n"; cases a) (auto simp: bstr_realloc_def)
qed

text \<open>A grown buffer keeps its first cells; either strategy gives one or fails.\<close>

definition grown :: "byte option list \<Rightarrow> nat \<Rightarrow> int \<Rightarrow> int \<Rightarrow> byte option list \<times> int \<Rightarrow> bool" where
  "grown d n olen len = (\<lambda>(x, l). (l = len \<or> l = olen) \<and> length x = nat l \<and> take n x = take n d)"

lemma reallocStrategy_grown:
  assumes "0 < olen" and "olen \<le> len" and "length d \<le> nat olen"
  obtains al' where "reallocStrategy d len olen al = (None, al')" "al \<noteq> []"
  | x al' where "reallocStrategy d len olen al = (Some x, al')" "grown d (length d) olen len x"
      "al = [] \<longrightarrow> al' = []"
proof (cases rule: bstr_reallocE [of d len al])
  case (2 al')
  have "grown d (length d) olen len (take (nat len) (d @ replicate (nat len) None), len)"
    using assms by (auto simp: grown_def)
  with 2 that(2) show ?thesis by (simp add: reallocStrategy_def)
next
  case (1 al')
  then have ne: "al \<noteq> []" using assms by auto
  show ?thesis
  proof (cases rule: bstr_reallocE [of d olen al'])
    case (2 al2)
    have "grown d (length d) olen len (take (nat olen) (d @ replicate (nat olen) None), olen)"
      using assms by (auto simp: grown_def)
    with 1 2 ne that(2) show ?thesis by (simp add: reallocStrategy_def)
  next
    case (1 al2)
    with \<open>bstr_realloc d len al = (None, al')\<close> ne that(1) show ?thesis
      by (simp add: reallocStrategy_def)
  qed
qed


lemma grown_less: "grown d n olen len x \<Longrightarrow> m \<le> n \<Longrightarrow> grown d m olen len x"
  by (auto simp: grown_def) (metis min.absorb1 take_take)+

lemma grow_step:
  assumes "length d = nat ml" and "n \<le> length d" and "0 < ml" and "ml \<le> olen" and "olen \<le> len"
  shows "\<exists>got al'. balloc_grow ml (int n) d len olen al = Inr (got, al') \<and>
    (al = [] \<longrightarrow> al' = [] \<and> got \<noteq> None) \<and> (\<forall>x. got = Some x \<longrightarrow> grown d n olen len x)"
proof -
  have strategy: "\<exists>got al'. reallocStrategy d len olen as = (got, al') \<and>
      (as = [] \<longrightarrow> al' = [] \<and> got \<noteq> None) \<and> (\<forall>x. got = Some x \<longrightarrow> grown d n olen len x)" for as
    by (rule reallocStrategy_grown [of olen len d as])
      (use assms in \<open>auto intro: grown_less\<close>)
  show ?thesis
  proof (cases "s32 (7 * ml) < s32 (8 * int n)")
    case True
    with strategy [of al] show ?thesis by (simp add: balloc_grow_def)
  next
    case False
    show ?thesis
    proof (cases rule: bstr_allocE [of len al])
      case (1 al')
      then have "al \<noteq> []" using assms by auto
      with False 1 strategy [of al'] show ?thesis by (auto simp: balloc_grow_def)
    next
      case (2 al')
      then have "grown d n olen len (take n d @ drop n (replicate (nat len) None), len)"
        using assms by (auto simp: grown_def)
      with False 2 assms show ?thesis
        by (auto simp: balloc_grow_def first_cells_def overwrite_def)
    qed
  qed
qed

lemma balloc_rep:
  assumes "bs_rep b xs" and "0 < olen" and "olen < 2 ^ 31" and "slen b < mlen b \<or> slen b < olen"
  shows "\<exists>r b' al'. balloc (Some b) olen al = Inr (r, Some b', al') \<and> bs_rep b' xs \<and>
    slen b' = slen b \<and> (r = BSTR_OK \<and> olen \<le> mlen b' \<or> r = BSTR_ERR) \<and>
    (bs_ok b xs \<longrightarrow> bs_ok b' xs) \<and> (al = [] \<longrightarrow> r = BSTR_OK \<and> al' = [])"
proof -
  from assms(1) obtain d where d: "data b = Some d" "length d = nat (mlen b)" "0 < mlen b"
    "mlen b < 2 ^ 31" "slen b = int (length xs)" "slen b \<le> mlen b"
    "take (length xs) d = map Some xs"
    by (auto simp: bs_rep_def)
  let ?len = "snapUpSize olen"
  note snap = snapUpSize_bounds [OF assms(3)]
  consider "olen < mlen b" | "mlen b \<le> olen" "?len \<le> mlen b" | "mlen b \<le> olen" "mlen b < ?len"
    by linarith
  then show ?thesis
  proof cases
    case 1
    with assms d show ?thesis by (simp add: balloc_def)
  next
    case 2
    with assms d snap show ?thesis by (simp add: balloc_def Let_def)
  next
    case 3
    have "length xs \<le> length d" using d by simp
    from grow_step [OF d(2) this d(3) 3(1) snap(1), where al = al] obtain got al' where
      got: "balloc_grow (mlen b) (slen b) d ?len olen al = Inr (got, al')"
      and al': "al = [] \<longrightarrow> al' = [] \<and> got \<noteq> None"
      and grown: "\<forall>x. got = Some x \<longrightarrow> grown d (length xs) olen ?len x"
      by (auto simp: d(5))
    have run: "balloc (Some b) olen al = (case got of
          None \<Rightarrow> Inr (BSTR_ERR, Some b, al')
        | Some (x, len) \<Rightarrow> bind_res (put x (slen b) 0) (\<lambda>x.
            Inr (BSTR_OK, Some (b\<lparr>data := Some x, mlen := len\<rparr>), al')))"
      using 3 d assms(2) unfolding balloc_def by (simp add: Let_def got [unfolded d(5)])
    show ?thesis
    proof (cases got)
      case None
      with run al' assms show ?thesis by auto
    next
      case (Some xl)
      obtain x l where xl: "xl = (x, l)" by (cases xl)
      with grown Some have x: "l = ?len \<or> l = olen" "length x = nat l"
        "take (length xs) x = map Some xs" by (auto simp: grown_def d(7))
      have l: "length xs < nat l" "0 < l" "l < 2 ^ 31" "olen \<le> l"
        using x(1) snap 3 assms(2-4) d(5,6) by auto
      let ?b = "b\<lparr>data := Some (x[length xs := Some 0]), mlen := l\<rparr>"
      from x l d have "bs_rep ?b xs" by (auto simp: bs_rep_def)
      moreover from this x l d have "bs_ok ?b xs" by (auto simp: bs_ok_def)
      moreover have "put x (slen b) 0 = Inr (x[length xs := Some 0])"
        using x(2) l(1) d(5) by (simp add: put_def)
      then have "balloc (Some b) olen al = Inr (BSTR_OK, Some ?b, al')"
        by (simp add: run Some xl)
      ultimately show ?thesis using al' l(4) by (intro exI [of _ BSTR_OK] exI [of _ ?b]) simp
    qed
  qed
qed


section \<open>Appending\<close>

lemma bcatblk_rep:
  assumes "bs_rep b xs" and "int (length xs) + int (length ys) < 2 ^ 30"
  shows "\<exists>r b' al'. bcatblk (Some b) (Some (ys @ p)) (int (length ys)) al = Inr (r, Some b', al') \<and>
    (r = BSTR_OK \<and> bs_ok b' (xs @ ys) \<or> r = BSTR_ERR \<and> bs_rep b' xs) \<and>
    (al = [] \<longrightarrow> r = BSTR_OK \<and> al' = [])"
proof -
  let ?nl = "int (length xs) + int (length ys)"
  from assms(1) have d: "0 < mlen b" "slen b = int (length xs)" "slen b \<le> mlen b" "data b \<noteq> None"
    by (auto simp: bs_rep_def)
  have nl: "s32 ?nl = ?nl" "s32 (?nl + 1) = ?nl + 1" using assms(2) by simp_all
  have grow: "\<exists>r b' al'. (if mlen b \<le> ?nl then balloc (Some b) (?nl + 1) al
        else Inr (BSTR_OK, Some b, al)) = Inr (r, Some b', al') \<and> bs_rep b' xs \<and>
      (r = BSTR_OK \<and> ?nl < mlen b' \<or> r = BSTR_ERR) \<and> (al = [] \<longrightarrow> r = BSTR_OK \<and> al' = [])"
  proof (cases "mlen b \<le> ?nl")
    case True
    with balloc_rep [OF assms(1), of "?nl + 1" al] assms(2) d show ?thesis by fastforce
  next
    case False
    with assms(1) show ?thesis by simp
  qed
  then obtain r b' al' where g: "(if mlen b \<le> ?nl then balloc (Some b) (?nl + 1) al
        else Inr (BSTR_OK, Some b, al)) = Inr (r, Some b', al')" and rep: "bs_rep b' xs"
    and r: "r = BSTR_OK \<and> ?nl < mlen b' \<or> r = BSTR_ERR" "al = [] \<longrightarrow> r = BSTR_OK \<and> al' = []"
    by blast
  from rep obtain e where e: "data b' = Some e" "length e = nat (mlen b')" "0 < mlen b'"
    "mlen b' < 2 ^ 31" "slen b' = int (length xs)" "take (length xs) e = map Some xs"
    by (auto simp: bs_rep_def)
  show ?thesis
  proof (cases "r = BSTR_ERR")
    case True
    with d g nl rep r show ?thesis
      by (auto simp: bcatblk_def Let_def BSTR_OK_def BSTR_ERR_def)
  next
    case False
    with r have ok: "r = BSTR_OK" "?nl < mlen b'" by auto
    let ?e = "take (length xs) e @ map Some ys @ drop (length xs + length ys) e"
    let ?e2 = "?e[length xs + length ys := Some 0]"
    let ?b = "b'\<lparr>data := Some ?e2, slen := ?nl\<rparr>"
    have len: "length xs + length ys < length e" using ok e by simp
    have "(if 0 < int (length ys) then overwrite e (slen b') (map Some ys) else Inr e) = Inr ?e"
      using len e(2,5) by (auto simp: overwrite_def)
    moreover have "put ?e ?nl 0 = Inr ?e2"
      using len by (auto simp: put_def nat_add_distrib)
    ultimately have "bcatblk (Some b) (Some (ys @ p)) (int (length ys)) al = Inr (BSTR_OK, Some ?b, al')"
      using d g nl ok e unfolding bcatblk_def
      by (auto simp: Let_def BSTR_OK_def first_cells_def)
    moreover have "bs_ok ?b (xs @ ys)"
      using len e ok by (auto simp: bs_ok_def bs_rep_def nth_append)
    ultimately show ?thesis using r ok by auto
  qed
qed


lemma bconchar_rep:
  assumes "bs_rep b xs" and "int (length xs) < 2 ^ 30"
  shows "\<exists>r b' al'. bconchar (Some b) c al = Inr (r, Some b', al') \<and>
    (r = BSTR_OK \<and> bs_ok b' (xs @ [c]) \<or> r = BSTR_ERR \<and> bs_rep b' xs) \<and>
    (al = [] \<longrightarrow> r = BSTR_OK \<and> al' = [])"
proof -
  from assms(1) have d: "slen b = int (length xs)" "slen b \<le> mlen b" "mlen b < 2 ^ 31"
    by (auto simp: bs_rep_def)
  have "s32 (int (length xs) + 2) = int (length xs) + 2" "\<not> s32 (mlen b - int (length xs)) < 0"
    using d assms(2) by simp_all
  note pre = this
  from balloc_rep [OF assms(1), of "int (length xs) + 2" al] assms(2) d(1)
  obtain r b' al' where g: "balloc (Some b) (int (length xs) + 2) al = Inr (r, Some b', al')"
    and rep: "bs_rep b' xs" and r: "r = BSTR_OK \<and> int (length xs) + 2 \<le> mlen b' \<or> r = BSTR_ERR"
      "al = [] \<longrightarrow> r = BSTR_OK \<and> al' = []"
    by auto
  from rep obtain e where e: "data b' = Some e" "length e = nat (mlen b')" "0 < mlen b'"
    "mlen b' < 2 ^ 31" "slen b' = int (length xs)" "take (length xs) e = map Some xs"
    by (auto simp: bs_rep_def)
  show ?thesis
  proof (cases "r = BSTR_ERR")
    case True
    with d g rep r pre show ?thesis
      by (auto simp: bconchar_def Let_def BSTR_OK_def BSTR_ERR_def)
  next
    case False
    with r have ok: "r = BSTR_OK" "int (length xs) + 2 \<le> mlen b'" by auto
    let ?e1 = "e[length xs := Some c]" let ?e = "?e1[length xs + 1 := Some 0]"
    let ?b = "b'\<lparr>data := Some ?e, slen := int (length xs) + 1\<rparr>"
    have len: "length xs + 1 < length e" using ok(2) e(2,3) by simp
    have "put e (int (length xs)) c = Inr ?e1" "put ?e1 (int (length xs) + 1) 0 = Inr ?e"
      using len by (simp_all add: put_def nat_add_distrib)
    moreover have "s32 (int (length xs) + 1) = int (length xs) + 1" using assms(2) by simp
    ultimately have "bconchar (Some b) c al = Inr (BSTR_OK, Some ?b, al')"
      using d(1) g ok(1) e(1,5) pre by (simp add: bconchar_def)
    moreover have "take (Suc (length xs)) ?e = map Some xs @ [Some c]"
      using len e(6) by (simp add: take_Suc_conv_app_nth)
    then have "bs_ok ?b (xs @ [c])"
      using len e(1-5) ok(2) by (simp add: bs_ok_def bs_rep_def)
    ultimately show ?thesis using r ok by auto
  qed
qed

text \<open>The optimistic loop either copies the whole string with its terminator or fills the buffer.\<close>

lemma cat_loop_fits:
  assumes "0 \<notin> set ys" and "length ys < l" and "i + l \<le> length d"
  shows "cat_loop d (int i) (ys @ 0 # p) l =
    Inr (take i d @ map Some ys @ Some 0 # drop (i + length ys + 1) d, length ys, p, True)"
  using assms
proof (induction ys arbitrary: d i l)
  case Nil
  then show ?case by (cases l) (auto simp: put_def upd_conv_take_nth_drop)
next
  case (Cons y ys)
  then obtain l' where l: "l = Suc l'" by (cases l) auto
  with Cons.prems have "cat_loop (d[i := Some y]) (int (Suc i)) (ys @ 0 # p) l' =
      Inr (take (Suc i) (d[i := Some y]) @ map Some ys @ Some 0 # drop (Suc i + length ys + 1) d,
        length ys, p, True)"
    using Cons.IH [of l' "Suc i" "d[i := Some y]"] by simp
  with Cons.prems l show ?case
    by (simp add: put_def take_Suc_conv_app_nth ac_simps)
qed

lemma cat_loop_fills:
  assumes "0 \<notin> set ys" and "l \<le> length ys" and "i + l \<le> length d"
  shows "cat_loop d (int i) (ys @ 0 # p) l =
    Inr (take i d @ map Some (take l ys) @ drop (i + l) d, l, drop l ys @ 0 # p, False)"
  using assms
proof (induction l arbitrary: d i ys)
  case 0
  then show ?case by simp
next
  case (Suc l)
  then obtain y zs where ys: "ys = y # zs" by (cases ys) auto
  with Suc.prems have "cat_loop (d[i := Some y]) (int (Suc i)) (zs @ 0 # p) l =
      Inr (take (Suc i) (d[i := Some y]) @ map Some (take l zs) @ drop (Suc i + l) d,
        l, drop l zs @ 0 # p, False)"
    using Suc.IH [of zs "Suc i" "d[i := Some y]"] by simp
  with Suc.prems ys show ?case by (simp add: put_def take_Suc_conv_app_nth ac_simps)
qed


lemma bcatcstr_rep:
  assumes "bs_rep b xs" and "0 \<notin> set ys" and "int (length xs) + int (length ys) < 2 ^ 30"
  shows "\<exists>r b' al' k. bcatcstr (Some b) (Some (ys @ 0 # p)) al = Inr (r, Some b', al') \<and>
    (r = BSTR_OK \<and> bs_ok b' (xs @ ys) \<or> r = BSTR_ERR \<and> bs_rep b' (xs @ take k ys)) \<and>
    (al = [] \<longrightarrow> r = BSTR_OK \<and> al' = [])"
proof -
  from assms(1) obtain d where d: "data b = Some d" "length d = nat (mlen b)" "0 < mlen b"
    "mlen b < 2 ^ 31" "slen b = int (length xs)" "slen b \<le> mlen b"
    "take (length xs) d = map Some xs"
    by (auto simp: bs_rep_def)
  define l where "l = nat (mlen b - slen b)"
  have l_alt: "nat (mlen b - int (length xs)) = l" by (simp add: l_def d(5))
  have l: "length xs + l = length d" using d by (simp add: l_def nat_diff_distrib)
  show ?thesis
  proof (cases "length ys < l")
    case True
    let ?e = "take (length xs) d @ map Some ys @ Some 0 # drop (length xs + length ys + 1) d"
    let ?b = "b\<lparr>data := Some ?e, slen := slen b + int (length ys)\<rparr>"
    from cat_loop_fits [OF assms(2) True, of "length xs" d p] l d(1,3,5,6)
    have "bcatcstr (Some b) (Some (ys @ 0 # p)) al = Inr (BSTR_OK, Some ?b, al)"
      by (simp add: bcatcstr_def Let_def l_alt)
    moreover have "bs_ok ?b (xs @ ys)"
      using True l d by (auto simp: bs_ok_def bs_rep_def nth_append)
    ultimately show ?thesis by auto
  next
    case False
    let ?e = "take (length xs) d @ map Some (take l ys) @ drop (length xs + l) d"
    let ?b = "b\<lparr>data := Some ?e, slen := slen b + int l\<rparr>"
    have "c_strlen (drop l ys @ 0 # p) = Inr (length ys - l)"
      using assms(2) by (subst c_strlen_append) (auto dest: in_set_dropD)
    moreover have "s32 (int (length ys - l)) = int (length (drop l ys))"
      using assms(3) by simp
    ultimately have run: "bcatcstr (Some b) (Some (ys @ 0 # p)) al =
        bcatblk (Some ?b) (Some (drop l ys @ 0 # p)) (int (length (drop l ys))) al"
      using cat_loop_fills [OF assms(2), of l "length xs" d p] False l d(1,3,5,6)
      by (simp add: bcatcstr_def Let_def l_alt)
    have rep: "bs_rep ?b (xs @ take l ys)"
      using False l d by (auto simp: bs_rep_def)
    have "int (length (xs @ take l ys)) + int (length (drop l ys)) < 2 ^ 30"
      using assms(3) False by simp
    from bcatblk_rep [OF rep this, of "0 # p" al] show ?thesis
      unfolding run by fastforce
  qed
qed

lemma bfromcstr_rep:
  assumes "0 \<notin> set ys" and "int (length ys) < 2 ^ 30 - 2"
  shows "\<exists>bp al'. bfromcstr (Some (ys @ 0 # p)) al = Inr (bp, al') \<and>
    (\<forall>b. bp = Some b \<longrightarrow> bs_ok b ys) \<and> (al = [] \<longrightarrow> bp \<noteq> None \<and> al' = [])"
proof -
  let ?n = "int (length ys) + (2 - (if length ys \<noteq> 0 then 1 else 0))"
  have n: "s32 ?n = ?n" "?n < 2 ^ 30" "?n < 2 ^ 31" "s32 (int (length ys)) = int (length ys)"
    using assms(2) by simp_all
  note snap = snapUpSize_bounds [OF n(3)]
  have gt: "int (length ys) + 1 \<le> ?n" "\<not> snapUpSize ?n \<le> int (length ys)"
    using snap(1) by auto
  obtain ok al1 where a: "answer al = (ok, al1)" "al = [] \<longrightarrow> ok \<and> al1 = []"
    by (cases al) auto
  let ?i = "snapUpSize ?n"
  let ?d = "map Some (ys @ [0]) @ drop (length ys + 1) (replicate (nat ?i) None)"
  have "nat ?i \<ge> length ys + 1" using snap(1) gt(1) by linarith
  note size = this
  then have ov: "overwrite (replicate (nat ?i) None) 0 (map Some (take (length ys + 1) (ys @ 0 # p)))
      = Inr ?d"
    by (simp add: overwrite_def)
  have rep: "bs_ok \<lparr>mlen = ?i, slen = int (length ys), data = Some ?d\<rparr> ys"
    using snap(1,2,3) gt(1) size by (auto simp: bs_ok_def bs_rep_def nth_append)
  have run: "bfromcstr (Some (ys @ 0 # p)) al = (if \<not> ok then Inr (None, al1)
      else case bstr_alloc ?i al1 of (None, al) \<Rightarrow> Inr (None, al)
        | (Some d, al) \<Rightarrow> bind_res (overwrite d 0 (map Some (take (length ys + 1) (ys @ 0 # p)))) (\<lambda>d.
             Inr (Some \<lparr>mlen = ?i, slen = int (length ys), data = Some d\<rparr>, al)))"
    unfolding bfromcstr_def c_strlen_append [OF assms(1)] option.case bind_res.simps n(1,4) Let_def a(1)
    using gt(2) by (cases ok) simp_all
  show ?thesis
  proof (cases ok)
    case False
    with run a show ?thesis by auto
  next
    case True
    show ?thesis
    proof (cases rule: bstr_allocE [of ?i al1])
      case (1 al')
      with True run a snap(2) show ?thesis by auto
    next
      case (2 al')
      with True run a ov rep show ?thesis by auto
    qed
  qed
qed

lemma cells_cstr_map: "cells_cstr z (map Some xs) = Inr (map (\<lambda>c. if c = 0 then z else c) xs)"
  by (induction xs) auto

lemma bstr2cstr_rep:
  assumes "bs_rep b xs" and "int (length xs) < 2 ^ 30"
  shows "\<exists>r al'. bstr2cstr (Some b) z al = Inr (r, al') \<and>
    (r = None \<or> r = Some (map (\<lambda>c. if c = 0 then z else c) xs @ [0])) \<and>
    (al = [] \<longrightarrow> r \<noteq> None \<and> al' = [])"
proof -
  from assms(1) obtain d where d: "data b = Some d" "slen b = int (length xs)"
    "take (length xs) d = map Some xs" "length xs \<le> length d"
    by (auto simp: bs_rep_def le_nat_iff)
  have n: "s32 (int (length xs) + 1) = int (length xs) + 1" using assms(2) by simp
  show ?thesis
    by (rule bstr_allocE [of "int (length xs) + 1" al])
      (use d in \<open>auto simp: bstr2cstr_def n first_cells_def cells_cstr_map\<close>)
qed


lemma bs_ok_rep: "bs_ok b xs \<Longrightarrow> bs_rep b xs"
  by (simp add: bs_ok_def)

text \<open>
  C24: appending a C string to a bstring never leaves its buffer, whatever \<open>malloc\<close> and
  \<open>realloc\<close> answer. \<open>BSTR_OK\<close> is returned exactly when the whole string and a terminator
  are in place; after \<open>BSTR_ERR\<close> a prefix of the string has been appended; with memory
  available the result is \<open>BSTR_OK\<close>.
\<close>

theorem bcatcstr_appends:
  assumes "bs_rep b xs" and "0 \<notin> set ys" and "int (length xs) + int (length ys) < 2 ^ 30"
  shows "\<exists>r b' al' k. bcatcstr (Some b) (Some (ys @ 0 # p)) al = Inr (r, Some b', al') \<and>
    (r = BSTR_OK \<and> bs_ok b' (xs @ ys) \<or> r = BSTR_ERR \<and> bs_rep b' (xs @ take k ys)) \<and>
    (al = [] \<longrightarrow> r = BSTR_OK \<and> al' = [])"
  using assms by (rule bcatcstr_rep)

definition demo_bstring :: bstring where
  "demo_bstring = \<lparr>mlen = 4, slen = 2, data = Some [Some 65, Some 66, Some 0, None]\<rparr>"

theorem bcatcstr_appends_witness:
  "\<exists>r b' al' k. bcatcstr (Some demo_bstring) (Some ([67, 68, 69] @ [0])) [False, False, False] = Inr (r, Some b', al') \<and>
     (r = BSTR_OK \<and> bs_ok b' [65, 66, 67, 68, 69] \<or> r = BSTR_ERR \<and> bs_rep b' ([65, 66] @ take k [67, 68, 69]))"
  using bcatcstr_appends [of demo_bstring "[65, 66]" "[67, 68, 69]" "[]" "[False, False, False]"]
  by (auto simp: demo_bstring_def bs_rep_def)

section \<open>The interface for building strings\<close>

text \<open>
  What a client that only appends relies on: a null pointer is left alone, every append of
  a string or of a character keeps the old content and adds at most what it was given, and
  adds all of it when memory is available.
\<close>

locale string_buffer =
  fixes rep :: "'b \<Rightarrow> byte list \<Rightarrow> bool"
    and cat :: "'b option \<Rightarrow> byte list option \<Rightarrow> alloc \<Rightarrow> (int \<times> 'b option \<times> alloc) res"
    and chr :: "'b option \<Rightarrow> byte \<Rightarrow> alloc \<Rightarrow> (int \<times> 'b option \<times> alloc) res"
    and limit :: nat
  assumes cat_null: "\<exists>r. cat None s al = Inr (r, None, al)"
    and chr_null: "\<exists>r. chr None c al = Inr (r, None, al)"
    and cat_law: "rep b xs \<Longrightarrow> 0 \<notin> set ys \<Longrightarrow> length xs + length ys < limit \<Longrightarrow>
      \<exists>r b' al' zs. cat (Some b) (Some (ys @ 0 # p)) al = Inr (r, Some b', al') \<and>
        rep b' (xs @ zs) \<and> length zs \<le> length ys \<and> (al = [] \<longrightarrow> zs = ys \<and> al' = [])"
    and chr_law: "rep b xs \<Longrightarrow> length xs < limit \<Longrightarrow>
      \<exists>r b' al' zs. chr (Some b) c al = Inr (r, Some b', al') \<and>
        rep b' (xs @ zs) \<and> length zs \<le> 1 \<and> (al = [] \<longrightarrow> zs = [c] \<and> al' = [])"

interpretation bstr: string_buffer bs_rep bcatcstr bconchar "2 ^ 30"
proof
  fix b xs and ys p :: "byte list" and al
  assume b: "bs_rep b xs" "0 \<notin> set ys" and "length xs + length ys < 2 ^ 30"
  then have "int (length xs) + int (length ys) < 2 ^ 30" by simp
  from bcatcstr_rep [OF b this, of p al] obtain r b' al' k where
    run: "bcatcstr (Some b) (Some (ys @ 0 # p)) al = Inr (r, Some b', al')"
    and res: "r = BSTR_OK \<and> bs_ok b' (xs @ ys) \<or> r = BSTR_ERR \<and> bs_rep b' (xs @ take k ys)"
    and ok: "al = [] \<longrightarrow> r = BSTR_OK \<and> al' = []" by blast
  define zs where "zs = (if r = BSTR_OK then ys else take k ys)"
  have "bs_rep b' (xs @ zs)" "length zs \<le> length ys" "al = [] \<longrightarrow> zs = ys \<and> al' = []"
    using res ok by (auto simp: zs_def BSTR_OK_def BSTR_ERR_def dest: bs_ok_rep)
  with run show "\<exists>r b' al' zs. bcatcstr (Some b) (Some (ys @ 0 # p)) al = Inr (r, Some b', al') \<and>
      bs_rep b' (xs @ zs) \<and> length zs \<le> length ys \<and> (al = [] \<longrightarrow> zs = ys \<and> al' = [])"
    by blast
next
  fix b xs c al
  assume b: "bs_rep b xs" and "length xs < 2 ^ 30"
  then have "int (length xs) < 2 ^ 30" by simp
  from bconchar_rep [OF b this, of c al] obtain r b' al' where
    run: "bconchar (Some b) c al = Inr (r, Some b', al')"
    and res: "r = BSTR_OK \<and> bs_ok b' (xs @ [c]) \<or> r = BSTR_ERR \<and> bs_rep b' xs"
    and ok: "al = [] \<longrightarrow> r = BSTR_OK \<and> al' = []" by blast
  define zs where "zs = (if r = BSTR_OK then [c] else [])"
  have "bs_rep b' (xs @ zs)" "length zs \<le> 1" "al = [] \<longrightarrow> zs = [c] \<and> al' = []"
    using res ok by (auto simp: zs_def BSTR_OK_def BSTR_ERR_def dest: bs_ok_rep)
  with run show "\<exists>r b' al' zs. bconchar (Some b) c al = Inr (r, Some b', al') \<and>
      bs_rep b' (xs @ zs) \<and> length zs \<le> 1 \<and> (al = [] \<longrightarrow> zs = [c] \<and> al' = [])"
    by blast
qed (simp_all add: bcatcstr_def bconchar_def)

end
