(* ===== verification/Listener.thy ===== *)
theory Listener
  imports Services BString
begin

text \<open>
  \<open>Dbus/listener.c\<close>: the match rule of a signal subscription, built with the string library,
  adding and removing the match, start and cleanup of the service, and the thread that
  forwards the signals to Android.

  The struct \<open>Signals\<close> is the record \<open>signals\<close> of the theory \<open>Services\<close>; its mutex
  \<open>dbus_mutex\<close> is named by the private connection it guards. The answers of libdbus and of
  \<open>pthread_create\<close> are the record \<open>signals_env\<close>; a null rule given to \<open>printf\<close> and to
  libdbus is the fault \<open>NullPointer\<close>.
\<close>

record signals_env =
  se_error :: bool      \<comment> \<open>\<open>dbus_bus_get_private\<close> sets the error\<close>
  se_con :: nat         \<comment> \<open>the private connection\<close>
  se_thread :: nat
  se_alloc :: alloc     \<comment> \<open>memory for the string library\<close>

section \<open>Building the rule\<close>

text \<open>
  One \<open>if\<close> of \<open>createRule\<close>: the lead, the string and the closing quote, when the string is
  neither NULL nor empty. The results of the appends are ignored. (39 is the quote.)
\<close>

definition rule_field ::
    "('b option \<Rightarrow> byte list option \<Rightarrow> alloc \<Rightarrow> (int \<times> 'b option \<times> alloc) res)
     \<Rightarrow> ('b option \<Rightarrow> byte \<Rightarrow> alloc \<Rightarrow> (int \<times> 'b option \<times> alloc) res)
     \<Rightarrow> byte list \<Rightarrow> byte list option \<Rightarrow> 'b option \<Rightarrow> alloc \<Rightarrow> ('b option \<times> alloc) res" where
  "rule_field cat chr lead s rule al =
     (case s of None \<Rightarrow> Inr (rule, al) | Some p \<Rightarrow>
      bind_res (deref p) (\<lambda>c.
      if c = 0 then Inr (rule, al) else
      bind_res (cat rule (Some (lead @ [0])) al) (\<lambda>(_, rule, al).
      bind_res (cat rule (Some p) al) (\<lambda>(_, rule, al).
      bind_res (chr rule 39 al) (\<lambda>(_, rule, al).
      Inr (rule, al))))))"

definition createRule ::
    "byte list option \<Rightarrow> byte list option \<Rightarrow> byte list option \<Rightarrow> byte list option \<Rightarrow> alloc
     \<Rightarrow> (bstring option \<times> alloc) res" where
  "createRule busname objectpath interface member al =
     bind_res (bfromcstr (Some (bytes_of ''type='' @ [39] @ bytes_of ''signal'' @ [39] @ [0])) al) (\<lambda>(rule, al).
     bind_res (rule_field bcatcstr bconchar (bytes_of '',sender='' @ [39]) busname rule al) (\<lambda>(rule, al).
     bind_res (rule_field bcatcstr bconchar (bytes_of '',path='' @ [39]) objectpath rule al) (\<lambda>(rule, al).
     bind_res (rule_field bcatcstr bconchar (bytes_of '',interface='' @ [39]) interface rule al) (\<lambda>(rule, al).
     rule_field bcatcstr bconchar (bytes_of '',member='' @ [39]) member rule al))))"

section \<open>Adding and removing the match\<close>

definition addSignalWatch ::
    "signals \<Rightarrow> byte list option \<Rightarrow> byte list option \<Rightarrow> byte list option \<Rightarrow> byte list option \<Rightarrow> alloc
     \<Rightarrow> (extcall list \<times> alloc) res" where
  "addSignalWatch signals busname objectpath interface signalname al =
     bind_res (createRule busname objectpath interface signalname al) (\<lambda>(rule, al).
     bind_res (bstr2cstr rule 0 al) (\<lambda>(cstr_rule, al).
     case cstr_rule of None \<Rightarrow> Inl NullPointer | Some p \<Rightarrow>
     bind_res (c_str p) (\<lambda>r. Inr ([AddMatch (sig_con signals) r], al))))"

definition removeSignalWatch ::
    "signals \<Rightarrow> byte list option \<Rightarrow> byte list option \<Rightarrow> byte list option \<Rightarrow> byte list option \<Rightarrow> alloc
     \<Rightarrow> (extcall list \<times> alloc) res" where
  "removeSignalWatch signals busname objectpath interface signalname al =
     bind_res (createRule busname objectpath interface signalname al) (\<lambda>(rule, al).
     bind_res (bstr2cstr rule 0 al) (\<lambda>(cstr_rule, al).
     case cstr_rule of None \<Rightarrow> Inl NullPointer | Some p \<Rightarrow>
     bind_res (c_str p) (\<lambda>r. Inr ([RemoveMatch (sig_con signals) r], al))))"

section \<open>The service\<close>

definition SignalsInit ::
    "signals_env \<Rightarrow> nat \<Rightarrow> nat \<Rightarrow> byte list \<Rightarrow> (signals option \<times> extcall list) res" where
  "SignalsInit env service lock compressed_rule =
     (if se_error env then Inr (None, [])
      else
        let signals = \<lparr>sig_service = service, sig_con = se_con env, dbusSignalWatcher = 0,
                       sig_work = True, sig_startLock = lock\<rparr>;
            busname = compressed_rule
        in
        bind_res (skip_str busname) (\<lambda>objectpath.
        bind_res (skip_str objectpath) (\<lambda>interfacename.
        bind_res (skip_str interfacename) (\<lambda>signalname.
        bind_res (addSignalWatch signals (Some busname) (Some objectpath) (Some interfacename)
                    (Some signalname) (se_alloc env)) (\<lambda>(cs, _).
        Inr (Some (signals\<lparr>dbusSignalWatcher := se_thread env\<rparr>),
             cs @ [ThreadCreate (se_thread env)]))))))"

definition SignalsOnBytesReceived :: "bridge \<Rightarrow> bridge" where
  "SignalsOnBytesReceived b = b"

definition SignalsOnEof :: "bridge \<Rightarrow> bridge" where
  "SignalsOnEof b = b"

definition SignalsCleanup :: "nat \<Rightarrow> signals \<Rightarrow> extcall list" where
  "SignalsCleanup self signals =
     (if self = dbusSignalWatcher signals then [ThreadDetach (dbusSignalWatcher signals)]
      else [ThreadJoin (dbusSignalWatcher signals)]) @
     [ConnectionUnref (sig_con signals), MutexDestroy (sig_con signals)]"

text \<open>
  One round of \<open>signalWatch\<close>: what \<open>dbus_connection_pop_message\<close> returned, as the type of
  the message and its marshalled form.
\<close>

datatype dbus_kind = SignalMessage | OtherMessage

definition signalWatch_round ::
    "nat \<Rightarrow> (dbus_kind \<times> byte list) option \<Rightarrow> bridge \<Rightarrow> bridge" where
  "signalWatch_round service m b =
     (case m of None \<Rightarrow> b
      | Some (kind, marshalled) \<Rightarrow>
          (if kind = SignalMessage then writeAllPort service marshalled b else b))"

text \<open>The loop, over the values \<open>signals->work\<close> has when it is tested.\<close>

fun signalWatch ::
    "nat \<Rightarrow> (bool \<times> (dbus_kind \<times> byte list) option) list \<Rightarrow> bridge \<Rightarrow> bridge" where
  "signalWatch service [] b = b"
| "signalWatch service ((wrk, m) # rounds) b =
     (if wrk then signalWatch service rounds (signalWatch_round service m b) else b)"


section \<open>The rule as text\<close>

definition field_text :: "byte list \<Rightarrow> byte list \<Rightarrow> byte list" where
  "field_text lead s = (if s = [] then [] else lead @ s @ [39])"

definition rule_text :: "byte list \<Rightarrow> byte list \<Rightarrow> byte list \<Rightarrow> byte list \<Rightarrow> byte list" where
  "rule_text bus path iface mem =
     bytes_of ''type='' @ [39] @ bytes_of ''signal'' @ [39] @
     field_text (bytes_of '',sender='' @ [39]) bus @
     field_text (bytes_of '',path='' @ [39]) path @
     field_text (bytes_of '',interface='' @ [39]) iface @
     field_text (bytes_of '',member='' @ [39]) mem"

context string_buffer
begin

definition upto :: "nat \<Rightarrow> 'b option \<Rightarrow> bool" where
  "upto n bp \<longleftrightarrow> (\<forall>b. bp = Some b \<longrightarrow> (\<exists>xs. rep b xs \<and> length xs \<le> n))"

lemma cat_upto:
  assumes "upto n bp" and "0 \<notin> set ys" and "n + length ys < limit"
  shows "\<exists>r bp' al'. cat bp (Some (ys @ 0 # p)) al = Inr (r, bp', al') \<and> upto (n + length ys) bp'"
proof (cases bp)
  case None
  with cat_null [of "Some (ys @ 0 # p)" al] show ?thesis by (auto simp: upto_def)
next
  case (Some b)
  with assms(1) obtain xs where xs: "rep b xs" "length xs \<le> n" by (auto simp: upto_def)
  with assms(3) have "length xs + length ys < limit" by simp
  from cat_law [OF xs(1) assms(2) this, of p al] obtain r b' al' zs where
    run: "cat (Some b) (Some (ys @ 0 # p)) al = Inr (r, Some b', al')"
    and zs: "rep b' (xs @ zs)" "length zs \<le> length ys" by blast
  from zs xs(2) have "upto (n + length ys) (Some b')"
    unfolding upto_def by (intro allI impI exI [of _ "xs @ zs"]) simp
  with run Some show ?thesis by blast
qed

lemma chr_upto:
  assumes "upto n bp" and "n < limit"
  shows "\<exists>r bp' al'. chr bp c al = Inr (r, bp', al') \<and> upto (n + 1) bp'"
proof (cases bp)
  case None
  with chr_null [of c al] show ?thesis by (auto simp: upto_def)
next
  case (Some b)
  with assms(1) obtain xs where xs: "rep b xs" "length xs \<le> n" by (auto simp: upto_def)
  with assms(2) have "length xs < limit" by simp
  from chr_law [OF xs(1) this, of c al] obtain r b' al' zs where
    run: "chr (Some b) c al = Inr (r, Some b', al')" and zs: "rep b' (xs @ zs)" "length zs \<le> 1"
    by blast
  from zs xs(2) have "upto (n + 1) (Some b')"
    unfolding upto_def by (intro allI impI exI [of _ "xs @ zs"]) simp
  with run Some show ?thesis by blast
qed

lemma field_upto:
  assumes "upto n bp" and "0 \<notin> set lead" and "0 \<notin> set s" and "n + length lead + length s + 1 < limit"
  shows "\<exists>bp' al'. rule_field cat chr lead (Some (s @ 0 # p)) bp al = Inr (bp', al') \<and>
    upto (n + length lead + length s + 1) bp'"
proof (cases s)
  case Nil
  with assms(1) show ?thesis by (fastforce simp: rule_field_def upto_def)
next
  case (Cons c cs)
  from cat_upto [OF assms(1,2), of "[]" al] assms(4) obtain r1 bp1 al1 where
    1: "cat bp (Some (lead @ [0])) al = Inr (r1, bp1, al1)" "upto (n + length lead) bp1" by auto
  from cat_upto [OF 1(2) assms(3), of p al1] assms(4) obtain r2 bp2 al2 where
    2: "cat bp1 (Some (s @ 0 # p)) al1 = Inr (r2, bp2, al2)" "upto (n + length lead + length s) bp2"
    by auto
  from chr_upto [OF 2(2), of 39 al2] assms(4) obtain r3 bp3 al3 where
    3: "chr bp2 39 al2 = Inr (r3, bp3, al3)" "upto (n + length lead + length s + 1) bp3" by auto
  have "rule_field cat chr lead (Some (s @ 0 # p)) bp al = Inr (bp3, al3)"
    using 1(1) 2(1) 3(1) Cons assms(3) by (auto simp: rule_field_def)
  with 3(2) show ?thesis by blast
qed

lemma field_exact:
  assumes "rep b xs" and "0 \<notin> set lead" and "0 \<notin> set s"
    and "length xs + length lead + length s + 1 < limit"
  shows "\<exists>b'. rule_field cat chr lead (Some (s @ 0 # p)) (Some b) [] = Inr (Some b', []) \<and>
    rep b' (xs @ field_text lead s)"
proof (cases s)
  case Nil
  with assms(1) show ?thesis by (simp add: rule_field_def field_text_def)
next
  case (Cons c cs)
  from cat_law [OF assms(1,2), of "[]" "[]"] assms(4) obtain r1 b1 where
    1: "cat (Some b) (Some (lead @ [0])) [] = Inr (r1, Some b1, [])" "rep b1 (xs @ lead)" by auto
  from cat_law [OF 1(2) assms(3), of p "[]"] assms(4) obtain r2 b2 where
    2: "cat (Some b1) (Some (s @ 0 # p)) [] = Inr (r2, Some b2, [])" "rep b2 ((xs @ lead) @ s)"
    by auto
  from chr_law [OF 2(2), of 39 "[]"] assms(4) obtain r3 b3 where
    3: "chr (Some b2) 39 [] = Inr (r3, Some b3, [])" "rep b3 (((xs @ lead) @ s) @ [39])" by auto
  have "rule_field cat chr lead (Some (s @ 0 # p)) (Some b) [] = Inr (Some b3, [])"
    using 1(1) 2(1) 3(1) Cons assms(3) by (auto simp: rule_field_def)
  with 3(2) Cons show ?thesis by (auto simp: field_text_def)
qed

end


lemma rule_start: "bytes_of ''type='' @ [39] @ bytes_of ''signal'' @ [39] @ [0] =
    (bytes_of ''type='' @ [39] @ bytes_of ''signal'' @ [39]) @ 0 # []"
  by simp

lemma no_nul [simp]:
  "0 \<notin> set (bytes_of ''type='' @ [39] @ bytes_of ''signal'' @ [39])"
  "0 \<notin> set (bytes_of '',sender='' @ [39])" "0 \<notin> set (bytes_of '',path='' @ [39])"
  "0 \<notin> set (bytes_of '',interface='' @ [39])" "0 \<notin> set (bytes_of '',member='' @ [39])"
  by (simp_all add: bytes_of_def)

text \<open>
  The strings of a request; the bound is far above the 4000 bytes of a message.
\<close>

definition request_ok :: "byte list list \<Rightarrow> bool" where
  "request_ok strs \<longleftrightarrow> list_all (\<lambda>s. 0 \<notin> set s) strs \<and> length (concat strs) < 2 ^ 29"

lemma field_text_length: "length (field_text lead s) \<le> length lead + length s + 1"
  by (simp add: field_text_def)

lemma createRule_exact:
  assumes "request_ok [bus, path, iface, mem]"
  shows "\<exists>b. createRule (Some (bus @ 0 # p)) (Some (path @ 0 # q)) (Some (iface @ 0 # r))
      (Some (mem @ 0 # t)) [] = Inr (Some b, []) \<and> bs_rep b (rule_text bus path iface mem)"
proof -
  note ok = assms [unfolded request_ok_def, simplified]
  let ?t0 = "bytes_of ''type='' @ [39] @ bytes_of ''signal'' @ [39]"
  let ?l1 = "bytes_of '',sender='' @ [39]" and ?l2 = "bytes_of '',path='' @ [39]"
    and ?l3 = "bytes_of '',interface='' @ [39]" and ?l4 = "bytes_of '',member='' @ [39]"
  let ?t1 = "?t0 @ field_text ?l1 bus"
  let ?t2 = "?t1 @ field_text ?l2 path"
  let ?t3 = "?t2 @ field_text ?l3 iface"
  have len: "length ?t0 + length ?l1 + length bus + 1 < 2 ^ 30"
    "length ?t1 + length ?l2 + length path + 1 < 2 ^ 30"
    "length ?t2 + length ?l3 + length iface + 1 < 2 ^ 30"
    "length ?t3 + length ?l4 + length mem + 1 < 2 ^ 30"
    using ok field_text_length [of ?l1 bus] field_text_length [of ?l2 path]
      field_text_length [of ?l3 iface] by simp_all
  from bfromcstr_rep [OF no_nul(1), of "[]" "[]"] obtain b0 where
    0: "bfromcstr (Some (?t0 @ 0 # [])) [] = Inr (Some b0, [])" "bs_rep b0 ?t0"
    by (auto dest: bs_ok_rep simp del: append_assoc)
  from bstr.field_exact [OF 0(2) no_nul(2) _ len(1), of p] ok obtain b1 where
    1: "rule_field bcatcstr bconchar ?l1 (Some (bus @ 0 # p)) (Some b0) [] = Inr (Some b1, [])"
      "bs_rep b1 ?t1"
    by auto
  from bstr.field_exact [OF 1(2) no_nul(3) _ len(2), of q] ok obtain b2 where
    2: "rule_field bcatcstr bconchar ?l2 (Some (path @ 0 # q)) (Some b1) [] = Inr (Some b2, [])"
      "bs_rep b2 ?t2"
    by auto
  from bstr.field_exact [OF 2(2) no_nul(4) _ len(3), of r] ok obtain b3 where
    3: "rule_field bcatcstr bconchar ?l3 (Some (iface @ 0 # r)) (Some b2) [] = Inr (Some b3, [])"
      "bs_rep b3 ?t3"
    by auto
  from bstr.field_exact [OF 3(2) no_nul(5) _ len(4), of t] ok obtain b4 where
    4: "rule_field bcatcstr bconchar ?l4 (Some (mem @ 0 # t)) (Some b3) [] = Inr (Some b4, [])"
      "bs_rep b4 (rule_text bus path iface mem)"
    by (auto simp: rule_text_def)
  have "createRule (Some (bus @ 0 # p)) (Some (path @ 0 # q)) (Some (iface @ 0 # r))
      (Some (mem @ 0 # t)) [] = Inr (Some b4, [])"
    unfolding createRule_def rule_start
    by (simp only: 0(1) 1(1) 2(1) 3(1) 4(1) bind_res.simps prod.case)
  with 4(2) show ?thesis by blast
qed

lemma createRule_total:
  assumes "request_ok [bus, path, iface, mem]"
  shows "\<exists>bp al'. createRule (Some (bus @ 0 # p)) (Some (path @ 0 # q)) (Some (iface @ 0 # r))
      (Some (mem @ 0 # t)) al = Inr (bp, al') \<and> (\<forall>b. bp = Some b \<longrightarrow> (\<exists>xs. bs_rep b xs))"
proof -
  note ok = assms [unfolded request_ok_def, simplified]
  let ?t0 = "bytes_of ''type='' @ [39] @ bytes_of ''signal'' @ [39]"
  have up: "bstr.upto 20 bp" if "\<forall>b. bp = Some b \<longrightarrow> bs_ok b ?t0" for bp
    using that by (auto simp: bstr.upto_def intro!: exI [of _ ?t0] bs_ok_rep)
  have "int (length ?t0) < 2 ^ 30 - 2" by simp
  from bfromcstr_rep [OF no_nul(1) this, of "[]" al] obtain b0 a0 where
    0: "bfromcstr (Some (?t0 @ 0 # [])) al = Inr (b0, a0)" "bstr.upto 20 b0"
    using up by blast
  from bstr.field_upto [OF 0(2) no_nul(2), of bus p a0] ok obtain b1 a1 where
    1: "rule_field bcatcstr bconchar (bytes_of '',sender='' @ [39]) (Some (bus @ 0 # p)) b0 a0
      = Inr (b1, a1)" "bstr.upto (30 + length bus) b1"
    by auto
  from bstr.field_upto [OF 1(2) no_nul(3), of path q a1] ok obtain b2 a2 where
    2: "rule_field bcatcstr bconchar (bytes_of '',path='' @ [39]) (Some (path @ 0 # q)) b1 a1
      = Inr (b2, a2)" "bstr.upto (38 + length bus + length path) b2"
    by (auto simp: ac_simps)
  from bstr.field_upto [OF 2(2) no_nul(4), of iface r a2] ok obtain b3 a3 where
    3: "rule_field bcatcstr bconchar (bytes_of '',interface='' @ [39]) (Some (iface @ 0 # r)) b2 a2
      = Inr (b3, a3)" "bstr.upto (51 + length bus + length path + length iface) b3"
    by (auto simp: ac_simps)
  from bstr.field_upto [OF 3(2) no_nul(5), of mem t a3] ok obtain b4 a4 where
    4: "rule_field bcatcstr bconchar (bytes_of '',member='' @ [39]) (Some (mem @ 0 # t)) b3 a3
      = Inr (b4, a4)" "\<forall>b. b4 = Some b \<longrightarrow> (\<exists>xs. bs_rep b xs)"
    by (auto simp: bstr.upto_def)
  have "createRule (Some (bus @ 0 # p)) (Some (path @ 0 # q)) (Some (iface @ 0 # r))
      (Some (mem @ 0 # t)) al = Inr (b4, a4)"
    unfolding createRule_def rule_start
    by (simp only: 0(1) 1(1) 2(1) 3(1) 4(1) bind_res.simps prod.case)
  with 4(2) show ?thesis by blast
qed


lemma SignalsInit_eq:
  assumes "request_ok [bus, path, iface, mem]" and "\<not> se_error env" and "se_alloc env = []"
  shows "SignalsInit env sv lock (bus @ 0 # path @ 0 # iface @ 0 # mem @ 0 # rest) =
    Inr (Some \<lparr>sig_service = sv, sig_con = se_con env, dbusSignalWatcher = se_thread env,
              sig_work = True, sig_startLock = lock\<rparr>,
         [AddMatch (se_con env) (rule_text bus path iface mem), ThreadCreate (se_thread env)])"
proof -
  note ok = assms(1) [unfolded request_ok_def, simplified]
  let ?rule = "rule_text bus path iface mem"
  have clean: "0 \<notin> set ?rule"
    using ok by (auto simp: rule_text_def field_text_def bytes_of_def)
  have short: "int (length ?rule) < 2 ^ 30"
    using ok field_text_length [of "bytes_of '',sender='' @ [39]" bus]
      field_text_length [of "bytes_of '',path='' @ [39]" path]
      field_text_length [of "bytes_of '',interface='' @ [39]" iface]
      field_text_length [of "bytes_of '',member='' @ [39]" mem] by (simp add: rule_text_def)
  from createRule_exact [OF assms(1), of "path @ 0 # iface @ 0 # mem @ 0 # rest"
      "iface @ 0 # mem @ 0 # rest" "mem @ 0 # rest" rest]
  obtain b where b: "createRule (Some (bus @ 0 # path @ 0 # iface @ 0 # mem @ 0 # rest))
      (Some (path @ 0 # iface @ 0 # mem @ 0 # rest)) (Some (iface @ 0 # mem @ 0 # rest))
      (Some (mem @ 0 # rest)) [] = Inr (Some b, [])" "bs_rep b ?rule"
    by blast
  from bstr2cstr_rep [OF b(2) short, of 0 "[]"]
  have str: "bstr2cstr (Some b) 0 [] = Inr (Some (?rule @ [0]), [])"
    by (auto simp: map_idI)
  from ok have skip: "skip_str (bus @ 0 # x) = Inr x" "skip_str (path @ 0 # x) = Inr x"
    "skip_str (iface @ 0 # x) = Inr x" for x
    by (simp_all add: res_simps)
  have "c_str (?rule @ [0]) = Inr ?rule" using clean by (rule c_str_append)
  with assms(2,3) skip b(1) str show ?thesis
    by (simp add: SignalsInit_def addSignalWatch_def Let_def)
qed

text \<open>
  C40: a subscription asks for exactly the signals it names. For a request of four C strings
  and with memory available, \<open>SignalsInit\<close> adds one match, whose rule has a quoted field for
  every non-empty string and none for the empty ones, before it starts the thread.
\<close>

theorem SignalsInit_subscribes:
  assumes "request_ok [bus, path, iface, mem]" and "\<not> se_error env" and "se_alloc env = []"
  shows "SignalsInit env sv lock (bus @ 0 # path @ 0 # iface @ 0 # mem @ 0 # rest) =
    Inr (Some \<lparr>sig_service = sv, sig_con = se_con env, dbusSignalWatcher = se_thread env,
              sig_work = True, sig_startLock = lock\<rparr>,
         [AddMatch (se_con env) (rule_text bus path iface mem), ThreadCreate (se_thread env)])"
  using assms by (rule SignalsInit_eq)

theorem SignalsInit_subscribes_witness:
  "SignalsInit \<lparr>se_error = False, se_con = 4, se_thread = 6, se_alloc = []\<rparr> 3 1
     (bytes_of ''a.b'' @ 0 # [] @ 0 # [] @ 0 # bytes_of ''M'' @ 0 # []) =
   Inr (Some \<lparr>sig_service = 3, sig_con = 4, dbusSignalWatcher = 6, sig_work = True, sig_startLock = 1\<rparr>,
        [AddMatch 4 (bytes_of ''type='' @ [39] @ bytes_of ''signal'' @ [39] @
           bytes_of '',sender='' @ [39] @ bytes_of ''a.b'' @ [39] @
           bytes_of '',member='' @ [39] @ bytes_of ''M'' @ [39]), ThreadCreate 6])"
  using SignalsInit_subscribes [of "bytes_of ''a.b''" "[]" "[]" "bytes_of ''M''"
      "\<lparr>se_error = False, se_con = 4, se_thread = 6, se_alloc = []\<rparr>" 3 1 "[]"]
  by (simp add: request_ok_def bytes_of_def rule_text_def field_text_def)

text \<open>
  Whatever \<open>malloc\<close> and \<open>realloc\<close> answer, building the rule for a request of four C
  strings reads and writes only inside its buffers; it gives a valid string or NULL.
\<close>

theorem createRule_memory_safe:
  assumes "request_ok [bus, path, iface, mem]"
  shows "\<exists>bp al'. createRule (Some (bus @ 0 # p)) (Some (path @ 0 # q)) (Some (iface @ 0 # r))
      (Some (mem @ 0 # t)) al = Inr (bp, al') \<and> (\<forall>b. bp = Some b \<longrightarrow> (\<exists>xs. bs_rep b xs))"
  using assms by (rule createRule_total)

theorem createRule_memory_safe_witness:
  "\<exists>bp al'. createRule (Some [97, 0]) (Some [47, 98, 0]) (Some [0]) (Some [77, 0])
      [True, True, False, False] = Inr (bp, al') \<and> (\<forall>b. bp = Some b \<longrightarrow> (\<exists>xs. bs_rep b xs))"
  using createRule_memory_safe [of "[97]" "[47, 98]" "[]" "[77]" "[]" "[]" "[]" "[]"
      "[True, True, False, False]"]
  by (simp add: request_ok_def)


section \<open>Different requests, different rules\<close>

lemma split_at_quote:
  "q \<notin> set xs \<Longrightarrow> q \<notin> set xs' \<Longrightarrow> xs @ q # r = xs' @ q # r' \<Longrightarrow> xs = xs' \<and> r = r'"
proof (induction xs arbitrary: xs')
  case Nil
  then show ?case by (cases xs') auto
next
  case (Cons x xs)
  then show ?case by (cases xs') auto
qed

lemma field_text_inj:
  assumes "field_text (a # c # l) xs @ r = field_text (a # c # l) xs' @ r'"
    and "39 \<notin> set xs" and "39 \<notin> set xs'" and "take 2 r \<noteq> [a, c]" and "take 2 r' \<noteq> [a, c]"
  shows "xs = xs' \<and> r = r'"
  using assms split_at_quote [of 39 xs xs' r r']
  by (auto simp: field_text_def split: if_splits)

lemma rule_text_inj:
  assumes "rule_text a b c d = rule_text a' b' c' d'"
    and "list_all (\<lambda>s. 39 \<notin> set s) [a, b, c, d, a', b', c', d']"
  shows "[a, b, c, d] = [a', b', c', d']"
proof -
  note free = assms(2) [simplified]
  note eq = assms(1) [unfolded rule_text_def same_append_eq]
  have 1: "a = a' \<and> field_text (bytes_of '',path='' @ [39]) b @
       field_text (bytes_of '',interface='' @ [39]) c @ field_text (bytes_of '',member='' @ [39]) d =
     field_text (bytes_of '',path='' @ [39]) b' @
       field_text (bytes_of '',interface='' @ [39]) c' @ field_text (bytes_of '',member='' @ [39]) d'"
    by (rule field_text_inj [of 44 115 "bytes_of ''ender='' @ [39]"])
      (use eq free in \<open>simp_all add: bytes_of_def\<close>, simp_all add: field_text_def)
  have 2: "b = b' \<and> field_text (bytes_of '',interface='' @ [39]) c @ field_text (bytes_of '',member='' @ [39]) d =
     field_text (bytes_of '',interface='' @ [39]) c' @ field_text (bytes_of '',member='' @ [39]) d'"
    by (rule field_text_inj [of 44 112 "bytes_of ''ath='' @ [39]"])
      (use 1 free in \<open>simp_all add: bytes_of_def\<close>, simp_all add: field_text_def)
  have 3: "c = c' \<and> field_text (bytes_of '',member='' @ [39]) d = field_text (bytes_of '',member='' @ [39]) d'"
    by (rule field_text_inj [of 44 105 "bytes_of ''nterface='' @ [39]"])
      (use 2 free in \<open>simp_all add: bytes_of_def\<close>, simp_all add: field_text_def)
  have 4: "d = d'"
    using 3 free field_text_inj [of 44 109 "bytes_of ''ember='' @ [39]" d "[]" d' "[]"]
    by (simp add: bytes_of_def)
  from 1 2 3 4 show ?thesis by simp
qed

text \<open>
  Two subscriptions whose strings hold no quote get the same match rule only when they
  name the same four strings. (The strings are not escaped, so with a quote in one of them
  this fails: \<open>rule_text_ambiguous\<close>.)
\<close>

theorem subscriptions_distinct:
  assumes "request_ok [a, b, c, d]" and "request_ok [a', b', c', d']" and "\<not> se_error env"
    and "se_alloc env = []" and "list_all (\<lambda>s. 39 \<notin> set s) [a, b, c, d, a', b', c', d']"
    and "SignalsInit env sv lock (a @ 0 # b @ 0 # c @ 0 # d @ 0 # rest) =
      SignalsInit env sv lock (a' @ 0 # b' @ 0 # c' @ 0 # d' @ 0 # rest')"
  shows "[a, b, c, d] = [a', b', c', d']"
proof -
  obtain str where str: "\<And>p q r t u. request_ok [p, q, r, t] \<Longrightarrow>
      SignalsInit env sv lock (p @ 0 # q @ 0 # r @ 0 # t @ 0 # u) =
        Inr (str, [AddMatch (se_con env) (rule_text p q r t), ThreadCreate (se_thread env)])"
    using SignalsInit_eq [OF _ assms(3,4)] by blast
  from assms(6) have "rule_text a b c d = rule_text a' b' c' d'"
    by (simp add: str assms(1,2))
  then show ?thesis using assms(5) by (rule rule_text_inj)
qed

theorem subscriptions_distinct_witness:
  "SignalsInit \<lparr>se_error = False, se_con = 4, se_thread = 6, se_alloc = []\<rparr> 3 1
      ([97] @ 0 # [] @ 0 # [] @ 0 # [77] @ 0 # []) \<noteq>
   SignalsInit \<lparr>se_error = False, se_con = 4, se_thread = 6, se_alloc = []\<rparr> 3 1
      ([97] @ 0 # [] @ 0 # [77] @ 0 # [] @ 0 # [])"
  using subscriptions_distinct [of "[97]" "[]" "[]" "[77]" "[97]" "[]" "[77]" "[]"
      "\<lparr>se_error = False, se_con = 4, se_thread = 6, se_alloc = []\<rparr>" 3 1 "[]" "[]"]
  by (auto simp: request_ok_def)

lemma rule_text_ambiguous:
  "rule_text [97] [] [] [77] = rule_text ([97, 39] @ bytes_of '',member='' @ [39, 77]) [] [] []"
  by (simp add: rule_text_def field_text_def bytes_of_def)

end
