(* ===== verification/Method.thy ===== *)
theory Method
  imports Services Complex_Main
begin

text \<open>
  \<open>Dbus/method.c\<close>: a message from Android is a D-Bus method call, four C strings followed by
  the number of arguments and the arguments; the marshalled reply goes back on the port.

  The target is little-endian, so \<open>le16toh\<close>, \<open>le32toh\<close> and \<open>le64toh\<close> are the identity; \<open>char\<close>
  is signed or not (the parameter \<open>cs\<close>). The answers of libdbus are the record \<open>method_env\<close>.
\<close>

record method_env =
  me_error :: bool               \<comment> \<open>\<open>dbus_bus_get\<close> sets the error\<close>
  me_con :: nat
  me_msg_ok :: bool              \<comment> \<open>\<open>dbus_message_new_method_call\<close> is not NULL\<close>
  me_append_ok :: "nat \<Rightarrow> bool"  \<comment> \<open>the n-th \<open>dbus_message_iter_append_basic\<close> succeeds\<close>
  me_send_ok :: bool             \<comment> \<open>\<open>dbus_connection_send_with_reply\<close> succeeds\<close>
  me_pending_ok :: bool          \<comment> \<open>the pending call is not NULL\<close>
  me_reply :: "byte list option" \<comment> \<open>the marshalled reply\<close>
  me_error_reply :: "nat \<Rightarrow> byte list"  \<comment> \<open>the marshalled error message, for a reply of n bytes\<close>

section \<open>Reading an argument\<close>

fun le_word :: "byte list \<Rightarrow> 'a::len word" where
  "le_word [] = 0"
| "le_word (b # bs) = ucast b OR push_bit 8 (le_word bs)"

definition rd_le :: "nat \<Rightarrow> byte list \<Rightarrow> 'a::len word res" where
  "rd_le n p = (if n \<le> length p then Inr (le_word (take n p)) else Inl OutOfBounds)"

text \<open>
  \<open>le64toh( *((double*)bytes) )\<close> assigned to a \<open>double\<close>: the parameter of \<open>le64toh\<close> is a
  \<open>uint64_t\<close>, so the value is truncated towards zero, and it is undefined outside the range
  of the type. On the representation: the fraction bits below the binary point are cleared.
\<close>

definition dbl_via_u64 :: "64 word \<Rightarrow> 64 word res" where
  "dbl_via_u64 w =
     (let e = unat (take_bit 11 (drop_bit 52 w)) in
      if e < 1023 then Inr 0
      else if bit w 63 \<or> e \<ge> 1087 then Inl BadConversion
      else if e \<ge> 1075 then Inr w
      else Inr (w AND NOT (mask (1075 - e))))"

definition char_to_u32 :: "bool \<Rightarrow> byte \<Rightarrow> uint32" where
  "char_to_u32 cs c = (if cs then scast c else ucast c)"

text \<open>
  \<open>bytesToDbus\<close>: the value, \<open>None\<close> when \<open>dbusValue\<close> is left uninitialised, and the returned
  size (\<open>-1\<close> as an \<open>unsigned int\<close> for an unknown type).
\<close>

definition bytesToDbus :: "bool \<Rightarrow> byte \<Rightarrow> byte list \<Rightarrow> (dbusval option \<times> nat) res" where
  "bytesToDbus cs ty p =
     (if ty = of_char (CHR ''y'') then
        bind_res (deref p) (\<lambda>c. Inr (Some (DByte c), 1))
      else if ty = of_char (CHR ''b'') then
        bind_res (deref p) (\<lambda>c. Inr (Some (DBool (char_to_u32 cs c)), 1))
      else if ty = of_char (CHR ''n'') then
        bind_res (rd_le 2 p) (\<lambda>w. Inr (Some (DInt16 w), 2))
      else if ty = of_char (CHR ''q'') then
        bind_res (rd_le 2 p) (\<lambda>w. Inr (Some (DUint16 w), 2))
      else if ty = of_char (CHR ''i'') then
        bind_res (rd_le 4 p) (\<lambda>w. Inr (Some (DInt32 w), 4))
      else if ty = of_char (CHR ''u'') then
        bind_res (rd_le 4 p) (\<lambda>w. Inr (Some (DUint32 w), 4))
      else if ty = of_char (CHR ''x'') then
        bind_res (rd_le 8 p) (\<lambda>w. Inr (Some (DInt64 w), 8))
      else if ty = of_char (CHR ''t'') then
        bind_res (rd_le 8 p) (\<lambda>w. Inr (Some (DUint64 w), 8))
      else if ty = of_char (CHR ''d'') then
        bind_res (rd_le 8 p) (\<lambda>w. bind_res (dbl_via_u64 w) (\<lambda>w. Inr (Some (DDouble w), 8)))
      else if ty = of_char (CHR ''s'') then
        bind_res (c_strlen p) (\<lambda>n. bind_res (c_str p) (\<lambda>str. Inr (Some (DString str), n + 1)))
      else Inr (None, 4294967295))"

section \<open>The service\<close>

definition MethodInit :: "method_env \<Rightarrow> nat \<Rightarrow> methods option" where
  "MethodInit env service =
     (if me_error env then None else Some \<lparr>meth_con = me_con env, meth_service = service\<rparr>)"

text \<open>
  The loop over the arguments: \<open>i\<close> counts the calls of \<open>dbus_message_iter_append_basic\<close>. A
  negative \<open>numberOfArguments\<close> counts down as an unsigned word; every round reads the
  buffer, so the loop faults at its end long before.
\<close>

fun args_loop :: "bool \<Rightarrow> (nat \<Rightarrow> bool) \<Rightarrow> nat \<Rightarrow> nat \<Rightarrow> byte list \<Rightarrow> dbusval list res" where
  "args_loop cs append_ok i 0 arg_pointer = Inr []"
| "args_loop cs append_ok i (Suc n) arg_pointer =
     bind_res (deref arg_pointer) (\<lambda>varType.
     bind_res (bytesToDbus cs varType (drop 1 arg_pointer)) (\<lambda>(dbusVal, len).
     case dbusVal of None \<Rightarrow> Inl Uninitialised
     | Some v \<Rightarrow>
         if \<not> append_ok i then Inl (ExitProcess 1)
         else bind_res (args_loop cs append_ok (Suc i) n (drop len (drop 1 arg_pointer))) (\<lambda>vs.
           Inr (v # vs))))"

definition MethodOnBytesReceived ::
    "bool \<Rightarrow> method_env \<Rightarrow> methods \<Rightarrow> nat \<Rightarrow> byte list \<Rightarrow> bridge \<Rightarrow> bridge res" where
  "MethodOnBytesReceived cs env methods service buffer b =
     (let busname = buffer in
      bind_res (skip_str busname) (\<lambda>objectpath.
      bind_res (skip_str objectpath) (\<lambda>interfacename.
      bind_res (skip_str interfacename) (\<lambda>function_name.
      bind_res (skip_str function_name) (\<lambda>arg_pointer.
      if \<not> me_msg_ok env then Inr b
      else
        bind_res (c_str busname) (\<lambda>bus.
        bind_res (c_str objectpath) (\<lambda>path.
        bind_res (c_str interfacename) (\<lambda>iface.
        bind_res (c_str function_name) (\<lambda>fname.
        bind_res (deref arg_pointer) (\<lambda>c.
        let numberOfArguments = unat (char_to_u32 cs c);
            arg_pointer = drop 4 arg_pointer
        in
        bind_res (args_loop cs (me_append_ok env) 0 numberOfArguments arg_pointer) (\<lambda>args.
        if \<not> me_send_ok env then Inl (ExitProcess 1)
        else if \<not> me_pending_ok env then Inl NullPointer
        else
          let b = add_ext [DbusCall bus path iface fname args] b in
          case me_reply env of None \<Rightarrow> Inl NullPointer
          | Some marshalled \<Rightarrow>
              if length marshalled > 4000
              then Inr (writeAllPort service (me_error_reply env (length marshalled)) b)
              else Inr (writeAllPort service marshalled b))))))))))))"

text \<open>\<open>MethodOnEof\<close> is \<open>sendEof(service)\<close>; it is with the other handlers in \<open>Bridge\<close>.\<close>

definition MethodCleanup :: "methods \<Rightarrow> extcall list" where
  "MethodCleanup methods = []"

section \<open>The message format\<close>

definition to_le :: "nat \<Rightarrow> 'a::len word \<Rightarrow> byte list" where
  "to_le n w = map (\<lambda>i. ucast (drop_bit (8 * i) w)) [0..<n]"

fun encode_arg :: "dbusval \<Rightarrow> byte list" where
  "encode_arg (DByte c) = [of_char (CHR ''y''), c]"
| "encode_arg (DBool c) = [of_char (CHR ''b''), ucast c]"
| "encode_arg (DInt16 w) = of_char (CHR ''n'') # to_le 2 w"
| "encode_arg (DUint16 w) = of_char (CHR ''q'') # to_le 2 w"
| "encode_arg (DInt32 w) = of_char (CHR ''i'') # to_le 4 w"
| "encode_arg (DUint32 w) = of_char (CHR ''u'') # to_le 4 w"
| "encode_arg (DInt64 w) = of_char (CHR ''x'') # to_le 8 w"
| "encode_arg (DUint64 w) = of_char (CHR ''t'') # to_le 8 w"
| "encode_arg (DDouble w) = of_char (CHR ''d'') # to_le 8 w"
| "encode_arg (DString cs) = of_char (CHR ''s'') # cs @ [0]"

fun arg_ok :: "dbusval \<Rightarrow> bool" where
  "arg_ok (DBool c) \<longleftrightarrow> c = 0 \<or> c = 1"
| "arg_ok (DDouble w) \<longleftrightarrow> dbl_via_u64 w = Inr w"
| "arg_ok (DString cs) \<longleftrightarrow> 0 \<notin> set cs"
| "arg_ok _ \<longleftrightarrow> True"

definition encode_call ::
    "byte list \<Rightarrow> byte list \<Rightarrow> byte list \<Rightarrow> byte list \<Rightarrow> dbusval list \<Rightarrow> byte list" where
  "encode_call bus path iface fname args =
     bus @ 0 # path @ 0 # iface @ 0 # fname @ 0 #
     to_le 4 (word_of_nat (length args) :: uint32) @ concat (map encode_arg args)"

lemma le_word_to_le: "le_word (map (\<lambda>i. ucast (drop_bit (8 * i) w)) [k..<k + n]) =
    (take_bit (8 * n) (drop_bit (8 * k) w) :: 'a::len word)"
proof (induction n arbitrary: k)
  case 0
  then show ?case by simp
next
  case (Suc n)
  have "[k..<k + Suc n] = k # [Suc k..<Suc k + n]" by (simp add: upt_rec)
  then have "le_word (map (\<lambda>i. ucast (drop_bit (8 * i) w)) [k..<k + Suc n]) =
      ucast (ucast (drop_bit (8 * k) w) :: byte) OR
      push_bit 8 (take_bit (8 * n) (drop_bit (8 * Suc k) w))"
    using Suc.IH [of "Suc k"] by simp
  also have "\<dots> = take_bit (8 * Suc n) (drop_bit (8 * k) w)"
    by (rule bit_word_eqI) (auto simp: bit_simps ac_simps)
  finally show ?case .
qed

lemma rd_le_to_le [simp]:
  "LENGTH('a::len) \<le> 8 * n \<Longrightarrow> rd_le n (to_le n w @ p) = Inr (w :: 'a word)"
  using le_word_to_le [of w 0 n] by (simp add: rd_le_def to_le_def take_bit_word_eq_self)

lemma length_to_le [simp]: "length (to_le n w) = n"
  by (simp add: to_le_def)


lemma encode_arg_parts:
  "\<exists>ty q. encode_arg v = ty # q \<and>
    (arg_ok v \<longrightarrow> (\<forall>p. bytesToDbus cs ty (q @ p) = Inr (Some v, length q)))"
proof (cases v)
  case (DBool c)
  have "c = 0 \<or> c = 1 \<Longrightarrow> char_to_u32 cs (ucast c) = c"
    by (auto simp: char_to_u32_def)
  with DBool show ?thesis by (auto simp: bytesToDbus_def)
next
  case (DString xs)
  then show ?thesis by (simp add: bytesToDbus_def c_strlen_append c_str_append)
qed (simp_all add: bytesToDbus_def)

lemma args_loop_encoded:
  "list_all arg_ok args \<Longrightarrow> (\<And>j. append_ok j) \<Longrightarrow> k \<le> length args \<Longrightarrow>
     args_loop cs append_ok i k (concat (map encode_arg args) @ p) = Inr (take k args)"
proof (induction args arbitrary: k i)
  case Nil
  then show ?case by simp
next
  case (Cons v args)
  show ?case
  proof (cases k)
    case 0
    then show ?thesis by simp
  next
    case (Suc k')
    obtain ty q where "encode_arg v = ty # q"
      and "\<forall>p. bytesToDbus cs ty (q @ p) = Inr (Some v, length q)"
      using encode_arg_parts [of v cs] Cons.prems(1) by auto
    with Cons Suc show ?thesis by simp
  qed
qed

definition call_names_ok :: "byte list list \<Rightarrow> bool" where
  "call_names_ok ns \<longleftrightarrow> list_all (\<lambda>n. 0 \<notin> set n) ns"

lemma char_small: "unat c < 128 \<Longrightarrow> char_to_u32 cs c = ucast c"
proof -
  assume "unat c < 128"
  then have "unat c div 2 ^ 7 = 0" by simp
  then have "\<not> bit (unat c) 7" by (simp add: bit_iff_odd)
  then have top: "\<not> bit c 7" by (simp add: bit_simps)
  have "(scast c :: uint32) = ucast c"
    by (rule bit_word_eqI) (use top in \<open>auto simp: bit_simps min_def le_less dest: bit_imp_le_length\<close>)
  then show "char_to_u32 cs c = ucast c" by (simp add: char_to_u32_def)
qed

lemma count_byte:
  assumes "\<not> cs \<or> n mod 256 < 128"
  shows "unat (char_to_u32 cs (ucast (word_of_nat n :: uint32))) = n mod 256"
proof -
  have byte: "unat (ucast (word_of_nat n :: uint32) :: byte) = n mod 256"
    by (simp add: unsigned_ucast_eq unsigned_of_nat take_bit_nat_def mod_mod_cancel)
  have "char_to_u32 cs (ucast (word_of_nat n :: uint32)) = ucast (ucast (word_of_nat n :: uint32) :: byte)"
  proof (cases cs)
    case True
    with assms byte show ?thesis by (intro char_small) simp
  next
    case False
    then show ?thesis by (simp add: char_to_u32_def)
  qed
  moreover have "unat (ucast (c :: byte) :: uint32) = unat c" for c
    by (simp add: unsigned_ucast_eq take_bit_nat_eq_self_iff unsigned_less [THEN less_le_trans])
  ultimately show ?thesis using byte by simp
qed


lemma method_call:
  assumes "call_names_ok [bus, path, iface, fname]" and "list_all arg_ok args"
    and "\<not> cs \<or> length args mod 256 < 128"
    and "me_msg_ok env" and "me_send_ok env" and "me_pending_ok env" and "\<And>j. me_append_ok env j"
    and "me_reply env = Some reply"
  shows "MethodOnBytesReceived cs env methods sv (encode_call bus path iface fname args) b =
    Inr (writeAllPort sv (if length reply > 4000 then me_error_reply env (length reply) else reply)
      (add_ext [DbusCall bus path iface fname (take (length args mod 256) args)] b))"
proof -
  let ?n = "word_of_nat (length args) :: uint32"
  have skip: "skip_str (x @ 0 # p) = Inr p" "c_str (x @ 0 # p) = Inr x"
    if "x \<in> {bus, path, iface, fname}" for x p
    using assms(1) that by (auto simp: call_names_ok_def res_simps)
  obtain l3 where l3: "to_le 4 ?n = ucast ?n # l3" "length l3 = 3"
  proof
    show "to_le 4 ?n = ucast ?n # map (\<lambda>i. ucast (drop_bit (8 * i) ?n)) [1..<4]"
      by (simp add: to_le_def upt_rec)
  qed simp
  have "length args mod 256 \<le> length args" by simp
  from args_loop_encoded [OF assms(2) assms(7) this, where cs = cs and i = 0 and p = "[]"]
  have "args_loop cs (me_append_ok env) 0 (length args mod 256) (concat (map encode_arg args)) =
      Inr (take (length args mod 256) args)" by simp
  with l3 count_byte [OF assms(3)] skip assms(4-6,8) show ?thesis
    by (simp add: MethodOnBytesReceived_def encode_call_def Let_def)
qed

text \<open>
  C4: a method call from Android reaches the payload as it was meant. For a call in the wire
  format, with arguments the format can carry, the call made over D-Bus has the four names
  and the arguments of the message, and its reply (or the substitute for one above 4000
  bytes) is queued for the port. But the count is read from one byte: of n arguments only
  the first n mod 256 are passed on.
\<close>

theorem method_call_round_trip:
  assumes "call_names_ok [bus, path, iface, fname]" and "list_all arg_ok args"
    and "\<not> cs \<or> length args mod 256 < 128"
    and "me_msg_ok env" and "me_send_ok env" and "me_pending_ok env" and "\<And>j. me_append_ok env j"
    and "me_reply env = Some reply"
  shows "MethodOnBytesReceived cs env methods sv (encode_call bus path iface fname args) b =
    Inr (writeAllPort sv (if length reply > 4000 then me_error_reply env (length reply) else reply)
      (add_ext [DbusCall bus path iface fname (take (length args mod 256) args)] b))"
  using assms by (rule method_call)

definition demo_method_env :: method_env where
  "demo_method_env = \<lparr>me_error = False, me_con = 1, me_msg_ok = True, me_append_ok = (\<lambda>_. True),
     me_send_ok = True, me_pending_ok = True, me_reply = Some [5, 6], me_error_reply = (\<lambda>_. [])\<rparr>"

theorem method_call_round_trip_witness:
  "\<forall>b. MethodOnBytesReceived True demo_method_env \<lparr>meth_con = 1, meth_service = 3\<rparr> 3
     (encode_call [97] [47] [98] [99] [DInt16 513, DString [65, 66], DBool 1]) b =
   Inr (writeAllPort 3 [5, 6]
     (add_ext [DbusCall [97] [47] [98] [99] [DInt16 513, DString [65, 66], DBool 1]] b))"
  using method_call_round_trip [of "[97]" "[47]" "[98]" "[99]"
      "[DInt16 513, DString [65, 66], DBool 1]" True demo_method_env "[5, 6]"]
  by (simp add: call_names_ok_def demo_method_env_def)

section \<open>Doubles\<close>

definition dbl_exp :: "64 word \<Rightarrow> nat" where
  "dbl_exp w = unat (take_bit 11 (drop_bit 52 w))"

definition dbl_mant :: "64 word \<Rightarrow> nat" where
  "dbl_mant w = (if dbl_exp w = 0 then 0 else 2 ^ 52) + unat (take_bit 52 w)"

text \<open>The value a finite double without sign represents (binary64 of IEEE 754).\<close>

definition dbl_value :: "64 word \<Rightarrow> real" where
  "dbl_value w = real (dbl_mant w * 2 ^ (max 1 (dbl_exp w))) / 2 ^ 1075"

lemma dbl_mant_less: "dbl_mant w < 2 ^ 53"
proof -
  have "unat (take_bit 52 w) < 2 ^ 52"
    using take_bit_nat_less_exp [of 52 "unat w"] by (simp add: unsigned_take_bit_eq)
  then show ?thesis by (simp add: dbl_mant_def)
qed

lemma dbl_cleared:
  assumes "k \<le> 52"
  shows "dbl_exp (w AND NOT (mask k)) = dbl_exp w"
    and "dbl_exp w \<noteq> 0 \<Longrightarrow> dbl_mant (w AND NOT (mask k)) = (dbl_mant w div 2 ^ k) * 2 ^ k"
proof -
  have "take_bit 11 (drop_bit 52 (w AND NOT (mask k))) = take_bit 11 (drop_bit 52 w)"
    by (rule bit_word_eqI) (use assms in \<open>auto simp: bit_simps\<close>)
  then show e: "dbl_exp (w AND NOT (mask k)) = dbl_exp w" by (simp add: dbl_exp_def)
  assume nz: "dbl_exp w \<noteq> 0"
  have "unat (take_bit 52 (w AND NOT (mask k))) = push_bit k (drop_bit k (unat (take_bit 52 w)))"
    by (rule bit_eqI) (auto simp: bit_simps dest: bit_imp_le_length)
  then have "unat (take_bit 52 (w AND NOT (mask k))) = (unat (take_bit 52 w) div 2 ^ k) * 2 ^ k"
    by (simp add: push_bit_eq_mult drop_bit_eq_div)
  moreover have "(2 ^ 52 + m) div 2 ^ k * 2 ^ k = 2 ^ 52 + m div 2 ^ k * 2 ^ k" for m :: nat
  proof -
    have two: "(2::nat) ^ 52 = 2 ^ (52 - k) * 2 ^ k" using assms by (simp flip: power_add)
    have "(a * 2 ^ k + m) div 2 ^ k * 2 ^ k = a * 2 ^ k + m div 2 ^ k * 2 ^ k" for a :: nat
      by (simp add: add_mult_distrib)
    then show ?thesis unfolding two .
  qed
  ultimately show "dbl_mant (w AND NOT (mask k)) = (dbl_mant w div 2 ^ k) * 2 ^ k"
    using nz by (simp add: dbl_mant_def e)
qed

lemma floor_scaled: "\<lfloor>real n / 2 ^ k\<rfloor> = int (n div 2 ^ k)"
  using floor_divide_of_nat_eq [of n "2 ^ k"] by simp

lemma dbl_via_u64_floor:
  assumes "dbl_exp w < 1087" and "\<not> bit w 63"
  shows "\<exists>w'. dbl_via_u64 w = Inr w' \<and> dbl_value w' = of_int \<lfloor>dbl_value w\<rfloor>"
proof -
  let ?e = "dbl_exp w" let ?M = "dbl_mant w"
  consider "?e < 1023" | "1023 \<le> ?e" "?e < 1075" | "1075 \<le> ?e" by linarith
  then show ?thesis
  proof cases
    case 1
    have "(2::nat) ^ max 1 ?e \<le> 2 ^ 1022" by (rule power_increasing) (use 1 in simp_all)
    from mult_less_le_imp_less [OF dbl_mant_less this]
    have "?M * 2 ^ max 1 ?e < 2 ^ 53 * 2 ^ 1022" by simp
    then have "?M * 2 ^ max 1 ?e div 2 ^ 1075 = 0" by (simp flip: power_add)
    then have "\<lfloor>dbl_value w\<rfloor> = 0" by (simp only: dbl_value_def floor_scaled of_nat_0)
    moreover have "dbl_value 0 = 0" by (simp add: dbl_value_def dbl_mant_def dbl_exp_def)
    ultimately show ?thesis using 1 by (simp add: dbl_via_u64_def Let_def flip: dbl_exp_def)
  next
    case 2
    define k where "k = 1075 - ?e"
    have k: "k \<le> 52" "?e + k = 1075" "max 1 ?e = ?e" using 2 by (simp_all add: k_def)
    have two: "(2::nat) ^ 1075 = 2 ^ k * 2 ^ ?e" by (metis add.commute k(2) power_add)
    have "\<lfloor>dbl_value w\<rfloor> = int (?M * 2 ^ ?e div 2 ^ 1075)"
      by (simp only: dbl_value_def floor_scaled k(3))
    also have "?M * 2 ^ ?e div 2 ^ 1075 = ?M div 2 ^ k" by (simp only: two div_mult_mult2) simp
    finally have fl: "\<lfloor>dbl_value w\<rfloor> = int (?M div 2 ^ k)" .
    have "dbl_value (w AND NOT (mask k)) = real ((?M div 2 ^ k) * 2 ^ 1075) / 2 ^ 1075"
      using dbl_cleared [OF k(1), of w] 2 by (simp only: dbl_value_def k(3) two)
    then have "dbl_value (w AND NOT (mask k)) = of_int \<lfloor>dbl_value w\<rfloor>"
      by (simp add: fl)
    moreover have "dbl_via_u64 w = Inr (w AND NOT (mask k))"
      using 2 assms by (simp add: dbl_via_u64_def Let_def k_def flip: dbl_exp_def)
    ultimately show ?thesis by simp
  next
    case 3
    have m: "max 1 ?e = (?e - 1075) + 1075" using 3 by simp
    have "\<lfloor>dbl_value w\<rfloor> = int (?M * 2 ^ (?e - 1075))"
      unfolding dbl_value_def floor_scaled m power_add by simp
    moreover have "dbl_value w = real (?M * 2 ^ (?e - 1075))"
      unfolding dbl_value_def m power_add by simp
    ultimately have "dbl_value w = of_int \<lfloor>dbl_value w\<rfloor>" by simp
    moreover have "dbl_via_u64 w = Inr w"
      using 3 assms by (simp add: dbl_via_u64_def Let_def flip: dbl_exp_def)
    ultimately show ?thesis by simp
  qed
qed

text \<open>
  An argument of type double is changed on its way. For a double without sign below
  2 to the 64th, the double that libdbus is given has the value of the one in the message
  rounded down to a whole number, because the bytes go through an integer parameter.
\<close>

theorem double_arguments_truncated:
  assumes "dbl_exp w < 1087" and "\<not> bit w 63"
  shows "\<exists>w'. bytesToDbus cs (of_char (CHR ''d'')) (to_le 8 w @ p) = Inr (Some (DDouble w'), 8) \<and>
    dbl_value w' = of_int \<lfloor>dbl_value w\<rfloor>"
  using dbl_via_u64_floor [OF assms] by (auto simp: bytesToDbus_def)

theorem double_arguments_truncated_witness:
  "\<exists>w'. bytesToDbus True (of_char (CHR ''d'')) (to_le 8 (0x400C000000000000 :: 64 word) @ []) =
       Inr (Some (DDouble w'), 8) \<and>
     dbl_value w' = of_int \<lfloor>dbl_value 0x400C000000000000\<rfloor>"
  by (rule double_arguments_truncated) (simp_all add: dbl_exp_def)

end
