(* ===== verification/Bridge.thy ===== *)
theory Bridge
  imports Bulk Listener Method
begin

text \<open>
  The services and their ports, \<open>bridge.c\<close> without its two transport threads, with the
  keepalive service \<open>keepalive.c\<close> and the parts of the bulk and method services that call
  back into the bridge. A service is the index of its slot; \<open>self\<close> is the calling thread,
  with what it meets where it has to wait for others: the lock that \<open>CleanupService\<close> takes,
  and the threads that a cleanup joins. A call that waits for ever is \<open>Blocked\<close>. How the
  other threads bring this about is modelled in \<open>CleanupLock\<close> and \<open>BridgeThreads\<close>.
\<close>

section \<open>The calling thread\<close>

text \<open>
  \<open>lock_free\<close>: \<open>pthread_mutex_lock\<close> on \<open>cleanupLock\<close> returns; \<open>thread_ends\<close>: the threads on which
  \<open>pthread_join\<close> returns; \<open>send_room\<close>: \<open>addSendQueue\<close> takes the null pointer of \<open>deInitServer\<close>.
\<close>

record caller =
  tid :: nat
  lock_free :: bool
  thread_ends :: "nat \<Rightarrow> bool"
  send_room :: bool

text \<open>A caller that need not wait for ever in a cleanup.\<close>

definition patient :: "caller \<Rightarrow> bool" where
  "patient self \<longleftrightarrow> lock_free self \<and> (\<forall>t. thread_ends self t)"

definition joins_end :: "caller \<Rightarrow> extcall list \<Rightarrow> bool" where
  "joins_end self calls = list_all (\<lambda>c. case c of ThreadJoin t \<Rightarrow> thread_ends self t | _ \<Rightarrow> True) calls"

section \<open>Answers of the environment to a handler\<close>

record handler_env =
  he_self :: caller
  he_signed_char :: bool
  he_write :: "wr_event list"   \<comment> \<open>\<open>write\<close> to the fifo of a bulk service\<close>
  he_bulk :: bulk_env
  he_method :: method_env
  he_signals :: signals_env

section \<open>Cleaning up and closing\<close>

text \<open>A call of \<open>service->onCleanupService\<close>; the callbacks cast \<open>service_data\<close>.\<close>

definition run_cleanup :: "nat \<Rightarrow> cleanup_fn \<Rightarrow> sdata option \<Rightarrow> extcall list res" where
  "run_cleanup self f sd =
     (case f of
        FnPortStatusCleanup \<Rightarrow> Inr []
      | FnKeepaliveOnEofAsCleanup \<Rightarrow> Inr []
      | FnServiceSpawnerCleanup \<Rightarrow>
          (case sd of None \<Rightarrow> Inl NullPointer
           | Some (SD_Spawn d) \<Rightarrow> Inr [MutexDestroy (startingLock d)]
           | Some _ \<Rightarrow> Inl TypeConfusion)
      | FnBulkCleanup \<Rightarrow>
          (case sd of None \<Rightarrow> Inl NullPointer
           | Some (SD_Bulk bulk) \<Rightarrow> BulkCleanup self bulk
           | Some _ \<Rightarrow> Inl TypeConfusion)
      | FnMethodCleanup \<Rightarrow>
          (case sd of None \<Rightarrow> Inr []
           | Some (SD_Methods m) \<Rightarrow> Inr (MethodCleanup m)
           | Some _ \<Rightarrow> Inl TypeConfusion)
      | FnSignalsCleanup \<Rightarrow>
          (case sd of None \<Rightarrow> Inl NullPointer
           | Some (SD_Signals s) \<Rightarrow> Inr (SignalsCleanup self s)
           | Some _ \<Rightarrow> Inl TypeConfusion))"

text \<open>The slot after \<open>CleanupService\<close> (the back pointer to the bridge apart).\<close>

definition closed_service :: service where
  "closed_service = \<lparr>port = NO_PORT, service_data = None, inputOpen = True, outputOpen = True,
     onBytesReceived = None, onEof = None, onCleanupService = None\<rparr>"

text \<open>
  \<open>CleanupService\<close> holds the lock while the callback runs, and the callback joins the thread of
  the service: both waits may be for ever.
\<close>

definition CleanupService :: "caller \<Rightarrow> nat \<Rightarrow> bridge \<Rightarrow> bridge res" where
  "CleanupService self i b =
     (if \<not> lock_free self then Inl Blocked else
      let service = services b ! i in
      bind_res (case onCleanupService service of None \<Rightarrow> Inr []
                | Some f \<Rightarrow> run_cleanup (tid self) f (service_data service)) (\<lambda>calls.
      if \<not> joins_end self calls then Inl Blocked else
      Inr (upd_svc i (\<lambda>s. s\<lparr>port := NO_PORT, inputOpen := True, outputOpen := True,
             service_data := None, onBytesReceived := None, onEof := None,
             onCleanupService := None\<rparr>) (add_ext calls b))))"

definition STREAM_EOF :: byte where
  "STREAM_EOF = 3"

definition STREAM_CLOSE :: byte where
  "STREAM_CLOSE = 4"

definition status_bytes :: "short \<Rightarrow> byte \<Rightarrow> byte list" where
  "status_bytes p status = [lo_byte p, hi_byte p, status, 0]"

definition cleanup_if_closed :: "caller \<Rightarrow> nat \<Rightarrow> bridge \<Rightarrow> bridge res" where
  "cleanup_if_closed self i b =
     (if \<not> inputOpen (services b ! i) \<and> \<not> outputOpen (services b ! i)
      then CleanupService self i b else Inr b)"

definition sendEof :: "caller \<Rightarrow> nat \<Rightarrow> bridge \<Rightarrow> bridge res" where
  "sendEof self i b =
     (let buffer = status_bytes (port (services b ! i)) STREAM_EOF;
          b = upd_svc i (\<lambda>s. s\<lparr>outputOpen := False\<rparr>) b;
          b = writeAllPort (portStatusService b) buffer b
      in cleanup_if_closed self i b)"

definition sendClose :: "caller \<Rightarrow> nat \<Rightarrow> bridge \<Rightarrow> bridge res" where
  "sendClose self i b =
     (let buffer = status_bytes (port (services b ! i)) STREAM_CLOSE;
          b = upd_svc i (\<lambda>s. s\<lparr>inputOpen := False\<rparr>) b;
          b = writeAllPort (portStatusService b) buffer b
      in cleanup_if_closed self i b)"

section \<open>End of file from Android\<close>

definition MethodOnEof :: "caller \<Rightarrow> nat \<Rightarrow> bridge \<Rightarrow> bridge res" where
  "MethodOnEof self i b = sendEof self i b"

text \<open>A call of \<open>service->onEof\<close>; \<open>BulkOnEof\<close> updates the struct behind \<open>service_data\<close>.\<close>

definition run_eof :: "caller \<Rightarrow> eof_fn \<Rightarrow> nat \<Rightarrow> bridge \<Rightarrow> bridge res" where
  "run_eof self f i b =
     (case f of
        FnPortStatusOnEof \<Rightarrow> Inr b
      | FnServiceSpawnerOnEof \<Rightarrow> Inr b
      | FnKeepaliveOnEof \<Rightarrow> Inr b
      | FnBulkOnEof \<Rightarrow>
          (case service_data (services b ! i) of None \<Rightarrow> Inl NullPointer
           | Some (SD_Bulk bulk) \<Rightarrow>
               (let (bulk, calls) = BulkOnEof bulk in
                Inr (upd_svc i (\<lambda>s. s\<lparr>service_data := Some (SD_Bulk bulk)\<rparr>) (add_ext calls b)))
           | Some _ \<Rightarrow> Inl TypeConfusion)
      | FnMethodOnEof \<Rightarrow> MethodOnEof self i b
      | FnSignalsOnEof \<Rightarrow> Inr (SignalsOnEof b))"

section \<open>The port status service\<close>

definition PortStatusOnBytesReceived :: "caller \<Rightarrow> byte list \<Rightarrow> bridge \<Rightarrow> bridge res" where
  "PortStatusOnBytesReceived self buffer b =
     bind_res (rd buffer 0) (\<lambda>b0.
     bind_res (rd buffer 1) (\<lambda>b1.
     let i = sint (join_s8 b0 b1) in
     bind_res (svc_at b i) (\<lambda>target_service.
     if port target_service = NO_PORT then Inr b
     else
       let i = nat i in
       bind_res (rd buffer 2) (\<lambda>status.
       bind_res
         (if status = STREAM_EOF then
            (let b = upd_svc i (\<lambda>s. s\<lparr>inputOpen := False\<rparr>) b in
             case onEof target_service of None \<Rightarrow> Inl NullPointer
             | Some f \<Rightarrow> run_eof self f i b)
          else if status = STREAM_CLOSE then
            Inr (upd_svc i (\<lambda>s. s\<lparr>outputOpen := False\<rparr>) b)
          else bind_res (rd buffer 3) (\<lambda>_. Inr b))
         (\<lambda>b. cleanup_if_closed self i b)))))"

section \<open>The keepalive service\<close>

definition KeepaliveOnBytesReceived :: "nat \<Rightarrow> bridge \<Rightarrow> bridge" where
  "KeepaliveOnBytesReceived i b = writeAllPort i (bytes_of ''pong'') b"

section \<open>The bulk service\<close>

definition BulkOnBytesReceived ::
    "caller \<Rightarrow> wr_event list \<Rightarrow> bulk \<Rightarrow> byte list \<Rightarrow> int \<Rightarrow> bridge \<Rightarrow> bridge res" where
  "BulkOnBytesReceived self evs bulk buffer sz b =
     bind_res (bulk_write_loop (fifoToPayloadFD bulk) buffer sz evs) (\<lambda>(calls, err).
     let b = add_ext calls b in
     if err then sendClose self (bulk_service bulk) b else Inr b)"

text \<open>
  The thread that reads from the payload: \<open>read\<close> returned some bytes, or 0 or an error
  (\<open>[]\<close>). A thread with no answer left waits in \<open>read\<close>.
\<close>

fun bulkTransferThread :: "caller \<Rightarrow> nat \<Rightarrow> byte list list \<Rightarrow> bridge \<Rightarrow> bridge res" where
  "bulkTransferThread self i [] b = Inl Blocked"
| "bulkTransferThread self i (bs # reads) b =
     (if bs \<noteq> [] then bulkTransferThread self i reads (writeAllPort i bs b)
      else sendEof self i b)"

section \<open>Ports\<close>

text \<open>
  The search of \<open>openNewPort\<close>, with fuel for at most one round of the ports; running out of
  it (\<open>Blocked\<close>) is shown not to happen.
\<close>

fun find_port :: "nat \<Rightarrow> bridge \<Rightarrow> int \<Rightarrow> int res" where
  "find_port 0 b p = Inl Blocked"
| "find_port (Suc fuel) b p =
     bind_res (svc_at b p) (\<lambda>s.
       if port s \<noteq> NO_PORT \<and> p \<noteq> sint (lastAllocatedPort b)
       then find_port fuel b ((p + 1) mod MAX_PORTS)
       else Inr p)"

definition openNewPort :: "bridge \<Rightarrow> (nat option \<times> bridge) res" where
  "openNewPort b =
     bind_res (find_port 401 b (sint (lastAllocatedPort b + 1))) (\<lambda>p.
     bind_res (svc_at b p) (\<lambda>s.
       if port s = NO_PORT
       then Inr (Some (nat p), (upd_svc (nat p) (\<lambda>s. s\<lparr>port := word_of_int p\<rparr>) b)
                   \<lparr>lastAllocatedPort := word_of_int p\<rparr>)
       else Inr (None, b)))"


section \<open>The invariant of the slots\<close>

text \<open>
  \<open>kind_ok\<close>: the callbacks of a slot belong together and find their own data behind
  \<open>service_data\<close>, which points back to the slot; or all four are NULL, as the service spawner
  leaves them after a denied request. \<open>pre_slot\<close>: the slot is in use; \<open>slot_ok\<close>: it is
  either in use and open in some direction, or exactly as \<open>CleanupService\<close> leaves it.
\<close>

definition kind_ok :: "nat \<Rightarrow> service \<Rightarrow> bool" where
  "kind_ok i s \<longleftrightarrow>
     (case onBytesReceived s of
        None \<Rightarrow> service_data s = None \<and> onEof s = None \<and> onCleanupService s = None
      | Some FnPortStatusOnBytesReceived \<Rightarrow> service_data s = Some SD_Bridge \<and>
          onEof s = Some FnPortStatusOnEof \<and> onCleanupService s = Some FnPortStatusCleanup
      | Some FnServiceSpawnerOnBytesReceived \<Rightarrow> (\<exists>d. service_data s = Some (SD_Spawn d)) \<and>
          onEof s = Some FnServiceSpawnerOnEof \<and> onCleanupService s = Some FnServiceSpawnerCleanup
      | Some FnKeepaliveOnBytesReceived \<Rightarrow> service_data s = None \<and>
          onEof s = Some FnKeepaliveOnEof \<and> onCleanupService s = Some FnKeepaliveOnEofAsCleanup
      | Some FnBulkOnBytesReceived \<Rightarrow>
          (\<exists>bulk d. service_data s = Some (SD_Bulk bulk) \<and> bulk_service bulk = i \<and>
             tmpdir bulk = Some d \<and> length d < 86) \<and>
          onEof s = Some FnBulkOnEof \<and> onCleanupService s = Some FnBulkCleanup
      | Some FnMethodOnBytesReceived \<Rightarrow>
          (\<exists>m. service_data s = Some (SD_Methods m) \<and> meth_service m = i) \<and>
          onEof s = Some FnMethodOnEof \<and> onCleanupService s = Some FnMethodCleanup
      | Some FnSignalsOnBytesReceived \<Rightarrow>
          (\<exists>g. service_data s = Some (SD_Signals g) \<and> sig_service g = i) \<and>
          onEof s = Some FnSignalsOnEof \<and> onCleanupService s = Some FnSignalsCleanup)"

definition pre_slot :: "nat \<Rightarrow> service \<Rightarrow> bool" where
  "pre_slot i s \<longleftrightarrow> port s = word_of_nat i \<and> kind_ok i s"

definition slot_ok :: "nat \<Rightarrow> service \<Rightarrow> bool" where
  "slot_ok i s \<longleftrightarrow> s = closed_service \<or> pre_slot i s \<and> (inputOpen s \<or> outputOpen s)"

definition bridge_frame :: "bridge \<Rightarrow> bool" where
  "bridge_frame b \<longleftrightarrow> length (services b) = 400 \<and> portStatusService b = 0 \<and>
     0 \<le> sint (lastAllocatedPort b) \<and> sint (lastAllocatedPort b) < 400"

definition bridge_inv :: "bridge \<Rightarrow> bool" where
  "bridge_inv b \<longleftrightarrow> bridge_frame b \<and> (\<forall>i<400. slot_ok i (services b ! i))"

text \<open>The invariant in the middle of an operation on slot \<open>i\<close>.\<close>

definition bridge_pre :: "nat \<Rightarrow> bridge \<Rightarrow> bool" where
  "bridge_pre i b \<longleftrightarrow> bridge_frame b \<and> i < 400 \<and> pre_slot i (services b ! i) \<and>
     (\<forall>j<400. j \<noteq> i \<longrightarrow> slot_ok j (services b ! j))"

lemma word_of_port: "i < 400 \<Longrightarrow> sint (word_of_nat i :: short) = int i"
  by (simp add: signed_of_nat signed_take_bit_int_eq_self)

lemma port_in_use [simp]: "i < 400 \<Longrightarrow> (word_of_nat i :: short) \<noteq> NO_PORT"
proof
  assume "i < 400" and "(word_of_nat i :: short) = NO_PORT"
  then have "sint (NO_PORT :: short) = int i" using word_of_port by metis
  then show False by (simp add: NO_PORT_def)
qed

lemma port_in_use' [simp]: "i < 400 \<Longrightarrow> NO_PORT \<noteq> (word_of_nat i :: short)"
  using port_in_use by metis

lemma closed_service_simps [simp]:
  "port closed_service = NO_PORT" "inputOpen closed_service" "outputOpen closed_service"
  "onBytesReceived closed_service = None" "onEof closed_service = None" "slot_ok i closed_service"
  by (simp_all add: closed_service_def slot_ok_def)

lemma slot_in_use: "i < 400 \<Longrightarrow> slot_ok i s \<Longrightarrow> port s \<noteq> NO_PORT \<longleftrightarrow> pre_slot i s"
  by (auto simp: slot_ok_def pre_slot_def)


lemma run_cleanup_total:
  assumes "kind_ok i s" and "onCleanupService s = Some f"
  shows "\<exists>calls. run_cleanup self f (service_data s) = Inr calls"
  using assms BulkCleanup_total
  by (auto simp: kind_ok_def run_cleanup_def split: option.splits recv_fn.splits)

text \<open>
  What a caller has to wait for in the cleanup of a slot: besides the lock, the thread of a
  bulk or a signal service, when it is not the caller itself.
\<close>

definition joined_thread :: "nat \<Rightarrow> service \<Rightarrow> nat option" where
  "joined_thread t s =
     (case service_data s of
        Some (SD_Bulk bulk) \<Rightarrow>
          if onCleanupService s = Some FnBulkCleanup \<and> threadStarted bulk \<and> t \<noteq> Services.bulkTransferThread bulk
          then Some (Services.bulkTransferThread bulk) else None
      | Some (SD_Signals signals) \<Rightarrow>
          if onCleanupService s = Some FnSignalsCleanup \<and> t \<noteq> dbusSignalWatcher signals
          then Some (dbusSignalWatcher signals) else None
      | _ \<Rightarrow> None)"

definition cleanup_returns :: "caller \<Rightarrow> service \<Rightarrow> bool" where
  "cleanup_returns self s \<longleftrightarrow> lock_free self \<and>
     (case joined_thread (tid self) s of None \<Rightarrow> True | Some t \<Rightarrow> thread_ends self t)"

lemma patient_returns [simp]: "patient self \<Longrightarrow> cleanup_returns self s"
  by (simp add: patient_def cleanup_returns_def split: option.split)

lemma joins_end_simps [simp]:
  "joins_end self []" "joins_end self (c # cs) \<longleftrightarrow>
     (case c of ThreadJoin t \<Rightarrow> thread_ends self t | _ \<Rightarrow> True) \<and> joins_end self cs"
  "joins_end self (cs @ ds) \<longleftrightarrow> joins_end self cs \<and> joins_end self ds"
  by (simp_all add: joins_end_def)

lemma run_cleanup_joins:
  assumes "kind_ok i s" and "onCleanupService s = Some f"
    and "run_cleanup (tid self) f (service_data s) = Inr calls"
  shows "joins_end self calls \<longleftrightarrow>
    (case joined_thread (tid self) s of None \<Rightarrow> True | Some t \<Rightarrow> thread_ends self t)"
  using assms
  by (auto simp: kind_ok_def run_cleanup_def joined_thread_def BulkCleanup_def SignalsCleanup_def
      MethodCleanup_def res_simps split: option.splits recv_fn.splits if_splits)

lemma CleanupService_cases:
  assumes "pre_slot i (services b ! i)" and "i < length (services b)"
  shows "\<exists>calls. CleanupService self i b = (if cleanup_returns self (services b ! i)
    then Inr (upd_svc i (\<lambda>_. closed_service) (add_ext calls b)) else Inl Blocked)"
proof -
  let ?s = "services b ! i"
  have kind: "kind_ok i ?s" using assms by (simp add: pre_slot_def)
  obtain calls where "(case onCleanupService ?s of None \<Rightarrow> Inr []
      | Some f \<Rightarrow> run_cleanup (tid self) f (service_data ?s)) = Inr calls"
    using run_cleanup_total [OF kind] by (cases "onCleanupService ?s") auto
  moreover from this have "joins_end self calls \<longleftrightarrow>
    (case joined_thread (tid self) ?s of None \<Rightarrow> True | Some t \<Rightarrow> thread_ends self t)"
    using run_cleanup_joins [OF kind, of _ self calls] kind
    by (cases "onCleanupService ?s")
      (auto simp: kind_ok_def joined_thread_def split: option.splits recv_fn.splits sdata.splits)
  moreover have "(\<lambda>s :: service. s\<lparr>port := NO_PORT, inputOpen := True, outputOpen := True,
      service_data := None, onBytesReceived := None, onEof := None, onCleanupService := None\<rparr>) =
      (\<lambda>_. closed_service)"
    by (auto simp: closed_service_def)
  ultimately have "CleanupService self i b = (if cleanup_returns self ?s
      then Inr (upd_svc i (\<lambda>_. closed_service) (add_ext calls b)) else Inl Blocked)"
    by (simp add: CleanupService_def cleanup_returns_def)
  then show ?thesis by blast
qed

lemma CleanupService_pre:
  assumes "pre_slot i (services b ! i)" and "i < length (services b)" and "patient self"
  shows "\<exists>calls. CleanupService self i b = Inr (upd_svc i (\<lambda>_. closed_service) (add_ext calls b))"
  using CleanupService_cases [OF assms(1,2), of self] assms(3) by simp

text \<open>A caller that waits for ever does so; otherwise it does what a patient one does.\<close>

definition patiently :: "caller \<Rightarrow> caller" where
  "patiently self = self\<lparr>lock_free := True, thread_ends := \<lambda>_. True\<rparr>"

lemma patient_patiently [simp]: "patient (patiently self)"
  by (simp add: patiently_def patient_def)

definition waits_or :: "'a res \<Rightarrow> 'a res \<Rightarrow> bool" where
  "waits_or r r' \<longleftrightarrow> r = Inl Blocked \<or> r = r'"

named_theorems wait_intros \<open>what only a caller that waits for ever does not do\<close>

lemma waits_or_same [wait_intros]: "waits_or r r"
  by (simp add: waits_or_def)

lemma waits_or_bind [wait_intros]:
  "waits_or m m' \<Longrightarrow> (\<And>x. waits_or (f x) (f' x)) \<Longrightarrow> waits_or (bind_res m f) (bind_res m' f')"
  by (cases m) (fastforce simp: waits_or_def)+

lemma waits_or_if [wait_intros]:
  "waits_or x x' \<Longrightarrow> waits_or y y' \<Longrightarrow> waits_or (if c then x else y) (if c then x' else y')"
  by simp

lemma waits_or_option [wait_intros]:
  "waits_or x x' \<Longrightarrow> (\<And>v. waits_or (f v) (f' v)) \<Longrightarrow>
     waits_or (case a of None \<Rightarrow> x | Some v \<Rightarrow> f v) (case a of None \<Rightarrow> x' | Some v \<Rightarrow> f' v)"
  by (cases a) simp_all

lemma waits_CleanupService [wait_intros]:
  "waits_or (CleanupService self i b) (CleanupService (patiently self) i b)"
proof -
  have "joins_end (patiently self) calls" for calls
    by (induction calls) (auto simp: patiently_def split: extcall.split)
  then have "waits_or (if \<not> joins_end self calls then Inl Blocked else r)
      (if \<not> joins_end (patiently self) calls then Inl Blocked else r)" for calls and r :: "bridge res"
    by (simp add: waits_or_def)
  moreover have "tid (patiently self) = tid self" "lock_free (patiently self)"
    by (simp_all add: patiently_def)
  ultimately have "lock_free self \<Longrightarrow> ?thesis"
    unfolding CleanupService_def Let_def by (simp add: wait_intros)
  then show ?thesis by (auto simp: CleanupService_def waits_or_def)
qed

text \<open>What is left of a slot after its flags changed.\<close>

definition settle :: "service \<Rightarrow> service" where
  "settle s = (if inputOpen s \<or> outputOpen s then s else closed_service)"

definition same_but :: "nat \<Rightarrow> bridge \<Rightarrow> bridge \<Rightarrow> bool" where
  "same_but i b b' \<longleftrightarrow> (\<forall>j. j \<noteq> i \<longrightarrow> services b' ! j = services b ! j) \<and>
     lastAllocatedPort b' = lastAllocatedPort b"

lemma bridge_preI:
  "bridge_inv b \<Longrightarrow> i < 400 \<Longrightarrow> port (services b ! i) \<noteq> NO_PORT \<Longrightarrow> bridge_pre i b"
  using slot_in_use [of i "services b ! i"] by (auto simp: bridge_inv_def bridge_pre_def)

lemma bridge_pre_upd:
  "bridge_pre i b \<Longrightarrow> pre_slot i (f (services b ! i)) \<Longrightarrow> bridge_pre i (upd_svc i f b)"
  by (auto simp: bridge_pre_def bridge_frame_def)

lemma bridge_pre_add_ext [simp]: "bridge_pre i (add_ext calls b) = bridge_pre i b"
  by (simp add: bridge_pre_def bridge_frame_def)

lemma bridge_pre_write [simp]: "bridge_pre i (writeAllPort j buf b) = bridge_pre i b"
  by (simp add: bridge_pre_def bridge_frame_def)

lemma bridge_inv_simps [simp]:
  "bridge_inv (add_ext calls b) = bridge_inv b" "bridge_inv (writeAllPort j buf b) = bridge_inv b"
  by (simp_all add: bridge_inv_def bridge_frame_def)

lemma bridge_pre_inv:
  "bridge_pre i b \<Longrightarrow> inputOpen (services b ! i) \<or> outputOpen (services b ! i) \<Longrightarrow> bridge_inv b"
  by (auto simp: bridge_pre_def bridge_inv_def slot_ok_def)

lemma bridge_inv_closed:
  "bridge_pre i b \<Longrightarrow> bridge_inv (upd_svc i (\<lambda>_. closed_service) b)"
  by (auto simp: bridge_pre_def bridge_inv_def bridge_frame_def)

lemma cleanup_if_closed_pre:
  assumes "bridge_pre i b" and "patient self"
  shows "\<exists>b'. cleanup_if_closed self i b = Inr b' \<and> bridge_inv b' \<and> same_but i b b' \<and>
    services b' ! i = settle (services b ! i) \<and> sendq b' = sendq b"
proof (cases "inputOpen (services b ! i) \<or> outputOpen (services b ! i)")
  case True
  with bridge_pre_inv [OF assms(1)] show ?thesis
    by (auto simp: cleanup_if_closed_def settle_def same_but_def)
next
  case False
  from assms(1) have i: "pre_slot i (services b ! i)" "i < length (services b)"
    by (auto simp: bridge_pre_def bridge_frame_def)
  from CleanupService_pre [OF this assms(2)] obtain calls where
    "CleanupService self i b = Inr (upd_svc i (\<lambda>_. closed_service) (add_ext calls b))" by blast
  moreover have "bridge_inv (upd_svc i (\<lambda>_. closed_service) (add_ext calls b))"
    by (rule bridge_inv_closed) (simp add: assms)
  ultimately show ?thesis
    using False i(2) by (simp add: cleanup_if_closed_def settle_def same_but_def)
qed


text \<open>The message that announces a status, as it is queued by \<open>sendEof\<close> and \<open>sendClose\<close>.\<close>

definition status_message :: "bridge \<Rightarrow> nat \<Rightarrow> byte \<Rightarrow> mmsg" where
  "status_message b i status =
     port_message (port (services b ! 0)) (status_bytes (word_of_nat i) status)"

lemma pre_slot_flags [simp]:
  "pre_slot i (s\<lparr>inputOpen := x\<rparr>) = pre_slot i s" "pre_slot i (s\<lparr>outputOpen := x\<rparr>) = pre_slot i s"
  by (simp_all add: pre_slot_def kind_ok_def split: option.split recv_fn.split)

lemma bridge_pre_port: "bridge_pre i b \<Longrightarrow> port (services b ! i) = word_of_nat i"
  by (simp add: bridge_pre_def pre_slot_def)

lemma bridge_pre_bounds:
  "bridge_pre i b \<Longrightarrow> length (services b) = 400 \<and> i < 400 \<and> portStatusService b = 0"
  by (simp add: bridge_pre_def bridge_frame_def)

lemma sendEof_pre:
  assumes "bridge_pre i b" and "patient self"
  shows "\<exists>b'. sendEof self i b = Inr b' \<and> bridge_inv b' \<and> same_but i b b' \<and>
    services b' ! i = settle ((services b ! i)\<lparr>outputOpen := False\<rparr>) \<and>
    sendq b' = sendq b @ [Some (status_message b i STREAM_EOF)]"
proof -
  let ?b = "upd_svc i (\<lambda>s. s\<lparr>outputOpen := False\<rparr>) b"
  note bounds = bridge_pre_bounds [OF assms(1)]
  have "bridge_pre i ?b"
    using bridge_pre_upd [OF assms(1), of "\<lambda>s. s\<lparr>outputOpen := False\<rparr>"] assms(1)
    by (simp add: bridge_pre_def)
  then have "bridge_pre i (writeAllPort 0 (status_bytes (word_of_nat i) STREAM_EOF) ?b)" by simp
  from cleanup_if_closed_pre [OF this assms(2)] bounds show ?thesis
    by (auto simp: sendEof_def Let_def bridge_pre_port [OF assms(1)] same_but_def writeAllPort_def
        status_message_def)
qed

lemma sendClose_pre:
  assumes "bridge_pre i b" and "patient self"
  shows "\<exists>b'. sendClose self i b = Inr b' \<and> bridge_inv b' \<and> same_but i b b' \<and>
    services b' ! i = settle ((services b ! i)\<lparr>inputOpen := False\<rparr>) \<and>
    sendq b' = sendq b @ [Some (status_message b i STREAM_CLOSE)]"
proof -
  let ?b = "upd_svc i (\<lambda>s. s\<lparr>inputOpen := False\<rparr>) b"
  note bounds = bridge_pre_bounds [OF assms(1)]
  have "bridge_pre i ?b"
    using bridge_pre_upd [OF assms(1), of "\<lambda>s. s\<lparr>inputOpen := False\<rparr>"] assms(1)
    by (simp add: bridge_pre_def)
  then have "bridge_pre i (writeAllPort 0 (status_bytes (word_of_nat i) STREAM_CLOSE) ?b)" by simp
  from cleanup_if_closed_pre [OF this assms(2)] bounds show ?thesis
    by (auto simp: sendClose_def Let_def bridge_pre_port [OF assms(1)] same_but_def writeAllPort_def
        status_message_def)
qed

text \<open>
  An end of file from Android, after the input was marked closed: only the method service
  answers it, and closes; every other service keeps its flags.
\<close>

lemma run_eof_pre:
  assumes "bridge_pre i b" and "onEof (services b ! i) = Some f" and "\<not> inputOpen (services b ! i)"
    and "patient self"
  shows "\<exists>b'. run_eof self f i b = Inr b' \<and> same_but i b b' \<and>
    (if f = FnMethodOnEof then bridge_inv b' \<and> services b' ! i = closed_service
     else bridge_pre i b' \<and> \<not> inputOpen (services b' ! i) \<and>
       outputOpen (services b' ! i) = outputOpen (services b ! i) \<and>
       onEof (services b' ! i) = onEof (services b ! i) \<and> sendq b' = sendq b)"
proof -
  note bounds = bridge_pre_bounds [OF assms(1)]
  have slot: "pre_slot i (services b ! i)" using assms(1) by (simp add: bridge_pre_def)
  show ?thesis
  proof (cases f)
    case FnMethodOnEof
    from sendEof_pre [OF assms(1,4)] assms(3) FnMethodOnEof show ?thesis
      by (auto simp: run_eof_def MethodOnEof_def settle_def)
  next
    case FnBulkOnEof
    with assms(2) slot obtain bulk d where bulk: "service_data (services b ! i) = Some (SD_Bulk bulk)"
      "bulk_service bulk = i" "tmpdir bulk = Some d" "length d < 86"
      by (auto simp: pre_slot_def kind_ok_def split: option.splits recv_fn.splits)
    let ?f = "\<lambda>s. s\<lparr>service_data := Some (SD_Bulk (fst (BulkOnEof bulk)))\<rparr>"
    have "pre_slot i (?f (services b ! i))"
      using slot assms(2) FnBulkOnEof bulk
      by (auto simp: pre_slot_def kind_ok_def BulkOnEof_def split: option.splits recv_fn.splits)
    from bridge_pre_upd [OF assms(1), of ?f, OF this] bulk bounds assms(3) FnBulkOnEof
    show ?thesis
      by (auto simp: run_eof_def BulkOnEof_def same_but_def bridge_pre_def bridge_frame_def)
  qed (use assms in \<open>auto simp: run_eof_def SignalsOnEof_def same_but_def\<close>)
qed


section \<open>The port a status message is about\<close>

lemma join_s8_cases: "join_s8 b0 b1 = (if bit b0 7 then scast b0 else join_u8 b0 b1)"
proof (rule bit_word_eqI)
  fix n assume "n < LENGTH(16)"
  then consider "n < 7" | "n = 7" | "8 \<le> n" "n < 15" | "n = 15" by fastforce
  then show "bit (join_s8 b0 b1) n = bit (if bit b0 7 then scast b0 else join_u8 b0 b1) n"
    by cases (auto simp: join_s8_def join_u8_or bit_simps min_def dest: bit_imp_le_length)
qed

lemma status_address:
  assumes "p < 400"
  shows "sint (join_s8 (lo_byte (word_of_nat p)) (hi_byte (word_of_nat p))) =
    (if p mod 256 < 128 then int p else int (p mod 256) - 256)"
proof -
  let ?lo = "lo_byte (word_of_nat p)"
  have "?lo = word_of_nat p"
    unfolding lo_byte_def by (rule bit_word_eqI) (simp add: bit_simps)
  then have sint_lo: "sint ?lo = (int p + 128) mod 256 - 128"
    by (simp add: signed_of_nat signed_take_bit_eq_take_bit_shift take_bit_eq_mod)
  have "bit ?lo 7 \<longleftrightarrow> bit p 7"
    by (simp add: lo_byte_def bit_simps)
  also have "\<dots> \<longleftrightarrow> \<not> p mod 256 < 128"
  proof -
    have "p mod 256 = 128 * (p div 128 mod 2) + p mod 128"
      using mod_mult2_eq [of p 128 2] by simp
    then show ?thesis by (auto simp: bit_iff_odd odd_iff_mod_2_eq_one)
  qed
  finally have bit: "bit ?lo 7 \<longleftrightarrow> \<not> p mod 256 < 128" .
  show ?thesis
  proof (cases "p mod 256 < 128")
    case True
    with bit assms word_of_port show ?thesis by (simp add: join_s8_cases)
  next
    case False
    have "sint (scast ?lo :: short) = sint ?lo"
      by (simp add: signed_scast_eq sint_lo signed_take_bit_int_eq_self)
    moreover have "(int p + 128) mod 256 = int (p mod 256) - 128"
    proof -
      have "(int p + 128) mod 256 = (int (p mod 256) - 128 + 256) mod 256"
        by (simp add: zmod_int mod_simps add.commute)
      also have "\<dots> = (int (p mod 256) - 128) mod 256" by (simp only: mod_add_self2)
      also have "\<dots> = int (p mod 256) - 128"
        by (rule mod_pos_pos_trivial) (use False in simp_all)
      finally show ?thesis .
    qed
    ultimately show ?thesis using False bit sint_lo by (simp add: join_s8_cases)
  qed
qed


section \<open>The port status service refines a port state machine\<close>

text \<open>
  What the protocol promises about a port: it is closed, or its directions from and to
  Android are open or not; it closes when both are shut. An end of file from Android shuts
  the input (a service that \<open>answers\<close> it shuts the output too), a close from Android the
  output.
\<close>

datatype pstate = Closed | Open bool bool

definition shut :: "bool \<Rightarrow> bool \<Rightarrow> pstate" where
  "shut i out = (if i \<or> out then Open i out else Closed)"

fun android_eof :: "bool \<Rightarrow> pstate \<Rightarrow> pstate" where
  "android_eof answers Closed = Closed"
| "android_eof answers (Open i out) = (if answers then Closed else shut False out)"

fun android_close :: "pstate \<Rightarrow> pstate" where
  "android_close Closed = Closed"
| "android_close (Open i out) = shut i False"

fun bridge_eof :: "pstate \<Rightarrow> pstate" where
  "bridge_eof Closed = Closed"
| "bridge_eof (Open i out) = shut i False"

fun bridge_close :: "pstate \<Rightarrow> pstate" where
  "bridge_close Closed = Closed"
| "bridge_close (Open i out) = shut False out"

definition pstate_of :: "service \<Rightarrow> pstate" where
  "pstate_of s = (if port s = NO_PORT then Closed else Open (inputOpen s) (outputOpen s))"

definition status_step :: "byte \<Rightarrow> service \<Rightarrow> pstate \<Rightarrow> pstate" where
  "status_step status s =
     (if status = STREAM_EOF then android_eof (onEof s = Some FnMethodOnEof)
      else if status = STREAM_CLOSE then android_close else (\<lambda>p. p))"

lemma pstate_settle: "port s \<noteq> NO_PORT \<Longrightarrow> pstate_of (settle s) = shut (inputOpen s) (outputOpen s)"
  by (auto simp: pstate_of_def settle_def shut_def)

lemma settle_onEof: "settle s = closed_service \<or> onEof (settle s) = onEof s"
  by (simp add: settle_def)

lemma same_but_trans: "same_but i b c \<Longrightarrow> same_but i c d \<Longrightarrow> same_but i b d"
  by (simp add: same_but_def)

lemma same_but_upd [simp]: "i < length (services b) \<Longrightarrow> same_but i b (upd_svc i f b)"
  by (auto simp: same_but_def)

lemma cleanup_if_closed_inv:
  "bridge_inv b \<Longrightarrow> i < 400 \<Longrightarrow> \<exists>b'. cleanup_if_closed self i b = Inr b' \<and> b' = b"
proof -
  assume "bridge_inv b" "i < 400"
  then have "slot_ok i (services b ! i)" by (simp add: bridge_inv_def)
  then show ?thesis by (auto simp: cleanup_if_closed_def slot_ok_def)
qed

text \<open>The handler once the target slot is known, for every slot in use.\<close>

lemma status_handled:
  assumes pre: "bridge_pre i b" and flags: "slot_ok i (services b ! i)"
    and eof: "status = STREAM_EOF \<Longrightarrow> onEof (services b ! i) \<noteq> None" and patient: "patient self"
  shows "\<exists>b'. bind_res
      (if status = STREAM_EOF then
         (let b' = upd_svc i (\<lambda>s. s\<lparr>inputOpen := False\<rparr>) b in
          case onEof (services b ! i) of None \<Rightarrow> Inl NullPointer | Some f \<Rightarrow> run_eof self f i b')
       else if status = STREAM_CLOSE then Inr (upd_svc i (\<lambda>s. s\<lparr>outputOpen := False\<rparr>) b)
       else Inr b)
      (cleanup_if_closed self i) = Inr b' \<and> bridge_inv b' \<and> same_but i b b' \<and>
    pstate_of (services b' ! i) = status_step status (services b ! i) (pstate_of (services b ! i)) \<and>
    (services b' ! i = closed_service \<or> onEof (services b' ! i) = onEof (services b ! i))"
proof -
  note bounds = bridge_pre_bounds [OF pre]
  let ?s = "services b ! i"
  have slot: "pre_slot i ?s" using pre by (simp add: bridge_pre_def)
  have used: "port ?s \<noteq> NO_PORT" using slot bounds by (simp add: pre_slot_def)
  consider "status = STREAM_EOF" | "status = STREAM_CLOSE" "status \<noteq> STREAM_EOF"
    | "status \<noteq> STREAM_CLOSE" "status \<noteq> STREAM_EOF" by blast
  then show ?thesis
  proof cases
    case 1
    let ?b = "upd_svc i (\<lambda>s. s\<lparr>inputOpen := False\<rparr>) b"
    from eof [OF 1] obtain f where f: "onEof ?s = Some f" by auto
    have "bridge_pre i ?b" by (rule bridge_pre_upd [OF pre]) (simp add: slot)
    with run_eof_pre [of i ?b f self] bounds f patient obtain b1 where b1: "run_eof self f i ?b = Inr b1"
      "same_but i ?b b1" and cases: "if f = FnMethodOnEof
        then bridge_inv b1 \<and> services b1 ! i = closed_service
        else bridge_pre i b1 \<and> \<not> inputOpen (services b1 ! i) \<and>
          outputOpen (services b1 ! i) = outputOpen ?s \<and> onEof (services b1 ! i) = onEof ?s"
      by (auto split: if_splits)
    have "same_but i b b1" by (rule same_but_trans [OF _ b1(2)]) (simp add: bounds)
    note same = this
    show ?thesis
    proof (cases "f = FnMethodOnEof")
      case True
      with cases cleanup_if_closed_inv [of b1 i self] bounds same 1 f b1(1) used show ?thesis
        by (auto simp: status_step_def pstate_of_def)
    next
      case False
      with cases have b1': "bridge_pre i b1" "\<not> inputOpen (services b1 ! i)"
        "outputOpen (services b1 ! i) = outputOpen ?s" "onEof (services b1 ! i) = onEof ?s" by auto
      have "port (services b1 ! i) \<noteq> NO_PORT"
        using bridge_pre_port [OF b1'(1)] bounds by simp
      moreover from cleanup_if_closed_pre [OF b1'(1) patient] obtain b' where
        b': "cleanup_if_closed self i b1 = Inr b'" "bridge_inv b'" "same_but i b1 b'"
          "services b' ! i = settle (services b1 ! i)" by auto
      ultimately have "pstate_of (services b' ! i) = android_eof False (pstate_of ?s)"
        using b1'(2,3) used by (simp add: pstate_settle) (simp add: pstate_of_def)
      moreover have "same_but i b b'" by (rule same_but_trans [OF same b'(3)])
      moreover have "services b' ! i = closed_service \<or> onEof (services b' ! i) = onEof ?s"
        using settle_onEof [of "services b1 ! i"] by (simp add: b'(4) b1'(4))
      ultimately show ?thesis using b' b1(1) 1 f False by (simp add: status_step_def)
    qed
  next
    case 2
    let ?b = "upd_svc i (\<lambda>s. s\<lparr>outputOpen := False\<rparr>) b"
    have "bridge_pre i ?b" by (rule bridge_pre_upd [OF pre]) (simp add: slot)
    from cleanup_if_closed_pre [OF this patient] obtain b' where
      b': "cleanup_if_closed self i ?b = Inr b'" "bridge_inv b'" "same_but i ?b b'"
        "services b' ! i = settle (?s\<lparr>outputOpen := False\<rparr>)" using bounds by auto
    have eof_kept: "services b' ! i = closed_service \<or> onEof (services b' ! i) = onEof ?s"
      using settle_onEof [of "?s\<lparr>outputOpen := False\<rparr>"] by (simp add: b'(4))
    have "same_but i b b'" by (rule same_but_trans [OF _ b'(3)]) (simp add: bounds)
    moreover have "pstate_of (services b' ! i) = android_close (pstate_of ?s)"
      using used by (simp add: b'(4) pstate_settle) (simp add: pstate_of_def)
    ultimately show ?thesis using b' 2 eof_kept by (simp add: status_step_def)
  next
    case 3
    have "bridge_inv b"
      using pre flags by (auto simp: bridge_pre_def bridge_inv_def)
    with 3 cleanup_if_closed_inv [of b i self] bounds show ?thesis
      by (auto simp: status_step_def same_but_def)
  qed
qed


text \<open>Every handler either faults in a way listed in \<open>F\<close>, or keeps the invariant.\<close>

definition keeps_inv :: "fault set \<Rightarrow> bridge res \<Rightarrow> bool" where
  "keeps_inv F r \<longleftrightarrow> (case r of Inl f \<Rightarrow> f \<in> F | Inr b \<Rightarrow> bridge_inv b)"

lemma keeps_inv_simps [simp]:
  "keeps_inv F (Inl f) = (f \<in> F)" "keeps_inv F (Inr b) = bridge_inv b"
  by (simp_all add: keeps_inv_def)

lemma keeps_inv_bind:
  "(\<And>f. m = Inl f \<Longrightarrow> f \<in> F) \<Longrightarrow> (\<And>x. m = Inr x \<Longrightarrow> keeps_inv F (g x)) \<Longrightarrow>
     keeps_inv F (bind_res m g)"
  by (cases m) auto

lemma PortStatus_known:
  assumes "rd buffer 0 = Inr b0" and "rd buffer 1 = Inr b1" and "rd buffer 2 = Inr status"
    and "status = STREAM_EOF \<or> status = STREAM_CLOSE \<or> 3 < length buffer"
    and "sint (join_s8 b0 b1) = int i" and "i < length (services b)"
    and "port (services b ! i) \<noteq> NO_PORT"
  shows "PortStatusOnBytesReceived self buffer b = bind_res
      (if status = STREAM_EOF then
         (let b' = upd_svc i (\<lambda>s. s\<lparr>inputOpen := False\<rparr>) b in
          case onEof (services b ! i) of None \<Rightarrow> Inl NullPointer | Some f \<Rightarrow> run_eof self f i b')
       else if status = STREAM_CLOSE then Inr (upd_svc i (\<lambda>s. s\<lparr>outputOpen := False\<rparr>) b)
       else Inr b)
      (cleanup_if_closed self i)"
  using assms by (auto simp: PortStatusOnBytesReceived_def)

lemma PortStatus_keeps_patient:
  assumes "bridge_inv b" and "patient self"
  shows "keeps_inv {OutOfBounds, NullPointer} (PortStatusOnBytesReceived self buffer b)"
proof (cases "\<exists>b0 b1. rd buffer 0 = Inr b0 \<and> rd buffer 1 = Inr b1")
  case False
  then show ?thesis
    by (auto simp: PortStatusOnBytesReceived_def rd_def)
next
  case True
  then obtain b0 b1 where b01: "rd buffer 0 = Inr b0" "rd buffer 1 = Inr b1" by blast
  define i where "i = nat (sint (join_s8 b0 b1))"
  show ?thesis
  proof (cases "0 \<le> sint (join_s8 b0 b1) \<and> i < length (services b) \<and> port (services b ! i) \<noteq> NO_PORT")
    case False
    with b01 assms(1) show ?thesis
      by (auto simp: PortStatusOnBytesReceived_def svc_at_def Let_def simp flip: i_def)
  next
    case True
    then have i: "sint (join_s8 b0 b1) = int i" "i < 400" "port (services b ! i) \<noteq> NO_PORT"
      using assms(1) by (auto simp: i_def bridge_inv_def bridge_frame_def)
    have pre: "bridge_pre i b" using bridge_preI [OF assms(1) i(2,3)] .
    have flags: "slot_ok i (services b ! i)" using assms(1) i(2) by (simp add: bridge_inv_def)
    have known: "PortStatusOnBytesReceived self buffer b = (case rd buffer 2 of Inl f \<Rightarrow> Inl f
        | Inr status \<Rightarrow>
            if status = STREAM_EOF \<and> onEof (services b ! i) = None then Inl NullPointer
            else if status \<noteq> STREAM_EOF \<and> status \<noteq> STREAM_CLOSE \<and> \<not> 3 < length buffer
            then Inl OutOfBounds else PortStatusOnBytesReceived self buffer b)"
      using b01 i True by (auto simp: PortStatusOnBytesReceived_def rd_def split: sum.splits)
    show ?thesis
    proof (cases "rd buffer 2")
      case (Inl f)
      with known show ?thesis by (auto simp: rd_Inl_iff)
    next
      case (Inr status)
      show ?thesis
      proof (cases "status = STREAM_EOF \<and> onEof (services b ! i) = None \<or>
          status \<noteq> STREAM_EOF \<and> status \<noteq> STREAM_CLOSE \<and> \<not> 3 < length buffer")
        case True
        with known Inr show ?thesis by auto
      next
        case False
        then have "status = STREAM_EOF \<Longrightarrow> onEof (services b ! i) \<noteq> None"
          and long: "status = STREAM_EOF \<or> status = STREAM_CLOSE \<or> 3 < length buffer" by auto
        note handled = status_handled [where status = status, OF pre flags this(1) assms(2)]
        have len: "i < length (services b)" using True by simp
        have "\<exists>c. PortStatusOnBytesReceived self buffer b = Inr c \<and> bridge_inv c"
          unfolding PortStatus_known [where self = self, OF b01 Inr long i(1) len i(3)]
          using handled by blast
        then show ?thesis by auto
      qed
    qed
  qed
qed

lemma waits_close [wait_intros]:
  "waits_or (cleanup_if_closed self i b) (cleanup_if_closed (patiently self) i b)"
  "waits_or (sendEof self i b) (sendEof (patiently self) i b)"
  "waits_or (sendClose self i b) (sendClose (patiently self) i b)"
  unfolding cleanup_if_closed_def sendEof_def sendClose_def Let_def by (intro wait_intros)+

lemma waits_eof [wait_intros]: "waits_or (run_eof self f i b) (run_eof (patiently self) f i b)"
  by (cases f) (auto simp: run_eof_def MethodOnEof_def intro: wait_intros)

lemma waits_PortStatus [wait_intros]:
  "waits_or (PortStatusOnBytesReceived self buffer b) (PortStatusOnBytesReceived (patiently self) buffer b)"
  unfolding PortStatusOnBytesReceived_def Let_def by (intro wait_intros)

lemma keeps_inv_waits:
  "waits_or r r' \<Longrightarrow> keeps_inv F r' \<Longrightarrow> Blocked \<in> F \<Longrightarrow> keeps_inv F r"
  by (auto simp: waits_or_def)

lemma PortStatus_keeps:
  assumes "bridge_inv b"
  shows "keeps_inv {OutOfBounds, NullPointer, Blocked} (PortStatusOnBytesReceived self buffer b)"
proof (rule keeps_inv_waits [OF waits_PortStatus])
  show "keeps_inv {OutOfBounds, NullPointer, Blocked} (PortStatusOnBytesReceived (patiently self) buffer b)"
    using PortStatus_keeps_patient [OF assms, of "patiently self" buffer]
    by (auto simp: keeps_inv_def split: sum.splits)
qed simp

lemma port_status_step:
  assumes "bridge_inv b" and "p < 400" and "p mod 256 < 128" and "port (services b ! p) \<noteq> NO_PORT"
    and "status = STREAM_EOF \<Longrightarrow> onEof (services b ! p) \<noteq> None" and "patient self"
  shows "\<exists>b'. PortStatusOnBytesReceived self (status_bytes (word_of_nat p) status) b = Inr b' \<and>
    bridge_inv b' \<and> same_but p b b' \<and>
    pstate_of (services b' ! p) = status_step status (services b ! p) (pstate_of (services b ! p)) \<and>
    (pstate_of (services b' ! p) = Closed \<longrightarrow> services b' ! p = closed_service) \<and>
    (services b' ! p = closed_service \<or> onEof (services b' ! p) = onEof (services b ! p))"
proof -
  have pre: "bridge_pre p b" using bridge_preI [OF assms(1,2,4)] .
  have flags: "slot_ok p (services b ! p)" using assms(1,2) by (simp add: bridge_inv_def)
  have addr: "sint (join_s8 (lo_byte (word_of_nat p)) (hi_byte (word_of_nat p))) = int p"
    using status_address [OF assms(2)] assms(3) by simp
  have "PortStatusOnBytesReceived self (status_bytes (word_of_nat p) status) b = bind_res
      (if status = STREAM_EOF then
         (let b' = upd_svc p (\<lambda>s. s\<lparr>inputOpen := False\<rparr>) b in
          case onEof (services b ! p) of None \<Rightarrow> Inl NullPointer | Some f \<Rightarrow> run_eof self f p b')
       else if status = STREAM_CLOSE then Inr (upd_svc p (\<lambda>s. s\<lparr>outputOpen := False\<rparr>) b)
       else Inr b)
      (cleanup_if_closed self p)"
    by (rule PortStatus_known [OF _ _ _ _ addr])
      (use bridge_pre_bounds [OF pre] assms(4) in \<open>simp_all add: status_bytes_def\<close>)
  moreover from status_handled [OF pre flags assms(5,6)] obtain b' where
    "bind_res
      (if status = STREAM_EOF then
         (let b' = upd_svc p (\<lambda>s. s\<lparr>inputOpen := False\<rparr>) b in
          case onEof (services b ! p) of None \<Rightarrow> Inl NullPointer | Some f \<Rightarrow> run_eof self f p b')
       else if status = STREAM_CLOSE then Inr (upd_svc p (\<lambda>s. s\<lparr>outputOpen := False\<rparr>) b)
       else Inr b)
      (cleanup_if_closed self p) = Inr b'" "bridge_inv b'" "same_but p b b'"
    "pstate_of (services b' ! p) = status_step status (services b ! p) (pstate_of (services b ! p))"
    "services b' ! p = closed_service \<or> onEof (services b' ! p) = onEof (services b ! p)"
    by blast
  moreover from this(2) assms(2) have "slot_ok p (services b' ! p)" by (simp add: bridge_inv_def)
  then have "pstate_of (services b' ! p) = Closed \<longrightarrow> services b' ! p = closed_service"
    using assms(2) by (auto simp: slot_ok_def pre_slot_def pstate_of_def split: if_splits)
  ultimately show ?thesis by auto
qed

lemma port_status_unaddressed:
  assumes "p < 400" and "128 \<le> p mod 256"
  shows "PortStatusOnBytesReceived self (status_bytes (word_of_nat p) status) b = Inl OutOfBounds"
proof -
  have "sint (join_s8 (lo_byte (word_of_nat p)) (hi_byte (word_of_nat p))) < 0"
    using status_address [OF assms(1)] assms(2) mod_less_divisor [of 256 p] by simp
  then show ?thesis
    by (simp add: PortStatusOnBytesReceived_def status_bytes_def svc_at_def Let_def)
qed

lemma port_status_no_callback:
  assumes "bridge_inv b" and "p < 400" and "p mod 256 < 128" and "port (services b ! p) \<noteq> NO_PORT"
    and "onEof (services b ! p) = None"
  shows "PortStatusOnBytesReceived self (status_bytes (word_of_nat p) STREAM_EOF) b = Inl NullPointer"
  using assms status_address [OF assms(2)]
  by (simp add: PortStatusOnBytesReceived_def status_bytes_def bridge_inv_def bridge_frame_def)

text \<open>
  C3: what a status message about an open port does, for each of the 400 ports. The port is
  decoded from signed bytes: for one whose low byte is 128 or more (128 to 255 and 384 to
  399) the handler indexes the array of services with a negative number. For every other
  port an end of file or a close from Android moves exactly this port as the port state
  machine says (both directions shut means closed, with everything cleaned up and the slot
  ready for reuse), any other status changes nothing, and no other port is touched; but an
  end of file for a port without callbacks, as a denied request leaves it, calls a null
  pointer. The caller does not wait for ever in the cleanup.
\<close>

theorem port_status_refines:
  assumes "bridge_inv b" and "p < 400" and "port (services b ! p) \<noteq> NO_PORT" and "patient self"
  shows "if 128 \<le> p mod 256
    then PortStatusOnBytesReceived self (status_bytes (word_of_nat p) status) b = Inl OutOfBounds
    else if status = STREAM_EOF \<and> onEof (services b ! p) = None
    then PortStatusOnBytesReceived self (status_bytes (word_of_nat p) status) b = Inl NullPointer
    else \<exists>b'. PortStatusOnBytesReceived self (status_bytes (word_of_nat p) status) b = Inr b' \<and>
      bridge_inv b' \<and> same_but p b b' \<and>
      pstate_of (services b' ! p) = status_step status (services b ! p) (pstate_of (services b ! p)) \<and>
      (pstate_of (services b' ! p) = Closed \<longrightarrow> services b' ! p = closed_service)"
proof -
  consider "128 \<le> p mod 256" | "p mod 256 < 128" "status = STREAM_EOF \<and> onEof (services b ! p) = None"
    | "p mod 256 < 128" "status = STREAM_EOF \<Longrightarrow> onEof (services b ! p) \<noteq> None" by linarith
  then show ?thesis
  proof cases
    case 1
    with port_status_unaddressed [OF assms(2)] show ?thesis by simp
  next
    case 2
    with port_status_no_callback [OF assms(1,2) 2(1) assms(3)] show ?thesis by simp
  next
    case 3
    with port_status_step [OF assms(1,2) 3(1) assms(3) 3(2) assms(4)] show ?thesis by auto
  qed
qed


section \<open>When a port closes\<close>

text \<open>The four ways a direction of a port is shut, as calls of the code, until the port is closed.\<close>

datatype port_op = AndroidEof | AndroidClose | BridgeEof | BridgeClose

definition run_op :: "caller \<Rightarrow> nat \<Rightarrow> port_op \<Rightarrow> bridge \<Rightarrow> bridge res" where
  "run_op self i op b =
     (case op of
        AndroidEof \<Rightarrow> PortStatusOnBytesReceived self (status_bytes (word_of_nat i) STREAM_EOF) b
      | AndroidClose \<Rightarrow> PortStatusOnBytesReceived self (status_bytes (word_of_nat i) STREAM_CLOSE) b
      | BridgeEof \<Rightarrow> sendEof self i b
      | BridgeClose \<Rightarrow> sendClose self i b)"

fun run_ops :: "caller \<Rightarrow> nat \<Rightarrow> port_op list \<Rightarrow> bridge \<Rightarrow> bridge res" where
  "run_ops self i [] b = Inr b"
| "run_ops self i (op # ops) b =
     (if port (services b ! i) = NO_PORT then Inr b
      else bind_res (run_op self i op b) (run_ops self i ops))"

fun op_step :: "port_op \<Rightarrow> pstate \<Rightarrow> pstate" where
  "op_step AndroidEof = android_eof False"
| "op_step AndroidClose = android_close"
| "op_step BridgeEof = bridge_eof"
| "op_step BridgeClose = bridge_close"

definition plain_eof :: "service \<Rightarrow> bool" where
  "plain_eof s \<longleftrightarrow> onEof s \<noteq> None \<and> onEof s \<noteq> Some FnMethodOnEof"

lemma run_op_step:
  assumes "bridge_inv b" and "i < 400" and "i mod 256 < 128" and "port (services b ! i) \<noteq> NO_PORT"
    and "plain_eof (services b ! i)" and "patient self"
  shows "\<exists>b'. run_op self i op b = Inr b' \<and> bridge_inv b' \<and> same_but i b b' \<and>
    pstate_of (services b' ! i) = op_step op (pstate_of (services b ! i)) \<and>
    (port (services b' ! i) \<noteq> NO_PORT \<longrightarrow> plain_eof (services b' ! i))"
proof -
  let ?s = "services b ! i"
  have pre: "bridge_pre i b" using bridge_preI [OF assms(1,2,4)] .
  have keep: "port (settle x) \<noteq> NO_PORT \<longrightarrow> plain_eof (settle x)" if "plain_eof x" for x
    using that by (simp add: settle_def)
  have open_s: "pstate_of ?s = Open (inputOpen ?s) (outputOpen ?s)"
    using assms(4) by (simp add: pstate_of_def)
  show ?thesis
  proof (cases op)
    case AndroidEof
    from port_status_step [OF assms(1-4) _ assms(6), of STREAM_EOF] assms(5) AndroidEof show ?thesis
      by (auto simp: run_op_def status_step_def plain_eof_def)
  next
    case AndroidClose
    have "STREAM_CLOSE \<noteq> STREAM_EOF" by (simp add: STREAM_CLOSE_def STREAM_EOF_def)
    with port_status_step [OF assms(1-4) _ assms(6), of STREAM_CLOSE] assms(5) AndroidClose show ?thesis
      by (auto simp: run_op_def status_step_def plain_eof_def)
  next
    case BridgeEof
    from sendEof_pre [OF pre assms(6)] keep [of "?s\<lparr>outputOpen := False\<rparr>"] assms(4,5) BridgeEof
    show ?thesis by (auto simp: run_op_def pstate_settle open_s plain_eof_def)
  next
    case BridgeClose
    from sendClose_pre [OF pre assms(6)] keep [of "?s\<lparr>inputOpen := False\<rparr>"] assms(4,5) BridgeClose
    show ?thesis by (auto simp: run_op_def pstate_settle open_s plain_eof_def)
  qed
qed

definition shuts_input :: "port_op list \<Rightarrow> bool" where
  "shuts_input ops \<longleftrightarrow> AndroidEof \<in> set ops \<or> BridgeClose \<in> set ops"

definition shuts_output :: "port_op list \<Rightarrow> bool" where
  "shuts_output ops \<longleftrightarrow> AndroidClose \<in> set ops \<or> BridgeEof \<in> set ops"

lemma pstate_slot:
  "bridge_inv b \<Longrightarrow> i < 400 \<Longrightarrow> pstate_of (services b ! i) = Closed \<longleftrightarrow> services b ! i = closed_service"
  by (auto simp: bridge_inv_def slot_ok_def pre_slot_def pstate_of_def dest!: spec [of _ i])

lemma run_ops_state:
  assumes "bridge_inv b" and "i < 400" and "i mod 256 < 128"
    and "pstate_of (services b ! i) = Open x y" and "plain_eof (services b ! i)" and "x \<or> y" and "patient self"
  shows "\<exists>b'. run_ops self i ops b = Inr b' \<and> bridge_inv b' \<and> same_but i b b' \<and>
    (services b' ! i = closed_service \<longleftrightarrow>
       (\<not> x \<or> shuts_input ops) \<and> (\<not> y \<or> shuts_output ops))"
  using assms
proof (induction ops arbitrary: b x y)
  case Nil
  then have "services b ! i \<noteq> closed_service" using pstate_slot [of b i] by auto
  with Nil show ?case by (simp add: shuts_input_def shuts_output_def same_but_def)
next
  case (Cons op ops)
  have used: "port (services b ! i) \<noteq> NO_PORT" using Cons.prems(4) by (auto simp: pstate_of_def)
  from run_op_step [OF Cons.prems(1-3) used Cons.prems(5,7), of op] obtain b1 where
    b1: "run_op self i op b = Inr b1" "bridge_inv b1" "same_but i b b1"
      "pstate_of (services b1 ! i) = op_step op (Open x y)"
      "port (services b1 ! i) \<noteq> NO_PORT \<longrightarrow> plain_eof (services b1 ! i)"
    using Cons.prems(4) by auto
  have step: "run_ops self i (op # ops) b = run_ops self i ops b1"
    using used b1(1) by simp
  define x1 y1 where "x1 = (x \<and> op \<notin> {AndroidEof, BridgeClose})"
    and "y1 = (y \<and> op \<notin> {AndroidClose, BridgeEof})"
  have op: "op_step op (Open x y) = shut x1 y1"
    by (cases op) (auto simp: x1_def y1_def)
  have shuts: "(\<not> x \<or> shuts_input (op # ops)) = (\<not> x1 \<or> shuts_input ops)"
    "(\<not> y \<or> shuts_output (op # ops)) = (\<not> y1 \<or> shuts_output ops)"
    by (auto simp: x1_def y1_def shuts_input_def shuts_output_def)
  show ?case
  proof (cases "x1 \<or> y1")
    case True
    with b1(4) op have ps: "pstate_of (services b1 ! i) = Open x1 y1" by (auto simp: shut_def)
    then have "plain_eof (services b1 ! i)" using b1(5) by (auto simp: pstate_of_def)
    from Cons.IH [OF b1(2) Cons.prems(2,3) ps this True Cons.prems(7)] b1(3) show ?thesis
      unfolding step shuts by (blast intro: same_but_trans)
  next
    case False
    with b1(4) op have "pstate_of (services b1 ! i) = Closed" by (simp add: shut_def)
    then have closed: "services b1 ! i = closed_service"
      using pstate_slot [OF b1(2) Cons.prems(2)] by simp
    then have "run_ops self i ops b1 = Inr b1" by (cases ops) simp_all
    with closed b1(2,3) False show ?thesis unfolding step shuts by simp
  qed
qed

text \<open>
  C13: the comment above \<open>CleanupService\<close> holds for every order of events. Take a port that is
  open in both directions, with a low byte below 128 and a service that does not itself
  answer an end of file, for a caller that does not wait for ever in the cleanup, and let ends of file and closes arrive from Android and be sent by
  the service in any order: the service is cleaned up and its slot made ready for reuse
  exactly when both directions have been shut, each by an end of file from the one side or
  a close from the other.
\<close>

theorem port_closes_when_both_shut:
  assumes "bridge_inv b" and "i < 400" and "i mod 256 < 128"
    and "pstate_of (services b ! i) = Open True True" and "plain_eof (services b ! i)" and "patient self"
  shows "\<exists>b'. run_ops self i ops b = Inr b' \<and> bridge_inv b' \<and> same_but i b b' \<and>
    (services b' ! i = closed_service \<longleftrightarrow> shuts_input ops \<and> shuts_output ops)"
  using run_ops_state [OF assms(1-5) _ assms(6)] by simp


section \<open>Finding a free port\<close>

text \<open>The ports in the order \<open>openNewPort\<close> should try them: after the last one, round to it.\<close>

definition port_order :: "nat \<Rightarrow> nat \<Rightarrow> nat list" where
  "port_order l k = (if l < k then [k..<400] @ [0..<Suc l] else [k..<Suc l])"

definition port_free :: "bridge \<Rightarrow> nat \<Rightarrow> bool" where
  "port_free b i \<longleftrightarrow> port (services b ! i) = NO_PORT"

lemma port_order_next:
  "k < 400 \<Longrightarrow> l < 400 \<Longrightarrow> port_order l k = k # (if k = l then [] else port_order l (Suc k mod 400))"
  by (auto simp: port_order_def upt_conv_Cons mod_Suc)

lemma find_port_order:
  assumes "length (services b) = 400" and "sint (lastAllocatedPort b) = int l" and "l < 400"
  shows "k < 400 \<Longrightarrow> length (port_order l k) \<le> fuel \<Longrightarrow>
    find_port fuel b (int k) =
      Inr (int (case find (port_free b) (port_order l k) of Some n \<Rightarrow> n | None \<Rightarrow> l))"
proof (induction fuel arbitrary: k)
  case 0
  with assms(3) show ?case by (simp add: port_order_next)
next
  case (Suc fuel)
  have svc: "svc_at b (int k) = Inr (services b ! k)" using Suc.prems assms(1) by simp
  have next_port: "(int k + 1) mod MAX_PORTS = int (Suc k mod 400)"
    by (simp add: MAX_PORTS_def zmod_int add.commute)
  note order = port_order_next [OF Suc.prems(1) assms(3)]
  show ?case
  proof (cases "port_free b k \<or> k = l")
    case True
    then show ?thesis by (auto simp: svc order assms(2) port_free_def)
  next
    case False
    have "Suc k mod 400 < 400" by simp
    with Suc.IH [OF this] Suc.prems(2) False show ?thesis
      by (simp add: svc order assms(2) port_free_def next_port)
  qed
qed

lemma word_of_last: "sint (w :: short) = int l \<Longrightarrow> w = word_of_nat l"
proof -
  assume "sint w = int l"
  then have "word_of_int (sint w) = (word_of_int (int l) :: short)" by simp
  then show ?thesis by simp
qed

lemma open_first_free:
  assumes "bridge_frame b" and "sint (lastAllocatedPort b) = int l" and "l < 399"
  shows "openNewPort b = Inr
    (case find (port_free b) ([Suc l..<400] @ [0..<Suc l]) of
       None \<Rightarrow> (None, b)
     | Some n \<Rightarrow> (Some n, (upd_svc n (\<lambda>s. s\<lparr>port := word_of_nat n\<rparr>) b)\<lparr>lastAllocatedPort := word_of_nat n\<rparr>))"
proof -
  have len: "length (services b) = 400" using assms(1) by (simp add: bridge_frame_def)
  have order: "port_order l (Suc l) = [Suc l..<400] @ [0..<Suc l]" by (simp add: port_order_def)
  have l: "lastAllocatedPort b = word_of_nat l"
    using assms(2) by (rule word_of_last)
  have start: "sint (lastAllocatedPort b + 1) = int (Suc l)"
    using word_of_port [of "Suc l"] assms(3) by (simp add: l add.commute)
  from find_port_order [OF len assms(2), of "Suc l" 401] assms(3)
  have found: "find_port 401 b (int (Suc l)) =
      Inr (int (case find (port_free b) (port_order l (Suc l)) of Some n \<Rightarrow> n | None \<Rightarrow> l))"
    by (simp add: order)
  have "openNewPort b = Inr
    (case find (port_free b) (port_order l (Suc l)) of
       None \<Rightarrow> (None, b)
     | Some n \<Rightarrow> (Some n, (upd_svc n (\<lambda>s. s\<lparr>port := word_of_nat n\<rparr>) b)\<lparr>lastAllocatedPort := word_of_nat n\<rparr>))"
  proof (cases "find (port_free b) (port_order l (Suc l))")
    case None
    then have "\<not> port_free b l" by (auto simp: order find_None_iff)
    with None found start len assms(3) show ?thesis
      by (simp add: openNewPort_def port_free_def)
  next
    case (Some n)
    then have n: "port_free b n" "n < 400"
      using assms(3) by (auto simp: order find_Some_iff nth_append split: if_splits)
    with Some found start len show ?thesis
      by (simp add: openNewPort_def port_free_def)
  qed
  then show ?thesis by (simp only: order)
qed

text \<open>
  C18: as long as the port allocated last is below 399, \<open>openNewPort\<close> returns the first free
  port in the order that starts after it and wraps around, marks just this slot as in use,
  and returns NULL, changing nothing, exactly when every port is in use.
\<close>

theorem openNewPort_first_free:
  assumes "bridge_frame b" and "sint (lastAllocatedPort b) = int l" and "l < 399"
  shows "openNewPort b = Inr
    (case find (port_free b) ([Suc l..<400] @ [0..<Suc l]) of
       None \<Rightarrow> (None, b)
     | Some n \<Rightarrow> (Some n, (upd_svc n (\<lambda>s. s\<lparr>port := word_of_nat n\<rparr>) b)\<lparr>lastAllocatedPort := word_of_nat n\<rparr>))"
  using assms by (rule open_first_free)

lemma open_out_of_bounds:
  assumes "bridge_frame b" and "lastAllocatedPort b = 399"
  shows "openNewPort b = Inl OutOfBounds"
proof -
  have "find_port (Suc 400) b (sint (lastAllocatedPort b + 1)) = Inl OutOfBounds"
    unfolding find_port.simps using assms by (simp add: svc_at_def bridge_frame_def)
  then show ?thesis by (simp add: openNewPort_def)
qed

text \<open>
  Once port 399 has been handed out, \<open>openNewPort\<close> reads past the end of the array of
  services: its first candidate is not reduced modulo the number of ports.
\<close>

theorem openNewPort_out_of_bounds:
  assumes "bridge_frame b" and "lastAllocatedPort b = 399"
  shows "openNewPort b = Inl OutOfBounds"
  using assms by (rule open_out_of_bounds)

lemma openNewPort_keeps:
  assumes "bridge_inv b"
  shows "openNewPort b = Inl OutOfBounds \<or> openNewPort b = Inr (None, b) \<or>
    (\<exists>n b'. openNewPort b = Inr (Some n, b') \<and> n < 400 \<and> services b ! n = closed_service \<and>
       services b' ! n = closed_service\<lparr>port := word_of_nat n\<rparr> \<and>
       b' = (upd_svc n (\<lambda>s. s\<lparr>port := word_of_nat n\<rparr>) b)\<lparr>lastAllocatedPort := word_of_nat n\<rparr> \<and>
       bridge_inv b')"
proof -
  from assms have frame: "bridge_frame b" by (simp add: bridge_inv_def)
  define l where "l = nat (sint (lastAllocatedPort b))"
  have l: "sint (lastAllocatedPort b) = int l" "l < 400"
    using frame by (auto simp: l_def bridge_frame_def)
  show ?thesis
  proof (cases "l < 399")
    case False
    with l have "sint (lastAllocatedPort b) = int 399" by simp
    from word_of_last [OF this] have "lastAllocatedPort b = 399" by simp
    with open_out_of_bounds [OF frame] show ?thesis by simp
  next
    case True
    note found = open_first_free [OF frame l(1) True]
    show ?thesis
    proof (cases "find (port_free b) ([Suc l..<400] @ [0..<Suc l])")
      case None
      with found show ?thesis by simp
    next
      case (Some n)
      then have n: "port_free b n" "n < 400"
        using True by (auto simp: find_Some_iff nth_append split: if_splits)
      let ?b = "(upd_svc n (\<lambda>s. s\<lparr>port := word_of_nat n\<rparr>) b)\<lparr>lastAllocatedPort := word_of_nat n\<rparr>"
      have closed: "services b ! n = closed_service"
        using assms n by (auto simp: bridge_inv_def port_free_def slot_ok_def pre_slot_def)
      have len: "length (services b) = 400" using frame by (simp add: bridge_frame_def)
      have "slot_ok n (closed_service\<lparr>port := word_of_nat n\<rparr>)"
        by (simp add: slot_ok_def pre_slot_def kind_ok_def closed_service_def)
      then have "bridge_inv ?b"
        using assms n(2) len closed word_of_port [OF n(2)]
        by (simp add: bridge_inv_def bridge_frame_def)
      with Some found n(2) closed len show ?thesis by simp
    qed
  qed
qed

end
