(* ===== verification/Spawner.thy ===== *)
theory Spawner
  imports Bridge
begin

text \<open>
  \<open>servicespawner.c\<close>: Android asks for a bulk transfer, a D-Bus method caller or a D-Bus
  signal subscription, and is told the port of the new service or why it was denied.
\<close>

definition STREAM_OPEN :: byte where
  "STREAM_OPEN = 1"

definition STREAM_DENIED :: byte where
  "STREAM_DENIED = 2"

definition ServiceSpawnerInit :: "nat \<Rightarrow> spawn_data" where
  "ServiceSpawnerInit lock = \<lparr>startingLock = lock\<rparr>"

text \<open>The eight bytes of \<open>response\<close> after an accepted and after a denied request.\<close>

definition accepted :: "short \<Rightarrow> byte list" where
  "accepted p = [of_char (CHR ''s''), lo_byte p, hi_byte p, STREAM_OPEN, 0, 0, 0, 0]"

definition denied :: "byte \<Rightarrow> byte list" where
  "denied err = [of_char (CHR ''s''), 0, 0, STREAM_DENIED, err, 0, 0, 0]"

text \<open>The \<open>switch\<close>: the response, and the bridge with the new service set up or not.\<close>

definition start_service ::
    "handler_env \<Rightarrow> nat \<Rightarrow> byte \<Rightarrow> byte list \<Rightarrow> nat \<Rightarrow> bridge \<Rightarrow> (byte list \<times> bridge) res" where
  "start_service env lock requested_protocol arguments n b =
     (if requested_protocol = 1 then
        bind_res (BulkInit (he_bulk env) (tid (he_self env)) n lock arguments) (\<lambda>(sd, calls).
        let b = add_ext calls b in
        case sd of None \<Rightarrow> Inr (denied 2, b)
        | Some bulk \<Rightarrow> Inr (accepted (port (services b ! n)),
            upd_svc n (\<lambda>s. s\<lparr>service_data := Some (SD_Bulk bulk),
              onBytesReceived := Some FnBulkOnBytesReceived,
              onCleanupService := Some FnBulkCleanup, onEof := Some FnBulkOnEof\<rparr>) b))
      else if requested_protocol = 2 then
        (case MethodInit (he_method env) n of None \<Rightarrow> Inr (denied 3, b)
         | Some methods \<Rightarrow> Inr (accepted (port (services b ! n)),
             upd_svc n (\<lambda>s. s\<lparr>service_data := Some (SD_Methods methods),
               onBytesReceived := Some FnMethodOnBytesReceived,
               onCleanupService := Some FnMethodCleanup, onEof := Some FnMethodOnEof\<rparr>) b))
      else if requested_protocol = 3 then
        bind_res (SignalsInit (he_signals env) n lock arguments) (\<lambda>(sd, calls).
        let b = add_ext calls b in
        case sd of None \<Rightarrow> Inr (denied 2, b)
        | Some sig \<Rightarrow> Inr (accepted (port (services b ! n)),
            upd_svc n (\<lambda>s. s\<lparr>service_data := Some (SD_Signals sig),
              onBytesReceived := Some FnSignalsOnBytesReceived,
              onCleanupService := Some FnSignalsCleanup, onEof := Some FnSignalsOnEof\<rparr>) b))
      else Inr (denied 1, b))"

definition ServiceSpawnerOnBytesReceived ::
    "handler_env \<Rightarrow> spawn_data \<Rightarrow> nat \<Rightarrow> byte list \<Rightarrow> bridge \<Rightarrow> bridge res" where
  "ServiceSpawnerOnBytesReceived env spawn i buffer b =
     bind_res (rd buffer 1) (\<lambda>requested_protocol.
     bind_res (rd buffer 2) (\<lambda>_.
     bind_res (rd buffer 3) (\<lambda>_.
     let arguments = drop 4 buffer in
     bind_res (openNewPort b) (\<lambda>(new_service, b).
     bind_res
       (case new_service of None \<Rightarrow> Inr (denied 5, b)
        | Some n \<Rightarrow> start_service env (startingLock spawn) requested_protocol arguments n b)
       (\<lambda>(response, b). Inr (writeAllPort i response b))))))"

definition ServiceSpawnerOnEof :: "bridge \<Rightarrow> bridge" where
  "ServiceSpawnerOnEof b = b"


section \<open>Starting a service\<close>

lemma BulkInit_Some_shape:
  assumes "BulkInit env self sv lock arguments = Inr (Some b, calls)"
  shows "bulk_service b = sv \<and> (\<exists>d. tmpdir b = Some d \<and> length d < 86)"
proof -
  from assms have "releases sv lock (Inr (Some b, calls))"
    unfolding BulkInit_def bind_res_Inr_iff by (metis BulkInitInternal_releases)
  then show ?thesis by (auto simp: releases_def holds_def)
qed

lemma SignalsInit_Some_shape:
  "SignalsInit env sv lock arguments = Inr (Some g, calls) \<Longrightarrow> sig_service g = sv"
  by (auto simp: SignalsInit_def Let_def res_simps split: if_splits)

lemma MethodInit_Some_shape: "MethodInit env sv = Some m \<Longrightarrow> meth_service m = sv"
  by (auto simp: MethodInit_def split: if_splits)

text \<open>
  The outcome of a request on slot \<open>n\<close>: either the answer is an accept with the port of the
  slot, which now holds the service, or a denial and the slot is as \<open>openNewPort\<close> left it.
\<close>

definition reserved :: "nat \<Rightarrow> service" where
  "reserved n = closed_service\<lparr>port := word_of_nat n\<rparr>"

lemma reserved_simps [simp]:
  "port (reserved n) = word_of_nat n" "inputOpen (reserved n)" "outputOpen (reserved n)"
  "onBytesReceived (reserved n) = None" "onEof (reserved n) = None"
  "service_data (reserved n) = None" "onCleanupService (reserved n) = None"
  "slot_ok n (reserved n)"
  by (simp_all add: reserved_def closed_service_def slot_ok_def pre_slot_def kind_ok_def)

lemma bridge_inv_upd:
  "bridge_inv b \<Longrightarrow> n < 400 \<Longrightarrow> slot_ok n (f (services b ! n)) \<Longrightarrow> bridge_inv (upd_svc n f b)"
  by (auto simp: bridge_inv_def bridge_frame_def)

lemma start_service_outcome:
  assumes inv: "bridge_inv b" and n: "n < 400" and slot: "services b ! n = reserved n"
    and run: "start_service env lock proto arguments n b = Inr (response, b')"
  shows "bridge_inv b' \<and> same_but n b b' \<and> sendq b' = sendq b \<and>
    (response = accepted (word_of_nat n) \<and> onBytesReceived (services b' ! n) \<noteq> None \<and>
       onEof (services b' ! n) \<noteq> None \<and> pstate_of (services b' ! n) = Open True True \<and>
       proto \<in> {1, 2, 3} \<or>
     (\<exists>err. response = denied err \<and> err \<in> {1, 2, 3}) \<and> services b' ! n = reserved n)"
proof -
  have len: "length (services b) = 400" using inv by (simp add: bridge_inv_def bridge_frame_def)
  have started: "bridge_inv (upd_svc n f (add_ext calls b))"
    if "slot_ok n (f (reserved n))" for f calls
    using bridge_inv_upd [of "add_ext calls b" n f] inv n slot that by simp
  consider "proto = 1" | "proto = 2" | "proto = 3" | "proto \<notin> {1, 2, 3}" by blast
  then show ?thesis
  proof cases
    case 1
    with run obtain sd calls where init: "BulkInit (he_bulk env) (tid (he_self env)) n lock arguments = Inr (sd, calls)"
      by (auto simp: start_service_def res_simps)
    show ?thesis
    proof (cases sd)
      case None
      with 1 init run inv slot show ?thesis
        by (auto simp: start_service_def same_but_def)
    next
      case (Some bulk)
      let ?f = "\<lambda>s. s\<lparr>service_data := Some (SD_Bulk bulk), onBytesReceived := Some FnBulkOnBytesReceived,
        onCleanupService := Some FnBulkCleanup, onEof := Some FnBulkOnEof\<rparr>"
      have "slot_ok n (?f (reserved n))"
        using BulkInit_Some_shape [OF init [unfolded Some]]
        by (auto simp: slot_ok_def pre_slot_def kind_ok_def)
      with 1 init run Some slot len n started [of ?f calls] show ?thesis
        by (auto simp: start_service_def same_but_def pstate_of_def)
    qed
  next
    case 2
    show ?thesis
    proof (cases "MethodInit (he_method env) n")
      case None
      with 2 run inv slot show ?thesis by (auto simp: start_service_def same_but_def)
    next
      case (Some m)
      let ?f = "\<lambda>s. s\<lparr>service_data := Some (SD_Methods m), onBytesReceived := Some FnMethodOnBytesReceived,
        onCleanupService := Some FnMethodCleanup, onEof := Some FnMethodOnEof\<rparr>"
      have "slot_ok n (?f (reserved n))"
        using MethodInit_Some_shape [OF Some] by (auto simp: slot_ok_def pre_slot_def kind_ok_def)
      with 2 run Some slot len n bridge_inv_upd [OF inv n, of ?f] show ?thesis
        by (auto simp: start_service_def same_but_def pstate_of_def)
    qed
  next
    case 3
    with run obtain sd calls where init: "SignalsInit (he_signals env) n lock arguments = Inr (sd, calls)"
      by (auto simp: start_service_def res_simps)
    show ?thesis
    proof (cases sd)
      case None
      with 3 init run inv slot show ?thesis
        by (auto simp: start_service_def same_but_def)
    next
      case (Some g)
      let ?f = "\<lambda>s. s\<lparr>service_data := Some (SD_Signals g), onBytesReceived := Some FnSignalsOnBytesReceived,
        onCleanupService := Some FnSignalsCleanup, onEof := Some FnSignalsOnEof\<rparr>"
      have "slot_ok n (?f (reserved n))"
        using SignalsInit_Some_shape [OF init [unfolded Some]]
        by (auto simp: slot_ok_def pre_slot_def kind_ok_def)
      with 3 init run Some slot len n started [of ?f calls] show ?thesis
        by (auto simp: start_service_def same_but_def pstate_of_def)
    qed
  next
    case 4
    with run inv slot show ?thesis by (auto simp: start_service_def same_but_def)
  qed
qed


lemma responses_length [simp]: "length (accepted p) = 8" "length (denied err) = 8"
  by (simp_all add: accepted_def denied_def)

text \<open>The whole handler, for a request on a slot that is in use.\<close>

definition spawn_outcome :: "nat \<Rightarrow> bridge \<Rightarrow> bridge \<Rightarrow> byte list \<Rightarrow> bool" where
  "spawn_outcome i b b' response \<longleftrightarrow>
     sendq b' = sendq b @ [Some (port_message (word_of_nat i) response)] \<and>
     (response = denied 5 \<and> services b' = services b \<or>
      (\<exists>n<400. services b ! n = closed_service \<and>
         (\<forall>j. j \<noteq> n \<longrightarrow> services b' ! j = services b ! j) \<and>
         (response = accepted (word_of_nat n) \<and> onBytesReceived (services b' ! n) \<noteq> None \<and>
            onEof (services b' ! n) \<noteq> None \<and> pstate_of (services b' ! n) = Open True True \<or>
          (\<exists>err. response = denied err \<and> err \<in> {1, 2, 3}) \<and> services b' ! n = reserved n)))"

lemma spawner_outcome:
  assumes inv: "bridge_inv b" and i: "i < 400" "port (services b ! i) \<noteq> NO_PORT"
    and run: "ServiceSpawnerOnBytesReceived env spawn i buffer b = Inr b'"
  shows "bridge_inv b' \<and> (\<exists>response. spawn_outcome i b b' response)"
proof -
  have at_i: "port (services b ! i) = word_of_nat i"
    using bridge_pre_port [OF bridge_preI [OF inv i]] .
  from run obtain p new b1 response b2 where
    new: "openNewPort b = Inr (new, b1)" and
    start: "(case new of None \<Rightarrow> Inr (denied 5, b1)
        | Some n \<Rightarrow> start_service env (startingLock spawn) p (drop 4 buffer) n b1) = Inr (response, b2)"
    and b': "b' = writeAllPort i response b2"
    by (auto simp: ServiceSpawnerOnBytesReceived_def res_simps Let_def)
  from openNewPort_keeps [OF inv] new consider "new = None" "b1 = b"
    | n where "new = Some n" "n < 400" "services b ! n = closed_service"
      "services b1 ! n = reserved n" "bridge_inv b1"
      "b1 = (upd_svc n (\<lambda>s. s\<lparr>port := word_of_nat n\<rparr>) b)\<lparr>lastAllocatedPort := word_of_nat n\<rparr>"
    by (auto simp: reserved_def)
  then show ?thesis
  proof cases
    case 1
    with start b' inv at_i show ?thesis
      by (auto simp: spawn_outcome_def writeAllPort_def bridge_inv_def bridge_frame_def)
  next
    case 2
    have "i \<noteq> n" using i(2) 2(3) by auto
    from start 2(1) have "start_service env (startingLock spawn) p (drop 4 buffer) n b1 = Inr (response, b2)"
      by simp
    from start_service_outcome [OF 2(5) 2(2) 2(4) this]
    have out: "bridge_inv b2" "same_but n b1 b2" "sendq b2 = sendq b1"
      "response = accepted (word_of_nat n) \<and> onBytesReceived (services b2 ! n) \<noteq> None \<and>
         onEof (services b2 ! n) \<noteq> None \<and> pstate_of (services b2 ! n) = Open True True \<or>
       (\<exists>err. response = denied err \<and> err \<in> {1, 2, 3}) \<and> services b2 ! n = reserved n"
      by auto
    have same: "services b2 ! j = services b ! j" if "j \<noteq> n" for j
      using out(2) that 2(6) by (simp add: same_but_def upd_svc_def)
    have "port (services b2 ! i) = word_of_nat i" using same [OF \<open>i \<noteq> n\<close>] at_i by simp
    moreover have "sendq b1 = sendq b" using 2(6) by simp
    ultimately have "spawn_outcome i b b' response"
      using out(3,4) 2(2,3) same by (auto simp: b' spawn_outcome_def writeAllPort_def)
    moreover have "bridge_inv b'" using out(1) by (simp add: b')
    ultimately show ?thesis by blast
  qed
qed

lemma spawn_outcome_length: "spawn_outcome i b b' response \<Longrightarrow> length response = 8"
  by (auto simp: spawn_outcome_def)

text \<open>
  C5: every request to the service spawner that is handled is answered by exactly one message
  of eight bytes on the spawner's port. It is an accept only if a port that was closed now
  has a running service that is open in both directions, and the accept names that port;
  otherwise it is a denial with an error code and no service was started. No other port
  changes, and the invariant of the bridge is kept.
\<close>

theorem spawner_answers:
  assumes "bridge_inv b" and "i < 400" and "port (services b ! i) \<noteq> NO_PORT"
    and "ServiceSpawnerOnBytesReceived env spawn i buffer b = Inr b'"
  shows "bridge_inv b' \<and> (\<exists>response. length response = 8 \<and> spawn_outcome i b b' response)"
  using spawner_outcome [OF assms] spawn_outcome_length by blast

end
