(* ===== verification/Server.thy ===== *)
theory Server
  imports Spawner
begin

text \<open>
  The bridge as a whole: \<open>initServer\<close>, the dispatch of a received message to the service of
  its port, the messaging loop of \<open>main\<close>, and \<open>deInitServer\<close>; with the invariant every
  handler keeps.
\<close>

definition open_service ::
    "nat \<Rightarrow> sdata option \<Rightarrow> recv_fn \<Rightarrow> eof_fn \<Rightarrow> cleanup_fn \<Rightarrow> service" where
  "open_service p sd recv eof clean = \<lparr>port = word_of_nat p, service_data = sd, inputOpen = True,
     outputOpen = True, onBytesReceived = Some recv, onEof = Some eof,
     onCleanupService = Some clean\<rparr>"

definition initServer :: "nat \<Rightarrow> bridge" where
  "initServer lock =
     \<lparr>services =
        [open_service 0 (Some SD_Bridge) FnPortStatusOnBytesReceived FnPortStatusOnEof FnPortStatusCleanup,
         open_service 1 (Some (SD_Spawn (ServiceSpawnerInit lock))) FnServiceSpawnerOnBytesReceived
           FnServiceSpawnerOnEof FnServiceSpawnerCleanup,
         open_service 2 None FnKeepaliveOnBytesReceived FnKeepaliveOnEof FnKeepaliveOnEofAsCleanup]
        @ replicate 397 closed_service,
      portStatusService = 0, lastAllocatedPort = 2, work = True, connectedToAndroid = False,
      sendq = [], ext = []\<rparr>"

text \<open>A call of \<open>service->onBytesReceived\<close>; the callbacks cast \<open>service_data\<close>.\<close>

definition run_recv ::
    "handler_env \<Rightarrow> recv_fn \<Rightarrow> nat \<Rightarrow> sdata option \<Rightarrow> byte list \<Rightarrow> int \<Rightarrow> bridge \<Rightarrow> bridge res" where
  "run_recv env f i sd buffer sz b =
     (case f of
        FnPortStatusOnBytesReceived \<Rightarrow> PortStatusOnBytesReceived (he_self env) buffer b
      | FnServiceSpawnerOnBytesReceived \<Rightarrow>
          (case sd of None \<Rightarrow> Inl NullPointer
           | Some (SD_Spawn d) \<Rightarrow> ServiceSpawnerOnBytesReceived env d i buffer b
           | Some _ \<Rightarrow> Inl TypeConfusion)
      | FnKeepaliveOnBytesReceived \<Rightarrow> Inr (KeepaliveOnBytesReceived i b)
      | FnBulkOnBytesReceived \<Rightarrow>
          (case sd of None \<Rightarrow> Inl NullPointer
           | Some (SD_Bulk bulk) \<Rightarrow>
               BulkOnBytesReceived (he_self env) (he_write env) bulk buffer sz b
           | Some _ \<Rightarrow> Inl TypeConfusion)
      | FnMethodOnBytesReceived \<Rightarrow>
          (case sd of None \<Rightarrow> Inl NullPointer
           | Some (SD_Methods m) \<Rightarrow>
               MethodOnBytesReceived (he_signed_char env) (he_method env) m i buffer b
           | Some _ \<Rightarrow> Inl TypeConfusion)
      | FnSignalsOnBytesReceived \<Rightarrow> Inr (SignalsOnBytesReceived b))"

definition sendToCorrectService ::
    "handler_env \<Rightarrow> short \<Rightarrow> byte list \<Rightarrow> short \<Rightarrow> bridge \<Rightarrow> bridge res" where
  "sendToCorrectService env p buffer sz b =
     bind_res (svc_at b (sint p)) (\<lambda>service.
       if port service = NO_PORT then Inr b
       else case onBytesReceived service of None \<Rightarrow> Inl NullPointer
       | Some f \<Rightarrow> run_recv env f (nat (sint p)) (service_data service) buffer (sint sz) b)"

text \<open>
  The loop of \<open>main\<close> over what \<open>pollReceiveQueue\<close> returns, each message with the answers of
  the environment to its handler.
\<close>

fun messaging_loop :: "(mmsg option \<times> handler_env) list \<Rightarrow> bridge \<Rightarrow> bridge res" where
  "messaging_loop [] b = Inl Blocked"
| "messaging_loop ((None, env) # rest) b = Inr b"
| "messaging_loop ((Some msg, env) # rest) b =
     bind_res (sendToCorrectService env (msg_port msg) (msg_data msg) (msg_size msg) b)
       (messaging_loop rest)"

text \<open>
  The loop of \<open>deInitServer\<close> over the ports, then the null pointer that stops the sender, for
  which there must be room in the send queue. (The joins of the receive and the send thread
  are in \<open>BridgeThreads\<close> and \<open>MainProgram\<close>.)
\<close>

fun cleanup_ports :: "caller \<Rightarrow> nat list \<Rightarrow> bridge \<Rightarrow> bridge res" where
  "cleanup_ports self [] b = Inr b"
| "cleanup_ports self (i # is) b =
     bind_res (svc_at b (int i)) (\<lambda>service.
     bind_res (if port service \<noteq> NO_PORT then CleanupService self i b else Inr b)
       (cleanup_ports self is))"

definition deInitServer :: "caller \<Rightarrow> bridge \<Rightarrow> bridge res" where
  "deInitServer self b =
     bind_res (cleanup_ports self [0..<400] b) (\<lambda>b.
       if send_room self then Inr (b\<lparr>sendq := sendq b @ [None]\<rparr>) else Inl Blocked)"

end
