(* ===== verification/Callbacks.thy ===== *)
theory Callbacks
  imports Server
begin

text \<open>
  The type discipline of the callbacks. The bridge calls its services through function
  pointers that cast a \<open>void*\<close>; casting it to the wrong struct is the fault \<open>TypeConfusion\<close>.
  A computation is \<open>well_cast\<close> when it does not end there, and it \<open>gets_through\<close> when it does not
  wait for ever. The rules of the collection \<open>cast_intros\<close> follow the structure of the code,
  as a type system does.
\<close>

named_theorems cast_intros \<open>computations that never cast to a wrong struct or never wait for ever\<close>

definition avoids :: "fault \<Rightarrow> 'a res \<Rightarrow> bool" where
  "avoids f r \<longleftrightarrow> r \<noteq> Inl f"

abbreviation well_cast :: "'a res \<Rightarrow> bool" where
  "well_cast \<equiv> avoids TypeConfusion"

abbreviation gets_through :: "'a res \<Rightarrow> bool" where
  "gets_through \<equiv> avoids Blocked"

lemma well_cast_def: "well_cast r \<longleftrightarrow> r \<noteq> Inl TypeConfusion"
  by (simp add: avoids_def)

lemma avoids_base [cast_intros]:
  "avoids f (Inr x)" "well_cast (Inl OutOfBounds)" "well_cast (Inl NullPointer)"
  "well_cast (Inl Uninitialised)" "well_cast (Inl BadConversion)" "well_cast (Inl Blocked)"
  "well_cast (Inl (ExitProcess n))" "gets_through (Inl OutOfBounds)" "gets_through (Inl NullPointer)"
  "gets_through (Inl Uninitialised)" "gets_through (Inl BadConversion)" "gets_through (Inl TypeConfusion)"
  "gets_through (Inl (ExitProcess n))"
  by (simp_all add: avoids_def)

lemma avoids_bind [cast_intros]:
  "avoids e m \<Longrightarrow> (\<And>x. m = Inr x \<Longrightarrow> avoids e (f x)) \<Longrightarrow> avoids e (bind_res m f)"
  by (cases m) (simp_all add: avoids_def)

lemma avoids_if [cast_intros]:
  "(c \<Longrightarrow> avoids e x) \<Longrightarrow> (\<not> c \<Longrightarrow> avoids e y) \<Longrightarrow> avoids e (if c then x else y)"
  by simp

lemma avoids_option [cast_intros]:
  "(a = None \<Longrightarrow> avoids e x) \<Longrightarrow> (\<And>y. a = Some y \<Longrightarrow> avoids e (f y)) \<Longrightarrow>
     avoids e (case a of None \<Rightarrow> x | Some y \<Rightarrow> f y)"
  by (cases a) simp_all

lemma avoids_prod [cast_intros]:
  "(\<And>x y. p = (x, y) \<Longrightarrow> avoids e (f x y)) \<Longrightarrow> avoids e (case p of (x, y) \<Rightarrow> f x y)"
  by (cases p) simp

lemma cast_reads [cast_intros]:
  "well_cast (rd buf i)" "well_cast (deref p)" "well_cast (svc_at b j)" "well_cast (rd_le n p)"
  "well_cast (put d k c)" "well_cast (overwrite d k ys)" "well_cast (first_cells d m)"
  "well_cast (fifo_path dir name)" "well_cast (dbl_via_u64 w)"
  "gets_through (rd buf i)" "gets_through (deref p)" "gets_through (svc_at b j)" "gets_through (rd_le n p)"
  "gets_through (put d k c)" "gets_through (overwrite d k ys)" "gets_through (first_cells d m)"
  "gets_through (fifo_path dir name)" "gets_through (dbl_via_u64 w)"
  by (simp_all add: avoids_def rd_def deref_def svc_at_def rd_le_def put_def overwrite_def
      first_cells_def fifo_path_def dbl_via_u64_def Let_def split: option.split)

lemma cast_strlen [cast_intros]: "well_cast (c_strlen p)" "gets_through (c_strlen p)"
  by (induction p) (auto intro: cast_intros)

lemma cast_strings [cast_intros]:
  "well_cast (c_str p)" "well_cast (skip_str p)" "gets_through (c_str p)" "gets_through (skip_str p)"
  unfolding c_str_def skip_str_def by (intro cast_intros)+

section \<open>The services\<close>

lemma cast_BulkCleanup [cast_intros]:
  "well_cast (BulkCleanup self bulk)" "gets_through (BulkCleanup self bulk)"
  unfolding BulkCleanup_def by (intro cast_intros)+

lemma cast_give_up [cast_intros]:
  "well_cast (give_up self bulk calls)" "gets_through (give_up self bulk calls)"
  unfolding give_up_def by (intro cast_intros)+

lemma cast_BulkInit [cast_intros]:
  "well_cast (BulkInit env self sv lock arguments)" "gets_through (BulkInit env self sv lock arguments)"
  unfolding BulkInit_def BulkInitInternal_def notifyPayload_def Let_def by (intro cast_intros)+

lemma well_cast_bulk_write_loop [cast_intros]: "well_cast (bulk_write_loop fd buffer sz evs)"
  by (induction evs arbitrary: sz) (auto simp: Let_def intro!: cast_intros split: wr_event.split)

lemma cast_cells [cast_intros]: "well_cast (cells_cstr z cs)" "gets_through (cells_cstr z cs)"
  by (induction z cs rule: cells_cstr.induct) (auto intro!: cast_intros)

lemma cast_cat_loop [cast_intros]: "well_cast (cat_loop d i s l)" "gets_through (cat_loop d i s l)"
  by (induction l arbitrary: d i s) (auto intro!: cast_intros)

lemma cast_balloc [cast_intros]: "well_cast (balloc bp olen al)" "gets_through (balloc bp olen al)"
  unfolding balloc_def balloc_grow_def Let_def by (intro cast_intros)+

lemma cast_bcatblk [cast_intros]: "well_cast (bcatblk bp s len al)" "gets_through (bcatblk bp s len al)"
  unfolding bcatblk_def Let_def by (intro cast_intros)+

lemma cast_append [cast_intros]:
  "well_cast (bconchar bp c al)" "well_cast (bcatcstr bp s al)" "well_cast (bstr2cstr bp c al)"
  "gets_through (bconchar bp c al)" "gets_through (bcatcstr bp s al)" "gets_through (bstr2cstr bp c al)"
  unfolding bconchar_def bcatcstr_def bstr2cstr_def Let_def by (intro cast_intros)+

lemma cast_bfromcstr [cast_intros]: "well_cast (bfromcstr s al)" "gets_through (bfromcstr s al)"
  unfolding bfromcstr_def Let_def
  by (intro cast_intros, (auto intro!: cast_intros split: bool.split))+

lemma cast_SignalsInit [cast_intros]:
  "well_cast (SignalsInit env sv lock rule)" "gets_through (SignalsInit env sv lock rule)"
  unfolding SignalsInit_def addSignalWatch_def createRule_def rule_field_def Let_def
  by (intro cast_intros)+

lemma cast_bytesToDbus [cast_intros]: "well_cast (bytesToDbus cs ty p)" "gets_through (bytesToDbus cs ty p)"
  unfolding bytesToDbus_def by (intro cast_intros)+

lemma cast_args_loop [cast_intros]: "well_cast (args_loop cs ok i n p)" "gets_through (args_loop cs ok i n p)"
  by (induction n arbitrary: i p) (auto intro!: cast_intros)

lemma cast_Method [cast_intros]:
  "well_cast (MethodOnBytesReceived cs env m i buffer b)" "gets_through (MethodOnBytesReceived cs env m i buffer b)"
  unfolding MethodOnBytesReceived_def Let_def by (intro cast_intros)+

lemma well_cast_find_port [cast_intros]: "well_cast (find_port fuel b p)"
  by (induction fuel arbitrary: p) (auto intro!: cast_intros)

lemma well_cast_Spawner [cast_intros]: "well_cast (ServiceSpawnerOnBytesReceived env spawn i buffer b)"
  unfolding ServiceSpawnerOnBytesReceived_def start_service_def openNewPort_def Let_def
  by (intro cast_intros)

lemma Spawner_gets_through:
  assumes "bridge_inv b"
  shows "gets_through (ServiceSpawnerOnBytesReceived env spawn i buffer b)"
proof -
  have "gets_through (openNewPort b)" using openNewPort_keeps [OF assms] by (auto simp: avoids_def)
  note cast_intros = this cast_intros
  show ?thesis
    unfolding ServiceSpawnerOnBytesReceived_def start_service_def Let_def by (intro cast_intros)
qed


section \<open>Every handler keeps the invariant\<close>

lemma keeps_invI:
  "well_cast r \<Longrightarrow> (\<And>b. r = Inr b \<Longrightarrow> bridge_inv b) \<Longrightarrow> keeps_inv (- {TypeConfusion}) r"
  by (cases r) (auto simp: well_cast_def)

lemma keeps_inv_mono: "keeps_inv F r \<Longrightarrow> F \<subseteq> G \<Longrightarrow> keeps_inv G r"
  by (cases r) auto

lemma Method_keeps:
  assumes "bridge_inv b"
  shows "keeps_inv (- {TypeConfusion}) (MethodOnBytesReceived cs env m i buffer b)"
proof (rule keeps_invI)
  fix b' assume "MethodOnBytesReceived cs env m i buffer b = Inr b'"
  then show "bridge_inv b'"
    using assms by (auto simp: MethodOnBytesReceived_def Let_def res_simps split: if_splits option.splits)
qed (rule cast_intros)

lemma Bulk_keeps:
  assumes "bridge_pre i b" and "bulk_service bulk = i" and "bridge_inv b"
  shows "keeps_inv (- {TypeConfusion}) (BulkOnBytesReceived self evs bulk buffer sz b)"
proof -
  have "bridge_pre i (add_ext calls b)" for calls using assms(1) by simp
  from sendClose_pre [OF this, of "patiently self"]
  have "\<exists>b'. sendClose (patiently self) i (add_ext calls b) = Inr b' \<and> bridge_inv b'" for calls by auto
  then have close: "sendClose self i (add_ext calls b) = Inl Blocked \<or>
      (\<exists>b'. sendClose self i (add_ext calls b) = Inr b' \<and> bridge_inv b')" for calls
    using waits_close(3) [of self i "add_ext calls b"] by (metis waits_or_def)
  have "keeps_inv (- {TypeConfusion}) (if err then sendClose self i (add_ext calls b) else Inr (add_ext calls b))"
    for err calls
    using close [of calls] assms(3) by auto
  then show ?thesis
    unfolding BulkOnBytesReceived_def Let_def assms(2)
    by (intro keeps_inv_bind)
      (use well_cast_bulk_write_loop in \<open>auto simp: well_cast_def avoids_def split: prod.split\<close>)
qed

lemma Spawner_keeps:
  assumes "bridge_inv b" and "i < 400" and "port (services b ! i) \<noteq> NO_PORT"
  shows "keeps_inv (- {TypeConfusion}) (ServiceSpawnerOnBytesReceived env spawn i buffer b)"
  by (rule keeps_invI) (use spawner_outcome [OF assms] in \<open>auto intro: cast_intros\<close>)

lemma run_recv_keeps:
  assumes inv: "bridge_inv b" and i: "i < 400" "port (services b ! i) \<noteq> NO_PORT"
    and f: "onBytesReceived (services b ! i) = Some f"
  shows "keeps_inv (- {TypeConfusion}) (run_recv env f i (service_data (services b ! i)) buffer sz b)"
proof -
  have pre: "bridge_pre i b" using bridge_preI [OF inv i] .
  then have kind: "kind_ok i (services b ! i)" by (simp add: bridge_pre_def pre_slot_def)
  show ?thesis
  proof (cases f)
    case FnPortStatusOnBytesReceived
    with PortStatus_keeps [OF inv] show ?thesis
      by (auto simp: run_recv_def intro: keeps_inv_mono)
  next
    case FnServiceSpawnerOnBytesReceived
    with kind f Spawner_keeps [OF inv i] show ?thesis by (auto simp: run_recv_def kind_ok_def)
  next
    case FnBulkOnBytesReceived
    with kind f Bulk_keeps [OF pre _ inv] show ?thesis by (auto simp: run_recv_def kind_ok_def)
  next
    case FnMethodOnBytesReceived
    with kind f Method_keeps [OF inv] show ?thesis by (auto simp: run_recv_def kind_ok_def)
  qed (use inv in \<open>simp_all add: run_recv_def KeepaliveOnBytesReceived_def SignalsOnBytesReceived_def\<close>)
qed

lemma dispatch_keeps:
  assumes "bridge_inv b"
  shows "keeps_inv (- {TypeConfusion}) (sendToCorrectService env p buffer sz b)"
proof (cases "0 \<le> sint p \<and> sint p < 400")
  case False
  with assms show ?thesis
    by (auto simp: sendToCorrectService_def svc_at_def bridge_inv_def bridge_frame_def)
next
  case True
  then have n: "nat (sint p) < 400" "0 \<le> sint p" by auto
  with assms have svc: "svc_at b (sint p) = Inr (services b ! nat (sint p))"
    by (simp add: svc_at_def bridge_inv_def bridge_frame_def)
  show ?thesis
  proof (cases "port (services b ! nat (sint p)) = NO_PORT")
    case True
    with svc assms show ?thesis by (simp add: sendToCorrectService_def)
  next
    case False
    with svc run_recv_keeps [OF assms n(1) False] show ?thesis
      by (auto simp: sendToCorrectService_def split: option.split)
  qed
qed

text \<open>
  C6: no message from Android makes the bridge cast the data of a service to the wrong struct,
  and every message it survives leaves all 400 slots in order: each is either exactly as
  \<open>CleanupService\<close> leaves it, or open in some direction with the callbacks and the data of one
  kind of service.
\<close>

theorem dispatch_type_safe:
  assumes "bridge_inv b"
  shows "case sendToCorrectService env p buffer sz b of
      Inl f \<Rightarrow> f \<noteq> TypeConfusion
    | Inr b' \<Rightarrow> bridge_inv b'"
  using dispatch_keeps [OF assms, of env p buffer sz] by (auto simp: keeps_inv_def split: sum.split)

lemma nth_append_closed: "j < 400 \<Longrightarrow> 3 \<le> j \<Longrightarrow> ([x, y, z] @ replicate 397 closed_service) ! j = closed_service"
  by (simp add: nth_append)

lemma initServer_inv: "bridge_inv (initServer lock)"
proof -
  have "slot_ok j (services (initServer lock) ! j)" if "j < 400" for j
  proof -
    from that consider "j = 0" | "j = 1" | "j = 2" | "3 \<le> j" by linarith
    then show ?thesis
    proof cases
      case 4
      with nth_append_closed [OF that] show ?thesis by (simp add: initServer_def)
    qed (simp_all add: initServer_def open_service_def slot_ok_def pre_slot_def kind_ok_def)
  qed
  then show ?thesis by (simp add: bridge_inv_def bridge_frame_def initServer_def)
qed

definition demo_caller :: caller where
  "demo_caller = \<lparr>tid = 1, lock_free = True, thread_ends = (\<lambda>_. True), send_room = True\<rparr>"

lemma patient_demo [simp]: "patient demo_caller" "send_room demo_caller"
  by (simp_all add: demo_caller_def patient_def)

definition demo_env :: handler_env where
  "demo_env = \<lparr>he_self = demo_caller, he_signed_char = True, he_write = [], he_bulk = demo_bulk_env,
     he_method = demo_method_env,
     he_signals = \<lparr>se_error = False, se_con = 4, se_thread = 6, se_alloc = []\<rparr>\<rparr>"

theorem dispatch_type_safe_witness:
  "case sendToCorrectService demo_env 2 (bytes_of ''ping'') 4 (initServer 7) of
      Inl f \<Rightarrow> f \<noteq> TypeConfusion
    | Inr b' \<Rightarrow> bridge_inv b'"
  by (rule dispatch_type_safe) (rule initServer_inv)

lemma connection_keeps: "keeps_inv (- {TypeConfusion}) (messaging_loop msgs (initServer lock))"
proof -
  have "keeps_inv (- {TypeConfusion}) (messaging_loop msgs b)" if "bridge_inv b" for b
    using that
  proof (induction msgs b rule: messaging_loop.induct)
    case (3 msg env rest b)
    from dispatch_keeps [OF 3(2), of env "msg_port msg" "msg_data msg" "msg_size msg"] 3(1)
    show ?case
      by (cases "sendToCorrectService env (msg_port msg) (msg_data msg) (msg_size msg) b") auto
  qed simp_all
  from this [OF initServer_inv, of lock] show ?thesis .
qed

text \<open>
  C9: the same over a whole connection: from \<open>initServer\<close> on, whatever messages arrive and
  whatever the environment answers, the messaging loop never ends in a wrong cast, and when
  the receiver stops it the bridge is in order.
\<close>

theorem connection_type_safe:
  "case messaging_loop msgs (initServer lock) of Inl f \<Rightarrow> f \<noteq> TypeConfusion | Inr b \<Rightarrow> bridge_inv b"
  using connection_keeps [of msgs lock] by (auto simp: keeps_inv_def split: sum.splits)


section \<open>Shutting down\<close>

lemma cleanup_ports_cases:
  "bridge_inv b \<Longrightarrow> distinct is \<Longrightarrow> \<forall>i\<in>set is. i < 400 \<Longrightarrow>
     if \<forall>i\<in>set is. services b ! i = closed_service \<or> cleanup_returns self (services b ! i)
     then \<exists>b'. cleanup_ports self is b = Inr b' \<and> bridge_inv b' \<and> sendq b' = sendq b \<and>
       (\<forall>i<400. services b' ! i = (if i \<in> set is then closed_service else services b ! i))
     else cleanup_ports self is b = Inl Blocked"
proof (induction "is" arbitrary: b)
  case Nil
  then show ?case by simp
next
  case (Cons i ls)
  then have i: "i < 400" by simp
  have len: "length (services b) = 400" using Cons.prems(1) by (simp add: bridge_inv_def bridge_frame_def)
  have ls: "distinct ls" "\<forall>j\<in>set ls. j < 400" "i \<notin> set ls" using Cons.prems by auto
  show ?case
  proof (cases "port (services b ! i) = NO_PORT")
    case True
    then have "services b ! i = closed_service"
      using Cons.prems(1) i by (auto simp: bridge_inv_def slot_ok_def pre_slot_def)
    with Cons.IH [OF Cons.prems(1) ls(1,2)] True i len show ?thesis by (auto split: if_splits)
  next
    case False
    then have used: "services b ! i \<noteq> closed_service" by auto
    have pre: "bridge_pre i b" using bridge_preI [OF Cons.prems(1) i False] .
    then obtain calls where run: "CleanupService self i b = (if cleanup_returns self (services b ! i)
        then Inr (upd_svc i (\<lambda>_. closed_service) (add_ext calls b)) else Inl Blocked)"
      using CleanupService_cases [of i b self] i len by (auto simp: bridge_pre_def)
    show ?thesis
    proof (cases "cleanup_returns self (services b ! i)")
      case False
      with run used i len \<open>port _ \<noteq> _\<close> show ?thesis by auto
    next
      case True
      let ?b = "upd_svc i (\<lambda>_. closed_service) (add_ext calls b)"
      have "bridge_inv ?b" by (rule bridge_inv_closed) (simp add: pre)
      note IH = Cons.IH [OF this ls(1,2)]
      have same: "(\<forall>j\<in>set ls. services ?b ! j = closed_service \<or> cleanup_returns self (services ?b ! j)) \<longleftrightarrow>
          (\<forall>j\<in>set ls. services b ! j = closed_service \<or> cleanup_returns self (services b ! j))"
        using ls(3) i len by auto
      have step: "cleanup_ports self (i # ls) b = cleanup_ports self ls ?b"
        using True run i len False by simp
      show ?thesis using IH same True i len unfolding step by (auto split: if_splits)
    qed
  qed
qed

lemma cleanup_ports_all:
  assumes "bridge_inv b" and "patient self"
  shows "\<exists>b'. cleanup_ports self [0..<400] b = Inr b' \<and> bridge_inv b' \<and> sendq b' = sendq b \<and>
       (\<forall>i<400. services b' ! i = closed_service)"
  using cleanup_ports_cases [OF assms(1), of "[0..<400]" self] assms(2) by auto

lemma deInitServer_cases:
  assumes "bridge_inv b"
  shows "if (\<forall>i<400. services b ! i = closed_service \<or> cleanup_returns self (services b ! i)) \<and> send_room self
    then \<exists>b'. deInitServer self b = Inr b' \<and> bridge_inv b' \<and> (\<forall>i<400. services b' ! i = closed_service) \<and>
      sendq b' = sendq b @ [None]
    else deInitServer self b = Inl Blocked"
proof (cases "\<forall>i<400. services b ! i = closed_service \<or> cleanup_returns self (services b ! i)")
  case False
  with cleanup_ports_cases [OF assms, of "[0..<400]" self]
  have "cleanup_ports self [0..<400] b = Inl Blocked" by (auto split: if_splits)
  with False show ?thesis by (simp add: deInitServer_def)
next
  case True
  with cleanup_ports_cases [OF assms, of "[0..<400]" self] obtain b' where
    b': "cleanup_ports self [0..<400] b = Inr b'" "bridge_inv b'" "sendq b' = sendq b"
      "\<forall>i<400. services b' ! i = closed_service" by auto
  moreover from b'(2) have "bridge_inv (b'\<lparr>sendq := sendq b' @ [None]\<rparr>)"
    by (simp add: bridge_inv_def bridge_frame_def)
  ultimately show ?thesis using True by (simp add: deInitServer_def)
qed

lemma waits_deInitServer:
  "waits_or (deInitServer self b) (deInitServer (patiently self) b)"
proof -
  have "waits_or (cleanup_ports self is b) (cleanup_ports (patiently self) is b)" for "is"
    by (induction "is" arbitrary: b) (auto intro!: wait_intros)
  moreover have "send_room (patiently self) = send_room self" by (simp add: patiently_def)
  ultimately show ?thesis unfolding deInitServer_def by (simp add: wait_intros)
qed



section \<open>What Android can bring about\<close>

text \<open>
  A request that was given a slot and then denied, whatever the reason: an unknown kind of
  service, or a service that could not be started.
\<close>

lemma request_denied:
  assumes inv: "bridge_inv b" and i: "i < 400" "port (services b ! i) \<noteq> NO_PORT"
    and opens: "openNewPort b = Inr (Some n, b1)"
    and run: "ServiceSpawnerOnBytesReceived env spawn i buffer b = Inr b'"
    and answer: "sendq b' = sendq b @ [Some (port_message p (denied err))]"
  shows "n < 400 \<and> services b ! n = closed_service \<and> services b' ! n = reserved n \<and>
    length (services b') = 400"
proof -
  from openNewPort_keeps [OF inv] opens have n: "n < 400" "services b ! n = closed_service"
    "services b1 ! n = reserved n" "bridge_inv b1" "sendq b1 = sendq b" by (auto simp: reserved_def)
  from run opens obtain proto response b2 where
    start: "start_service env (startingLock spawn) proto (drop 4 buffer) n b1 = Inr (response, b2)"
    and b': "b' = writeAllPort i response b2"
    by (auto simp: ServiceSpawnerOnBytesReceived_def Let_def res_simps)
  from start_service_outcome [OF n(4,1,3) start] have out: "bridge_inv b2" "sendq b2 = sendq b1"
    "response = accepted (word_of_nat n) \<or> services b2 ! n = reserved n" by auto
  have "response = denied err"
    using answer n(5) out(2) by (simp add: b' writeAllPort_def port_message_def)
  then have "response \<noteq> accepted (word_of_nat n)"
    by (simp add: denied_def accepted_def STREAM_DENIED_def STREAM_OPEN_def)
  with out n(1,2) show ?thesis by (auto simp: b' bridge_inv_def bridge_frame_def)
qed

text \<open>
  C20: a request that is denied after a port was found for it, because the kind of service is
  unknown or because starting the bulk transfer, the method caller or the signal watcher
  failed, leaves this port allocated, with no callbacks: nothing frees it, and the next
  message to that port makes the bridge call a null pointer. (A request that is denied
  because no port is free allocates none.)
\<close>

theorem denied_request_leaks_port:
  assumes "bridge_inv b" and "i < 400" and "port (services b ! i) \<noteq> NO_PORT"
    and "openNewPort b = Inr (Some n, b1)"
    and "ServiceSpawnerOnBytesReceived env spawn i buffer b = Inr b'"
    and "sendq b' = sendq b @ [Some (port_message p (denied err))]"
  shows "services b ! n = closed_service \<and> port (services b' ! n) = word_of_nat n \<and>
    sendToCorrectService env' (word_of_nat n) bytes sz b' = Inl NullPointer"
proof -
  note req = request_denied [OF assms]
  then have "svc_at b' (int n) = Inr (reserved n)" by simp
  then have "sendToCorrectService env' (word_of_nat n) bytes sz b' = Inl NullPointer"
    using req word_of_port [of n] by (simp add: sendToCorrectService_def svc_at_def split: if_splits)
  with req show ?thesis by auto
qed

text \<open>An unknown kind of service is such a request.\<close>

lemma unknown_kind_denied:
  assumes "3 < length buffer" and "buffer ! 1 \<notin> {1, 2, 3}" and "openNewPort b = Inr (Some n, b1)"
  shows "ServiceSpawnerOnBytesReceived env spawn i buffer b = Inr (writeAllPort i (denied 1) b1)"
  using assms by (auto simp: ServiceSpawnerOnBytesReceived_def start_service_def Let_def)

text \<open>
  A message whose port is not between 0 and 399 is not dropped: the dispatch reads, and
  calls through, memory outside the array of services.
\<close>

theorem dispatch_unchecked_port:
  assumes "bridge_inv b" and "sint p < 0 \<or> 400 \<le> sint p"
  shows "sendToCorrectService env p buffer sz b = Inl OutOfBounds"
  using assms by (auto simp: sendToCorrectService_def svc_at_def bridge_inv_def bridge_frame_def)

theorem dispatch_unchecked_port_witness:
  "sendToCorrectService demo_env 0xFFFF [1] 1 (initServer 7) = Inl OutOfBounds"
  by (rule dispatch_unchecked_port) (simp_all add: initServer_inv)

section \<open>Concrete runs\<close>

lemma initServer_simps:
  "services (initServer lock) ! 0 = open_service 0 (Some SD_Bridge) FnPortStatusOnBytesReceived
     FnPortStatusOnEof FnPortStatusCleanup"
  "services (initServer lock) ! 1 = open_service 1 (Some (SD_Spawn (ServiceSpawnerInit lock)))
     FnServiceSpawnerOnBytesReceived FnServiceSpawnerOnEof FnServiceSpawnerCleanup"
  "services (initServer lock) ! Suc 0 = open_service 1 (Some (SD_Spawn (ServiceSpawnerInit lock)))
     FnServiceSpawnerOnBytesReceived FnServiceSpawnerOnEof FnServiceSpawnerCleanup"
  "services (initServer lock) ! 2 = open_service 2 None FnKeepaliveOnBytesReceived FnKeepaliveOnEof
     FnKeepaliveOnEofAsCleanup"
  "services (initServer lock) ! 3 = closed_service" "lastAllocatedPort (initServer lock) = 2"
  by (simp_all add: initServer_def)

lemma initServer_opens:
  "openNewPort (initServer lock) = Inr (Some 3,
     (upd_svc 3 (\<lambda>s. s\<lparr>port := 3\<rparr>) (initServer lock))\<lparr>lastAllocatedPort := 3\<rparr>)"
proof -
  have frame: "bridge_frame (initServer lock)" using initServer_inv by (simp add: bridge_inv_def)
  have "[Suc 2..<400] @ [0..<Suc 2] = 3 # ([4..<400] @ [0..<Suc 2])" by (simp add: upt_conv_Cons)
  moreover have "port_free (initServer lock) 3" by (simp add: port_free_def initServer_simps)
  ultimately have "find (port_free (initServer lock)) ([Suc 2..<400] @ [0..<Suc 2]) = Some 3"
    by simp
  with open_first_free [OF frame, of 2] show ?thesis by (simp add: initServer_simps)
qed

theorem denied_request_leaks_port_witness:
  "\<exists>b'. ServiceSpawnerOnBytesReceived demo_env \<lparr>startingLock = 7\<rparr> 1 [0, 9, 0, 0] (initServer 7) = Inr b' \<and>
     sendToCorrectService demo_env (word_of_nat 3) [1] 1 b' = Inl NullPointer"
proof -
  have used: "1 < (400 :: nat)" "port (services (initServer 7) ! 1) \<noteq> NO_PORT"
    by (simp_all add: initServer_simps open_service_def NO_PORT_def)
  have run: "ServiceSpawnerOnBytesReceived demo_env \<lparr>startingLock = 7\<rparr> 1 [0, 9, 0, 0] (initServer 7) =
      Inr (writeAllPort 1 (denied 1) ((upd_svc 3 (\<lambda>s. s\<lparr>port := 3\<rparr>) (initServer 7))\<lparr>lastAllocatedPort := 3\<rparr>))"
    by (rule unknown_kind_denied) (simp_all add: initServer_opens)
  have "sendq (writeAllPort 1 (denied 1) ((upd_svc 3 (\<lambda>s. s\<lparr>port := 3\<rparr>) (initServer 7))\<lparr>lastAllocatedPort := 3\<rparr>)) =
      sendq (initServer 7) @ [Some (port_message (port (services (writeAllPort 1 (denied 1)
        ((upd_svc 3 (\<lambda>s. s\<lparr>port := 3\<rparr>) (initServer 7))\<lparr>lastAllocatedPort := 3\<rparr>)) ! 1)) (denied 1))]"
    by (simp add: writeAllPort_def)
  from denied_request_leaks_port [OF initServer_inv used initServer_opens run this, of demo_env "[1]" 1] run
  show ?thesis by blast
qed

theorem spawner_answers_witness:
  "\<exists>b' response. ServiceSpawnerOnBytesReceived demo_env \<lparr>startingLock = 7\<rparr> 1 [0, 2, 0, 0] (initServer 7) = Inr b' \<and>
     length response = 8 \<and> spawn_outcome 1 (initServer 7) b' response"
proof -
  obtain b' where run:
    "ServiceSpawnerOnBytesReceived demo_env \<lparr>startingLock = 7\<rparr> 1 [0, 2, 0, 0] (initServer 7) = Inr b'"
    by (simp add: ServiceSpawnerOnBytesReceived_def initServer_opens start_service_def MethodInit_def
        demo_env_def demo_method_env_def Let_def)
  have "1 < (400 :: nat)" and "port (services (initServer 7) ! 1) \<noteq> NO_PORT"
    by (simp_all add: initServer_simps open_service_def NO_PORT_def)
  from spawner_answers [OF initServer_inv this run] run show ?thesis by blast
qed

theorem port_status_refines_witness:
  "\<exists>b'. PortStatusOnBytesReceived demo_caller (status_bytes (word_of_nat 1) STREAM_CLOSE) (initServer 7) = Inr b' \<and>
     pstate_of (services b' ! 1) = Open True False"
proof -
  let ?s = "services (initServer 7) ! 1"
  have used: "port ?s \<noteq> NO_PORT" and eof: "onEof ?s \<noteq> None"
    and step: "status_step STREAM_CLOSE ?s (pstate_of ?s) = Open True False"
    by (simp_all add: initServer_simps open_service_def NO_PORT_def pstate_of_def status_step_def
        STREAM_EOF_def STREAM_CLOSE_def shut_def)
  from port_status_refines [where p = 1 and status = STREAM_CLOSE and self = demo_caller,
      OF initServer_inv _ used] eof step
  show ?thesis by auto
qed

theorem port_closes_when_both_shut_witness:
  "\<exists>b'. run_ops demo_caller 2 [AndroidClose, BridgeClose] (initServer 7) = Inr b' \<and>
     services b' ! 2 = closed_service"
  using port_closes_when_both_shut [OF initServer_inv, of 2 7 demo_caller "[AndroidClose, BridgeClose]"]
  by (auto simp: initServer_simps open_service_def NO_PORT_def pstate_of_def plain_eof_def
      shuts_input_def shuts_output_def)

theorem openNewPort_first_free_witness:
  "\<exists>n b'. openNewPort (initServer 7) = Inr (Some n, b') \<and> n = 3"
proof -
  have frame: "bridge_frame (initServer 7)" using initServer_inv by (simp add: bridge_inv_def)
  have "[Suc 2..<400] @ [0..<Suc 2] = 3 # ([4..<400] @ [0..<Suc 2])" by (simp add: upt_conv_Cons)
  moreover have "port_free (initServer 7) 3" by (simp add: port_free_def initServer_simps)
  ultimately have "find (port_free (initServer 7)) ([Suc 2..<400] @ [0..<Suc 2]) = Some 3" by simp
  with openNewPort_first_free [OF frame, of 2] show ?thesis by (simp add: initServer_simps)
qed

theorem openNewPort_out_of_bounds_witness:
  "openNewPort ((initServer 7)\<lparr>lastAllocatedPort := 399\<rparr>) = Inl OutOfBounds"
proof (rule openNewPort_out_of_bounds)
  have "bridge_frame (initServer 7)" using initServer_inv by (simp add: bridge_inv_def)
  then show "bridge_frame ((initServer 7)\<lparr>lastAllocatedPort := 399\<rparr>)" by (simp add: bridge_frame_def)
qed simp

end
