(* ===== verification/CleanupLock.thy ===== *)
theory CleanupLock
  imports Callbacks
begin

text \<open>
  Two threads and one lock: the main thread, which handles what Android sends for a bulk
  service in slot \<open>i\<close> and shuts the bridge down, and the thread of that service, which copies
  its fifo and ends with \<open>sendEof\<close>. Both may find both directions shut and call
  \<open>CleanupService\<close>, which takes \<open>cleanupLock\<close>; the main thread then joins the other one while
  it holds the lock (\<open>BulkCleanup\<close>).

  A state is the bridge, the owner of the lock, where the two threads are, and what the
  environment still gives: the results of \<open>read\<close> on the fifo (\<open>[]\<close> is its end or an error), the
  outcomes of writing a message of Android to the other fifo, and how many messages the send
  queue will still take. An empty script is a call that waits for ever. The steps use the
  operations of the theory \<open>Bridge\<close>, cut where another thread can run in between: after each
  test of a shared field, around each call that may wait, and after the lock was taken.
\<close>

section \<open>The steps of the two threads\<close>

datatype thread_id = MainThread | BulkThread

datatype event = AndroidSendsEof | AndroidSendsClose | AndroidSendsData

datatype main_pc =
    MIdle          \<comment> \<open>in the messaging loop, or in the loop of \<open>deInitServer\<close>\<close>
  | MEvent event   \<comment> \<open>has found the port open, before it touches the slot\<close>
  | MWrite         \<comment> \<open>in \<open>write\<close>, called by \<open>BulkOnBytesReceived\<close>\<close>
  | MPush mmsg     \<comment> \<open>in \<open>addSendQueue\<close>, called by \<open>sendClose\<close>\<close>
  | MTest          \<comment> \<open>before the test of both flags\<close>
  | MLock          \<comment> \<open>at \<open>pthread_mutex_lock\<close> in \<open>CleanupService\<close>\<close>
  | MLocked        \<comment> \<open>holding the lock, before \<open>onCleanupService\<close>\<close>
  | MCleanup       \<comment> \<open>holding the lock, in \<open>BulkCleanup\<close> at \<open>pthread_join\<close>\<close>
  | MCrashed       \<comment> \<open>has called a null pointer or used freed memory\<close>

datatype bulk_pc =
    BReading       \<comment> \<open>before \<open>read\<close> in the loop of \<open>bulkTransferThread\<close>\<close>
  | BInRead        \<comment> \<open>inside \<open>read\<close>\<close>
  | BPush mmsg     \<comment> \<open>in \<open>addSendQueue\<close> with what was read\<close>
  | BEofPush mmsg  \<comment> \<open>in \<open>addSendQueue\<close>, called by \<open>sendEof\<close>\<close>
  | BTest          \<comment> \<open>before the test of both flags in \<open>sendEof\<close>\<close>
  | BLock
  | BCleanup
  | BExited

record lock_state =
  br :: bridge
  cleanupLock :: "thread_id option"
  main_at :: main_pc
  bulk_at :: bulk_pc
  fifo :: "byte list list"
  writes :: "bool list"     \<comment> \<open>whether all of a message is written, or an error is returned\<close>
  room :: nat
  fds_closed :: bool        \<comment> \<open>\<open>BulkCleanup\<close> has closed the fifos\<close>

abbreviation slot :: "nat \<Rightarrow> lock_state \<Rightarrow> service" where
  "slot i s \<equiv> services (br s) ! i"

definition both_shut :: "nat \<Rightarrow> lock_state \<Rightarrow> bool" where
  "both_shut i s \<longleftrightarrow> \<not> inputOpen (slot i s) \<and> \<not> outputOpen (slot i s)"

text \<open>The join of \<open>BulkCleanup\<close> does not return.\<close>

definition bulk_running :: "nat \<Rightarrow> lock_state \<Rightarrow> bool" where
  "bulk_running i s \<longleftrightarrow> onCleanupService (slot i s) = Some FnBulkCleanup \<and> bulk_at s \<noteq> BExited"

text \<open>\<open>BulkOnEof\<close> has closed the fifo to the payload: a write to it is an error at once.\<close>

definition payload_closed :: "nat \<Rightarrow> lock_state \<Rightarrow> bool" where
  "payload_closed i s \<longleftrightarrow>
     (case service_data (slot i s) of Some (SD_Bulk bulk) \<Rightarrow> fifoToPayloadFD bulk = -1 | _ \<Rightarrow> False)"

text \<open>What \<open>sendEof\<close> and \<open>sendClose\<close> give to \<open>addSendQueue\<close>, and the call once it returns.\<close>

definition port_status :: "nat \<Rightarrow> byte \<Rightarrow> bridge \<Rightarrow> mmsg" where
  "port_status i status b =
     port_message (port (services b ! portStatusService b)) (status_bytes (port (services b ! i)) status)"

definition queued :: "mmsg \<Rightarrow> bridge \<Rightarrow> bridge" where
  "queued m b = b\<lparr>sendq := sendq b @ [Some m]\<rparr>"

text \<open>The callers: waiting is in the steps, so that the operations themselves do not wait.\<close>

definition step_caller :: "nat \<Rightarrow> caller" where
  "step_caller t = \<lparr>tid = t, lock_free = True, thread_ends = (\<lambda>_. True), send_room = True\<rparr>"

definition bulk_tid :: "nat \<Rightarrow> lock_state \<Rightarrow> nat" where
  "bulk_tid i s = (case service_data (slot i s) of Some (SD_Bulk bulk) \<Rightarrow> Services.bulkTransferThread bulk | _ \<Rightarrow> 0)"

abbreviation main_caller :: "nat \<Rightarrow> lock_state \<Rightarrow> caller" where
  "main_caller i s \<equiv> step_caller (Suc (bulk_tid i s))"

inductive main_step :: "nat \<Rightarrow> lock_state \<Rightarrow> lock_state \<Rightarrow> bool" for i where
  main_receives: "main_at s = MIdle \<Longrightarrow> port (slot i s) \<noteq> NO_PORT \<Longrightarrow>
     main_step i s (s\<lparr>main_at := MEvent e\<rparr>)"
| main_deinit: "main_at s = MIdle \<Longrightarrow> port (slot i s) \<noteq> NO_PORT \<Longrightarrow>
     main_step i s (s\<lparr>main_at := MLock\<rparr>)"
| main_eof: "main_at s = MEvent AndroidSendsEof \<Longrightarrow> onEof (slot i s) = Some f \<Longrightarrow>
     run_eof (main_caller i s) f i (upd_svc i (\<lambda>v. v\<lparr>inputOpen := False\<rparr>) (br s)) = Inr b \<Longrightarrow>
     main_step i s (s\<lparr>br := b, main_at := MTest\<rparr>)"
| main_eof_null: "main_at s = MEvent AndroidSendsEof \<Longrightarrow> onEof (slot i s) = None \<Longrightarrow>
     main_step i s (s\<lparr>main_at := MCrashed\<rparr>)"
| main_close: "main_at s = MEvent AndroidSendsClose \<Longrightarrow>
     main_step i s (s\<lparr>br := upd_svc i (\<lambda>v. v\<lparr>outputOpen := False\<rparr>) (br s), main_at := MTest\<rparr>)"
| main_data: "main_at s = MEvent AndroidSendsData \<Longrightarrow> onBytesReceived (slot i s) \<noteq> None \<Longrightarrow>
     main_step i s (s\<lparr>main_at := MWrite\<rparr>)"
| main_data_null: "main_at s = MEvent AndroidSendsData \<Longrightarrow> onBytesReceived (slot i s) = None \<Longrightarrow>
     main_step i s (s\<lparr>main_at := MCrashed\<rparr>)"
| main_wrote: "main_at s = MWrite \<Longrightarrow> writes s = True # ws \<Longrightarrow> \<not> payload_closed i s \<Longrightarrow>
     main_step i s (s\<lparr>writes := ws, main_at := MIdle\<rparr>)"
| main_write_error: "main_at s = MWrite \<Longrightarrow> writes s = False # ws \<Longrightarrow> \<not> payload_closed i s \<Longrightarrow>
     service_data (slot i s) \<noteq> None \<Longrightarrow>
     main_step i s (s\<lparr>writes := ws, main_at := MPush (port_status i STREAM_CLOSE (br s)),
       br := upd_svc i (\<lambda>v. v\<lparr>inputOpen := False\<rparr>) (br s)\<rparr>)"
| main_write_closed: "main_at s = MWrite \<Longrightarrow> payload_closed i s \<Longrightarrow>
     main_step i s (s\<lparr>main_at := MPush (port_status i STREAM_CLOSE (br s)),
       br := upd_svc i (\<lambda>v. v\<lparr>inputOpen := False\<rparr>) (br s)\<rparr>)"
| main_write_freed: "main_at s = MWrite \<Longrightarrow> writes s = False # ws \<Longrightarrow> service_data (slot i s) = None \<Longrightarrow>
     main_step i s (s\<lparr>main_at := MCrashed\<rparr>)"
| main_push: "main_at s = MPush m \<Longrightarrow> room s = Suc k \<Longrightarrow>
     main_step i s (s\<lparr>br := queued m (br s), room := k, main_at := MTest\<rparr>)"
| main_test: "main_at s = MTest \<Longrightarrow>
     main_step i s (s\<lparr>main_at := (if both_shut i s then MLock else MIdle)\<rparr>)"
| main_lock: "main_at s = MLock \<Longrightarrow> cleanupLock s = None \<Longrightarrow>
     main_step i s (s\<lparr>main_at := MLocked, cleanupLock := Some MainThread\<rparr>)"
| main_enter: "main_at s = MLocked \<Longrightarrow>
     main_step i s (s\<lparr>main_at := MCleanup,
       fds_closed := (fds_closed s \<or> onCleanupService (slot i s) = Some FnBulkCleanup)\<rparr>)"
| main_cleanup: "main_at s = MCleanup \<Longrightarrow> \<not> bulk_running i s \<Longrightarrow>
     CleanupService (main_caller i s) i (br s) = Inr b \<Longrightarrow>
     main_step i s (s\<lparr>br := b, main_at := MIdle, cleanupLock := None\<rparr>)"

inductive bulk_step :: "nat \<Rightarrow> lock_state \<Rightarrow> lock_state \<Rightarrow> bool" for i where
  bulk_read: "bulk_at s = BReading \<Longrightarrow> \<not> fds_closed s \<Longrightarrow> bulk_step i s (s\<lparr>bulk_at := BInRead\<rparr>)"
| bulk_closed: "bulk_at s = BReading \<Longrightarrow> fds_closed s \<Longrightarrow>
     bulk_step i s (s\<lparr>bulk_at := BEofPush (port_status i STREAM_EOF (br s)),
       br := upd_svc i (\<lambda>v. v\<lparr>outputOpen := False\<rparr>) (br s)\<rparr>)"
| bulk_data: "bulk_at s = BInRead \<Longrightarrow> fifo s = bs # rs \<Longrightarrow> bs \<noteq> [] \<Longrightarrow>
     bulk_step i s (s\<lparr>fifo := rs, bulk_at := BPush (port_message (port (slot i s)) bs)\<rparr>)"
| bulk_end: "bulk_at s = BInRead \<Longrightarrow> fifo s = [] # rs \<Longrightarrow>
     bulk_step i s (s\<lparr>fifo := rs, bulk_at := BEofPush (port_status i STREAM_EOF (br s)),
       br := upd_svc i (\<lambda>v. v\<lparr>outputOpen := False\<rparr>) (br s)\<rparr>)"
| bulk_push: "bulk_at s = BPush m \<Longrightarrow> room s = Suc k \<Longrightarrow>
     bulk_step i s (s\<lparr>br := queued m (br s), room := k, bulk_at := BReading\<rparr>)"
| bulk_eof_push: "bulk_at s = BEofPush m \<Longrightarrow> room s = Suc k \<Longrightarrow>
     bulk_step i s (s\<lparr>br := queued m (br s), room := k, bulk_at := BTest\<rparr>)"
| bulk_test: "bulk_at s = BTest \<Longrightarrow>
     bulk_step i s (s\<lparr>bulk_at := (if both_shut i s then BLock else BExited)\<rparr>)"
| bulk_lock: "bulk_at s = BLock \<Longrightarrow> cleanupLock s = None \<Longrightarrow>
     bulk_step i s (s\<lparr>bulk_at := BCleanup, cleanupLock := Some BulkThread\<rparr>)"
| bulk_cleanup: "bulk_at s = BCleanup \<Longrightarrow>
     CleanupService (step_caller (bulk_tid i s)) i (br s) = Inr b \<Longrightarrow>
     bulk_step i s (s\<lparr>br := b, bulk_at := BExited, cleanupLock := None\<rparr>)"

text \<open>Either thread moves; nothing moves in a process that has crashed.\<close>

inductive lock_step :: "nat \<Rightarrow> lock_state \<Rightarrow> lock_state \<Rightarrow> bool" for i where
  main: "main_step i s t \<Longrightarrow> lock_step i s t"
| bulk: "main_at s \<noteq> MCrashed \<Longrightarrow> bulk_step i s t \<Longrightarrow> lock_step i s t"

inductive lock_reach :: "nat \<Rightarrow> bridge \<Rightarrow> lock_state \<Rightarrow> bool" for i b where
  start: "lock_reach i b \<lparr>br = b, cleanupLock = None, main_at = MIdle, bulk_at = BReading,
     fifo = rs, writes = ws, room = k, fds_closed = False\<rparr>"
| step: "lock_reach i b s \<Longrightarrow> lock_step i s t \<Longrightarrow> lock_reach i b t"

inductive_cases main_stepE: "main_step i s t"
inductive_cases bulk_stepE: "bulk_step i s t"
inductive_cases lock_stepE: "lock_step i s t"

definition stuck :: "nat \<Rightarrow> lock_state \<Rightarrow> bool" where
  "stuck i s \<longleftrightarrow> (\<forall>t. \<not> lock_step i s t)"

section \<open>The invariant\<close>

text \<open>The slot holds a bulk service; the slot has been cleaned up (but for its flags).\<close>

definition bulk_slot :: "nat \<Rightarrow> service \<Rightarrow> bool" where
  "bulk_slot i s \<longleftrightarrow> pre_slot i s \<and> onBytesReceived s = Some FnBulkOnBytesReceived"

definition freed :: "service \<Rightarrow> bool" where
  "freed s \<longleftrightarrow> port s = NO_PORT \<and> service_data s = None \<and> onBytesReceived s = None \<and>
     onEof s = None \<and> onCleanupService s = None"

lemma bulk_slotD:
  "bulk_slot i s \<Longrightarrow> onEof s = Some FnBulkOnEof \<and> onCleanupService s = Some FnBulkCleanup \<and>
     port s = word_of_nat i \<and> onBytesReceived s \<noteq> None \<and> (\<exists>bulk. service_data s = Some (SD_Bulk bulk))"
  by (auto simp: bulk_slot_def pre_slot_def kind_ok_def)

lemma slot_flags [simp]:
  "bulk_slot i (s\<lparr>inputOpen := x\<rparr>) = bulk_slot i s" "bulk_slot i (s\<lparr>outputOpen := x\<rparr>) = bulk_slot i s"
  "freed (s\<lparr>inputOpen := x\<rparr>) = freed s" "freed (s\<lparr>outputOpen := x\<rparr>) = freed s"
  by (simp_all add: bulk_slot_def freed_def)

lemma freed_closed [simp]: "freed closed_service"
  by (simp add: freed_def closed_service_def)

lemma queued_simps [simp]:
  "services (queued m b) = services b" "portStatusService (queued m b) = portStatusService b"
  by (simp_all add: queued_def)

definition lock_inv :: "nat \<Rightarrow> lock_state \<Rightarrow> bool" where
  "lock_inv i s \<longleftrightarrow> i < length (services (br s)) \<and>
     (cleanupLock s = Some MainThread \<longleftrightarrow> main_at s \<in> {MLocked, MCleanup}) \<and>
     (cleanupLock s = Some BulkThread \<longleftrightarrow> bulk_at s = BCleanup) \<and>
     (bulk_slot i (slot i s) \<or> freed (slot i s) \<and> bulk_at s = BExited)"

lemma bulk_eof_slot:
  assumes "bulk_slot i (services b ! i)" and "i < length (services b)"
    and "run_eof self FnBulkOnEof i b = Inr b'"
  shows "length (services b') = length (services b) \<and> bulk_slot i (services b' ! i) \<and>
    inputOpen (services b' ! i) = inputOpen (services b ! i) \<and>
    outputOpen (services b' ! i) = outputOpen (services b ! i)"
  using assms
  by (auto simp: run_eof_def BulkOnEof_def bulk_slot_def pre_slot_def kind_ok_def)

lemma bulk_eof_runs:
  "bulk_slot i (services b ! i) \<Longrightarrow> \<exists>b'. run_eof self FnBulkOnEof i b = Inr b'"
  by (auto simp: run_eof_def BulkOnEof_def bulk_slot_def pre_slot_def kind_ok_def)

lemma patient_step [simp]: "patient (step_caller t)"
  by (simp add: step_caller_def patient_def)

lemma cleanup_slot:
  assumes "bulk_slot i (services b ! i) \<or> freed (services b ! i)" and "i < length (services b)"
  shows "\<exists>b'. CleanupService (step_caller t) i b = Inr b'"
    and "CleanupService (step_caller t) i b = Inr b' \<Longrightarrow>
      freed (services b' ! i) \<and> length (services b') = length (services b)"
proof -
  show "\<exists>b'. CleanupService (step_caller t) i b = Inr b'"
    using assms(1)
  proof
    assume "bulk_slot i (services b ! i)"
    with CleanupService_pre [of i b "step_caller t"] assms(2) show ?thesis by (auto simp: bulk_slot_def)
  next
    assume "freed (services b ! i)"
    then show ?thesis by (simp add: freed_def CleanupService_def step_caller_def)
  qed
  show "CleanupService (step_caller t) i b = Inr b' \<Longrightarrow>
      freed (services b' ! i) \<and> length (services b') = length (services b)"
    using assms(2) by (auto simp: CleanupService_def res_simps freed_def Let_def split: if_splits)
qed

lemma main_step_inv:
  assumes "main_step i s t" and "lock_inv i s"
  shows "lock_inv i t"
  using assms(1)
proof cases
  case (main_eof f b)
  then have "\<not> freed (slot i s)" by (auto simp: freed_def)
  then have slot: "bulk_slot i (slot i s)" using assms(2) by (auto simp: lock_inv_def)
  with main_eof have "f = FnBulkOnEof" using bulk_slotD by fastforce
  with bulk_eof_slot [of i "upd_svc i (\<lambda>v. v\<lparr>inputOpen := False\<rparr>) (br s)" "main_caller i s" b]
    main_eof slot assms(2)
  show ?thesis by (auto simp: lock_inv_def)
next
  case (main_cleanup b)
  have "bulk_slot i (slot i s) \<Longrightarrow> bulk_at s = BExited"
    using main_cleanup(3) bulk_slotD by (auto simp: bulk_running_def)
  with cleanup_slot(2) [OF _ _ main_cleanup(4)] assms(2) main_cleanup show ?thesis
    by (auto simp: lock_inv_def)
qed (use assms(2) in \<open>auto simp: lock_inv_def\<close>)

lemma bulk_step_inv:
  assumes "bulk_step i s t" and "lock_inv i s"
  shows "lock_inv i t"
  using assms(1)
proof cases
  case (bulk_cleanup b)
  with cleanup_slot(2) [OF _ _ bulk_cleanup(3)] assms(2) show ?thesis
    by (auto simp: lock_inv_def)
qed (use assms(2) in \<open>auto simp: lock_inv_def\<close>)

lemma lock_reach_inv:
  "lock_reach i b s \<Longrightarrow> bulk_slot i (services b ! i) \<Longrightarrow> i < length (services b) \<Longrightarrow> lock_inv i s"
proof (induction rule: lock_reach.induct)
  case start
  then show ?case by (simp add: lock_inv_def)
next
  case (step s t)
  then show ?case using main_step_inv bulk_step_inv by (blast elim: lock_stepE)
qed

section \<open>Where the two threads can stand still\<close>

text \<open>
  The bulk thread waits for ever: in \<open>read\<close>, which \<open>close\<close> does not wake, for a payload that stays
  silent, or in \<open>addSendQueue\<close>. The main thread waits for ever in \<open>addSendQueue\<close> or in \<open>write\<close>.
\<close>

definition bulk_waits :: "lock_state \<Rightarrow> bool" where
  "bulk_waits s \<longleftrightarrow> bulk_at s = BInRead \<and> fifo s = [] \<or>
     (\<exists>m. bulk_at s = BPush m \<or> bulk_at s = BEofPush m) \<and> room s = 0"

definition main_waits :: "nat \<Rightarrow> lock_state \<Rightarrow> bool" where
  "main_waits i s \<longleftrightarrow> (\<exists>m. main_at s = MPush m) \<and> room s = 0 \<or>
     main_at s = MWrite \<and> writes s = [] \<and> \<not> payload_closed i s"

lemma bulk_still:
  assumes "lock_inv i s"
  shows "(\<forall>t. \<not> bulk_step i s t) \<longleftrightarrow>
    bulk_at s = BExited \<or> bulk_waits s \<or> bulk_at s = BLock \<and> cleanupLock s \<noteq> None"
proof
  assume still: "\<forall>t. \<not> bulk_step i s t"
  have "bulk_slot i (slot i s) \<or> freed (slot i s)" "i < length (services (br s))"
    using assms by (auto simp: lock_inv_def)
  from cleanup_slot(1) [OF this] have "bulk_at s \<noteq> BCleanup"
    using still bulk_step.bulk_cleanup by blast
  moreover have "bulk_at s \<noteq> BReading" "bulk_at s \<noteq> BTest"
    using still bulk_step.bulk_read bulk_step.bulk_closed bulk_step.bulk_test by blast+
  moreover have "bulk_at s = BInRead \<Longrightarrow> fifo s = []"
    using still bulk_step.bulk_data [of s _ _ i] bulk_step.bulk_end [of s _ i] by (metis list.exhaust)
  moreover have "bulk_at s = BPush m \<or> bulk_at s = BEofPush m \<Longrightarrow> room s = 0" for m
    using still bulk_step.bulk_push [of s m _ i] bulk_step.bulk_eof_push [of s m _ i] by (metis not0_implies_Suc)
  moreover have "bulk_at s = BLock \<Longrightarrow> cleanupLock s \<noteq> None"
    using still bulk_step.bulk_lock by blast
  ultimately show "bulk_at s = BExited \<or> bulk_waits s \<or> bulk_at s = BLock \<and> cleanupLock s \<noteq> None"
    by (cases "bulk_at s") (auto simp: bulk_waits_def)
qed (auto simp: bulk_waits_def elim!: bulk_stepE)

lemma main_still:
  assumes inv: "lock_inv i s" and i: "i < 400"
  shows "(\<forall>t. \<not> main_step i s t) \<longleftrightarrow> main_at s = MCrashed \<or> main_waits i s \<or>
    main_at s = MIdle \<and> port (slot i s) = NO_PORT \<or> main_at s = MLock \<and> cleanupLock s \<noteq> None \<or>
    main_at s = MCleanup \<and> bulk_running i s"
proof
  assume still: "\<forall>t. \<not> main_step i s t"
  have kinds: "bulk_slot i (slot i s) \<or> freed (slot i s)" and len: "i < length (services (br s))"
    using inv by (auto simp: lock_inv_def)
  have "main_at s \<noteq> MTest" "main_at s \<noteq> MLocked"
    using still main_step.main_test main_step.main_enter by blast+
  moreover have "main_at s = MIdle \<Longrightarrow> port (slot i s) = NO_PORT"
    using still main_step.main_deinit by blast
  moreover have "main_at s \<noteq> MEvent AndroidSendsEof"
  proof
    assume at: "main_at s = MEvent AndroidSendsEof"
    with still main_step.main_eof_null have "onEof (slot i s) \<noteq> None" by blast
    with kinds have "bulk_slot i (slot i s)" by (auto simp: freed_def)
    moreover from this len obtain b where
      "run_eof (main_caller i s) FnBulkOnEof i (upd_svc i (\<lambda>v. v\<lparr>inputOpen := False\<rparr>) (br s)) = Inr b"
      using bulk_eof_runs [of i "upd_svc i (\<lambda>v. v\<lparr>inputOpen := False\<rparr>) (br s)"] by auto
    ultimately show False using still at main_step.main_eof bulk_slotD by blast
  qed
  moreover have "main_at s \<noteq> MEvent AndroidSendsClose" "main_at s \<noteq> MEvent AndroidSendsData"
    using still main_step.main_close main_step.main_data main_step.main_data_null by blast+
  moreover have "main_at s = MWrite \<Longrightarrow> writes s = [] \<and> \<not> payload_closed i s"
    using still main_step.main_wrote [of s _ i] main_step.main_write_error [of s _ i]
      main_step.main_write_closed [of s i] main_step.main_write_freed [of s _ i]
    by (metis (full_types) list.exhaust)
  moreover have "main_at s = MPush m \<Longrightarrow> room s = 0" for m
    using still main_step.main_push [of s m _ i] by (metis not0_implies_Suc)
  moreover have "main_at s = MLock \<Longrightarrow> cleanupLock s \<noteq> None"
    using still main_step.main_lock by blast
  moreover have "main_at s = MCleanup \<Longrightarrow> bulk_running i s"
    using still main_step.main_cleanup cleanup_slot(1) [OF kinds len] by blast
  ultimately show "main_at s = MCrashed \<or> main_waits i s \<or>
    main_at s = MIdle \<and> port (slot i s) = NO_PORT \<or> main_at s = MLock \<and> cleanupLock s \<noteq> None \<or>
    main_at s = MCleanup \<and> bulk_running i s"
    by (cases "main_at s") (auto simp: main_waits_def intro: event.exhaust)
qed (auto simp: main_waits_def elim!: main_stepE)

lemma lock_inv_stuck:
  assumes inv: "lock_inv i s" and i: "i < 400"
  shows "stuck i s \<longleftrightarrow> main_at s = MCrashed \<or>
    main_at s = MCleanup \<and> bulk_slot i (slot i s) \<and> (bulk_at s = BLock \<or> bulk_waits s) \<or>
    main_waits i s \<and> (bulk_at s = BExited \<or> bulk_waits s) \<or>
    main_at s = MIdle \<and> port (slot i s) = NO_PORT \<and> bulk_at s = BExited"
proof -
  have "stuck i s \<longleftrightarrow> (\<forall>t. \<not> main_step i s t) \<and> (main_at s = MCrashed \<or> (\<forall>t. \<not> bulk_step i s t))"
    by (auto simp: stuck_def intro: lock_step.intros elim: lock_stepE)
  moreover have "bulk_waits s \<Longrightarrow> bulk_at s \<noteq> BExited \<and> bulk_at s \<noteq> BLock \<and> bulk_at s \<noteq> BCleanup"
    by (auto simp: bulk_waits_def)
  moreover have "cleanupLock s \<noteq> None \<longleftrightarrow> cleanupLock s = Some MainThread \<or> cleanupLock s = Some BulkThread"
    by (cases "cleanupLock s") (auto intro: thread_id.exhaust)
  moreover have waits: "main_waits i s \<Longrightarrow> (\<exists>m. main_at s = MPush m) \<or> main_at s = MWrite"
    by (auto simp: main_waits_def)
  moreover have "bulk_running i s \<longleftrightarrow> bulk_slot i (slot i s) \<and> bulk_at s \<noteq> BExited"
    using inv by (auto simp: lock_inv_def bulk_running_def freed_def dest: bulk_slotD)
  moreover have "bulk_slot i (slot i s) \<Longrightarrow> port (slot i s) \<noteq> NO_PORT"
    using bulk_slotD i by fastforce
  ultimately show ?thesis
    using inv bulk_still [OF inv] main_still [OF inv i] unfolding lock_inv_def
    by (cases "main_at s") auto
qed

text \<open>
  C16: the standstills of the two threads. They cannot move exactly when the process has
  crashed; or the main thread joins the bulk thread inside \<open>CleanupService\<close>, holding the lock,
  and the bulk thread waits for that lock, or in \<open>read\<close> for a payload that stays silent, or
  for room in the send queue; or the main thread itself waits for ever, in \<open>addSendQueue\<close> or
  writing to the payload, and the bulk thread is gone or waits for ever too; or, the only
  good end, the slot has been cleaned up, the bulk thread is gone, and the main thread is
  back in its loop.
\<close>

theorem cleanup_stuck_iff:
  assumes "bulk_slot i (services b ! i)" and "i < 400" and "length (services b) = 400"
    and "lock_reach i b s"
  shows "stuck i s \<longleftrightarrow> main_at s = MCrashed \<or>
    main_at s = MCleanup \<and> bulk_slot i (services (br s) ! i) \<and> (bulk_at s = BLock \<or> bulk_waits s) \<or>
    main_waits i s \<and> (bulk_at s = BExited \<or> bulk_waits s) \<or>
    main_at s = MIdle \<and> port (services (br s) ! i) = NO_PORT \<and> bulk_at s = BExited"
  using lock_inv_stuck [OF lock_reach_inv [OF assms(4,1)]] assms(2,3) by simp

section \<open>Which standstills happen\<close>

definition lock_at :: "bridge \<Rightarrow> thread_id option \<Rightarrow> main_pc \<Rightarrow> bulk_pc \<Rightarrow> byte list list \<Rightarrow> nat \<Rightarrow> bool \<Rightarrow> lock_state" where
  "lock_at b lk m k rs r c = \<lparr>br = b, cleanupLock = lk, main_at = m, bulk_at = k, fifo = rs,
     writes = [], room = r, fds_closed = c\<rparr>"

lemma lock_at_sel [simp]:
  "br (lock_at b lk m k rs r c) = b" "cleanupLock (lock_at b lk m k rs r c) = lk"
  "main_at (lock_at b lk m k rs r c) = m" "bulk_at (lock_at b lk m k rs r c) = k"
  "fifo (lock_at b lk m k rs r c) = rs" "room (lock_at b lk m k rs r c) = r"
  "fds_closed (lock_at b lk m k rs r c) = c"
  "lock_at b lk m k rs r c\<lparr>br := b'\<rparr> = lock_at b' lk m k rs r c"
  "lock_at b lk m k rs r c\<lparr>cleanupLock := lk'\<rparr> = lock_at b lk' m k rs r c"
  "lock_at b lk m k rs r c\<lparr>main_at := m'\<rparr> = lock_at b lk m' k rs r c"
  "lock_at b lk m k rs r c\<lparr>bulk_at := k'\<rparr> = lock_at b lk m k' rs r c"
  "lock_at b lk m k rs r c\<lparr>fifo := rs'\<rparr> = lock_at b lk m k rs' r c"
  "lock_at b lk m k rs r c\<lparr>room := r'\<rparr> = lock_at b lk m k rs r' c"
  "lock_at b lk m k rs r c\<lparr>fds_closed := c'\<rparr> = lock_at b lk m k rs r c'"
  by (simp_all add: lock_at_def)

lemma reach_main: "lock_reach i b s \<Longrightarrow> main_step i s t \<Longrightarrow> lock_reach i b t"
  by (rule lock_reach.step [OF _ lock_step.main])

lemma reach_bulk: "lock_reach i b s \<Longrightarrow> main_at s \<noteq> MCrashed \<Longrightarrow> bulk_step i s t \<Longrightarrow> lock_reach i b t"
  by (rule lock_reach.step [OF _ lock_step.bulk])

lemma reach_reading: "lock_reach i b (lock_at b None MIdle BInRead rs r False)"
proof -
  have "lock_reach i b (lock_at b None MIdle BReading rs r False)"
    unfolding lock_at_def by (rule lock_reach.start)
  from reach_bulk [OF this _ bulk_step.bulk_read] show ?thesis by simp
qed

lemma reach_eof:
  assumes "lock_reach i b (lock_at d None MIdle BInRead rs r False)"
    and "bulk_slot i (services d ! i)" and "i < 400" and "length (services d) = 400"
  shows "\<exists>c. lock_reach i b (lock_at c None MTest BInRead rs r False) \<and> \<not> inputOpen (services c ! i) \<and>
    outputOpen (services c ! i) = outputOpen (services d ! i) \<and> bulk_slot i (services c ! i) \<and>
    length (services c) = 400"
proof -
  let ?s = "lock_at d None (MEvent AndroidSendsEof) BInRead rs r False"
  let ?d = "upd_svc i (\<lambda>v. v\<lparr>inputOpen := False\<rparr>) d"
  have slot: "bulk_slot i (services ?d ! i)" using assms by simp
  from bulk_eof_runs [OF this, of "main_caller i ?s"] obtain c where
    c: "run_eof (main_caller i ?s) FnBulkOnEof i ?d = Inr c" by blast
  from bulk_eof_slot [OF slot _ c] assms have kept: "bulk_slot i (services c ! i)"
    "\<not> inputOpen (services c ! i)" "outputOpen (services c ! i) = outputOpen (services d ! i)"
    "length (services c) = 400" by auto
  have used: "port (services d ! i) \<noteq> NO_PORT" "onEof (services d ! i) = Some FnBulkOnEof"
    using assms bulk_slotD by fastforce+
  from reach_main [OF assms(1) main_step.main_receives [where e = AndroidSendsEof]] used
  have "lock_reach i b ?s" by simp
  from reach_main [OF this main_step.main_eof [where f = FnBulkOnEof and b = c]] used c
  have "lock_reach i b (lock_at c None MTest BInRead rs r False)" by simp
  with kept show ?thesis by blast
qed

text \<open>The main thread reaches the lock with both directions shut, the bulk thread reading.\<close>

lemma reach_lock:
  assumes "bulk_slot i (services b ! i)" and "i < 400" and "length (services b) = 400"
  shows "\<exists>c. lock_reach i b (lock_at c None MLock BInRead rs r False) \<and>
    \<not> inputOpen (services c ! i) \<and> bulk_slot i (services c ! i) \<and> length (services c) = 400"
proof -
  from reach_eof [OF reach_reading assms] obtain c where
    c: "lock_reach i b (lock_at c None MTest BInRead rs r False)" "\<not> inputOpen (services c ! i)"
      "bulk_slot i (services c ! i)" "length (services c) = 400" by blast
  from reach_main [OF c(1) main_step.main_test]
  have test: "lock_reach i b (lock_at c None (if outputOpen (services c ! i) then MIdle else MLock) BInRead rs r False)"
    using c(2) by (simp add: both_shut_def split: if_splits)
  show ?thesis
  proof (cases "outputOpen (services c ! i)")
    case False
    with test c show ?thesis by auto
  next
    case True
    let ?d = "upd_svc i (\<lambda>v. v\<lparr>outputOpen := False\<rparr>) c"
    have used: "port (services c ! i) \<noteq> NO_PORT" using c(3) assms(2) bulk_slotD by fastforce
    from True test have "lock_reach i b (lock_at c None MIdle BInRead rs r False)" by simp
    from reach_main [OF this main_step.main_receives [where e = AndroidSendsClose]] used
    have "lock_reach i b (lock_at c None (MEvent AndroidSendsClose) BInRead rs r False)" by simp
    from reach_main [OF this main_step.main_close]
    have "lock_reach i b (lock_at ?d None MTest BInRead rs r False)" by simp
    from reach_main [OF this main_step.main_test]
    have "lock_reach i b (lock_at ?d None MLock BInRead rs r False)"
      using c assms(2) by (simp add: both_shut_def)
    with c assms(2) show ?thesis by (intro exI [of _ ?d]) simp
  qed
qed

lemma reach_join:
  assumes "bulk_slot i (services b ! i)" and "i < 400" and "length (services b) = 400"
  shows "\<exists>c. lock_reach i b (lock_at c (Some MainThread) MCleanup BInRead rs r True) \<and>
    \<not> inputOpen (services c ! i) \<and> bulk_slot i (services c ! i) \<and> length (services c) = 400"
proof -
  from reach_lock [OF assms] obtain c where c: "lock_reach i b (lock_at c None MLock BInRead rs r False)"
    "\<not> inputOpen (services c ! i)" "bulk_slot i (services c ! i)" "length (services c) = 400" by blast
  from reach_main [OF c(1) main_step.main_lock]
  have "lock_reach i b (lock_at c (Some MainThread) MLocked BInRead rs r False)" by simp
  from reach_main [OF this main_step.main_enter] bulk_slotD [OF c(3)]
  have "lock_reach i b (lock_at c (Some MainThread) MCleanup BInRead rs r True)" by simp
  with c show ?thesis by blast
qed

text \<open>The bulk thread meets the end of the fifo with the input already shut.\<close>

lemma reach_bulk_lock:
  assumes "lock_reach i b (lock_at c lk m BInRead [[]] 1 x)" and "m \<noteq> MCrashed" and "i < 400"
    and "length (services c) = 400" and "\<not> inputOpen (services c ! i)" and "bulk_slot i (services c ! i)"
  shows "\<exists>d. lock_reach i b (lock_at d lk m BLock [] 0 x) \<and> bulk_slot i (services d ! i) \<and>
    length (services d) = 400"
proof -
  let ?c = "upd_svc i (\<lambda>v. v\<lparr>outputOpen := False\<rparr>) c"
  let ?m = "port_status i STREAM_EOF c"
  from reach_bulk [OF assms(1) _ bulk_step.bulk_end] assms(2)
  have "lock_reach i b (lock_at ?c lk m (BEofPush ?m) [] 1 x)" by simp
  from reach_bulk [OF this _ bulk_step.bulk_eof_push [where m = ?m and k = 0]] assms(2)
  have "lock_reach i b (lock_at (queued ?m ?c) lk m BTest [] 0 x)" by simp
  from reach_bulk [OF this _ bulk_step.bulk_test] assms
  have "lock_reach i b (lock_at (queued ?m ?c) lk m BLock [] 0 x)" by (simp add: both_shut_def)
  with assms show ?thesis by (intro exI [of _ "queued ?m ?c"]) simp
qed

lemma deadlock_reachable:
  assumes "bulk_slot i (services b ! i)" and "i < 400" and "length (services b) = 400"
  shows "\<exists>s. lock_reach i b s \<and> stuck i s \<and> main_at s = MCleanup \<and> bulk_at s = BLock \<and>
    cleanupLock s = Some MainThread"
proof -
  from reach_join [OF assms, of "[[]]" 1] obtain c where
    "lock_reach i b (lock_at c (Some MainThread) MCleanup BInRead [[]] 1 True)"
    "\<not> inputOpen (services c ! i)" "bulk_slot i (services c ! i)" "length (services c) = 400" by blast
  from reach_bulk_lock [OF this(1) _ assms(2) this(4,2,3)] obtain d where
    d: "lock_reach i b (lock_at d (Some MainThread) MCleanup BLock [] 0 True)" "bulk_slot i (services d ! i)"
    by auto
  with lock_inv_stuck [OF lock_reach_inv, OF d(1) assms(1) _ assms(2)] assms(2,3) show ?thesis
    by (intro exI [of _ "lock_at d (Some MainThread) MCleanup BLock [] 0 True"]) simp
qed

text \<open>
  C14: the deadlock over the lock is reachable for every open bulk service: when Android has sent an end
  of file and a close, and the fifo of the payload ends while the main thread is already
  cleaning up, the bridge hangs for ever, with \<open>cleanupLock\<close> held.
\<close>

theorem cleanup_deadlock:
  assumes "bulk_slot i (services b ! i)" and "i < 400" and "length (services b) = 400"
  shows "\<exists>s. lock_reach i b s \<and> stuck i s \<and> main_at s = MCleanup \<and> bulk_at s = BLock \<and>
    cleanupLock s = Some MainThread"
  using assms by (rule deadlock_reachable)

lemma join_hangs:
  assumes "bulk_slot i (services b ! i)" and "i < 400" and "length (services b) = 400"
  shows "\<exists>s. lock_reach i b s \<and> stuck i s \<and> main_at s = MCleanup \<and> bulk_at s = BInRead \<and> fifo s = []"
    and "\<exists>s m. lock_reach i b s \<and> stuck i s \<and> main_at s = MCleanup \<and> bulk_at s = BPush m \<and> room s = 0"
proof -
  from reach_join [OF assms, of "[]" 0] obtain c where
    c: "lock_reach i b (lock_at c (Some MainThread) MCleanup BInRead [] 0 True)" "bulk_slot i (services c ! i)"
    by blast
  with lock_inv_stuck [OF lock_reach_inv, OF c(1) assms(1) _ assms(2)] assms(2,3)
  show "\<exists>s. lock_reach i b s \<and> stuck i s \<and> main_at s = MCleanup \<and> bulk_at s = BInRead \<and> fifo s = []"
    by (intro exI [of _ "lock_at c (Some MainThread) MCleanup BInRead [] 0 True"]) (simp add: bulk_waits_def)
  from reach_join [OF assms, of "[[0]]" 0] obtain d where
    d: "lock_reach i b (lock_at d (Some MainThread) MCleanup BInRead [[0]] 0 True)" "bulk_slot i (services d ! i)"
    by blast
  let ?m = "port_message (port (services d ! i)) [0]"
  let ?t = "lock_at d (Some MainThread) MCleanup (BPush ?m) [] 0 True"
  from reach_bulk [OF d(1) _ bulk_step.bulk_data [where bs = "[0]" and rs = "[]"]]
  have t: "lock_reach i b ?t" by simp
  with lock_inv_stuck [OF lock_reach_inv, OF t assms(1) _ assms(2)] assms(2,3) d(2)
  show "\<exists>s m. lock_reach i b s \<and> stuck i s \<and> main_at s = MCleanup \<and> bulk_at s = BPush m \<and> room s = 0"
    by (intro exI [of _ ?t] exI [of _ ?m]) (simp add: bulk_waits_def)
qed

text \<open>
  The main thread has found the port open when the bulk thread cleans the service up: the
  handler then goes through a null pointer.
\<close>

lemma handler_crashes:
  assumes "bulk_slot i (services b ! i)" and "i < 400" and "length (services b) = 400"
    and "outputOpen (services b ! i)"
  shows "\<exists>s. lock_reach i b s \<and> main_at s = MCrashed"
proof -
  from reach_eof [OF reach_reading assms(1-3)] assms(4) obtain c where
    c: "lock_reach i b (lock_at c None MTest BInRead [[]] 1 False)" "\<not> inputOpen (services c ! i)"
      "outputOpen (services c ! i)" "bulk_slot i (services c ! i)" "length (services c) = 400" by blast
  from reach_main [OF c(1) main_step.main_test] c(3)
  have "lock_reach i b (lock_at c None MIdle BInRead [[]] 1 False)" by (simp add: both_shut_def)
  from reach_main [OF this main_step.main_receives [where e = AndroidSendsData]]
  have "lock_reach i b (lock_at c None (MEvent AndroidSendsData) BInRead [[]] 1 False)"
    using c(4) assms(2) bulk_slotD by fastforce
  from reach_bulk_lock [OF this _ assms(2) c(5,2,4)] obtain d where
    d: "lock_reach i b (lock_at d None (MEvent AndroidSendsData) BLock [] 0 False)"
      "bulk_slot i (services d ! i)" "length (services d) = 400" by auto
  from reach_bulk [OF d(1) _ bulk_step.bulk_lock]
  have clean: "lock_reach i b (lock_at d (Some BulkThread) (MEvent AndroidSendsData) BCleanup [] 0 False)" by simp
  let ?s = "lock_at d (Some BulkThread) (MEvent AndroidSendsData) BCleanup [] 0 False"
  have slot: "bulk_slot i (services d ! i) \<or> freed (services d ! i)" "i < length (services d)"
    using d assms(2) by simp_all
  from cleanup_slot [OF this, of "bulk_tid i ?s"] obtain e where
    e: "CleanupService (step_caller (bulk_tid i ?s)) i d = Inr e" "freed (services e ! i)" by blast
  from reach_bulk [OF clean _ bulk_step.bulk_cleanup] e(1)
  have "lock_reach i b (lock_at e None (MEvent AndroidSendsData) BExited [] 0 False)" by simp
  from reach_main [OF this main_step.main_data_null] e(2)
  have "lock_reach i b (lock_at e None MCrashed BExited [] 0 False)" by (simp add: freed_def)
  then show ?thesis by (intro exI [of _ "lock_at e None MCrashed BExited [] 0 False"]) simp
qed

text \<open>
  C17: the other bad ends happen too, for every open bulk service. When both directions have
  been shut by Android, the main thread hangs for ever in the join if the payload stays
  silent, because closing a fifo does not wake the thread that reads it, or if the bulk
  thread has data for a send queue that takes no more; in both cases with \<open>cleanupLock\<close> held.
  And a bulk thread that meets the end of its fifo, after an end of file from Android, can
  clean the service up between the test of the port and the call of the handler in the main
  thread, which then calls a null pointer.
\<close>

theorem cleanup_goes_wrong:
  assumes "bulk_slot i (services b ! i)" and "i < 400" and "length (services b) = 400"
    and "outputOpen (services b ! i)"
  shows "(\<exists>s. lock_reach i b s \<and> stuck i s \<and> main_at s = MCleanup \<and> bulk_at s = BInRead \<and> fifo s = []) \<and>
    (\<exists>s m. lock_reach i b s \<and> stuck i s \<and> main_at s = MCleanup \<and> bulk_at s = BPush m \<and> room s = 0) \<and>
    (\<exists>s. lock_reach i b s \<and> main_at s = MCrashed)"
  using join_hangs [OF assms(1-3)] handler_crashes [OF assms] by blast

section \<open>A bridge with one bulk service\<close>

definition demo_bulk :: bulk where
  "demo_bulk = \<lparr>bulk_service = 3, tmpdir = Some ''/tmp/AAP_X'', fifoToPayloadFD = 5, fifoToAndroidFD = 6,
     bulkTransferThread = 3, startLock = 4, threadStarted = True\<rparr>"

definition demo_bulk_slot :: service where
  "demo_bulk_slot = \<lparr>port = 3, service_data = Some (SD_Bulk demo_bulk), inputOpen = True,
     outputOpen = True, onBytesReceived = Some FnBulkOnBytesReceived,
     onEof = Some FnBulkOnEof, onCleanupService = Some FnBulkCleanup\<rparr>"

lemma demo_bulk_slot_ok: "bulk_slot 3 demo_bulk_slot"
  by (simp add: bulk_slot_def pre_slot_def kind_ok_def demo_bulk_slot_def demo_bulk_def bytes_of_def)

definition demo_bulk_bridge :: bridge where
  "demo_bulk_bridge = upd_svc 3 (\<lambda>_. demo_bulk_slot) (initServer 7)"

lemma demo_bulk_bridge_ok:
  "bulk_slot 3 (services demo_bulk_bridge ! 3)" "length (services demo_bulk_bridge) = 400"
proof -
  show len: "length (services demo_bulk_bridge) = 400"
    using initServer_inv [of 7] by (simp add: demo_bulk_bridge_def bridge_inv_def bridge_frame_def)
  then show "bulk_slot 3 (services demo_bulk_bridge ! 3)"
    using demo_bulk_slot_ok by (simp add: demo_bulk_bridge_def)
qed

theorem cleanup_stuck_iff_witness:
  "\<not> stuck 3 (lock_at demo_bulk_bridge None MIdle BInRead [] 0 False)"
proof -
  have slot: "onBytesReceived (services demo_bulk_bridge ! 3) = Some FnBulkOnBytesReceived"
    "port (services demo_bulk_bridge ! 3) = word_of_nat 3"
    using demo_bulk_bridge_ok(1) by (auto simp: bulk_slot_def pre_slot_def)
  from cleanup_stuck_iff [OF demo_bulk_bridge_ok(1) _ demo_bulk_bridge_ok(2) reach_reading [of 3 _ "[]" 0]]
  show ?thesis using slot(2) port_in_use [of 3] by (simp add: main_waits_def)
qed

theorem cleanup_deadlock_witness:
  "\<exists>s. lock_reach 3 demo_bulk_bridge s \<and> stuck 3 s \<and> main_at s = MCleanup \<and> bulk_at s = BLock \<and>
    cleanupLock s = Some MainThread"
  using cleanup_deadlock [OF demo_bulk_bridge_ok(1) _ demo_bulk_bridge_ok(2)] by simp

theorem cleanup_goes_wrong_witness:
  "\<exists>s. lock_reach 3 demo_bulk_bridge s \<and> main_at s = MCrashed"
proof -
  have "outputOpen (services demo_bulk_bridge ! 3)"
    using demo_bulk_bridge_ok(2) initServer_inv [of 7]
    by (simp add: demo_bulk_bridge_def demo_bulk_slot_def bridge_inv_def bridge_frame_def)
  from cleanup_goes_wrong [OF demo_bulk_bridge_ok(1) _ demo_bulk_bridge_ok(2) this] show ?thesis by simp
qed

end
