(* ===== verification/BridgeThreads.thy ===== *)
theory BridgeThreads
  imports Callbacks QueueThreads Frames "HOL-Library.Sublist"
begin

text \<open>
  One connection as its three threads run it: the main thread in the messaging loop of
  \<open>main.c\<close> and then in \<open>deInitServer\<close>, the receive thread and the send thread of \<open>bridge.c\<close>,
  over the two bounded queues and \<open>bridge->work\<close>, together with the threads that watch D-Bus
  signals, which put messages into the send queue and are joined when their service is
  cleaned up.

  The connections are those on which no bulk transfer is started, because the payload refuses
  it or a step of \<open>BulkInit\<close> fails (\<open>bulk_refused\<close>). Then the main thread alone touches the
  slots of the services, and a handler can be one step. The thread of a bulk service, which
  writes the flags of its slot and may clean it up, is in the theory \<open>CleanupLock\<close>.

  A step is a call into the transport or a queue, or a test or an update of \<open>work\<close>. The
  operations of a queue are the whole operations of the theory \<open>MsgQueue\<close>; that they may be
  taken whole is the theory \<open>QueueThreads\<close>. The main thread takes a message, handles it by
  \<open>sendToCorrectService\<close> of the theory \<open>Server\<close>, and puts what the handler sends into the send
  queue one by one (\<open>pending\<close>). It may have to wait in \<open>addSendQueue\<close>, and in the handler or in
  \<open>deInitServer\<close> for a signal watcher that itself waits in \<open>addSendQueue\<close>. (No handler both
  joins such a thread and sends.) A call into the transport that spins is a step to the
  same state.
\<close>

section \<open>The threads\<close>

datatype main_place =
    InLoop                 \<comment> \<open>\<open>pollReceiveQueue\<close>, or \<open>addSendQueue\<close> in a handler\<close>
  | Handling mmsg handler_env
  | Stopping               \<comment> \<open>the loop of \<open>deInitServer\<close> over the ports\<close>
  | JoinReceive            \<comment> \<open>\<open>pthread_join(bridge->receive)\<close>, behind \<open>addSendQueue(NULL)\<close>\<close>
  | JoinSend
  | Joined
  | MainFault mmsg fault

datatype recv_place =
    RLoop                  \<comment> \<open>the test of the loop and the reads\<close>
  | RAdd mmsg
  | RNull                  \<comment> \<open>\<open>addreceivequeue(NULL)\<close>\<close>
  | RClear                 \<comment> \<open>\<open>bridge->work = 0\<close>\<close>
  | RStopped
  | RFault fault

datatype send_place =
    SStart
  | SLoop                  \<comment> \<open>the test of the loop\<close>
  | SPoll
  | SWrite mmsg
  | SExit
  | SStopped
  | SFault mmsg fault

text \<open>
  \<open>br\<close> is the struct of the bridge as the main thread and its handlers see it; \<open>working\<close> and
  \<open>connected\<close> are its fields \<open>work\<close> and \<open>connectedToAndroid\<close>, which the threads share; \<open>others\<close>
  is what the signal watchers will still send, and \<open>adding\<close> the one that is in \<open>addSendQueue\<close>
  with its message. The last seven components record what has happened: the messages added to the receive queue, those
  the main thread handled (each with the answers its handler got), the pointers the main
  thread and the signal watchers have added to the send queue and their common order, and
  what the send thread took from it and wrote.
\<close>

record world =
  br :: bridge
  con :: aap
  recvQ :: "mmsg msgqueue"
  sendQ :: "mmsg msgqueue"
  working :: bool
  connected :: bool
  main_at :: main_place
  pending :: "mmsg option list"
  recv_at :: recv_place
  send_at :: send_place
  others :: "mmsg list"
  adding :: "(nat \<times> mmsg) option"
  received :: "mmsg option list"
  handled :: "(mmsg \<times> handler_env) list"
  mine :: "mmsg option list"
  theirs :: "mmsg list"
  sent :: "mmsg option list"
  polled :: "mmsg option list"
  written :: "mmsg list"

text \<open>What one call added to the log of the pointers the bridge sends.\<close>

definition new_sends :: "bridge \<Rightarrow> bridge \<Rightarrow> mmsg option list" where
  "new_sends b b' = drop (length (sendq b)) (sendq b')"

text \<open>A call into the transport that does not return: it spins, or waits in the kernel.\<close>

definition hangs :: "'a res option \<Rightarrow> bool" where
  "hangs r \<longleftrightarrow> r = None \<or> r = Some (Inl Blocked)"

text \<open>What \<open>BulkInit\<close> meets when it returns NULL.\<close>

definition bulk_refused :: "bulk_env \<Rightarrow> bool" where
  "bulk_refused env \<longleftrightarrow> be_mkfifo_payload env \<noteq> 0 \<or> be_mkfifo_android env \<noteq> 0 \<or> \<not> be_msg_ok env \<or>
     \<not> be_con_ok env \<or> \<not> be_pending_ok env \<or> be_reply_error env \<or> be_open_android env = -1 \<or>
     be_open_payload env = -1"

text \<open>A signal watcher that is joined ends, unless it waits in \<open>addSendQueue\<close>.\<close>

definition watcher_ends :: "world \<Rightarrow> nat \<Rightarrow> bool" where
  "watcher_ends w t = (case adding w of None \<Rightarrow> True | Some (t', m) \<Rightarrow> t' \<noteq> t)"

definition main_thread :: "nat \<Rightarrow> caller" where
  "main_thread self = \<lparr>tid = self, lock_free = True, thread_ends = (\<lambda>_. True), send_room = True\<rparr>"

definition main_now :: "nat \<Rightarrow> world \<Rightarrow> caller" where
  "main_now self w = (main_thread self)\<lparr>thread_ends := watcher_ends w\<rparr>"

definition env_now :: "nat \<Rightarrow> world \<Rightarrow> handler_env \<Rightarrow> handler_env" where
  "env_now self w env = env\<lparr>he_self := main_now self w\<rparr>"

inductive bridge_move :: "nat \<Rightarrow> world \<Rightarrow> world \<Rightarrow> bool" for self where
  main_poll: "main_at w = InLoop \<Longrightarrow> pending w = [] \<Longrightarrow>
    pollReceiveQueue (recvQ w) = Inr (Some msg, q) \<Longrightarrow> bulk_refused (he_bulk env) \<Longrightarrow>
    bridge_move self w (w\<lparr>recvQ := q, main_at := Handling msg env\<rparr>)"
| main_message: "main_at w = Handling msg env \<Longrightarrow>
    sendToCorrectService (env_now self w env) (msg_port msg) (msg_data msg) (msg_size msg) (br w) = Inr b \<Longrightarrow>
    bridge_move self w (w\<lparr>br := b, pending := new_sends (br w) b, main_at := InLoop,
      handled := handled w @ [(msg, env_now self w env)]\<rparr>)"
| main_fault: "main_at w = Handling msg env \<Longrightarrow>
    sendToCorrectService (env_now self w env) (msg_port msg) (msg_data msg) (msg_size msg) (br w) = Inl f \<Longrightarrow>
    f \<noteq> Blocked \<Longrightarrow> bridge_move self w (w\<lparr>main_at := MainFault msg f\<rparr>)"
| main_stop: "main_at w = InLoop \<Longrightarrow> pending w = [] \<Longrightarrow>
    pollReceiveQueue (recvQ w) = Inr (None, q) \<Longrightarrow>
    bridge_move self w (w\<lparr>recvQ := q, main_at := Stopping\<rparr>)"
| main_deinit: "main_at w = Stopping \<Longrightarrow> deInitServer (main_now self w) (br w) = Inr b \<Longrightarrow>
    bridge_move self w (w\<lparr>br := b, pending := new_sends (br w) b, main_at := JoinReceive\<rparr>)"
| main_add: "pending w = m # ms \<Longrightarrow> addSendQueue m (sendQ w) = Inr q \<Longrightarrow>
    bridge_move self w (w\<lparr>sendQ := q, pending := ms, mine := mine w @ [m], sent := sent w @ [m]\<rparr>)"
| main_join_receive: "main_at w = JoinReceive \<Longrightarrow> pending w = [] \<Longrightarrow> recv_at w = RStopped \<Longrightarrow>
    bridge_move self w (w\<lparr>main_at := JoinSend\<rparr>)"
| main_join_send: "main_at w = JoinSend \<Longrightarrow> send_at w = SStopped \<Longrightarrow>
    bridge_move self w (w\<lparr>main_at := Joined\<rparr>)"
| other_send: "adding w = None \<Longrightarrow> others w = m # ms \<Longrightarrow> i < 400 \<Longrightarrow>
    service_data (services (br w) ! i) = Some (SD_Signals g) \<Longrightarrow>
    bridge_move self w (w\<lparr>adding := Some (dbusSignalWatcher g, m), others := ms\<rparr>)"
| other_add: "adding w = Some (t, m) \<Longrightarrow> addSendQueue (Some m) (sendQ w) = Inr q \<Longrightarrow>
    bridge_move self w (w\<lparr>sendQ := q, adding := None, theirs := theirs w @ [m], sent := sent w @ [Some m]\<rparr>)"
| recv_leave: "recv_at w = RLoop \<Longrightarrow> \<not> working w \<Longrightarrow> bridge_move self w (w\<lparr>recv_at := RNull\<rparr>)"
| recv_message: "recv_at w = RLoop \<Longrightarrow> working w \<Longrightarrow>
    receiver_iter (con w) = Some (Inr (c, e, Some m)) \<Longrightarrow>
    bridge_move self w (w\<lparr>con := c, recv_at := RAdd m\<rparr>)"
| recv_error: "recv_at w = RLoop \<Longrightarrow> working w \<Longrightarrow>
    receiver_iter (con w) = Some (Inr (c, e, None)) \<Longrightarrow>
    bridge_move self w (w\<lparr>con := c, recv_at := RNull\<rparr>)"
| recv_fault: "recv_at w = RLoop \<Longrightarrow> working w \<Longrightarrow> receiver_iter (con w) = Some (Inl f) \<Longrightarrow>
    f \<noteq> Blocked \<Longrightarrow> bridge_move self w (w\<lparr>recv_at := RFault f\<rparr>)"
| recv_add: "recv_at w = RAdd m \<Longrightarrow> addreceivequeue (Some m) (recvQ w) = Inr q \<Longrightarrow>
    bridge_move self w (w\<lparr>recvQ := q, recv_at := RLoop, received := received w @ [Some m]\<rparr>)"
| recv_null: "recv_at w = RNull \<Longrightarrow> addreceivequeue None (recvQ w) = Inr q \<Longrightarrow>
    bridge_move self w (w\<lparr>recvQ := q, recv_at := RClear, received := received w @ [None]\<rparr>)"
| recv_clear: "recv_at w = RClear \<Longrightarrow> bridge_move self w (w\<lparr>working := False, recv_at := RStopped\<rparr>)"
| send_start: "send_at w = SStart \<Longrightarrow> bridge_move self w (w\<lparr>connected := True, send_at := SLoop\<rparr>)"
| send_enter: "send_at w = SLoop \<Longrightarrow> working w \<Longrightarrow> bridge_move self w (w\<lparr>send_at := SPoll\<rparr>)"
| send_leave: "send_at w = SLoop \<Longrightarrow> \<not> working w \<Longrightarrow> bridge_move self w (w\<lparr>send_at := SExit\<rparr>)"
| send_take: "send_at w = SPoll \<Longrightarrow> pollSendQueue (sendQ w) = Inr (Some m, q) \<Longrightarrow>
    bridge_move self w (w\<lparr>sendQ := q, send_at := SWrite m, polled := polled w @ [Some m]\<rparr>)"
| send_null: "send_at w = SPoll \<Longrightarrow> pollSendQueue (sendQ w) = Inr (None, q) \<Longrightarrow>
    bridge_move self w (w\<lparr>sendQ := q, send_at := SExit, polled := polled w @ [None]\<rparr>)"
| send_done: "send_at w = SWrite m \<Longrightarrow> sender_iter (con w) m = Some (Inr (c, 0)) \<Longrightarrow>
    bridge_move self w (w\<lparr>con := c, send_at := SLoop, written := written w @ [m]\<rparr>)"
| send_error: "send_at w = SWrite m \<Longrightarrow> sender_iter (con w) m = Some (Inr (c, e)) \<Longrightarrow> e \<noteq> 0 \<Longrightarrow>
    bridge_move self w (w\<lparr>con := c, working := False, send_at := SLoop\<rparr>)"
| send_fault: "send_at w = SWrite m \<Longrightarrow> sender_iter (con w) m = Some (Inl f) \<Longrightarrow>
    f \<noteq> Blocked \<Longrightarrow> bridge_move self w (w\<lparr>send_at := SFault m f\<rparr>)"
| send_exit: "send_at w = SExit \<Longrightarrow> bridge_move self w (w\<lparr>connected := False, send_at := SStopped\<rparr>)"

text \<open>What \<open>initServer\<close> sets up, on a connection and with what the signal watchers will send.\<close>

definition start_world :: "nat \<Rightarrow> mmsg msgqueue \<Rightarrow> mmsg msgqueue \<Rightarrow> aap \<Rightarrow> mmsg list \<Rightarrow> world" where
  "start_world lock q1 q2 c os =
     \<lparr>br = initServer lock, con = c, recvQ = initreceiveQueue q1, sendQ = initSendQueue q2,
      working = True, connected = False, main_at = InLoop, pending = [], recv_at = RLoop,
      send_at = SStart, others = os, adding = None, received = [], handled = [], mine = [], theirs = [],
      sent = [], polled = [], written = []\<rparr>"

text \<open>A step: a move of one thread, or one turn of a call into the transport that spins.\<close>

inductive bridge_step :: "nat \<Rightarrow> world \<Rightarrow> world \<Rightarrow> bool" for self where
  move: "bridge_move self w w' \<Longrightarrow> bridge_step self w w'"
| recv_spin: "recv_at w = RLoop \<Longrightarrow> working w \<Longrightarrow> receiver_iter (con w) = None \<Longrightarrow> bridge_step self w w"
| send_spin: "send_at w = SWrite m \<Longrightarrow> sender_iter (con w) m = None \<Longrightarrow> bridge_step self w w"

inductive bridge_run :: "nat \<Rightarrow> world \<Rightarrow> world \<Rightarrow> bool" for self w0 where
  run_start: "bridge_run self w0 w0"
| run_step: "bridge_run self w0 w \<Longrightarrow> bridge_step self w w' \<Longrightarrow> bridge_run self w0 w'"

text \<open>Answers under which no bulk transfer is started.\<close>

definition quiet_env :: handler_env where
  "quiet_env = demo_env\<lparr>he_bulk := demo_bulk_env\<lparr>be_reply_error := True\<rparr>\<rparr>"

lemma quiet_env_refused: "bulk_refused (he_bulk quiet_env)"
  by (simp add: quiet_env_def bulk_refused_def)

section \<open>What a handler sends\<close>

text \<open>
  A call \<open>sends\<close> when it only adds to the log of sent pointers, and never a null pointer. The
  rules of the collection \<open>send_intros\<close> follow the structure of the code.
\<close>

named_theorems send_intros \<open>computations that only add messages to the send queue\<close>

definition sends :: "bridge \<Rightarrow> bridge res \<Rightarrow> bool" where
  "sends b r \<longleftrightarrow> (\<forall>b'. r = Inr b' \<longrightarrow> (\<exists>out. sendq b' = sendq b @ map Some out))"

definition sends_log :: "bridge \<Rightarrow> bridge \<Rightarrow> bool" where
  "sends_log b b' \<longleftrightarrow> (\<exists>out. sendq b' = sendq b @ map Some out)"

lemma sends_Inr [simp]: "sends b (Inr b') \<longleftrightarrow> sends_log b b'"
  by (simp add: sends_def sends_log_def)

lemma sends_Inl [send_intros]: "sends b (Inl f)"
  by (simp add: sends_def)

lemma sends_log_same: "sendq b' = sendq b \<Longrightarrow> sends_log b b'"
  by (auto simp: sends_log_def)

lemma sends_log_trans: "sends_log a b \<Longrightarrow> sends_log b c \<Longrightarrow> sends_log a c"
  by (auto simp: sends_log_def simp flip: map_append)

lemma sends_log_write: "sends_log b (writeAllPort i buf b)"
  by (auto simp: sends_log_def writeAllPort_def intro: exI [of _ "[m]" for m])

lemma sends_value [send_intros]: "(\<And>x. m = Inr x \<Longrightarrow> sends b (f x)) \<Longrightarrow> sends b (bind_res m f)"
  by (cases m) (auto simp: sends_def)

lemma sends_after: "sends_log b c \<Longrightarrow> sends c r \<Longrightarrow> sends b r"
  by (cases r) (auto simp: sends_Inl intro: sends_log_trans)

lemma sends_then: "sends b m \<Longrightarrow> (\<And>b'. sends b' (f b')) \<Longrightarrow> sends b (bind_res m f)"
  by (cases m) (auto simp: sends_Inl intro: sends_after)

lemma sends_if [send_intros]:
  "(c \<Longrightarrow> sends b x) \<Longrightarrow> (\<not> c \<Longrightarrow> sends b y) \<Longrightarrow> sends b (if c then x else y)"
  by simp

lemma sends_option [send_intros]:
  "(a = None \<Longrightarrow> sends b x) \<Longrightarrow> (\<And>y. a = Some y \<Longrightarrow> sends b (f y)) \<Longrightarrow>
     sends b (case a of None \<Rightarrow> x | Some y \<Rightarrow> f y)"
  by (cases a) simp_all

lemma CleanupService_sendq: "CleanupService self i b = Inr b' \<Longrightarrow> sendq b' = sendq b"
  by (auto simp: CleanupService_def Let_def res_simps split: if_splits)

lemma cleanup_if_closed_sendq: "cleanup_if_closed self i b = Inr b' \<Longrightarrow> sendq b' = sendq b"
  by (auto simp: cleanup_if_closed_def dest: CleanupService_sendq split: if_splits)

lemma sends_cleanup: "sends b (cleanup_if_closed self i b)"
  by (auto simp: sends_def dest: cleanup_if_closed_sendq)

lemma sends_close: "sends b (sendEof self i b)" "sends b (sendClose self i b)"
  unfolding sendEof_def sendClose_def Let_def
  by (rule sends_after [OF _ sends_cleanup], rule sends_log_trans [OF _ sends_log_write],
      simp add: sends_log_same)+

lemma sends_eof: "sends b (run_eof self f i b)"
  by (cases f) (auto simp: run_eof_def MethodOnEof_def SignalsOnEof_def Let_def
      intro!: sends_close sends_Inl sends_log_same split: option.split sdata.split prod.split)

section \<open>The handlers\<close>

lemma sends_PortStatus: "sends b (PortStatusOnBytesReceived self buffer b)"
  unfolding PortStatusOnBytesReceived_def Let_def
  by (intro send_intros sends_then)
    (auto intro!: sends_then send_intros sends_cleanup sends_after [OF sends_log_same sends_eof] sends_log_same)

lemma sends_Method: "sends b (MethodOnBytesReceived cs env m i buffer b)"
  unfolding MethodOnBytesReceived_def Let_def
  by (intro send_intros) (auto intro!: sends_log_same sends_log_trans [OF _ sends_log_write])

lemma sends_Bulk: "sends b (BulkOnBytesReceived self evs bulk buffer sz b)"
  unfolding BulkOnBytesReceived_def Let_def
  by (intro send_intros)
    (auto intro!: sends_after [OF _ sends_close(2)] sends_log_same split: prod.split)

lemma sends_Spawner:
  assumes "bridge_inv b" and "i < 400" and "port (services b ! i) \<noteq> NO_PORT"
  shows "sends b (ServiceSpawnerOnBytesReceived env spawn i buffer b)"
  unfolding sends_def
proof (intro allI impI)
  fix b' assume "ServiceSpawnerOnBytesReceived env spawn i buffer b = Inr b'"
  with spawner_outcome [OF assms] obtain response where
    "sendq b' = sendq b @ map Some [port_message (word_of_nat i) response]"
    by (fastforce simp: spawn_outcome_def)
  then show "\<exists>out. sendq b' = sendq b @ map Some out" by blast
qed

lemma dispatch_sends:
  assumes "bridge_inv b"
  shows "sends b (sendToCorrectService env p buffer sz b)"
  unfolding sendToCorrectService_def
proof (intro send_intros)
  fix s f
  assume at: "svc_at b (sint p) = Inr s" and open_: "port s \<noteq> NO_PORT" and f: "onBytesReceived s = Some f"
  then have i: "nat (sint p) < 400" "s = services b ! nat (sint p)"
    using assms by (auto simp: svc_at_def bridge_inv_def bridge_frame_def split: if_splits)
  with open_ sends_Spawner [OF assms i(1)] have spawn:
    "sends b (ServiceSpawnerOnBytesReceived env d (nat (sint p)) buffer b)" for d by simp
  show "sends b (run_recv env f (nat (sint p)) (service_data s) buffer (sint sz) b)"
    by (cases f) (auto simp: run_recv_def KeepaliveOnBytesReceived_def SignalsOnBytesReceived_def
        intro!: sends_PortStatus sends_Method sends_Bulk spawn sends_Inl sends_log_write sends_log_same
        split: option.split sdata.split)
qed (simp add: sends_log_same)

section \<open>No bulk service\<close>

text \<open>On these connections no slot ever holds a bulk service.\<close>

definition no_bulk :: "bridge \<Rightarrow> bool" where
  "no_bulk b \<longleftrightarrow> (\<forall>i<length (services b). onBytesReceived (services b ! i) \<noteq> Some FnBulkOnBytesReceived)"

definition quiet_end :: "bridge res \<Rightarrow> bool" where
  "quiet_end r \<longleftrightarrow> (\<forall>b. r = Inr b \<longrightarrow> no_bulk b)"

named_theorems quiet_intros \<open>computations that start no bulk service\<close>

lemma quiet_base [quiet_intros]: "quiet_end (Inl f)" "no_bulk b \<Longrightarrow> quiet_end (Inr b)"
  by (simp_all add: quiet_end_def)

lemma quiet_value [quiet_intros]: "(\<And>x. m = Inr x \<Longrightarrow> quiet_end (f x)) \<Longrightarrow> quiet_end (bind_res m f)"
  by (cases m) (simp_all add: quiet_end_def)

lemma quiet_then: "quiet_end m \<Longrightarrow> (\<And>b. no_bulk b \<Longrightarrow> quiet_end (f b)) \<Longrightarrow> quiet_end (bind_res m f)"
  by (cases m) (simp_all add: quiet_end_def)

lemma quiet_if [quiet_intros]:
  "(c \<Longrightarrow> quiet_end x) \<Longrightarrow> (\<not> c \<Longrightarrow> quiet_end y) \<Longrightarrow> quiet_end (if c then x else y)"
  by simp

lemma quiet_option [quiet_intros]:
  "(a = None \<Longrightarrow> quiet_end x) \<Longrightarrow> (\<And>y. a = Some y \<Longrightarrow> quiet_end (f y)) \<Longrightarrow>
     quiet_end (case a of None \<Rightarrow> x | Some y \<Rightarrow> f y)"
  by (cases a) simp_all

lemma no_bulk_simps [simp]:
  "no_bulk (add_ext cs b) = no_bulk b" "no_bulk (writeAllPort i buf b) = no_bulk b"
  "no_bulk (b\<lparr>lastAllocatedPort := p\<rparr>) = no_bulk b" "no_bulk (b\<lparr>sendq := q\<rparr>) = no_bulk b"
  by (simp_all add: no_bulk_def)

lemma no_bulk_upd:
  "no_bulk b \<Longrightarrow> (\<And>s. onBytesReceived (f s) = onBytesReceived s \<or>
     onBytesReceived (f s) \<noteq> Some FnBulkOnBytesReceived) \<Longrightarrow> no_bulk (upd_svc i f b)"
proof -
  assume b: "no_bulk b" and f: "\<And>s. onBytesReceived (f s) = onBytesReceived s \<or>
     onBytesReceived (f s) \<noteq> Some FnBulkOnBytesReceived"
  show ?thesis
  proof (cases "i < length (services b)")
    case True
    with b f have "onBytesReceived (f (services b ! i)) \<noteq> Some FnBulkOnBytesReceived"
      unfolding no_bulk_def by metis
    with b True show ?thesis by (simp add: no_bulk_def)
  qed (use b in \<open>simp add: no_bulk_def upd_svc_def\<close>)
qed

lemma quiet_close [quiet_intros]:
  "no_bulk b \<Longrightarrow> quiet_end (cleanup_if_closed self i b)"
  "no_bulk b \<Longrightarrow> quiet_end (sendEof self i b)" "no_bulk b \<Longrightarrow> quiet_end (sendClose self i b)"
proof -
  show close: "quiet_end (cleanup_if_closed self i b)" if "no_bulk b" for b
    unfolding cleanup_if_closed_def CleanupService_def Let_def
    by (intro quiet_intros no_bulk_upd) (simp_all add: that)
  show "quiet_end (sendEof self i b)" "quiet_end (sendClose self i b)" if "no_bulk b"
    unfolding sendEof_def sendClose_def Let_def
    by (intro close, simp, intro no_bulk_upd, simp_all add: that)+
qed

lemma quiet_PortStatus: "no_bulk b \<Longrightarrow> quiet_end (PortStatusOnBytesReceived self buffer b)"
proof -
  assume b: "no_bulk b"
  have eof: "quiet_end (run_eof self f i c)" if "no_bulk c" for f i c
    using that by (cases f) (auto simp: run_eof_def MethodOnEof_def SignalsOnEof_def Let_def
        intro!: quiet_intros no_bulk_upd split: option.split sdata.split prod.split)
  show ?thesis
    unfolding PortStatusOnBytesReceived_def Let_def
    by (intro quiet_intros b quiet_then) (auto intro!: quiet_intros quiet_then eof no_bulk_upd b)
qed

lemma quiet_openNewPort: "openNewPort b = Inr (n, b') \<Longrightarrow> no_bulk b \<Longrightarrow> no_bulk b'"
  by (auto simp: openNewPort_def res_simps intro!: no_bulk_upd split: if_splits)

lemma BulkInit_refused: "bulk_refused env \<Longrightarrow> BulkInit env self sv lock arguments \<noteq> Inr (Some b, calls)"
  by (auto simp: bulk_refused_def BulkInit_def BulkInitInternal_def notifyPayload_def give_up_def
      checkPayloadResponse_def res_simps Let_def split: if_splits)

lemma quiet_start:
  assumes "start_service env lock proto arguments n b = Inr (response, b')" and "no_bulk b"
    and "bulk_refused (he_bulk env)"
  shows "no_bulk b'"
  using assms(1,2) BulkInit_refused [OF assms(3)]
  by (auto simp: start_service_def Let_def res_simps intro!: no_bulk_upd split: if_splits option.splits)

lemma quiet_Spawner:
  assumes "no_bulk b" and "bulk_refused (he_bulk env)"
  shows "quiet_end (ServiceSpawnerOnBytesReceived env spawn i buffer b)"
  unfolding quiet_end_def ServiceSpawnerOnBytesReceived_def Let_def
  by (auto simp: res_simps dest!: quiet_start [OF _ _ assms(2)] quiet_openNewPort [OF _ assms(1)]
      split: option.splits)

lemma dispatch_quiet:
  assumes "no_bulk b" and "bulk_refused (he_bulk env)"
  shows "quiet_end (sendToCorrectService env p buffer sz b)"
  unfolding sendToCorrectService_def
proof (intro quiet_intros assms(1))
  fix s f
  assume "svc_at b (sint p) = Inr s" "onBytesReceived s = Some f"
  with assms(1) have "f \<noteq> FnBulkOnBytesReceived"
    by (auto simp: svc_at_def no_bulk_def split: if_splits)
  moreover have "quiet_end (MethodOnBytesReceived cs e m i buffer b)" for cs e m i
    unfolding MethodOnBytesReceived_def Let_def by (intro quiet_intros) (simp_all add: assms(1))
  ultimately show "quiet_end (run_recv env f (nat (sint p)) (service_data s) buffer (sint sz) b)"
    by (cases f) (auto simp: run_recv_def KeepaliveOnBytesReceived_def SignalsOnBytesReceived_def
        intro!: quiet_PortStatus quiet_Spawner quiet_intros assms split: option.split sdata.split)
qed

section \<open>The transport under both threads\<close>

lemma receiver_iter_keeps:
  assumes "receiver_iter c = Some (Inr (c', e, mo))" and "aap_ok c"
  shows "aap_ok c'" "aap_wire c' = aap_wire c"
    "aap_stream c = (case mo of None \<Rightarrow> [] | Some m \<Rightarrow> frame m) @ aap_stream c' \<or>
     mo = None \<and> length (aap_stream c') \<le> length (aap_stream c)"
proof -
  from assms(1) obtain c1 e1 hdr where hdr: "readAllAccessory c 4 = Some (Inr (c1, e1, hdr))"
    by (auto simp: receiver_iter_def split: option.splits sum.splits)
  note one = readAll_keeps [OF hdr assms(2)]
  have "aap_ok c' \<and> aap_wire c' = aap_wire c \<and>
    (aap_stream c = (case mo of None \<Rightarrow> [] | Some m \<Rightarrow> frame m) @ aap_stream c' \<or>
     mo = None \<and> length (aap_stream c') \<le> length (aap_stream c))"
  proof (cases "e1 = 0")
    case False
    with assms hdr one show ?thesis by (auto simp: receiver_iter_def)
  next
    case True
    with one(4) have "length hdr = 4" by simp
    then obtain b0 b1 b2 b3 where h: "hdr = [b0, b1, b2, b3]"
      by (auto simp: length_Suc_conv numeral_eq_Suc)
    let ?sz = "join_u8 b2 b3"
    from assms(1) hdr True obtain c2 e2 body where
      body: "readAllAccessory c1 (sint ?sz) = Some (Inr (c2, e2, body))" and
      res: "c' = c2" "mo = None \<or> mo = Some \<lparr>msg_port = join_u8 b0 b1, msg_size = ?sz, msg_data = body\<rparr>"
      by (auto simp: receiver_iter_def h Let_def split: option.splits sum.splits if_splits)
    from one(1) have ok1: "aap_ok c1" by simp
    note two = readAll_keeps [OF body ok1 sint_short_bound(1)]
    from one two res h show ?thesis
      by (auto simp: frame_def header_bytes_def)
  qed
  then show "aap_ok c'" "aap_wire c' = aap_wire c"
    "aap_stream c = (case mo of None \<Rightarrow> [] | Some m \<Rightarrow> frame m) @ aap_stream c' \<or>
     mo = None \<and> length (aap_stream c') \<le> length (aap_stream c)" by auto
qed

text \<open>The bytes the send thread writes for a message.\<close>

definition out_bytes :: "mmsg \<Rightarrow> byte list" where
  "out_bytes msg = header_bytes msg @ take (nat (sint (msg_size msg))) (msg_data msg)"

lemma sender_iter_keeps:
  assumes "sender_iter c m = Some (Inr (c', e))" and "aap_ok c"
  shows "aap_ok c'" "aap_stream c' = aap_stream c"
    "\<exists>out. prefix out (out_bytes m) \<and> aap_wire c' = aap_wire c @ out \<and> (e = 0 \<longrightarrow> out = out_bytes m)"
proof -
  from assms(1) obtain c1 e1 where hdr: "writeAllAccessory c (header_bytes m) 4 = Some (Inr (c1, e1))"
    by (auto simp: sender_iter_def split: option.splits sum.splits)
  note one = writeAll_keeps [OF hdr assms(2)]
  have "aap_ok c' \<and> aap_stream c' = aap_stream c \<and> (\<exists>out. prefix out (out_bytes m) \<and>
      aap_wire c' = aap_wire c @ out \<and> (e = 0 \<longrightarrow> out = out_bytes m))"
  proof (cases "e1 = 0")
    case False
    from one(3) obtain k where "aap_wire c1 = aap_wire c @ take k (header_bytes m)" by blast
    moreover have "prefix (take k (header_bytes m)) (out_bytes m)"
      unfolding out_bytes_def by (rule prefix_prefix [OF take_is_prefix])
    ultimately show ?thesis using False assms(1) hdr one(1,2) by (auto simp: sender_iter_def)
  next
    case True
    with assms(1) hdr have body: "writeAllAccessory c1 (msg_data m) (sint (msg_size m)) = Some (Inr (c', e))"
      by (simp add: sender_iter_def)
    note two = writeAll_keeps [OF body one(1)]
    from one(3) True have w1: "aap_wire c1 = aap_wire c @ header_bytes m" by auto
    from two(3) obtain k where k: "k \<le> nat (sint (msg_size m))" "k \<le> length (msg_data m)"
      "aap_wire c' = aap_wire c1 @ take k (msg_data m)" "e = 0 \<longrightarrow> k = nat (sint (msg_size m))" by blast
    have "take k (msg_data m) = take k (take (nat (sint (msg_size m))) (msg_data m))"
      using k(1) by (simp add: min_absorb1)
    then have "prefix (header_bytes m @ take k (msg_data m)) (out_bytes m)"
      unfolding out_bytes_def by (metis take_is_prefix same_prefix_prefix)
    with w1 k one(2) two(1,2) show ?thesis
      by (intro conjI exI [of _ "header_bytes m @ take k (msg_data m)"]) (auto simp: out_bytes_def)
  qed
  then show "aap_ok c'" "aap_stream c' = aap_stream c"
    "\<exists>out. prefix out (out_bytes m) \<and> aap_wire c' = aap_wire c @ out \<and> (e = 0 \<longrightarrow> out = out_bytes m)"
    by auto
qed

section \<open>The invariant of the running bridge\<close>

text \<open>The main thread's share, in the terms of the sequential model.\<close>

fun handle_all :: "(mmsg \<times> handler_env) list \<Rightarrow> bridge \<Rightarrow> bridge res" where
  "handle_all [] b = Inr b"
| "handle_all ((msg, env) # rest) b =
     bind_res (sendToCorrectService env (msg_port msg) (msg_data msg) (msg_size msg) b) (handle_all rest)"

definition as_polled :: "(mmsg \<times> handler_env) list \<Rightarrow> (mmsg option \<times> handler_env) list" where
  "as_polled hs = map (\<lambda>(msg, env). (Some msg, env)) hs"

lemma messaging_loop_handle_all:
  "messaging_loop (as_polled hs @ [(None, env)]) b = handle_all hs b"
  by (induction hs arbitrary: b) (auto simp: as_polled_def intro!: bind_res_cong)

lemma handle_all_snoc:
  "handle_all (hs @ [(msg, env)]) b =
     bind_res (handle_all hs b) (\<lambda>b. sendToCorrectService env (msg_port msg) (msg_data msg) (msg_size msg) b)"
proof (induction hs arbitrary: b)
  case Nil
  show ?case by (cases "sendToCorrectService env (msg_port msg) (msg_data msg) (msg_size msg) b") simp_all
next
  case (Cons h hs)
  then show ?case by (cases h) (auto simp: bind_res_assoc intro!: bind_res_cong)
qed

definition main_share :: "nat \<Rightarrow> main_place \<Rightarrow> bridge \<Rightarrow> mmsg option list \<Rightarrow> bridge \<Rightarrow> bool" where
  "main_share self place now todo b \<longleftrightarrow>
     (case place of
        InLoop \<Rightarrow> now = b
      | Handling m env \<Rightarrow> now = b \<and> todo = [] \<and> bulk_refused (he_bulk env)
      | Stopping \<Rightarrow> now = b \<and> todo = []
      | MainFault m f \<Rightarrow> now = b \<and> todo = [] \<and>
          (\<exists>env. sendToCorrectService env (msg_port m) (msg_data m) (msg_size m) b = Inl f)
      | JoinReceive \<Rightarrow> deInitServer (main_thread self) b = Inr now \<and> sendq now = sendq b @ [None]
      | _ \<Rightarrow> deInitServer (main_thread self) b = Inr now \<and> sendq now = sendq b @ [None] \<and> todo = [])"

definition main_inv :: "nat \<Rightarrow> nat \<Rightarrow> world \<Rightarrow> bool" where
  "main_inv self lock w \<longleftrightarrow> mine w @ pending w = sendq (br w) \<and> bridge_inv (br w) \<and>
     (\<exists>b out. handle_all (handled w) (initServer lock) = Inr b \<and> sendq b = map Some out \<and>
       main_share self (main_at w) (br w) (pending w) b)"

definition taken :: "(mmsg \<times> handler_env) list \<Rightarrow> main_place \<Rightarrow> mmsg option list" where
  "taken hs place = map (Some \<circ> fst) hs @
     (case place of InLoop \<Rightarrow> [] | Handling m env \<Rightarrow> [Some m] | MainFault m f \<Rightarrow> [Some m] | _ \<Rightarrow> [None])"

lemma taken_joined [simp]:
  "taken hs JoinSend = taken hs JoinReceive" "taken hs Joined = taken hs JoinReceive"
  by (simp_all add: taken_def)

definition stream_inv :: "byte list \<Rightarrow> mmsg option list \<Rightarrow> recv_place \<Rightarrow> byte list \<Rightarrow> bool" where
  "stream_inv S added place rest \<longleftrightarrow>
     (\<exists>ms. added = map Some ms @ (if place \<in> {RClear, RStopped} then [None] else []) \<and>
        (case place of
           RLoop \<Rightarrow> S = concat (map frame ms) @ rest
         | RAdd m \<Rightarrow> S = concat (map frame ms) @ frame m @ rest
         | _ \<Rightarrow> prefix (concat (map frame ms)) S))"

definition recv_inv :: "byte list \<Rightarrow> world \<Rightarrow> bool" where
  "recv_inv S w \<longleftrightarrow> queue_ok (recvQ w) \<and> received w = taken (handled w) (main_at w) @ contents (recvQ w) \<and>
     (recv_at w = RStopped \<longrightarrow> \<not> working w) \<and>
     stream_inv S (received w) (recv_at w) (aap_stream (con w))"

definition send_tail :: "send_place \<Rightarrow> bool \<Rightarrow> mmsg option list \<Rightarrow> bool" where
  "send_tail place running t \<longleftrightarrow> (case place of
       SWrite m \<Rightarrow> t = [Some m]
     | SFault m f \<Rightarrow> t = [Some m]
     | SStart \<Rightarrow> t = []
     | SPoll \<Rightarrow> t = []
     | SLoop \<Rightarrow> t = [] \<or> (\<exists>m. t = [Some m] \<and> \<not> running)
     | _ \<Rightarrow> t = [None] \<or> (\<not> running \<and> (t = [] \<or> (\<exists>m. t = [Some m]))))"

definition write_inv ::
    "byte list \<Rightarrow> mmsg option list \<Rightarrow> mmsg list \<Rightarrow> send_place \<Rightarrow> bool \<Rightarrow> byte list \<Rightarrow> bool" where
  "write_inv W took wrote place running wire \<longleftrightarrow>
     (\<exists>t out. send_tail place running t \<and> took = map Some wrote @ t \<and>
        wire = W @ concat (map out_bytes wrote) @ out \<and>
        (out = [] \<or> place \<in> {SLoop, SExit, SStopped} \<and> \<not> running \<and>
           (\<exists>m. t = [Some m] \<and> prefix out (out_bytes m))))"

definition send_inv :: "byte list \<Rightarrow> world \<Rightarrow> bool" where
  "send_inv W w \<longleftrightarrow> queue_ok (sendQ w) \<and> sent w = polled w @ contents (sendQ w) \<and>
     write_inv W (polled w) (written w) (send_at w) (working w) (aap_wire (con w))"

definition order_inv :: "mmsg list \<Rightarrow> world \<Rightarrow> bool" where
  "order_inv os w \<longleftrightarrow> sent w \<in> shuffles (mine w) (map Some (theirs w)) \<and>
     theirs w @ (case adding w of None \<Rightarrow> [] | Some (t, m) \<Rightarrow> [m]) @ others w = os"

lemma main_callers [simp]:
  "patient (main_thread self)" "send_room (main_thread self)" "patiently (main_now self w) = main_thread self"
  "send_room (main_now self w)" "lock_free (main_now self w)"
  by (simp_all add: main_thread_def main_now_def patient_def patiently_def)

lemma main_now_patient: "adding w = None \<Longrightarrow> main_now self w = main_thread self"
  by (simp add: main_now_def main_thread_def watcher_ends_def fun_eq_iff)

lemma deInitServer_inv:
  assumes "bridge_inv b" and "deInitServer (main_now self w) b = Inr b'"
  shows "bridge_inv b'" "sendq b' = sendq b @ [None]" "deInitServer (main_thread self) b = Inr b'"
proof -
  have "deInitServer (main_now self w) b = deInitServer (main_thread self) b"
    using waits_deInitServer [of "main_now self w" b] assms(2) by (auto simp: waits_or_def)
  with assms(2) show "deInitServer (main_thread self) b = Inr b'" by simp
  with deInitServer_cases [OF assms(1), of "main_thread self"]
  show "bridge_inv b'" "sendq b' = sendq b @ [None]" by auto
qed

lemma main_keeps:
  assumes "bridge_move self w w'" and "main_inv self lock w"
  shows "main_inv self lock w'"
  using assms
proof cases
  case (main_message msg env b)
  from assms(2) main_message obtain b0 out where
    b0: "handle_all (handled w) (initServer lock) = Inr (br w)" "sendq (br w) = map Some out"
      "bridge_inv (br w)" "mine w = sendq (br w)"
    by (auto simp: main_inv_def main_share_def)
  from dispatch_sends [OF b0(3), of "env_now self w env" "msg_port msg" "msg_data msg" "msg_size msg"] main_message(3)
  obtain new where new: "sendq b = sendq (br w) @ map Some new" by (auto simp: sends_log_def)
  have "bridge_inv b"
    using dispatch_keeps [OF b0(3), of "env_now self w env" "msg_port msg" "msg_data msg" "msg_size msg"]
      main_message(3) by simp
  moreover have "new_sends (br w) b = map Some new" using new by (simp add: new_sends_def)
  ultimately show ?thesis
    using new b0 main_message by (auto simp: main_inv_def main_share_def handle_all_snoc intro: exI [of _ "out @ new"])
next
  case (main_fault msg env f)
  with assms(2) show ?thesis by (auto simp: main_inv_def main_share_def)
next
  case (main_deinit b)
  from assms(2) main_deinit have "bridge_inv (br w)" by (auto simp: main_inv_def main_share_def)
  from deInitServer_inv [OF this main_deinit(3)] assms(2) main_deinit show ?thesis
    by (auto simp: main_inv_def main_share_def new_sends_def)
next
  case (main_add m ms q)
  with assms(2) show ?thesis by (cases "main_at w") (auto simp: main_inv_def main_share_def)
next
  case (main_poll msg q env)
  with assms(2) show ?thesis by (auto simp: main_inv_def main_share_def)
next
  case (main_stop q)
  with assms(2) show ?thesis by (auto simp: main_inv_def main_share_def)
next
  case main_join_receive
  with assms(2) show ?thesis by (auto simp: main_inv_def main_share_def)
next
  case main_join_send
  with assms(2) show ?thesis by (auto simp: main_inv_def main_share_def)
qed (use assms(2) in \<open>simp_all add: main_inv_def\<close>)

lemma shuffles_snoc: "zs \<in> shuffles xs ys \<Longrightarrow> zs @ [z] \<in> shuffles (xs @ [z]) ys"
proof (induction zs arbitrary: xs ys)
  case (Cons a zs)
  from Cons.prems consider xs' where "xs = a # xs'" "zs \<in> shuffles xs' ys"
    | ys' where "ys = a # ys'" "zs \<in> shuffles xs ys'"
    by (auto elim: shufflesE)
  then show ?case
    by cases (auto dest: Cons.IH intro: Cons_in_shuffles_leftI Cons_in_shuffles_rightI)
qed simp

lemma order_keeps:
  assumes "bridge_move self w w'" and "order_inv os w"
  shows "order_inv os w'"
  using assms
proof cases
  case (main_add m ms q)
  with assms(2) show ?thesis by (simp add: order_inv_def shuffles_snoc)
next
  case (other_send m ms i g)
  with assms(2) show ?thesis by (simp add: order_inv_def)
next
  case (other_add t m q)
  with assms(2) show ?thesis
    using shuffles_snoc [of "sent w" "map Some (theirs w)" "mine w" "Some m"]
    by (simp add: order_inv_def shuffles_commutes)
qed (simp_all add: order_inv_def)

text \<open>The queues: what a call that returns has done.\<close>

context bounded_fifo begin

lemma add_Inr: "add m q = Inr q' \<Longrightarrow> good q \<Longrightarrow>
    length (content q) < cap \<and> good q' \<and> content q' = content q @ [m]"
  using add_full [of q m] add_room [of q m] content_cap [of q] by (cases "length (content q) = cap") auto

lemma poll_Inr: "poll q = Inr (m, q') \<Longrightarrow> good q \<Longrightarrow> good q' \<and> content q = m # content q'"
  using poll_empty [of q] poll_some [of q] by (cases "content q") auto

lemma add_waits: "good q \<Longrightarrow> (\<And>q'. add m q \<noteq> Inr q') \<Longrightarrow> length (content q) = cap"
  using add_room [of q m] content_cap [of q] by (cases "length (content q) < cap") auto

lemma poll_waits: "good q \<Longrightarrow> (\<And>m q'. poll q \<noteq> Inr (m, q')) \<Longrightarrow> content q = []"
  using poll_some [of q] by (cases "content q") blast+

end

lemmas add_recv = recv.add_Inr [folded whole_ops]
lemmas poll_recv = recv.poll_Inr [folded whole_ops]
lemmas add_send = send.add_Inr [folded whole_ops]
lemmas poll_send = send.poll_Inr [folded whole_ops]
lemmas queue_waits = recv.add_waits [folded whole_ops] recv.poll_waits [folded whole_ops]
  send.add_waits [folded whole_ops] send.poll_waits [folded whole_ops]

lemma stream_inv_steps:
  "stream_inv S added RLoop rest \<Longrightarrow> stream_inv S added RNull rest'"
  "stream_inv S added RLoop rest \<Longrightarrow> stream_inv S added (RFault f) rest'"
  "stream_inv S added RLoop (frame m @ rest) \<Longrightarrow> stream_inv S added (RAdd m) rest"
  "stream_inv S added (RAdd m) rest \<Longrightarrow> stream_inv S (added @ [Some m]) RLoop rest"
  "stream_inv S added RNull rest \<Longrightarrow> stream_inv S (added @ [None]) RClear rest"
  "stream_inv S added RClear rest \<Longrightarrow> stream_inv S added RStopped rest"
  by (auto simp: stream_inv_def intro: exI [of _ "ms @ [m]" for ms])

lemma recv_keeps:
  assumes "bridge_move self w w'" and "aap_ok (con w)" and "recv_inv S w"
  shows "recv_inv S w'"
  using assms
proof cases
  case (main_poll msg q env)
  with assms(3) poll_recv [OF main_poll(4)] show ?thesis by (auto simp: recv_inv_def taken_def)
next
  case (main_message msg env b)
  with assms(3) show ?thesis by (auto simp: recv_inv_def taken_def)
next
  case (main_fault msg env f)
  with assms(3) show ?thesis by (auto simp: recv_inv_def taken_def)
next
  case (main_deinit b)
  with assms(3) show ?thesis by (auto simp: recv_inv_def taken_def)
next
  case (main_stop q)
  with assms(3) poll_recv [OF main_stop(4)] show ?thesis by (auto simp: recv_inv_def taken_def)
next
  case (recv_message c e m)
  with assms(2,3) receiver_iter_keeps(3) [OF recv_message(4)] show ?thesis
    by (auto simp: recv_inv_def intro: stream_inv_steps)
next
  case (recv_add m q)
  with assms(3) add_recv [OF recv_add(3)] show ?thesis
    by (auto simp: recv_inv_def simp flip: append_assoc intro: stream_inv_steps)
next
  case (recv_null q)
  with assms(3) add_recv [OF recv_null(3)] show ?thesis
    by (auto simp: recv_inv_def simp flip: append_assoc intro: stream_inv_steps)
next
  case (send_done m c)
  with assms(2,3) sender_iter_keeps(2) [OF send_done(3)] show ?thesis by (auto simp: recv_inv_def)
next
  case (send_error m c e)
  with assms(2,3) sender_iter_keeps(2) [OF send_error(3)] show ?thesis by (auto simp: recv_inv_def)
qed (auto simp: recv_inv_def intro: stream_inv_steps)

lemma write_inv_clear:
  "write_inv W took wrote place True wire \<Longrightarrow> write_inv W took wrote place False wire"
  by (cases place) (auto simp: write_inv_def send_tail_def)

lemma write_inv_loop:
  assumes "write_inv W took wrote SLoop run wire"
  shows "run \<Longrightarrow> write_inv W took wrote SPoll run wire"
    and "\<not> run \<Longrightarrow> write_inv W took wrote SExit run wire"
  using assms by (auto simp: write_inv_def send_tail_def)

lemma write_inv_steps:
  "write_inv W took wrote SStart run wire \<Longrightarrow> write_inv W took wrote SLoop run wire"
  "write_inv W took wrote SPoll run wire \<Longrightarrow> write_inv W (took @ [Some m]) wrote (SWrite m) run wire"
  "write_inv W took wrote SPoll run wire \<Longrightarrow> write_inv W (took @ [None]) wrote SExit run wire"
  "write_inv W took wrote (SWrite m) run wire \<Longrightarrow> write_inv W took wrote (SFault m f) run wire"
  by (simp_all add: write_inv_def send_tail_def)

lemma write_inv_exit: "write_inv W took wrote SExit run wire \<Longrightarrow> write_inv W took wrote SStopped run wire"
  by (simp add: write_inv_def send_tail_def)

lemma write_inv_write:
  assumes "write_inv W took wrote (SWrite m) run wire"
  shows "write_inv W took (wrote @ [m]) SLoop run (wire @ out_bytes m)"
    and "prefix out (out_bytes m) \<Longrightarrow> write_inv W took wrote SLoop False (wire @ out)"
  using assms by (simp_all add: write_inv_def send_tail_def)

lemma send_keeps:
  assumes "bridge_move self w w'" and "aap_ok (con w)" and "send_inv W w"
  shows "send_inv W w'"
  using assms
proof cases
  case (main_add m ms q)
  with assms(3) add_send [OF main_add(3)] show ?thesis by (auto simp: send_inv_def)
next
  case (other_add t m q)
  with assms(3) add_send [OF other_add(3)] show ?thesis by (auto simp: send_inv_def)
next
  case (recv_message c e m)
  with assms(2,3) receiver_iter_keeps(2) [OF recv_message(4)] show ?thesis by (auto simp: send_inv_def)
next
  case (recv_error c e)
  with assms(2,3) receiver_iter_keeps(2) [OF recv_error(4)] show ?thesis by (auto simp: send_inv_def)
next
  case (recv_clear)
  with assms(3) write_inv_clear show ?thesis by (cases "working w") (auto simp: send_inv_def)
next
  case (send_take m q)
  with assms(3) poll_send [OF send_take(3)] show ?thesis
    by (auto simp: send_inv_def intro: write_inv_steps)
next
  case (send_null q)
  with assms(3) poll_send [OF send_null(3)] show ?thesis
    by (auto simp: send_inv_def intro: write_inv_steps)
next
  case (send_done m c)
  with assms(2,3) sender_iter_keeps(3) [OF send_done(3)] show ?thesis
    by (auto simp: send_inv_def intro: write_inv_write)
next
  case (send_error m c e)
  with assms(2,3) sender_iter_keeps(3) [OF send_error(3)] show ?thesis
    by (auto simp: send_inv_def intro: write_inv_write)
qed (auto simp: send_inv_def intro: write_inv_steps write_inv_loop write_inv_exit)

lemma aap_keeps: "bridge_move self w w' \<Longrightarrow> aap_ok (con w) \<Longrightarrow> aap_ok (con w')"
  by (induction rule: bridge_move.induct) (auto dest: receiver_iter_keeps(1) sender_iter_keeps(1))

definition running_inv :: "nat \<Rightarrow> nat \<Rightarrow> aap \<Rightarrow> mmsg list \<Rightarrow> world \<Rightarrow> bool" where
  "running_inv self lock c os w \<longleftrightarrow> aap_ok (con w) \<and> main_inv self lock w \<and>
     recv_inv (aap_stream c) w \<and> send_inv (aap_wire c) w \<and> order_inv os w"

lemma step_keeps_running:
  "bridge_step self w w' \<Longrightarrow> running_inv self lock c os w \<Longrightarrow> running_inv self lock c os w'"
  by (induction rule: bridge_step.induct)
    (simp_all add: running_inv_def aap_keeps main_keeps recv_keeps send_keeps order_keeps)

lemma start_running:
  assumes "aap_ok c" and "length (queue q1) = 64" and "length (queue q2) = 64"
  shows "running_inv self lock c os (start_world lock q1 q2 c os)"
proof -
  have "main_inv self lock (start_world lock q1 q2 c os)"
    using initServer_inv by (simp add: main_inv_def main_share_def start_world_def initServer_def)
  with assms init_quiet(1,2) [OF assms(2)] init_quiet(3,4) [OF assms(3)] show ?thesis
    by (simp add: running_inv_def start_world_def recv_inv_def stream_inv_def taken_def send_inv_def
        write_inv_def send_tail_def order_inv_def)
qed

lemma run_keeps_running:
  assumes "bridge_run self w0 w" and "running_inv self lock c os w0"
  shows "running_inv self lock c os w"
  using assms by (induction rule: bridge_run.induct) (auto intro: step_keeps_running)

lemma run_inv:
  assumes "aap_ok c" and "length (queue q1) = 64" and "length (queue q2) = 64"
    and "bridge_run self (start_world lock q1 q2 c os) w"
  shows "aap_ok (con w)" "main_inv self lock w" "recv_inv (aap_stream c) w" "send_inv (aap_wire c) w"
    "order_inv os w"
  using run_keeps_running [OF assms(4) start_running [OF assms(1-3)]] by (simp_all add: running_inv_def)

section \<open>What the interleaved threads compute\<close>

lemma move_no_bulk: "bridge_move self w w' \<Longrightarrow> main_inv self lock w \<Longrightarrow> no_bulk (br w) \<Longrightarrow> no_bulk (br w')"
proof (induction rule: bridge_move.induct)
  case (main_message w msg env b)
  then have "bulk_refused (he_bulk (env_now self w env))" by (simp add: main_inv_def main_share_def env_now_def)
  from dispatch_quiet [OF main_message(4) this] main_message(2) show ?case by (auto simp: quiet_end_def)
next
  case (main_deinit w b)
  then have "bridge_inv (br w)" by (auto simp: main_inv_def main_share_def)
  from deInitServer_cases [OF this, of "main_now self w"] main_deinit(2) show ?case
    by (auto simp: no_bulk_def bridge_inv_def bridge_frame_def split: if_splits)
qed simp_all

lemma run_no_bulk:
  assumes "aap_ok c" and "length (queue q1) = 64" and "length (queue q2) = 64"
    and "bridge_run self (start_world lock q1 q2 c os) w"
  shows "no_bulk (br w)"
  using assms(4)
proof (induction rule: bridge_run.induct)
  case run_start
  have "no_bulk (initServer lock)"
    by (auto simp: no_bulk_def initServer_def open_service_def nth_append nth_Cons split: nat.splits)
  then show ?case by (simp add: start_world_def)
next
  case (run_step w w')
  from this(2) show ?case
    using move_no_bulk [OF _ run_inv(2) [OF assms(1-3) run_step(1)] run_step(3)] run_step(3)
    by cases auto
qed

lemma concat_map_prefix: "prefix xs ys \<Longrightarrow> prefix (concat (map f xs)) (concat (map f ys))"
  by (auto simp: prefix_def)

lemma prefix_map_Some:
  "prefix (map Some xs) (map Some ys @ t) \<Longrightarrow> t = [] \<or> t = [None] \<Longrightarrow> prefix xs ys"
proof (induction xs arbitrary: ys)
  case (Cons x xs)
  then show ?case by (cases ys) auto
qed simp

lemma stream_inv_prefix:
  assumes "stream_inv S added place rest" and "prefix (map Some ms) added"
  shows "prefix (concat (map frame ms)) S"
proof -
  from assms(1) obtain ns where ns: "added = map Some ns @ (if place \<in> {RClear, RStopped} then [None] else [])"
    "case place of RLoop \<Rightarrow> S = concat (map frame ns) @ rest
     | RAdd m \<Rightarrow> S = concat (map frame ns) @ frame m @ rest | _ \<Rightarrow> prefix (concat (map frame ns)) S"
    unfolding stream_inv_def by blast
  from ns(2) have "prefix (concat (map frame ns)) S" by (cases place) auto
  moreover have "prefix ms ns"
  proof (rule prefix_map_Some)
    show "prefix (map Some ms) (map Some ns @ (if place \<in> {RClear, RStopped} then [None] else []))"
      using assms(2) unfolding ns(1) .
  qed simp
  ultimately show ?thesis by (meson concat_map_prefix prefix_order.trans)
qed

lemma write_inv_wire:
  assumes "write_inv W took wrote place running wire" and "prefix took added"
  shows "\<exists>out. wire = W @ concat (map out_bytes wrote) @ out \<and>
    (if out = [] then prefix (map Some wrote) added
     else \<exists>m. prefix (map Some (wrote @ [m])) added \<and> prefix out (out_bytes m))"
proof -
  from assms(1) obtain t out where t: "took = map Some wrote @ t"
    "wire = W @ concat (map out_bytes wrote) @ out" "out = [] \<or> (\<exists>m. t = [Some m] \<and> prefix out (out_bytes m))"
    by (auto simp: write_inv_def)
  with assms(2) have "prefix (map Some wrote) added" by (auto dest: append_prefixD)
  with t assms(2) show ?thesis by auto
qed

text \<open>A keepalive from Android.\<close>

definition ping :: mmsg where
  "ping = \<lparr>msg_port = 2, msg_size = 4, msg_data = bytes_of ''ping''\<rparr>"

text \<open>
  C2: however the threads of a connection without bulk transfers interleave, they compute what
  the messaging loop computes alone. The messages the main thread has handled are the first
  frames of the stream from Android, in order; the messaging loop on them gives a bridge
  whose sends are those the main thread has put into the send queue, up to the null pointer
  of \<open>deInitServer\<close> and what it has still to put there; the send queue takes them in this
  order, shuffled only with the messages of the signal watchers; and Android gets, in this
  common order, the bytes of a prefix of them, with at most one frame cut short. No slot
  ever holds a bulk service.
\<close>

theorem threads_refine_messaging_loop:
  assumes "aap_ok c" and "length (queue q1) = 64" and "length (queue q2) = 64"
    and "bridge_run self (start_world lock q1 q2 c os) w"
  shows "prefix (concat (map frame (map fst (handled w)))) (aap_stream c) \<and> no_bulk (br w) \<and>
    (\<exists>b. messaging_loop (as_polled (handled w) @ [(None, env)]) (initServer lock) = Inr b \<and>
       prefix (mine w) (sendq b @ [None])) \<and>
    (\<exists>os'. prefix os' os \<and> sent w \<in> shuffles (mine w) (map Some os')) \<and>
    (\<exists>out. aap_wire (con w) = aap_wire c @ concat (map out_bytes (written w)) @ out \<and>
       (if out = [] then prefix (map Some (written w)) (sent w)
        else \<exists>m. prefix (map Some (written w @ [m])) (sent w) \<and> prefix out (out_bytes m)))"
proof (intro conjI)
  note inv = run_inv [OF assms]
  have "prefix (map Some (map fst (handled w))) (received w)"
    using inv(3) by (simp add: recv_inv_def taken_def)
  moreover have "stream_inv (aap_stream c) (received w) (recv_at w) (aap_stream (con w))"
    using inv(3) unfolding recv_inv_def by blast
  ultimately show "prefix (concat (map frame (map fst (handled w)))) (aap_stream c)"
    by (rule stream_inv_prefix [rotated])
  show "no_bulk (br w)" using run_no_bulk [OF assms] .
  from inv(2) have "\<exists>b. handle_all (handled w) (initServer lock) = Inr b \<and>
      (mine w @ pending w = sendq b \<or> mine w @ pending w = sendq b @ [None])"
    by (cases "main_at w") (auto simp: main_inv_def main_share_def)
  then obtain b where b: "handle_all (handled w) (initServer lock) = Inr b"
    "mine w @ pending w = sendq b \<or> mine w @ pending w = sendq b @ [None]" by blast
  from b(2) have "prefix (mine w) (sendq b @ [None])"
    by (metis append.assoc prefixI prefix_order.trans)
  with b(1) show "\<exists>b. messaging_loop (as_polled (handled w) @ [(None, env)]) (initServer lock) = Inr b \<and>
      prefix (mine w) (sendq b @ [None])"
    by (auto simp: messaging_loop_handle_all)
  show "\<exists>os'. prefix os' os \<and> sent w \<in> shuffles (mine w) (map Some os')"
    using inv(5) by (auto simp: order_inv_def intro: exI [of _ "theirs w"])
  have "prefix (polled w) (sent w)" using inv(4) by (simp add: send_inv_def)
  moreover have "write_inv (aap_wire c) (polled w) (written w) (send_at w) (working w) (aap_wire (con w))"
    using inv(4) unfolding send_inv_def by blast
  ultimately show "\<exists>out. aap_wire (con w) = aap_wire c @ concat (map out_bytes (written w)) @ out \<and>
       (if out = [] then prefix (map Some (written w)) (sent w)
        else \<exists>m. prefix (map Some (written w @ [m])) (sent w) \<and> prefix out (out_bytes m))"
    by (rule write_inv_wire [rotated])
qed

section \<open>Where the threads can stand still\<close>

lemma poll_recv_None: "queue_ok q \<Longrightarrow> (\<And>m q'. pollReceiveQueue q \<noteq> Inr (m, q')) \<Longrightarrow> contents q = []"
  by (rule queue_waits(2))

lemma dispatch_gets_through:
  assumes "bridge_inv b" and "no_bulk b" and "patient (he_self env)"
  shows "gets_through (sendToCorrectService env p buffer sz b)"
  unfolding sendToCorrectService_def
proof (intro cast_intros)
  fix s f
  assume at: "svc_at b (sint p) = Inr s" "onBytesReceived s = Some f"
  with assms(2) have "f \<noteq> FnBulkOnBytesReceived"
    by (auto simp: svc_at_def no_bulk_def split: if_splits)
  moreover have "gets_through (PortStatusOnBytesReceived (he_self env) buffer b)"
    using PortStatus_keeps_patient [OF assms(1,3), of buffer] by (auto simp: avoids_def)
  ultimately show "gets_through (run_recv env f (nat (sint p)) (service_data s) buffer (sint sz) b)"
    using Spawner_gets_through [OF assms(1)]
    by (cases f) (auto simp: run_recv_def intro!: cast_intros split: option.split sdata.split)
qed

text \<open>A move changes the place of a thread, or what is to be sent.\<close>

lemma move_changes: "bridge_move self w w' \<Longrightarrow> w' \<noteq> w"
proof
  assume "bridge_move self w w'" and eq: "w' = w"
  then have "main_at w' = main_at w" "pending w' = pending w" "recv_at w' = recv_at w"
    "send_at w' = send_at w" "adding w' = adding w" by simp_all
  with \<open>bridge_move self w w'\<close> show False by cases auto
qed

lemma deInit_returns:
  assumes "bridge_inv b" and "adding w = None"
  shows "\<exists>b'. deInitServer (main_now self w) b = Inr b'"
  using deInitServer_cases [OF assms(1), of "main_now self w"] main_now_patient [OF assms(2), of self] by auto

lemma main_moves:
  assumes "main_inv self lock w" and "queue_ok (recvQ w)" and "queue_ok (sendQ w)"
    and still: "\<And>w'. \<not> bridge_move self w w'"
  shows "if pending w \<noteq> [] then length (contents (sendQ w)) = 64
    else case main_at w of InLoop \<Rightarrow> contents (recvQ w) = []
      | Handling m env \<Rightarrow> sendToCorrectService (env_now self w env) (msg_port m) (msg_data m) (msg_size m) (br w)
          = Inl Blocked
      | Stopping \<Rightarrow> adding w \<noteq> None | JoinReceive \<Rightarrow> recv_at w \<noteq> RStopped
      | JoinSend \<Rightarrow> send_at w \<noteq> SStopped | _ \<Rightarrow> True"
proof (cases "pending w")
  case (Cons m ms)
  with still have "addSendQueue m (sendQ w) \<noteq> Inr q" for q using bridge_move.main_add by blast
  with assms(3) Cons show ?thesis using queue_waits(3) [of "sendQ w" m] by auto
next
  case Nil
  show ?thesis
  proof (cases "main_at w")
    case InLoop
    have "pollReceiveQueue (recvQ w) \<noteq> Inr (mo, q)" for mo q
      using InLoop Nil still bridge_move.main_stop [of w q] bridge_move.main_poll [OF _ _ _ quiet_env_refused, of w _ q]
      by (cases mo) blast+
    with assms(2) Nil InLoop show ?thesis using poll_recv_None by auto
  next
    case (Handling m env)
    have "sendToCorrectService (env_now self w env) (msg_port m) (msg_data m) (msg_size m) (br w) = Inl Blocked"
      using still bridge_move.main_message [OF Handling, of self] bridge_move.main_fault [OF Handling, of self]
      by (cases "sendToCorrectService (env_now self w env) (msg_port m) (msg_data m) (msg_size m) (br w)") blast+
    with Nil Handling show ?thesis by simp
  next
    case Stopping
    with assms(1) have "bridge_inv (br w)" by (simp add: main_inv_def main_share_def)
    with deInit_returns [of "br w" w self] Stopping Nil still bridge_move.main_deinit [of w self] show ?thesis by fastforce
  next
    case JoinReceive
    with Nil still show ?thesis using bridge_move.main_join_receive by auto
  next
    case JoinSend
    with Nil still show ?thesis using bridge_move.main_join_send by auto
  qed (use Nil in simp_all)
qed

lemma recv_moves:
  assumes "queue_ok (recvQ w)" and still: "\<And>w'. \<not> bridge_move self w w'"
  shows "case recv_at w of RLoop \<Rightarrow> working w \<and> hangs (receiver_iter (con w))
    | RAdd m \<Rightarrow> length (contents (recvQ w)) = 64 | RNull \<Rightarrow> length (contents (recvQ w)) = 64
    | RClear \<Rightarrow> False | _ \<Rightarrow> True"
proof (cases "recv_at w")
  case RLoop
  show ?thesis
  proof (cases "receiver_iter (con w)")
    case None
    with RLoop still show ?thesis using bridge_move.recv_leave by (auto simp: hangs_def)
  next
    case (Some r)
    with RLoop still have "working w" using bridge_move.recv_leave by blast
    moreover from this Some RLoop still have "r = Inl Blocked"
      using bridge_move.recv_message bridge_move.recv_error bridge_move.recv_fault
      by (cases r) (metis option.exhaust prod_cases3)+
    ultimately show ?thesis using RLoop Some by (simp add: hangs_def)
  qed
next
  case (RAdd m)
  with still have "addreceivequeue (Some m) (recvQ w) \<noteq> Inr q" for q using bridge_move.recv_add by blast
  with assms(1) RAdd show ?thesis using queue_waits(1) [of "recvQ w" "Some m"] by auto
next
  case RNull
  with still have "addreceivequeue None (recvQ w) \<noteq> Inr q" for q using bridge_move.recv_null by blast
  with assms(1) RNull show ?thesis using queue_waits(1) [of "recvQ w" None] by auto
next
  case RClear
  with still show ?thesis using bridge_move.recv_clear by auto
qed simp_all

lemma send_moves:
  assumes "queue_ok (sendQ w)" and still: "\<And>w'. \<not> bridge_move self w w'"
  shows "case send_at w of SPoll \<Rightarrow> contents (sendQ w) = []
    | SWrite m \<Rightarrow> hangs (sender_iter (con w) m)
    | SStopped \<Rightarrow> True | SFault m f \<Rightarrow> True | _ \<Rightarrow> False"
proof (cases "send_at w")
  case SPoll
  have "pollSendQueue (sendQ w) \<noteq> Inr (m, q)" for m q
    using SPoll still bridge_move.send_take bridge_move.send_null by (cases m) blast+
  with assms(1) SPoll show ?thesis using queue_waits(4) by auto
next
  case (SWrite m)
  show ?thesis
  proof (cases "sender_iter (con w) m")
    case None
    with SWrite show ?thesis by (simp add: hangs_def)
  next
    case (Some r)
    with SWrite still have "r = Inl Blocked"
      using bridge_move.send_done bridge_move.send_error bridge_move.send_fault
      by (cases r) (metis surj_pair)+
    with SWrite Some show ?thesis by (simp add: hangs_def)
  qed
next
  case SStart
  with still show ?thesis using bridge_move.send_start by auto
next
  case SLoop
  with still have False using bridge_move.send_enter bridge_move.send_leave by blast
  then show ?thesis ..
next
  case SExit
  with still show ?thesis using bridge_move.send_exit by auto
qed simp_all

text \<open>The null pointers: one in each direction, and who has seen it has stopped.\<close>

lemma null_received:
  assumes "recv_inv S w"
  shows "None \<in> set (received w) \<longleftrightarrow> recv_at w \<in> {RClear, RStopped}"
proof -
  from assms have "stream_inv S (received w) (recv_at w) (aap_stream (con w))"
    unfolding recv_inv_def by blast
  then show ?thesis by (auto simp: stream_inv_def)
qed

lemma null_polled:
  assumes "send_inv W w" and "None \<in> set (polled w)"
  shows "send_at w \<in> {SExit, SStopped}"
proof -
  from assms obtain t where "send_tail (send_at w) (working w) t" "None \<in> set t"
    by (auto simp: send_inv_def write_inv_def)
  then show ?thesis by (cases "send_at w") (auto simp: send_tail_def)
qed

lemma null_sent:
  assumes "main_inv self lock w" and "order_inv os w" and "main_at w \<in> {JoinReceive, JoinSend, Joined}"
    and "pending w = []"
  shows "filter (\<lambda>m. m = None) (sent w) = [None]"
proof -
  from assms(1,3,4) obtain out where "mine w = map Some out @ [None]" by (auto simp: main_inv_def main_share_def)
  then have "filter (\<lambda>m. m = None) (mine w) = [None]" by simp
  moreover have "filter (\<lambda>m. m = None) (map Some (theirs w)) = []" by simp
  moreover have "filter (\<lambda>m. m = None) (sent w) \<in>
      shuffles (filter (\<lambda>m. m = None) (mine w)) (filter (\<lambda>m. m = None) (map Some (theirs w)))"
    using assms(2) unfolding order_inv_def filter_shuffles [symmetric] by blast
  ultimately show ?thesis by simp
qed

text \<open>
  C7: where the threads can stand still, on a connection without bulk transfers: where every
  step is a turn of a call into the transport that spins. The connection is shut down
  completely; or one of the threads has run into undefined behaviour; or the receive or the
  send thread waits or spins in the transport; or the main thread waits for ever, with 64
  messages in the send queue and a send thread that has stopped and will never take one:
  in \<open>addSendQueue\<close> itself, or in a handler or \<open>deInitServer\<close> for a signal watcher that waits there.
\<close>

theorem threads_standstill:
  assumes "aap_ok c" and "length (queue q1) = 64" and "length (queue q2) = 64"
    and "bridge_run self (start_world lock q1 q2 c os) w" and "\<And>w'. bridge_step self w w' \<Longrightarrow> w' = w"
  shows "main_at w = Joined \<or>
    (\<exists>m f. main_at w = MainFault m f) \<or> (\<exists>f. recv_at w = RFault f) \<or> (\<exists>m f. send_at w = SFault m f) \<or>
    recv_at w = RLoop \<and> hangs (receiver_iter (con w)) \<or>
    (\<exists>m. send_at w = SWrite m \<and> hangs (sender_iter (con w) m)) \<or>
    (pending w \<noteq> [] \<or>
      adding w \<noteq> None \<and> (main_at w = Stopping \<or> (\<exists>m env. main_at w = Handling m env \<and>
        sendToCorrectService (env_now self w env) (msg_port m) (msg_data m) (msg_size m) (br w) = Inl Blocked))) \<and>
    length (contents (sendQ w)) = 64 \<and> send_at w = SStopped"
proof -
  note inv = run_inv [OF assms(1-4)]
  have q: "queue_ok (recvQ w)" "queue_ok (sendQ w)" using inv by (auto simp: recv_inv_def send_inv_def)
  have still: "\<not> bridge_move self w w'" for w'
    using assms(5) [OF bridge_step.move] move_changes by blast
  note main = main_moves [OF inv(2) q still] and recv = recv_moves [OF q(1) still]
    and send = send_moves [OF q(2) still]
  have watcher: "adding w \<noteq> None \<Longrightarrow> length (contents (sendQ w)) = 64"
  proof -
    assume "adding w \<noteq> None"
    then obtain t m where m: "adding w = Some (t, m)" by auto
    with still have "addSendQueue (Some m) (sendQ w) \<noteq> Inr q" for q using bridge_move.other_add by blast
    with q(2) show ?thesis using queue_waits(3) [of "sendQ w" "Some m"] by auto
  qed
  have stopped: "length (contents (sendQ w)) = 64 \<Longrightarrow> send_at w = SStopped \<or> (\<exists>m f. send_at w = SFault m f) \<or>
      (\<exists>m. send_at w = SWrite m \<and> hangs (sender_iter (con w) m))"
    using send by (cases "send_at w") (auto simp del: length_contents)
  consider "pending w \<noteq> []" | "pending w = []" "main_at w = InLoop"
    | m env where "pending w = []" "main_at w = Handling m env" | "pending w = []" "main_at w = Stopping"
    | "pending w = []" "main_at w = JoinReceive" | "pending w = []" "main_at w = JoinSend"
    | "main_at w = Joined" | m f where "main_at w = MainFault m f" by (cases "main_at w") auto
  then show ?thesis
  proof cases
    case 1
    with main stopped show ?thesis by (auto simp del: length_contents)
  next
    case 2
    with main have "contents (recvQ w) = []" by simp
    moreover from this 2 inv(3) have "None \<notin> set (received w)" by (auto simp: recv_inv_def taken_def)
    ultimately show ?thesis using recv null_received [OF inv(3)] by (cases "recv_at w") auto
  next
    case (3 m env)
    with main have blocked: "sendToCorrectService (env_now self w env) (msg_port m) (msg_data m) (msg_size m) (br w)
        = Inl Blocked" by simp
    have "adding w \<noteq> None"
    proof
      assume "adding w = None"
      then have "env_now self w env = env\<lparr>he_self := main_thread self\<rparr>"
        by (simp add: env_now_def main_now_patient)
      with inv(2) run_no_bulk [OF assms(1-4)] blocked dispatch_gets_through [of "br w" "env\<lparr>he_self := main_thread self\<rparr>"]
      show False by (auto simp: main_inv_def main_share_def avoids_def)
    qed
    with watcher stopped 3 blocked show ?thesis by blast
  next
    case 4
    with main have "adding w \<noteq> None" by simp
    with watcher stopped 4 show ?thesis by blast
  next
    case 5
    with inv(3) have "None \<in> set (received w)" by (simp add: recv_inv_def taken_def)
    with 5 main recv null_received [OF inv(3)] show ?thesis by auto
  next
    case 6
    then have "None \<in> set (sent w)" using null_sent [OF inv(2,5)] by (auto simp: filter_eq_Cons_iff)
    with inv(4) have "None \<in> set (polled w) \<or> contents (sendQ w) \<noteq> []" by (auto simp: send_inv_def)
    with 6 main send null_polled [OF inv(4)] show ?thesis by (cases "send_at w") auto
  qed simp_all
qed

section \<open>Runs\<close>

lemma bridge_run_trans: "bridge_run self w1 w2 \<Longrightarrow> bridge_run self w0 w1 \<Longrightarrow> bridge_run self w0 w2"
  by (induction rule: bridge_run.induct) (auto intro: run_step)

lemma run_one: "bridge_move self w w' \<Longrightarrow> bridge_run self w w'"
  by (rule run_step [OF run_start bridge_step.move])

lemma run_two: "bridge_move self w w1 \<Longrightarrow> bridge_move self w1 w2 \<Longrightarrow> bridge_run self w w2"
  by (rule run_step [OF run_one bridge_step.move])

lemmas queue_room = recv.add_room [folded whole_ops] send.add_room [folded whole_ops]
lemmas queue_some = recv.poll_some [folded whole_ops] send.poll_some [folded whole_ops]

lemma run_receive:
  assumes "recv_at w = RLoop" and "working w" and "receiver_iter (con w) = Some (Inr (c, e, Some m))"
    and "queue_ok (recvQ w)" and "contents (recvQ w) = []"
  shows "\<exists>q. bridge_run self w (w\<lparr>con := c, recvQ := q, received := received w @ [Some m]\<rparr>) \<and>
    queue_ok q \<and> contents q = [Some m]"
proof -
  from queue_room(1) [OF assms(4), of "Some m"] assms(5) obtain q where
    q: "addreceivequeue (Some m) (recvQ w) = Inr q" "queue_ok q" "contents q = [Some m]" by auto
  have "bridge_move self w (w\<lparr>con := c, recv_at := RAdd m\<rparr>)"
    using assms by (intro bridge_move.recv_message)
  moreover have "bridge_move self (w\<lparr>con := c, recv_at := RAdd m\<rparr>)
      ((w\<lparr>con := c, recv_at := RAdd m\<rparr>)\<lparr>recvQ := q, recv_at := RLoop,
         received := received (w\<lparr>con := c, recv_at := RAdd m\<rparr>) @ [Some m]\<rparr>)"
    using q by (intro bridge_move.recv_add) simp_all
  ultimately have "bridge_run self w ((w\<lparr>con := c, recv_at := RAdd m\<rparr>)\<lparr>recvQ := q, recv_at := RLoop,
      received := received (w\<lparr>con := c, recv_at := RAdd m\<rparr>) @ [Some m]\<rparr>)"
    by (rule run_two)
  moreover have "(w\<lparr>con := c, recv_at := RAdd m\<rparr>)\<lparr>recvQ := q, recv_at := RLoop,
      received := received (w\<lparr>con := c, recv_at := RAdd m\<rparr>) @ [Some m]\<rparr> =
      w\<lparr>con := c, recvQ := q, received := received w @ [Some m]\<rparr>" using assms(1) by simp
  ultimately show ?thesis using q by auto
qed

text \<open>A bridge whose keepalive service answers.\<close>

definition answers_pings :: "bridge \<Rightarrow> bool" where
  "answers_pings b \<longleftrightarrow> 2 < length (services b) \<and> port (services b ! 2) = 2 \<and>
     onBytesReceived (services b ! 2) = Some FnKeepaliveOnBytesReceived"

lemma ping_answered:
  assumes "answers_pings b"
  shows "sendToCorrectService env (msg_port ping) (msg_data ping) (msg_size ping) b
      = Inr (writeAllPort 2 (bytes_of ''pong'') b)"
    and "answers_pings (writeAllPort 2 (bytes_of ''pong'') b)"
    and "new_sends b (writeAllPort 2 (bytes_of ''pong'') b) = [Some (port_message 2 (bytes_of ''pong''))]"
  using assms by (simp_all add: answers_pings_def sendToCorrectService_def ping_def svc_at_def NO_PORT_def
      run_recv_def KeepaliveOnBytesReceived_def writeAllPort_def new_sends_def)

definition pong :: "mmsg option" where
  "pong = Some (port_message 2 (bytes_of ''pong''))"

lemma run_handle:
  assumes "main_at w = InLoop" and "pending w = []" and "contents (recvQ w) = [Some ping]"
    and "queue_ok (recvQ w)" and "answers_pings (br w)"
  shows "\<exists>q b hs. bridge_run self w (w\<lparr>recvQ := q, br := b, pending := [pong], handled := hs\<rparr>) \<and>
    queue_ok q \<and> contents q = [] \<and> answers_pings b"
proof -
  from queue_some(1) [OF assms(4,3)] obtain q where
    q: "pollReceiveQueue (recvQ w) = Inr (Some ping, q)" "queue_ok q" "contents q = []" by auto
  let ?w1 = "w\<lparr>recvQ := q, main_at := Handling ping quiet_env\<rparr>"
  let ?b = "writeAllPort 2 (bytes_of ''pong'') (br w)"
  let ?hs = "handled w @ [(ping, env_now self ?w1 quiet_env)]"
  have "bridge_move self w ?w1"
    by (rule bridge_move.main_poll [OF assms(1,2) q(1) quiet_env_refused])
  moreover have "bridge_move self ?w1 (?w1\<lparr>br := ?b, pending := new_sends (br ?w1) ?b, main_at := InLoop,
      handled := handled ?w1 @ [(ping, env_now self ?w1 quiet_env)]\<rparr>)"
    by (rule bridge_move.main_message) (simp_all add: ping_answered(1) [OF assms(5)])
  ultimately have "bridge_run self w (?w1\<lparr>br := ?b, pending := new_sends (br ?w1) ?b, main_at := InLoop,
      handled := handled ?w1 @ [(ping, env_now self ?w1 quiet_env)]\<rparr>)"
    by (rule run_two)
  moreover have "?w1\<lparr>br := ?b, pending := new_sends (br ?w1) ?b, main_at := InLoop,
      handled := handled ?w1 @ [(ping, env_now self ?w1 quiet_env)]\<rparr> =
    w\<lparr>recvQ := q, br := ?b, pending := [pong], handled := ?hs\<rparr>"
    using assms(1) ping_answered(3) [OF assms(5)] by (simp add: pong_def)
  ultimately have "bridge_run self w (w\<lparr>recvQ := q, br := ?b, pending := [pong], handled := ?hs\<rparr>)" by simp
  with q(2,3) ping_answered(2) [OF assms(5)] show ?thesis by blast
qed

lemma run_add:
  assumes "pending w = [m]" and "queue_ok (sendQ w)" and "length (contents (sendQ w)) < 64"
  shows "\<exists>q x y. bridge_run self w (w\<lparr>sendQ := q, pending := [], mine := x, sent := y\<rparr>) \<and>
    queue_ok q \<and> contents q = contents (sendQ w) @ [m]"
proof -
  from queue_room(2) [OF assms(2,3), of m] obtain q where
    q: "addSendQueue m (sendQ w) = Inr q" "queue_ok q" "contents q = contents (sendQ w) @ [m]" by auto
  from run_one [OF bridge_move.main_add [OF assms(1) q(1)]] q(2,3) show ?thesis by blast
qed

text \<open>A bluetooth connection with so many keepalives to read, on which writing fails.\<close>

definition bt_aap :: "bt_event list \<Rightarrow> aap" where
  "bt_aap evs = \<lparr>physicalConnection = BTConn \<lparr>bt_fd = 5, bt_in = evs, bt_out = [WrErr], bt_wire = []\<rparr>,
     readFn = FnBT, writeFn = FnBT, closeFn = FnBT\<rparr>"

definition pings :: "nat \<Rightarrow> aap" where
  "pings k = bt_aap [BtData (concat (replicate k (frame ping)))]"

lemma read_chunk:
  assumes "xs \<noteq> []" and "rest \<noteq> []" and "n = int (length xs)"
  shows "readAllAccessory (bt_aap [BtData (xs @ rest)]) n = Some (Inr (bt_aap [BtData rest], 0, xs))"
  using assms unfolding readAllAccessory_def bt_aap_def
  by (subst readAll_loop.simps, simp add: readAccessory_def, subst readAll_loop.simps, simp)

lemma frame_ping: "header_bytes ping = [2, 0, 4, 0]" "length (msg_data ping) = 4" "msg_data ping \<noteq> []"
  "join_u8 2 0 = msg_port ping" "join_u8 4 0 = msg_size ping" "sint (msg_size ping) = 4"
  by (simp_all add: ping_def header_bytes_def lo_byte_def hi_byte_def join_u8_def bytes_of_def)

lemma receive_ping:
  assumes "0 < k"
  shows "receiver_iter (pings (Suc k)) = Some (Inr (pings k, 0, Some ping))"
proof -
  let ?rest = "concat (replicate k (frame ping))"
  have rest: "?rest \<noteq> []" using assms by (cases k) (simp_all add: frame_def frame_ping)
  have "pings (Suc k) = bt_aap [BtData (header_bytes ping @ msg_data ping @ ?rest)]"
    by (simp add: pings_def frame_def)
  moreover have "readAllAccessory (bt_aap [BtData (header_bytes ping @ msg_data ping @ ?rest)]) 4
      = Some (Inr (bt_aap [BtData (msg_data ping @ ?rest)], 0, header_bytes ping))"
    using rest by (intro read_chunk) (simp_all add: frame_ping)
  moreover have "readAllAccessory (bt_aap [BtData (msg_data ping @ ?rest)]) 4
      = Some (Inr (bt_aap [BtData ?rest], 0, msg_data ping))"
    using rest by (intro read_chunk) (simp_all add: frame_ping)
  ultimately show ?thesis
    by (simp add: receiver_iter_def frame_ping Let_def RECV_BUFFER_def pings_def)
qed

lemma receive_last: "receiver_iter (pings 3) = Some (Inr (pings 2, 0, Some ping))"
  "receiver_iter (pings 2) = Some (Inr (pings 1, 0, Some ping))"
  using receive_ping [of 2] receive_ping [of 1] by (simp_all add: eval_nat_numeral)

lemma write_fails: "sender_iter (pings k) m = Some (Inr (bt_aap [BtData (concat (replicate k (frame ping)))]
    \<lparr>physicalConnection := BTConn \<lparr>bt_fd = 5, bt_in = [BtData (concat (replicate k (frame ping)))],
       bt_out = [], bt_wire = []\<rparr>\<rparr>, -1))"
  by (simp add: sender_iter_def writeAllAccessory_def writeAll_loop.simps [of _ _ _ 4]
      writeAll_loop.simps [of _ _ _ 5] writeAccessory_def pings_def bt_aap_def)

text \<open>The bridge has received and handled some keepalives; the send thread has not started.\<close>

definition lagging :: "nat \<Rightarrow> nat \<Rightarrow> world \<Rightarrow> bool" where
  "lagging n k w \<longleftrightarrow> con w = pings n \<and> recv_at w = RLoop \<and> send_at w = SStart \<and> main_at w = InLoop \<and>
     working w \<and> pending w = [] \<and> queue_ok (recvQ w) \<and> contents (recvQ w) = [] \<and>
     queue_ok (sendQ w) \<and> contents (sendQ w) = replicate k pong \<and> answers_pings (br w) \<and> others w = [] \<and>
     adding w = None"

lemma lag_more:
  assumes "lagging (Suc n) k w" and "0 < n" and "k < 64"
  shows "\<exists>w'. bridge_run self w w' \<and> lagging n (Suc k) w'"
proof -
  from assms(1) run_receive [of w "pings n" 0 ping self] receive_ping [OF assms(2)] obtain q where
    one: "bridge_run self w (w\<lparr>con := pings n, recvQ := q, received := received w @ [Some ping]\<rparr>)"
    "queue_ok q" "contents q = [Some ping]" by (auto simp: lagging_def)
  let ?w1 = "w\<lparr>con := pings n, recvQ := q, received := received w @ [Some ping]\<rparr>"
  from assms(1) one run_handle [of ?w1 self] obtain q2 b hs where
    two: "bridge_run self ?w1 (?w1\<lparr>recvQ := q2, br := b, pending := [pong], handled := hs\<rparr>)"
    "queue_ok q2" "contents q2 = []" "answers_pings b" by (auto simp: lagging_def)
  let ?w2 = "?w1\<lparr>recvQ := q2, br := b, pending := [pong], handled := hs\<rparr>"
  from assms(1,3) run_add [of ?w2 pong self] obtain q3 x y where
    three: "bridge_run self ?w2 (?w2\<lparr>sendQ := q3, pending := [], mine := x, sent := y\<rparr>)"
    "queue_ok q3" "contents q3 = replicate k pong @ [pong]" by (auto simp: lagging_def simp del: length_contents)
  let ?w3 = "?w2\<lparr>sendQ := q3, pending := [], mine := x, sent := y\<rparr>"
  have "bridge_run self w ?w3"
    by (rule bridge_run_trans [OF three(1) bridge_run_trans [OF two(1) one(1)]])
  moreover have "lagging n (Suc k) ?w3"
    using assms(1) two(2-4) three(2,3) by (simp add: lagging_def replicate_append_same)
  ultimately show ?thesis by blast
qed

lemma lag_full: "lagging (j + n) 0 w \<Longrightarrow> 0 < n \<Longrightarrow> j \<le> 64 \<Longrightarrow>
    \<exists>w'. bridge_run self w w' \<and> lagging n j w'"
proof (induction j arbitrary: n)
  case 0
  then show ?case by (auto intro: run_start)
next
  case (Suc j)
  have "lagging (j + Suc n) 0 w" "j \<le> 64" using Suc.prems by simp_all
  with Suc.IH [of "Suc n"] obtain w1 where w1: "bridge_run self w w1" "lagging (Suc n) j w1" by blast
  from lag_more [OF w1(2) Suc.prems(2), of self] Suc.prems(3) obtain w2 where
    "bridge_run self w1 w2" "lagging n (Suc j) w2" by auto
  with w1(1) show ?case using bridge_run_trans by blast
qed

text \<open>
  The send thread takes one of 64 messages, fails to write it and stops; meanwhile two more
  messages have arrived.
\<close>

lemma send_dies:
  assumes "send_at w = SStart" and "working w" and "con w = pings k" and "queue_ok (sendQ w)"
    and "contents (sendQ w) = Some m # ms"
  shows "\<exists>q c x y. bridge_run self w (w\<lparr>con := c, sendQ := q, working := False, connected := False,
      send_at := SStopped, polled := x\<rparr>) \<and> queue_ok q \<and> contents q = ms"
proof -
  from queue_some(2) [OF assms(4,5)] obtain q where
    q: "pollSendQueue (sendQ w) = Inr (Some m, q)" "queue_ok q" "contents q = ms" by auto
  let ?w1 = "w\<lparr>connected := True, send_at := SLoop\<rparr>"
  let ?w2 = "?w1\<lparr>send_at := SPoll\<rparr>"
  let ?w3 = "?w2\<lparr>sendQ := q, send_at := SWrite m, polled := polled ?w2 @ [Some m]\<rparr>"
  obtain c where c: "sender_iter (con ?w3) m = Some (Inr (c, -1))" using write_fails [of k m] assms(3) by simp
  let ?w4 = "?w3\<lparr>con := c, working := False, send_at := SLoop\<rparr>"
  let ?w5 = "?w4\<lparr>send_at := SExit\<rparr>"
  let ?w6 = "?w5\<lparr>connected := False, send_at := SStopped\<rparr>"
  have "bridge_run self w ?w2"
    using assms by (intro run_two [of self w ?w1] bridge_move.send_start bridge_move.send_enter) simp_all
  moreover have "bridge_run self ?w2 ?w4"
  proof (rule run_two)
    show "bridge_move self ?w2 ?w3" using q by (intro bridge_move.send_take) simp_all
    show "bridge_move self ?w3 ?w4" using c by (intro bridge_move.send_error [where e = "-1"]) simp_all
  qed
  moreover have "bridge_run self ?w4 ?w6"
    by (intro run_two [of self ?w4 ?w5] bridge_move.send_leave bridge_move.send_exit) simp_all
  ultimately have "bridge_run self w ?w6" using bridge_run_trans by blast
  moreover have "?w6 = w\<lparr>con := c, sendQ := q, working := False, connected := False,
      send_at := SStopped, polled := polled w @ [Some m]\<rparr>" by simp
  ultimately show ?thesis using q(2,3) by metis
qed

lemma lag_start: "lagging n 0 (start_world lock static_queue static_queue (pings n) [])"
proof -
  have "length (queue static_queue) = 64" by (simp add: static_queue_def)
  from init_quiet [OF this] show ?thesis
    by (simp add: lagging_def start_world_def answers_pings_def initServer_simps open_service_def)
      (simp add: initServer_def)
qed

lemma run_null:
  assumes "recv_at w = RNull" and "queue_ok (recvQ w)" and "contents (recvQ w) = []"
  shows "\<exists>q. bridge_run self w (w\<lparr>recvQ := q, working := False, recv_at := RStopped,
      received := received w @ [None]\<rparr>) \<and> queue_ok q \<and> contents q = [None]"
proof -
  from queue_room(1) [OF assms(2), of None] assms(3) obtain q where
    q: "addreceivequeue None (recvQ w) = Inr q" "queue_ok q" "contents q = [None]" by auto
  let ?w1 = "w\<lparr>recvQ := q, recv_at := RClear, received := received w @ [None]\<rparr>"
  have "bridge_run self w (?w1\<lparr>working := False, recv_at := RStopped\<rparr>)"
    using assms q by (intro run_two [of self w ?w1] bridge_move.recv_null bridge_move.recv_clear) simp_all
  moreover have "?w1\<lparr>working := False, recv_at := RStopped\<rparr> = w\<lparr>recvQ := q, working := False,
      recv_at := RStopped, received := received w @ [None]\<rparr>" by simp
  ultimately show ?thesis using q(2,3) by metis
qed

lemma run_receiver_stops:
  assumes "recv_at w = RLoop" and "\<not> working w" and "queue_ok (recvQ w)" and "contents (recvQ w) = []"
  shows "\<exists>q x. bridge_run self w (w\<lparr>recvQ := q, recv_at := RStopped, received := x\<rparr>)"
proof -
  let ?w1 = "w\<lparr>recv_at := RNull\<rparr>"
  from assms run_null [of ?w1 self] obtain q where
    "bridge_run self ?w1 (?w1\<lparr>recvQ := q, working := False, recv_at := RStopped, received := received w @ [None]\<rparr>)"
    by auto
  moreover have "bridge_run self w ?w1" using assms by (intro run_one bridge_move.recv_leave)
  ultimately have "bridge_run self w (?w1\<lparr>recvQ := q, working := False, recv_at := RStopped,
      received := received w @ [None]\<rparr>)" by (rule bridge_run_trans)
  moreover have "?w1\<lparr>recvQ := q, working := False, recv_at := RStopped, received := received w @ [None]\<rparr>
      = w\<lparr>recvQ := q, recv_at := RStopped, received := received w @ [None]\<rparr>" using assms(2) by simp
  ultimately show ?thesis by metis
qed

lemma full_queue_reached:
  "\<exists>w. bridge_run self (start_world lock static_queue static_queue (pings 67) []) w \<and>
     main_at w = InLoop \<and> pending w = [pong] \<and> others w = [] \<and> adding w = None \<and> queue_ok (sendQ w) \<and>
     length (contents (sendQ w)) = 64 \<and> recv_at w = RStopped \<and> send_at w = SStopped"
proof -
  let ?w0 = "start_world lock static_queue static_queue (pings 67) []"
  from lag_full [of 64 3 ?w0 self] lag_start [of 67 lock] obtain w where
    w: "bridge_run self ?w0 w" "lagging 3 64 w" by auto
  from w(2) run_receive [of w "pings 2" 0 ping self] receive_last(1) obtain q1 where
    1: "bridge_run self w (w\<lparr>con := pings 2, recvQ := q1, received := received w @ [Some ping]\<rparr>)"
    "queue_ok q1" "contents q1 = [Some ping]" by (auto simp: lagging_def)
  let ?w1 = "w\<lparr>con := pings 2, recvQ := q1, received := received w @ [Some ping]\<rparr>"
  from w(2) 1 run_handle [of ?w1 self] obtain q2 b hs where
    2: "bridge_run self ?w1 (?w1\<lparr>recvQ := q2, br := b, pending := [pong], handled := hs\<rparr>)"
    "queue_ok q2" "contents q2 = []" "answers_pings b" by (auto simp: lagging_def)
  let ?w2 = "?w1\<lparr>recvQ := q2, br := b, pending := [pong], handled := hs\<rparr>"
  from w(2) 2 run_receive [of ?w2 "pings 1" 0 ping self] receive_last(2) obtain q3 where
    3: "bridge_run self ?w2 (?w2\<lparr>con := pings 1, recvQ := q3, received := received ?w2 @ [Some ping]\<rparr>)"
    "queue_ok q3" "contents q3 = [Some ping]" by (auto simp: lagging_def)
  let ?w3 = "?w2\<lparr>con := pings 1, recvQ := q3, received := received ?w2 @ [Some ping]\<rparr>"
  have "contents (sendQ ?w3) = pong # replicate 63 pong" using w(2) by (simp add: lagging_def flip: replicate_Suc)
  with w(2) send_dies [of ?w3 1 "port_message 2 (bytes_of ''pong'')" "replicate 63 pong" self]
  obtain q4 c x where
    4: "bridge_run self ?w3 (?w3\<lparr>con := c, sendQ := q4, working := False, connected := False,
      send_at := SStopped, polled := x\<rparr>)" "queue_ok q4" "contents q4 = replicate 63 pong"
    by (auto simp: lagging_def pong_def)
  let ?w4 = "?w3\<lparr>con := c, sendQ := q4, working := False, connected := False, send_at := SStopped, polled := x\<rparr>"
  from 4 run_add [of ?w4 pong self] obtain q5 y z where
    5: "bridge_run self ?w4 (?w4\<lparr>sendQ := q5, pending := [], mine := y, sent := z\<rparr>)"
    "queue_ok q5" "contents q5 = replicate 63 pong @ [pong]" by (auto simp del: length_contents)
  let ?w5 = "?w4\<lparr>sendQ := q5, pending := [], mine := y, sent := z\<rparr>"
  from w(2) 2 3 run_handle [of ?w5 self] obtain q6 b6 h6 where
    6: "bridge_run self ?w5 (?w5\<lparr>recvQ := q6, br := b6, pending := [pong], handled := h6\<rparr>)"
    "queue_ok q6" "contents q6 = []" by (auto simp: lagging_def)
  let ?w6 = "?w5\<lparr>recvQ := q6, br := b6, pending := [pong], handled := h6\<rparr>"
  from w(2) 6 run_receiver_stops [of ?w6 self] obtain q7 r where
    7: "bridge_run self ?w6 (?w6\<lparr>recvQ := q7, recv_at := RStopped, received := r\<rparr>)"
    by (auto simp: lagging_def)
  from bridge_run_trans [OF 7 bridge_run_trans [OF 6(1) bridge_run_trans [OF 5(1)
      bridge_run_trans [OF 4(1) bridge_run_trans [OF 3(1) bridge_run_trans [OF 2(1)
      bridge_run_trans [OF 1(1) w(1)]]]]]]]
  show ?thesis using w(2) 5(2,3) by (intro exI conjI) (auto simp: lagging_def simp del: length_contents)
qed

text \<open>
  C10: the full queue is a standstill that happens: when Android sends enough keepalives before
  the send thread fails to write for the first time, the bridge stops with 64 answers in
  the send queue, the main thread waiting for room for the next one, and both other threads
  gone. Nothing can move again: the end of the connection, which the receive thread has
  reported, is never handled, and no further device is served.
\<close>

theorem full_queue_standstill:
  "\<exists>c w. aap_ok c \<and> bridge_run self (start_world lock static_queue static_queue c []) w \<and>
     main_at w = InLoop \<and> pending w \<noteq> [] \<and> length (contents (sendQ w)) = 64 \<and>
     recv_at w = RStopped \<and> send_at w = SStopped \<and> \<not> (\<exists>w'. bridge_step self w w')"
proof -
  from full_queue_reached [of self lock] obtain w where
    w: "bridge_run self (start_world lock static_queue static_queue (pings 67) []) w"
    "main_at w = InLoop" "pending w = [pong]" "others w = []" "adding w = None" "queue_ok (sendQ w)"
    "length (contents (sendQ w)) = 64" "recv_at w = RStopped" "send_at w = SStopped" by blast
  have "\<not> bridge_move self w w'" for w'
  proof
    assume "bridge_move self w w'"
    then show False
      by cases (use w add_send in \<open>auto simp del: length_contents dest: add_send\<close>)
  qed
  with w have "\<not> bridge_step self w w'" for w'
    by (auto elim: bridge_step.cases)
  moreover have "aap_ok (pings 67)" by (simp add: pings_def bt_aap_def aap_ok_def)
  ultimately show ?thesis using w by (intro exI [of _ "pings 67"] exI [of _ w]) simp
qed

section \<open>The end of a connection\<close>

definition join_inv :: "world \<Rightarrow> bool" where
  "join_inv w \<longleftrightarrow> (main_at w \<in> {JoinSend, Joined} \<longrightarrow> recv_at w = RStopped) \<and>
     (main_at w = Joined \<longrightarrow> send_at w = SStopped) \<and>
     (send_at w \<in> {SStart, SStopped} \<longrightarrow> \<not> connected w)"

lemma join_keeps: "bridge_step self w w' \<Longrightarrow> join_inv w \<Longrightarrow> join_inv w'"
proof (induction rule: bridge_step.induct)
  case (move w w')
  then show ?case by (induction rule: bridge_move.induct) (auto simp: join_inv_def)
qed

lemma run_join: "bridge_run self (start_world lock q1 q2 c os) w \<Longrightarrow> join_inv w"
proof (induction rule: bridge_run.induct)
  case run_start
  show ?case by (simp add: join_inv_def start_world_def)
next
  case (run_step w w')
  then show ?case by (blast intro: join_keeps)
qed

text \<open>
  C12: a connection (without bulk transfers) that ends, ends in order. When both threads have been joined, the main thread has
  handled every message that was received before the null pointer and cleaned up every service; the receive queue is
  empty, so that freeing its messages meets no null pointer; and a null pointer
  is left in the send queue exactly when the send thread stopped without having seen it, which answers
  the comment on it in \<open>sendqueue.c\<close>.
\<close>

theorem connection_ends_in_order:
  assumes "aap_ok c" and "length (queue q1) = 64" and "length (queue q2) = 64"
    and "bridge_run self (start_world lock q1 q2 c os) w" and "main_at w = Joined"
  shows "received w = map (Some \<circ> fst) (handled w) @ [None] \<and>
    (\<exists>b. messaging_loop (as_polled (handled w) @ [(None, env)]) (initServer lock) = Inr b \<and>
       deInitServer (main_thread self) b = Inr (br w) \<and> mine w = sendq b @ [None]) \<and>
    (\<exists>q. deInitreceiveQueue [] (recvQ w) = Some (Inr ([], q))) \<and>
    (\<exists>freed q. deInitSendQueue [] (sendQ w) = Some (Inr (freed, q))) \<and>
    (None \<in> set (contents (sendQ w)) \<longleftrightarrow> None \<notin> set (polled w)) \<and>
    recv_at w = RStopped \<and> send_at w = SStopped \<and> \<not> working w \<and> \<not> connected w"
proof (intro conjI)
  note inv = run_inv [OF assms(1-4)]
  from run_join [OF assms(4)] assms(5) show stop: "recv_at w = RStopped" "send_at w = SStopped" "\<not> connected w"
    by (auto simp: join_inv_def)
  with inv(3) show "\<not> working w" by (simp add: recv_inv_def)
  have "stream_inv (aap_stream c) (received w) (recv_at w) (aap_stream (con w))"
    using inv(3) unfolding recv_inv_def by blast
  with stop(1) obtain ms where ms: "received w = map Some ms @ [None]" by (auto simp: stream_inv_def)
  have got: "received w = map (Some \<circ> fst) (handled w) @ [None] @ contents (recvQ w)"
    using inv(3) assms(5) by (simp add: recv_inv_def taken_def)
  have "contents (recvQ w) = []"
  proof (rule ccontr)
    assume "contents (recvQ w) \<noteq> []"
    with ms got have "None \<in> set (map Some ms)"
      by (metis append_butlast_last_id append_assoc append_same_eq butlast_snoc in_set_conv_decomp append_Cons append_Nil)
    then show False by auto
  qed
  with got show "received w = map (Some \<circ> fst) (handled w) @ [None]" by simp
  show "\<exists>q. deInitreceiveQueue [] (recvQ w) = Some (Inr ([], q))"
    using deInitreceiveQueue_frees [of "recvQ w" "[]" "[]"] inv(3) \<open>contents (recvQ w) = []\<close>
    by (auto simp: recv_inv_def quiet_def)
  show "\<exists>freed q. deInitSendQueue [] (sendQ w) = Some (Inr (freed, q))"
    using deInitSendQueue_frees [of "sendQ w" "[]"] inv(4) by (auto simp: send_inv_def quiet_def)
  from inv(2) assms(5) have pend: "pending w = []" by (auto simp: main_inv_def main_share_def)
  with inv(2) assms(5) show "\<exists>b. messaging_loop (as_polled (handled w) @ [(None, env)]) (initServer lock) = Inr b \<and>
      deInitServer (main_thread self) b = Inr (br w) \<and> mine w = sendq b @ [None]"
    by (auto simp: main_inv_def main_share_def messaging_loop_handle_all)
  have "filter (\<lambda>m. m = None) (polled w @ contents (sendQ w)) = [None]"
    using null_sent [OF inv(2,5)] assms(5) pend inv(4) by (simp add: send_inv_def)
  then show "None \<in> set (contents (sendQ w)) \<longleftrightarrow> None \<notin> set (polled w)"
    by (auto simp: append_eq_Cons_conv filter_empty_conv filter_eq_Cons_iff)
qed

text \<open>A connection that fails at the first read: the send thread stops before it polls.\<close>

lemma failed_read: "receiver_iter (bt_aap [BtErr]) = Some (Inr (bt_aap [], -1, None))"
  by (simp add: receiver_iter_def readAllAccessory_def readAll_loop.simps [of _ _ 4]
      readAll_loop.simps [of _ _ 5] readAccessory_def bt_aap_def)

lemma short_connection:
  "\<exists>w. bridge_run self (start_world lock static_queue static_queue (bt_aap [BtErr]) []) w \<and>
     main_at w = Joined \<and> handled w = [] \<and> contents (sendQ w) = [None] \<and> written w = []"
proof -
  let ?w0 = "start_world lock static_queue static_queue (bt_aap [BtErr]) []"
  have "length (queue (static_queue :: mmsg msgqueue)) = 64" by (simp add: static_queue_def)
  note empty = init_quiet [OF this]
  let ?w1 = "?w0\<lparr>con := bt_aap [], recv_at := RNull\<rparr>"
  have 1: "bridge_run self ?w0 ?w1"
    by (intro run_one bridge_move.recv_error [where e = "-1"]) (simp_all add: start_world_def failed_read)
  from run_null [of ?w1 self] empty obtain q where
    2: "bridge_run self ?w1 (?w1\<lparr>recvQ := q, working := False, recv_at := RStopped, received := [None]\<rparr>)"
    "queue_ok q" "contents q = [None]" by (auto simp: start_world_def)
  let ?w2 = "?w1\<lparr>recvQ := q, working := False, recv_at := RStopped, received := [None]\<rparr>"
  from queue_some(1) [OF 2(2,3)] obtain q2 where q2: "pollReceiveQueue q = Inr (None, q2)" by auto
  let ?s = "?w2\<lparr>recvQ := q2, main_at := Stopping\<rparr>"
  have "main_now self ?s = main_thread self" by (rule main_now_patient) (simp add: start_world_def)
  with deInitServer_cases [OF initServer_inv, of lock "main_now self ?s"] obtain b where
    b: "deInitServer (main_now self ?s) (initServer lock) = Inr b" "sendq b = [None]" by (auto simp: initServer_def)
  let ?w3 = "?w2\<lparr>recvQ := q2, br := b, pending := [None], main_at := JoinReceive\<rparr>"
  have "bridge_move self ?w2 ?s"
    using q2 by (intro bridge_move.main_stop) (simp_all add: start_world_def)
  moreover have "bridge_move self ?s (?s\<lparr>br := b, pending := new_sends (br ?s) b, main_at := JoinReceive\<rparr>)"
    using b(1) by (intro bridge_move.main_deinit) (simp_all add: start_world_def)
  ultimately have 3: "bridge_run self ?w2 ?w3"
    using b run_two [of self ?w2 ?s] by (simp add: start_world_def new_sends_def initServer_def)
  from run_add [of ?w3 None self] empty(3,4) obtain q3 x y where
    4: "bridge_run self ?w3 (?w3\<lparr>sendQ := q3, pending := [], mine := x, sent := y\<rparr>)" "contents q3 = [None]"
    by (auto simp: start_world_def simp del: length_contents)
  let ?w4 = "?w3\<lparr>sendQ := q3, pending := [], mine := x, sent := y\<rparr>"
  let ?w5 = "?w4\<lparr>main_at := JoinSend\<rparr>"
  let ?w6 = "?w5\<lparr>connected := True, send_at := SLoop\<rparr>"
  let ?w7 = "?w6\<lparr>send_at := SExit\<rparr>"
  let ?w8 = "?w7\<lparr>connected := False, send_at := SStopped\<rparr>"
  have 5: "bridge_run self ?w4 ?w6"
    by (intro run_two [of self ?w4 ?w5] bridge_move.main_join_receive bridge_move.send_start)
      (simp_all add: start_world_def)
  have 6: "bridge_run self ?w6 ?w8"
    by (intro run_two [of self ?w6 ?w7] bridge_move.send_leave bridge_move.send_exit) simp_all
  have 7: "bridge_run self ?w8 (?w8\<lparr>main_at := Joined\<rparr>)"
    by (intro run_one bridge_move.main_join_send) simp_all
  from bridge_run_trans [OF 7 bridge_run_trans [OF 6 bridge_run_trans [OF 5
      bridge_run_trans [OF 4(1) bridge_run_trans [OF 3 bridge_run_trans [OF 2(1) 1]]]]]]
  show ?thesis using 4(2) by (intro exI conjI) (auto simp: start_world_def)
qed

lemma demo_conn_ok: "aap_ok (bt_aap evs)" "length (queue (static_queue :: mmsg msgqueue)) = 64"
  by (simp_all add: bt_aap_def aap_ok_def static_queue_def)

theorem connection_ends_in_order_witness:
  "\<exists>w. bridge_run 1 (start_world 7 static_queue static_queue (bt_aap [BtErr]) []) w \<and> main_at w = Joined \<and>
     received w = [None] \<and> None \<in> set (contents (sendQ w)) \<and> None \<notin> set (polled w)"
proof -
  from short_connection [of 1 7] obtain w where
    w: "bridge_run 1 (start_world 7 static_queue static_queue (bt_aap [BtErr]) []) w" "main_at w = Joined"
      "handled w = []" "contents (sendQ w) = [None]" by blast
  from connection_ends_in_order [OF demo_conn_ok demo_conn_ok(2) w(1,2)] w show ?thesis by auto
qed

theorem threads_refine_messaging_loop_witness:
  "\<exists>w. bridge_run 1 (start_world 7 static_queue static_queue (pings 67) []) w \<and> pending w = [pong] \<and>
     prefix (concat (map frame (map fst (handled w)))) (aap_stream (pings 67))"
proof -
  from full_queue_reached [of 1 7] obtain w where
    w: "bridge_run 1 (start_world 7 static_queue static_queue (pings 67) []) w" "pending w = [pong]" by blast
  have "aap_ok (pings 67)" by (simp add: pings_def demo_conn_ok)
  from threads_refine_messaging_loop [OF this demo_conn_ok(2) demo_conn_ok(2) w(1)] w show ?thesis by blast
qed

theorem threads_standstill_witness:
  "\<exists>w. bridge_run 1 (start_world 7 static_queue static_queue (pings 67) []) w \<and>
     pending w \<noteq> [] \<and> length (contents (sendQ w)) = 64 \<and> send_at w = SStopped"
proof -
  from full_queue_reached [of 1 7] obtain w where
    w: "bridge_run 1 (start_world 7 static_queue static_queue (pings 67) []) w" "main_at w = InLoop"
      "pending w = [pong]" "others w = []" "adding w = None" "queue_ok (sendQ w)"
      "length (contents (sendQ w)) = 64" "recv_at w = RStopped" "send_at w = SStopped" by blast
  have "w' = w" if "bridge_step 1 w w'" for w'
    using that
  proof cases
    case move
    then show ?thesis
      by cases (use w add_send in \<open>auto simp del: length_contents dest: add_send\<close>)
  qed simp_all
  from threads_standstill [OF _ demo_conn_ok(2) demo_conn_ok(2) w(1) this] w show ?thesis
    by (auto simp: pings_def demo_conn_ok)
qed

end
