(* ===== verification/UsbInit.thy ===== *)
theory UsbInit
  imports Prelude
begin

text \<open>
  Bringing an Android device into accessory mode over USB: \<open>initialize.c\<close>, and \<open>openUsb\<close>,
  \<open>closeUsb\<close> and \<open>libusb_error_name\<close> of \<open>usb.c\<close>.

  libusb is not part of the program: every call of it is recorded, with its answer, in a
  trace, and the answers are functions of the trace so far (the record \<open>usb_env\<close>), over which
  all statements quantify. A libusb function other than \<open>libusb_close\<close> that is given a null
  handle is the fault \<open>NullPointer\<close>.
\<close>

section \<open>Devices, calls and answers\<close>

text \<open>
  A configuration descriptor: interfaces, each a list of alternate settings with their
  interface number and the addresses of their endpoints.
\<close>

type_synonym altsetting = "byte \<times> byte list"
type_synonym usb_config = "altsetting list list"

text \<open>
  A listed device: its vendor and product, when \<open>libusb_get_device_descriptor\<close> succeeds, and
  its configuration, when \<open>libusb_get_config_descriptor_by_value\<close> does.
\<close>

record usb_dev =
  descriptor :: "(short \<times> short) option"
  config :: "usb_config option"

datatype usbcall =
    OpenVidPid short short "nat option"
  | OpenListed "nat option"
  | DetachKernel nat
  | ClaimInterface nat nat
  | ReleaseInterface nat nat
  | AttachKernel nat
  | CloseHandle nat
  | ControlOut nat nat nat nat "byte list" int   \<comment> \<open>handle, request, value, index, data, answer\<close>
  | ControlIn nat nat int                        \<comment> \<open>handle, request, answer\<close>
  | FreeDeviceList

record usb_env =
  ue_devices :: "usb_dev list option"                 \<comment> \<open>\<open>None\<close>: the list could not be made\<close>
  ue_open_vid :: "usbcall list \<Rightarrow> nat option"
  ue_open :: "usbcall list \<Rightarrow> nat option"
  ue_kernel_active :: "usbcall list \<Rightarrow> bool"
  ue_out :: "usbcall list \<Rightarrow> int"
  ue_in :: "usbcall list \<Rightarrow> int \<times> byte list"

text \<open>The calls made so far and the globals \<open>aoa_endpoint_in\<close> and \<open>aoa_endpoint_out\<close>.\<close>

record usb_state =
  calls :: "usbcall list"
  aoa_endpoint_in :: int
  aoa_endpoint_out :: int

definition log_call :: "usbcall \<Rightarrow> usb_state \<Rightarrow> usb_state" where
  "log_call c s = s\<lparr>calls := calls s @ [c]\<rparr>"

lemma log_call_sel [simp]:
  "calls (log_call c s) = calls s @ [c]" "aoa_endpoint_in (log_call c s) = aoa_endpoint_in s"
  "aoa_endpoint_out (log_call c s) = aoa_endpoint_out s"
  by (simp_all add: log_call_def)

section \<open>Error names\<close>

text \<open>The error codes of libusb, by the names its header gives them, and any other code.\<close>

datatype libusb_error =
    LIBUSB_SUCCESS
  | LIBUSB_ERROR_IO
  | LIBUSB_ERROR_INVALID_PARAM
  | LIBUSB_ERROR_ACCESS
  | LIBUSB_ERROR_NO_DEVICE
  | LIBUSB_ERROR_NOT_FOUND
  | LIBUSB_ERROR_BUSY
  | LIBUSB_ERROR_TIMEOUT
  | LIBUSB_ERROR_OVERFLOW
  | LIBUSB_ERROR_PIPE
  | LIBUSB_ERROR_INTERRUPTED
  | LIBUSB_ERROR_NO_MEM
  | LIBUSB_ERROR_NOT_SUPPORTED
  | LIBUSB_ERROR_OTHER
  | UnnamedCode int

fun libusb_error_name :: "libusb_error \<Rightarrow> string" where
  "libusb_error_name LIBUSB_SUCCESS = ''LIBUSB_SUCCESS''"
| "libusb_error_name LIBUSB_ERROR_IO = ''LIBUSB_ERROR_IO''"
| "libusb_error_name LIBUSB_ERROR_INVALID_PARAM = ''LIBUSB_ERROR_INVALID_PARAM''"
| "libusb_error_name LIBUSB_ERROR_ACCESS = ''LIBUSB_ERROR_ACCESS''"
| "libusb_error_name LIBUSB_ERROR_NO_DEVICE = ''LIBUSB_ERROR_NO_DEVICE''"
| "libusb_error_name LIBUSB_ERROR_NOT_FOUND = ''LIBUSB_ERROR_NOT_FOUND''"
| "libusb_error_name LIBUSB_ERROR_BUSY = ''LIBUSB_ERROR_BUSY''"
| "libusb_error_name LIBUSB_ERROR_TIMEOUT = ''LIBUSB_ERROR_TIMEOUT''"
| "libusb_error_name LIBUSB_ERROR_OVERFLOW = ''LIBUSB_ERROR_OVERFLOW''"
| "libusb_error_name LIBUSB_ERROR_PIPE = ''LIBUSB_ERROR_PIPE''"
| "libusb_error_name LIBUSB_ERROR_INTERRUPTED = ''LIBUSB_ERROR_INTERRUPTED''"
| "libusb_error_name LIBUSB_ERROR_NO_MEM = ''LIBUSB_ERROR_NO_MEM''"
| "libusb_error_name LIBUSB_ERROR_NOT_SUPPORTED = ''LIBUSB_ERROR_NOT_SUPPORTED''"
| "libusb_error_name LIBUSB_ERROR_OTHER = ''LIBUSB_ERROR_OTHER''"
| "libusb_error_name (UnnamedCode i) = ''**UNKNOWN**''"

text \<open>The printed name tells the codes apart.\<close>

lemma libusb_error_name_tells:
  "libusb_error_name e = libusb_error_name f \<Longrightarrow> e = f \<or> (\<exists>i j. e = UnnamedCode i \<and> f = UnnamedCode j)"
  by (cases e; cases f) simp_all

section \<open>Opening and closing\<close>

definition openUsb :: "usb_env \<Rightarrow> short \<Rightarrow> short \<Rightarrow> usb_state \<Rightarrow> nat option \<times> usb_state" where
  "openUsb env vid pid s =
     (let handle = ue_open_vid env (calls s);
          s = log_call (OpenVidPid vid pid handle) s
      in case handle of None \<Rightarrow> (None, s)
         | Some h \<Rightarrow>
             (let s = (if ue_kernel_active env (calls s) then log_call (DetachKernel h) s else s)
              in (Some h, log_call (ClaimInterface h 0) s)))"

definition closeUsb :: "nat option \<Rightarrow> usb_state \<Rightarrow> usb_state" where
  "closeUsb handle s =
     (case handle of None \<Rightarrow> s
      | Some h \<Rightarrow> log_call (CloseHandle h) (log_call (AttachKernel h) (log_call (ReleaseInterface h 0) s)))"

text \<open>\<open>libusb_release_interface\<close> with a handle that may be null.\<close>

definition release_interface :: "nat option \<Rightarrow> nat \<Rightarrow> usb_state \<Rightarrow> usb_state res" where
  "release_interface handle i s =
     (case handle of None \<Rightarrow> Inl NullPointer | Some h \<Rightarrow> Inr (log_call (ReleaseInterface h i) s))"

definition control_out ::
    "usb_env \<Rightarrow> nat \<Rightarrow> nat \<Rightarrow> nat \<Rightarrow> nat \<Rightarrow> byte list \<Rightarrow> usb_state \<Rightarrow> int \<times> usb_state" where
  "control_out env h req val idx bs s =
     (let response = ue_out env (calls s) in (response, log_call (ControlOut h req val idx bs response) s))"

section \<open>The accessory protocol\<close>

text \<open>
  \<open>ioBuffer\<close> is not initialised: what the device did not transfer is garbage. \<open>wrote\<close> are the
  bytes libusb stored, of which the answer counts at most two.
\<close>

definition checkAndroid :: "usb_env \<Rightarrow> nat \<Rightarrow> usb_state \<Rightarrow> (int \<times> usb_state) res" where
  "checkAndroid env h s =
     (let (response, wrote) = ue_in env (calls s);
          s = log_call (ControlIn h 51 response) s
      in if response < 0 then Inr (-1, s)
         else case take (min 2 (nat response)) wrote of
           [b0, b1] \<Rightarrow> Inr (push_bit 8 (uint b1) OR uint b0, s)
         | _ \<Rightarrow> Inl Uninitialised)"

record identification =
  manufacturer :: "byte list"
  modelName :: "byte list"
  description :: "byte list"
  version :: "byte list"
  uri :: "byte list"
  serialNumber :: "byte list"

text \<open>
  The six transfers of \<open>setupAccessory\<close> differ in the string and its index only, and each one
  that fails returns at once.
\<close>

fun send_ids :: "usb_env \<Rightarrow> nat \<Rightarrow> nat \<Rightarrow> byte list list \<Rightarrow> usb_state \<Rightarrow> (bool \<times> usb_state) res" where
  "send_ids env h idx [] s = Inr (True, s)"
| "send_ids env h idx (str # strs) s =
     bind_res (c_strlen str) (\<lambda>n.
     let (response, s) = control_out env h 52 0 idx (take (n + 1) str) s in
     if response < 0 then Inr (False, s) else send_ids env h (idx + 1) strs s)"

definition setupAccessory ::
    "usb_env \<Rightarrow> identification \<Rightarrow> nat \<Rightarrow> usb_state \<Rightarrow> (nat option \<times> usb_state) res" where
  "setupAccessory env ids h s =
     bind_res (send_ids env h 0 [manufacturer ids, modelName ids, description ids, version ids,
                                 uri ids, serialNumber ids] s) (\<lambda>(sent, s).
     if \<not> sent then Inr (None, s)
     else
       let (_, s) = control_out env h 58 1 0 [] s;
           (response, s) = control_out env h 53 0 0 [] s
       in if response < 0 then Inr (None, s)
          else Inr (None, log_call (CloseHandle h) (log_call (ReleaseInterface h 0) s)))"

section \<open>Endpoints\<close>

fun endpoint_loop :: "byte list \<Rightarrow> usb_state \<Rightarrow> usb_state" where
  "endpoint_loop [] s = s"
| "endpoint_loop (endp # eps) s =
     endpoint_loop eps
       (if endp AND 0x80 \<noteq> 0 then s\<lparr>aoa_endpoint_in := uint endp\<rparr>
        else s\<lparr>aoa_endpoint_out := uint endp\<rparr>)"

fun altsetting_loop :: "altsetting list \<Rightarrow> usb_state \<Rightarrow> usb_state" where
  "altsetting_loop [] s = s"
| "altsetting_loop ((bInterfaceNumber, eps) # alts) s =
     altsetting_loop alts (if bInterfaceNumber \<noteq> 0 then s else endpoint_loop eps s)"

fun interface_loop :: "usb_config \<Rightarrow> usb_state \<Rightarrow> usb_state" where
  "interface_loop [] s = s"
| "interface_loop (iface # ifaces) s = interface_loop ifaces (altsetting_loop iface s)"

definition determineEndpoints :: "usb_dev \<Rightarrow> usb_state \<Rightarrow> usb_state" where
  "determineEndpoints dev s = (case config dev of None \<Rightarrow> s | Some conf \<Rightarrow> interface_loop conf s)"

section \<open>The search for a device\<close>

definition vendors :: "short list" where
  "vendors = [0x0502, 0x0B05, 0x413C, 0x0489, 0x04C5, 0x04C5,
     0x091E, 0x18D1, 0x109B, 0x0BB4, 0x12D1, 0x24E3, 0x2116, 0x0482, 0x17EF,
     0x1004, 0x22B8, 0x0409, 0x2080, 0x0955, 0x2257, 0x10A9, 0x1D4D, 0x0471,
     0x04DA, 0x05C6, 0x1F53, 0x04E8, 0x04DD, 0x054C, 0x0FCE, 0x2340, 0x0930,
     0x19D2]"

definition GOOGLE :: short where "GOOGLE = 0x18d1"
definition ACCESSORY :: short where "ACCESSORY = 0x2D00"
definition ACCESSORY_ADB :: short where "ACCESSORY_ADB = 0x2D01"
definition ACCESSORY_AUDIO :: short where "ACCESSORY_AUDIO = 0x2D04"
definition ACCESSORY_AUDIO_ADB :: short where "ACCESSORY_AUDIO_ADB = 0x2D05"

definition in_accessory_mode :: "short \<Rightarrow> short \<Rightarrow> bool" where
  "in_accessory_mode vid pid \<longleftrightarrow>
     vid = GOOGLE \<and> pid \<in> {ACCESSORY, ACCESSORY_ADB, ACCESSORY_AUDIO, ACCESSORY_AUDIO_ADB}"

text \<open>
  The case of a device in accessory mode. \<open>handle\<close> is still null there, and \<open>libusb_open\<close> sets
  it only when it succeeds.
\<close>

definition take_accessory :: "usb_env \<Rightarrow> usb_dev \<Rightarrow> usb_state \<Rightarrow> (nat option \<times> usb_state) res" where
  "take_accessory env dev s =
     (let handle = ue_open env (calls s);
          s = log_call (OpenListed handle) s;
          s = determineEndpoints dev s
      in bind_res (release_interface handle 0 s) (\<lambda>s.
         bind_res (release_interface handle 1 s) (\<lambda>s.
         Inr (handle, log_call FreeDeviceList s))))"

text \<open>The two loops of the search: they return a result of the function, or go on.\<close>

datatype search = Return "nat option" | GoOn

fun vendor_loop ::
    "usb_env \<Rightarrow> identification \<Rightarrow> usb_dev \<Rightarrow> short \<Rightarrow> short \<Rightarrow> short list \<Rightarrow> usb_state
       \<Rightarrow> (search \<times> usb_state) res" where
  "vendor_loop env ids dev vid pid [] s = Inr (GoOn, s)"
| "vendor_loop env ids dev vid pid (v # vs) s =
     (if vid \<noteq> v then vendor_loop env ids dev vid pid vs s
      else if in_accessory_mode vid pid then
        bind_res (take_accessory env dev s) (\<lambda>(handle, s). Inr (Return handle, s))
      else if vid = GOOGLE \<and> ACCESSORY \<le> pid \<and> pid \<le> ACCESSORY_AUDIO_ADB then Inr (GoOn, s)
      else
        case openUsb env vid pid s of
          (None, s) \<Rightarrow> vendor_loop env ids dev vid pid vs s
        | (Some h, s) \<Rightarrow>
            bind_res (checkAndroid env h s) (\<lambda>(version_supported, s).
            if version_supported = 2 \<or> version_supported = 1 then
              bind_res (setupAccessory env ids h s) (\<lambda>(handle, s).
              Inr (Return None, closeUsb handle (log_call FreeDeviceList s)))
            else vendor_loop env ids dev vid pid vs (closeUsb (Some h) s)))"

fun device_loop ::
    "usb_env \<Rightarrow> identification \<Rightarrow> usb_dev list \<Rightarrow> usb_state \<Rightarrow> (search \<times> usb_state) res" where
  "device_loop env ids [] s = Inr (GoOn, s)"
| "device_loop env ids (dev # devs) s =
     (case descriptor dev of
        None \<Rightarrow> device_loop env ids devs s
      | Some (vid, pid) \<Rightarrow>
          bind_res (vendor_loop env ids dev vid pid vendors s) (\<lambda>(r, s).
          case r of Return handle \<Rightarrow> Inr (Return handle, s)
          | GoOn \<Rightarrow> device_loop env ids devs s))"

text \<open>
  When the device list cannot be made, \<open>cnt\<close> is negative, the loop does not run, and
  \<open>libusb_free_device_list\<close> is given the uninitialised pointer \<open>list\<close>.
\<close>

definition findAndInitAccessory ::
    "usb_env \<Rightarrow> identification \<Rightarrow> usb_state \<Rightarrow> (nat option \<times> usb_state) res" where
  "findAndInitAccessory env ids s =
     (case ue_devices env of
        None \<Rightarrow> Inl Uninitialised
      | Some devs \<Rightarrow>
          bind_res (device_loop env ids devs s) (\<lambda>(r, s).
          case r of Return handle \<Rightarrow> Inr (handle, s)
          | GoOn \<Rightarrow> Inr (None, log_call FreeDeviceList s)))"

section \<open>Handles\<close>

text \<open>The handles that are open after some calls, the last opened first.\<close>

fun held_step :: "usbcall \<Rightarrow> nat list \<Rightarrow> nat list" where
  "held_step (OpenVidPid vid pid (Some h)) hs = h # hs"
| "held_step (OpenListed (Some h)) hs = h # hs"
| "held_step (CloseHandle h) hs = remove1 h hs"
| "held_step c hs = hs"

definition held :: "usb_state \<Rightarrow> nat list" where
  "held s = fold held_step (calls s) []"

lemma held_log_call [simp]: "held (log_call c s) = held_step c (held s)"
  by (simp add: held_def)

lemma held_endpoints [simp]:
  "held (s\<lparr>aoa_endpoint_in := x\<rparr>) = held s" "held (s\<lparr>aoa_endpoint_out := x\<rparr>) = held s"
  by (simp_all add: held_def)

fun is_out :: "usbcall \<Rightarrow> bool" where
  "is_out (ControlOut h req v i bs r) = True"
| "is_out c = False"

fun failed_out :: "usbcall \<Rightarrow> bool" where
  "failed_out (ControlOut h req v i bs r) = (r < 0)"
| "failed_out c = False"

lemma failed_is_out: "failed_out c \<Longrightarrow> is_out c"
  by (cases c) auto

text \<open>The call before the list was freed was a transfer to the device, and it failed.\<close>

definition setup_failed :: "usbcall list \<Rightarrow> bool" where
  "setup_failed cs \<longleftrightarrow> butlast cs \<noteq> [] \<and> failed_out (last (butlast cs))"

text \<open>Steps of the search that go on leave nothing behind.\<close>

definition balanced :: "usb_state \<Rightarrow> usb_state \<Rightarrow> bool" where
  "balanced s s' \<longleftrightarrow> (\<exists>new. calls s' = calls s @ new \<and> held s' = held s \<and>
     FreeDeviceList \<notin> set new \<and> (new \<noteq> [] \<longrightarrow> \<not> is_out (last new)))"

definition outcome :: "nat option \<Rightarrow> usb_state \<Rightarrow> usb_state \<Rightarrow> bool" where
  "outcome r s s' \<longleftrightarrow> (\<exists>new. calls s' = calls s @ new \<and> count_list new FreeDeviceList = 1 \<and>
     (case r of Some h \<Rightarrow> held s' = h # held s
      | None \<Rightarrow> (if setup_failed new then \<exists>h. held s' = h # held s else held s' = held s)))"

lemma balanced_refl [simp]: "balanced s s"
  by (simp add: balanced_def)

lemma balanced_trans [trans]: "balanced s t \<Longrightarrow> balanced t u \<Longrightarrow> balanced s u"
proof -
  assume "balanced s t" and "balanced t u"
  then obtain m n where "calls t = calls s @ m" "held t = held s" "FreeDeviceList \<notin> set m"
      "m \<noteq> [] \<longrightarrow> \<not> is_out (last m)" "calls u = calls t @ n" "held u = held t"
      "FreeDeviceList \<notin> set n" "n \<noteq> [] \<longrightarrow> \<not> is_out (last n)"
    unfolding balanced_def by blast
  then show ?thesis unfolding balanced_def by (intro exI [of _ "m @ n"]) (auto simp: last_append)
qed

lemma count_zero: "x \<notin> set xs \<Longrightarrow> count_list xs x = 0"
  by (induction xs) auto

lemma setup_failed_append:
  assumes "n \<noteq> []" and "m \<noteq> [] \<longrightarrow> \<not> is_out (last m)"
  shows "setup_failed (m @ n) = setup_failed n"
  using assms failed_is_out
  by (cases "butlast n = []") (auto simp: setup_failed_def butlast_append last_append)

lemma balanced_outcome: "balanced s t \<Longrightarrow> outcome r t s' \<Longrightarrow> outcome r s s'"
proof -
  assume "balanced s t" and "outcome r t s'"
  then obtain m n where mn: "calls t = calls s @ m" "held t = held s" "FreeDeviceList \<notin> set m"
      "m \<noteq> [] \<longrightarrow> \<not> is_out (last m)" "calls s' = calls t @ n" "count_list n FreeDeviceList = 1"
    and out: "case r of Some h \<Rightarrow> held s' = h # held t
      | None \<Rightarrow> (if setup_failed n then \<exists>h. held s' = h # held t else held s' = held t)"
    unfolding balanced_def outcome_def by blast
  from mn(6) have "n \<noteq> []" by auto
  with mn out setup_failed_append [of n m] show ?thesis
    unfolding outcome_def by (intro exI [of _ "m @ n"]) (auto simp: count_zero split: option.splits if_splits)
qed

lemma open_keeps: "openUsb env vid pid s = (None, t) \<Longrightarrow> balanced s t"
  by (auto simp: openUsb_def balanced_def Let_def split: option.splits if_splits)

definition opened :: "nat \<Rightarrow> usb_state \<Rightarrow> usb_state \<Rightarrow> bool" where
  "opened h s t \<longleftrightarrow> (\<exists>new. calls t = calls s @ new \<and> held t = h # held s \<and> FreeDeviceList \<notin> set new)"

lemma open_holds: "openUsb env vid pid s = (Some h, t) \<Longrightarrow> opened h s t"
  by (auto simp: openUsb_def opened_def Let_def split: option.splits if_splits)

lemma check_keeps: "opened h s t \<Longrightarrow> checkAndroid env h t = Inr (v, u) \<Longrightarrow> opened h s u"
  by (auto simp: checkAndroid_def opened_def Let_def split: prod.splits if_splits list.splits)

lemma close_balanced: "opened h s t \<Longrightarrow> balanced s (closeUsb (Some h) t)"
  by (auto simp: closeUsb_def opened_def balanced_def)

lemma send_ids_opened:
  "send_ids env h i strs t = Inr (sent, u) \<Longrightarrow> opened h s t \<Longrightarrow>
     opened h s u \<and> (\<not> sent \<longrightarrow> failed_out (last (calls u)))"
proof (induction env h i strs t rule: send_ids.induct)
  case (2 env h idx str strs t)
  show ?case
  proof (cases "ue_out env (calls t) < 0")
    case True
    with 2(2,3) show ?thesis
      by (auto simp: control_out_def Let_def res_simps opened_def)
  next
    case False
    from 2(2) obtain n where n: "c_strlen str = Inr n" by (auto simp: res_simps)
    let ?t = "log_call (ControlOut h 52 0 idx (take (n + 1) str) (ue_out env (calls t))) t"
    have "opened h s ?t" using 2(3) by (auto simp: opened_def)
    moreover have "send_ids env h (idx + 1) strs ?t = Inr (sent, u)"
      using 2(2) n False by (simp add: control_out_def Let_def)
    ultimately show ?thesis using 2(1) [OF n _ _ _] False by (simp add: control_out_def Let_def)
  qed
qed simp

lemma failed_outcome:
  assumes "opened h s t" and "failed_out (last (calls t))" and "calls t \<noteq> calls s"
  shows "outcome None s (log_call FreeDeviceList t)"
proof -
  from assms obtain new where "calls t = calls s @ new" "held t = h # held s" "FreeDeviceList \<notin> set new"
    "new \<noteq> []" by (auto simp: opened_def)
  with assms(2) show ?thesis
    unfolding outcome_def
    by (intro exI [of _ "new @ [FreeDeviceList]"]) (auto simp: setup_failed_def count_zero butlast_append)
qed

lemma opened_new: "opened h s t \<Longrightarrow> calls t \<noteq> calls s"
  by (auto simp: opened_def held_def)

lemma setup_outcome:
  assumes "opened h s t" and "setupAccessory env ids h t = Inr (r, u)"
  shows "r = None \<and> outcome None s (log_call FreeDeviceList u)"
proof -
  from assms(2) obtain sent v where sent:
    "send_ids env h 0 [manufacturer ids, modelName ids, description ids, version ids, uri ids,
       serialNumber ids] t = Inr (sent, v)"
    by (auto simp: setupAccessory_def res_simps)
  with assms(1) have v: "opened h s v" "\<not> sent \<longrightarrow> failed_out (last (calls v))"
    using send_ids_opened by blast+
  show ?thesis
  proof (cases sent)
    case False
    with assms(2) sent have "r = None" "u = v" by (auto simp: setupAccessory_def)
    with v False opened_new failed_outcome show ?thesis by blast
  next
    case True
    define w where "w = snd (control_out env h 53 0 0 [] (snd (control_out env h 58 1 0 [] v)))"
    let ?r = "ue_out env (calls (snd (control_out env h 58 1 0 [] v)))"
    have w: "opened h s w" "last (calls w) = ControlOut h 53 0 0 [] ?r"
      using v(1) by (auto simp: w_def opened_def control_out_def Let_def)
    have u: "r = None" "u = (if ?r < 0 then w else log_call (CloseHandle h) (log_call (ReleaseInterface h 0) w))"
      using assms(2) sent True
      by (auto simp: setupAccessory_def w_def control_out_def Let_def split: if_splits)
    show ?thesis
    proof (cases "?r < 0")
      case True
      with u w opened_new [OF w(1)] failed_outcome [OF w(1)] show ?thesis by simp
    next
      case False
      with u w(1) show ?thesis
        by (auto simp: opened_def outcome_def setup_failed_def count_zero butlast_append)
    qed
  qed
qed

lemma endpoint_loop_calls [simp]: "calls (endpoint_loop eps s) = calls s"
  by (induction eps s rule: endpoint_loop.induct) auto

lemma altsetting_loop_calls [simp]: "calls (altsetting_loop alts s) = calls s"
  by (induction alts s rule: altsetting_loop.induct) auto

lemma interface_loop_calls [simp]: "calls (interface_loop ifs s) = calls s"
  by (induction ifs s rule: interface_loop.induct) auto

lemma determineEndpoints_calls [simp]:
  "calls (determineEndpoints dev s) = calls s" "held (determineEndpoints dev s) = held s"
  by (simp_all add: determineEndpoints_def held_def split: option.split)

lemma take_outcome: "take_accessory env dev s = Inr (r, t) \<Longrightarrow> outcome r s t"
  by (auto simp: take_accessory_def release_interface_def res_simps outcome_def Let_def
      split: option.splits)

definition step_ok :: "usb_state \<Rightarrow> search \<Rightarrow> usb_state \<Rightarrow> bool" where
  "step_ok s r t \<longleftrightarrow> (case r of Return handle \<Rightarrow> outcome handle s t | GoOn \<Rightarrow> balanced s t)"

lemma step_ok_simps [simp]:
  "step_ok s (Return handle) t = outcome handle s t" "step_ok s GoOn t = balanced s t"
  by (simp_all add: step_ok_def)

lemma balanced_step: "balanced s t \<Longrightarrow> step_ok t r u \<Longrightarrow> step_ok s r u"
  by (cases r) (auto intro: balanced_outcome balanced_trans)

lemma vendor_loop_ok: "vendor_loop env ids dev vid pid vs s = Inr (r, t) \<Longrightarrow> step_ok s r t"
proof (induction vs arbitrary: s)
  case Nil
  then show ?case by simp
next
  case (Cons v vs)
  consider "vid \<noteq> v" | "vid = v" "in_accessory_mode vid pid"
    | "vid = v" "\<not> in_accessory_mode vid pid" "vid = GOOGLE \<and> ACCESSORY \<le> pid \<and> pid \<le> ACCESSORY_AUDIO_ADB"
    | "vid = v" "\<not> in_accessory_mode vid pid" "\<not> (vid = GOOGLE \<and> ACCESSORY \<le> pid \<and> pid \<le> ACCESSORY_AUDIO_ADB)"
    by blast
  then show ?case
  proof cases
    case 4
    obtain handle u where u: "openUsb env vid pid s = (handle, u)" by force
    show ?thesis
    proof (cases handle)
      case None
      with Cons.prems 4 u have "vendor_loop env ids dev vid pid vs u = Inr (r, t)"
        by (auto split: if_splits)
      with Cons.IH have "step_ok u r t" .
      with open_keeps u None show ?thesis using balanced_step by blast
    next
      case (Some h)
      with Cons.prems 4 u obtain ver w where w: "checkAndroid env h u = Inr (ver, w)"
        by (auto simp: res_simps)
      have op: "opened h s w" using check_keeps open_holds u Some w by blast
      show ?thesis
      proof (cases "ver = 2 \<or> ver = 1")
        case True
        with Cons.prems 4 u Some w obtain q x where x: "setupAccessory env ids h w = Inr (q, x)"
            "r = Return None" "t = closeUsb q (log_call FreeDeviceList x)"
          by (auto simp: res_simps)
        from setup_outcome [OF op x(1)] x(2,3) show ?thesis by (auto simp: closeUsb_def)
      next
        case False
        with Cons.prems 4 u Some w
        have "vendor_loop env ids dev vid pid vs (closeUsb (Some h) w) = Inr (r, t)" by auto
        with Cons.IH close_balanced [OF op] balanced_step show ?thesis by blast
      qed
    qed
  qed (use Cons take_outcome in \<open>auto simp: res_simps\<close>)
qed

lemma device_loop_ok: "device_loop env ids devs s = Inr (r, t) \<Longrightarrow> step_ok s r t"
proof (induction devs arbitrary: s)
  case Nil
  then show ?case by simp
next
  case (Cons dev devs)
  show ?case
  proof (cases "descriptor dev")
    case None
    with Cons show ?thesis by auto
  next
    case (Some d)
    obtain vid pid where "d = (vid, pid)" by force
    with Some Cons.prems obtain q u where q: "vendor_loop env ids dev vid pid vendors s = Inr (q, u)"
      "(case q of Return handle \<Rightarrow> Inr (Return handle, u) | GoOn \<Rightarrow> device_loop env ids devs u) = Inr (r, t)"
      by (auto simp: res_simps)
    with vendor_loop_ok have "step_ok s q u" by blast
    with q(2) Cons.IH [of u] balanced_step show ?thesis by (cases q) auto
  qed
qed

lemma search_outcome:
  assumes "findAndInitAccessory env ids s = Inr (r, s')"
  shows "outcome r s s'"
proof -
  obtain devs where "ue_devices env = Some devs"
    using assms by (cases "ue_devices env") (simp_all add: findAndInitAccessory_def)
  moreover obtain q t where loop: "device_loop env ids devs s = Inr (q, t)"
    using assms calculation by (auto simp: findAndInitAccessory_def res_simps)
  ultimately have q: "(case q of Return handle \<Rightarrow> Inr (handle, t)
      | GoOn \<Rightarrow> Inr (None, log_call FreeDeviceList t)) = (Inr (r, s') :: _ res)"
    using assms by (simp add: findAndInitAccessory_def)
  from loop have "step_ok s q t" using device_loop_ok by blast
  moreover have "outcome None t (log_call FreeDeviceList t)"
    by (simp add: outcome_def setup_failed_def)
  ultimately show "outcome r s s'"
    using q balanced_outcome by (cases q) auto
qed

text \<open>
  C21: whatever libusb answers and however many devices there are, a search that returns has
  freed the device list exactly once; the handle it returns is the only one it left open; and
  when it returns none, it left none open, except after a failed transfer of the accessory
  identification: \<open>setupAccessory\<close> then returns NULL with the device still open, and that
  handle is lost.
\<close>

theorem findAndInitAccessory_handles:
  assumes "findAndInitAccessory env ids s = Inr (r, s')"
  shows "\<exists>new. calls s' = calls s @ new \<and> count_list new FreeDeviceList = 1 \<and>
    (case r of Some h \<Rightarrow> held s' = h # held s
     | None \<Rightarrow> (if setup_failed new then \<exists>h. held s' = h # held s else held s' = held s))"
  using search_outcome [OF assms] by (simp add: outcome_def)

section \<open>The identification protocol\<close>

text \<open>A transfer without its handle and answer: request, value, index and data.\<close>

type_synonym request = "nat \<times> nat \<times> nat \<times> byte list"

fun request_of :: "usbcall \<Rightarrow> request option" where
  "request_of (ControlOut h req val idx bs r) = Some (req, val, idx, bs)"
| "request_of c = None"

fun id_requests :: "nat \<Rightarrow> byte list list \<Rightarrow> request list" where
  "id_requests idx [] = []"
| "id_requests idx (x # xs) = (52, 0, idx, x @ [0]) # id_requests (idx + 1) xs"

lemma length_id_requests [simp]: "length (id_requests i xs) = length xs"
  by (induction i xs rule: id_requests.induct) auto

definition setup_script :: "byte list list \<Rightarrow> request list" where
  "setup_script xs = id_requests 0 xs @ [(58, 1, 0, []), (53, 0, 0, [])]"

text \<open>The pointer \<open>p\<close> shows the C string \<open>x\<close>.\<close>

definition shows_str :: "byte list \<Rightarrow> byte list \<Rightarrow> bool" where
  "shows_str p x \<longleftrightarrow> 0 \<notin> set x \<and> (\<exists>rest. p = x @ 0 # rest)"

definition ids_show :: "identification \<Rightarrow> byte list list \<Rightarrow> bool" where
  "ids_show ids xs \<longleftrightarrow>
     list_all2 shows_str [manufacturer ids, modelName ids, description ids, version ids, uri ids,
       serialNumber ids] xs"

text \<open>The requests of \<open>new\<close> are the first of the script, up to one that failed.\<close>

definition stopped_at :: "nat \<Rightarrow> request list \<Rightarrow> usbcall list \<Rightarrow> bool" where
  "stopped_at k script new \<longleftrightarrow> k < length script \<and>
     map request_of new = map Some (take (Suc k) script) \<and> failed_out (last new)"

lemma stopped_at_Cons:
  "stopped_at k script new \<Longrightarrow> request_of c = Some q \<Longrightarrow> stopped_at (Suc k) (q # script) (c # new)"
  by (cases new) (auto simp: stopped_at_def)

lemma send_ids_requests:
  "list_all2 shows_str strs xs \<Longrightarrow>
     \<exists>sent u new. send_ids env h idx strs s = Inr (sent, u) \<and> calls u = calls s @ new \<and>
       (if sent then map request_of new = map Some (id_requests idx xs) \<and> list_all (Not \<circ> failed_out) new
        else \<exists>k. stopped_at k (id_requests idx xs) new)"
proof (induction strs xs arbitrary: idx s rule: list_all2_induct)
  case Nil
  show ?case by (intro exI [of _ True]) simp
next
  case (Cons p strs x xs)
  then obtain rest where p: "p = x @ 0 # rest" "0 \<notin> set x" by (auto simp: shows_str_def)
  then have len: "c_strlen p = Inr (length x)" "take (length x + 1) p = x @ [0]"
    by (auto simp: c_strlen_append)
  let ?c = "ControlOut h 52 0 idx (x @ [0]) (ue_out env (calls s))"
  show ?case
  proof (cases "ue_out env (calls s) < 0")
    case True
    with len have "send_ids env h idx (p # strs) s = Inr (False, log_call ?c s)"
      by (simp add: control_out_def Let_def)
    moreover have "stopped_at 0 (id_requests idx (x # xs)) [?c]"
      using True by (simp add: stopped_at_def)
    ultimately show ?thesis by force
  next
    case False
    from Cons.IH [of "idx + 1" "log_call ?c s"] obtain sent u new where
      rec: "send_ids env h (idx + 1) strs (log_call ?c s) = Inr (sent, u)"
        "calls u = calls s @ ?c # new"
        "if sent then map request_of new = map Some (id_requests (idx + 1) xs) \<and> list_all (Not \<circ> failed_out) new
         else \<exists>k. stopped_at k (id_requests (idx + 1) xs) new"
      by auto
    have "send_ids env h idx (p # strs) s = Inr (sent, u)"
      using rec(1) len False by (simp add: control_out_def Let_def)
    moreover have "request_of ?c = Some (52, 0, idx, x @ [0])" by simp
    note more = stopped_at_Cons [OF _ this]
    have "if sent then map request_of (?c # new) = map Some (id_requests idx (x # xs)) \<and>
          list_all (Not \<circ> failed_out) (?c # new)
        else \<exists>k. stopped_at k (id_requests idx (x # xs)) (?c # new)"
    proof (cases sent)
      case True
      with rec(3) False show ?thesis by simp
    next
      case False
      with rec(3) obtain k where "stopped_at k (id_requests (idx + 1) xs) new" by auto
      from more [OF this] False show ?thesis by auto
    qed
    with calculation rec(2) show ?thesis by blast
  qed
qed

lemma stopped_at_append: "stopped_at k script new \<Longrightarrow> stopped_at k (script @ extra) new"
  by (auto simp: stopped_at_def)

definition setup_calls :: "byte list list \<Rightarrow> nat \<Rightarrow> usbcall list \<Rightarrow> bool" where
  "setup_calls xs h new \<longleftrightarrow>
     map request_of (take 8 new) = map Some (setup_script xs) \<and>
       drop 8 new = [ReleaseInterface h 0, CloseHandle h] \<and>
       (\<forall>i<8. i \<noteq> 6 \<longrightarrow> \<not> failed_out (new ! i)) \<or>
     (\<exists>k. k \<noteq> 6 \<and> stopped_at k (setup_script xs) new)"

lemma setup_after_ids:
  assumes run: "send_ids env h 0 [manufacturer ids, modelName ids, description ids, version ids,
      uri ids, serialNumber ids] s = Inr (True, u)"
    and new: "calls u = calls s @ new" and len: "length xs = 6"
    and ids: "map request_of new = map Some (id_requests 0 xs)" "list_all (Not \<circ> failed_out) new"
  shows "\<exists>s' new. setupAccessory env ids h s = Inr (None, s') \<and> calls s' = calls s @ new \<and>
    setup_calls xs h new"
proof -
  define a where "a = ControlOut h 58 1 0 [] (ue_out env (calls u))"
  define r where "r = ue_out env (calls u @ [a])"
  define b where "b = ControlOut h 53 0 0 [] r"
  have step: "setupAccessory env ids h s = Inr (None,
      if r < 0 then log_call b (log_call a u)
      else log_call (CloseHandle h) (log_call (ReleaseInterface h 0) (log_call b (log_call a u))))"
    using run by (simp add: setupAccessory_def control_out_def Let_def a_def b_def r_def)
  from ids(1) have len6: "length new = 6" using len by (metis length_id_requests length_map)
  show ?thesis
  proof (cases "r < 0")
    case True
    have "stopped_at 7 (setup_script xs) (new @ [a, b])"
      using ids(1) len True by (simp add: stopped_at_def setup_script_def a_def b_def)
    with step True new show ?thesis
      by (intro exI [of _ "log_call b (log_call a u)"] exI [of _ "new @ [a, b]"])
        (auto simp: setup_calls_def intro!: disjI2 exI [of _ 7])
  next
    case False
    let ?new = "new @ [a, b, ReleaseInterface h 0, CloseHandle h]"
    have "\<not> failed_out (?new ! i)" if "i < 8" "i \<noteq> 6" for i
    proof (cases "i < 6")
      case True
      with ids(2) len6 show ?thesis by (auto simp: nth_append list_all_length)
    next
      case False
      with that len6 \<open>\<not> r < 0\<close> have "i = 7" by simp
      with len6 \<open>\<not> r < 0\<close> show ?thesis by (simp add: nth_append b_def)
    qed
    moreover have "map request_of (take 8 ?new) = map Some (setup_script xs)"
      using ids(1) len6 by (simp add: setup_script_def a_def b_def)
    ultimately show ?thesis using step False new len6
      by (intro exI [of _ "log_call (CloseHandle h) (log_call (ReleaseInterface h 0) (log_call b (log_call a u)))"]
          exI [of _ ?new]) (simp add: setup_calls_def)
  qed
qed

text \<open>
  For six C strings \<open>setupAccessory\<close> sends the identification in the order the accessory
  protocol asks for, asks for audio, starts accessory mode, and closes the device; a failed
  transfer ends it there (with the device still open), save that the answer to the audio
  request is not looked at.
\<close>

theorem setupAccessory_protocol:
  assumes "ids_show ids xs"
  shows "\<exists>s' new. setupAccessory env ids h s = Inr (None, s') \<and> calls s' = calls s @ new \<and>
    (map request_of (take 8 new) = map Some (setup_script xs) \<and>
       drop 8 new = [ReleaseInterface h 0, CloseHandle h] \<and>
       (\<forall>i<8. i \<noteq> 6 \<longrightarrow> \<not> failed_out (new ! i)) \<or>
     (\<exists>k. k \<noteq> 6 \<and> stopped_at k (setup_script xs) new))"
proof -
  let ?strs = "[manufacturer ids, modelName ids, description ids, version ids, uri ids, serialNumber ids]"
  have len: "length xs = 6" using assms by (auto simp: ids_show_def dest: list_all2_lengthD)
  from assms send_ids_requests [of ?strs xs env h 0 s] obtain sent u new where
    run: "send_ids env h 0 ?strs s = Inr (sent, u)" and new: "calls u = calls s @ new"
    and req: "if sent then map request_of new = map Some (id_requests 0 xs) \<and> list_all (Not \<circ> failed_out) new
       else \<exists>k. stopped_at k (id_requests 0 xs) new"
    unfolding ids_show_def by blast
  have "\<exists>s' new. setupAccessory env ids h s = Inr (None, s') \<and> calls s' = calls s @ new \<and> setup_calls xs h new"
  proof (cases sent)
    case True
    with setup_after_ids [of env h ids s u new xs] run new len req show ?thesis by simp
  next
    case False
    with req obtain k where "stopped_at k (id_requests 0 xs) new" by auto
    with len have "k \<noteq> 6" "stopped_at k (setup_script xs) new"
      by (auto simp: stopped_at_def setup_script_def)
    with run new False show ?thesis by (auto simp: setupAccessory_def setup_calls_def)
  qed
  then show ?thesis by (simp add: setup_calls_def)
qed

section \<open>Endpoints\<close>

text \<open>The endpoints of the regular interface, that is of number 0, in order.\<close>

definition regular_endpoints :: "usb_config \<Rightarrow> byte list" where
  "regular_endpoints conf = concat [eps. (n, eps) \<leftarrow> concat conf, n = 0]"

definition last_or :: "int \<Rightarrow> byte list \<Rightarrow> int" where
  "last_or x eps = (if eps = [] then x else uint (last eps))"

definition with_endpoints :: "byte list \<Rightarrow> usb_state \<Rightarrow> usb_state" where
  "with_endpoints eps s = s
     \<lparr>aoa_endpoint_in := last_or (aoa_endpoint_in s) (filter (\<lambda>e. e AND 0x80 \<noteq> 0) eps),
      aoa_endpoint_out := last_or (aoa_endpoint_out s) (filter (\<lambda>e. e AND 0x80 = 0) eps)\<rparr>"

lemma last_or_append [simp]: "last_or (last_or x xs) ys = last_or x (xs @ ys)"
  by (simp add: last_or_def)

lemma with_endpoints_append: "with_endpoints ys (with_endpoints xs s) = with_endpoints (xs @ ys) s"
  by (simp add: with_endpoints_def)

lemma with_endpoints_Nil [simp]: "with_endpoints [] s = s"
  by (simp add: with_endpoints_def last_or_def)

lemma endpoint_loop_with: "endpoint_loop eps s = with_endpoints eps s"
proof (induction eps s rule: endpoint_loop.induct)
  case (2 e eps s)
  have "(if e AND 0x80 \<noteq> 0 then s\<lparr>aoa_endpoint_in := uint e\<rparr> else s\<lparr>aoa_endpoint_out := uint e\<rparr>) =
      with_endpoints [e] s"
    by (simp add: with_endpoints_def last_or_def)
  with 2 show ?case by (simp add: with_endpoints_append)
qed simp

lemma altsetting_loop_with:
  "altsetting_loop alts s = with_endpoints (regular_endpoints [alts]) s"
proof (induction alts s rule: altsetting_loop.induct)
  case (2 n eps alts s)
  then show ?case
    by (cases "n = 0") (simp_all add: endpoint_loop_with with_endpoints_append regular_endpoints_def)
qed (simp add: regular_endpoints_def)

lemma interface_loop_with: "interface_loop conf s = with_endpoints (regular_endpoints conf) s"
proof (induction conf s rule: interface_loop.induct)
  case (2 alts conf s)
  have "regular_endpoints (alts # conf) = regular_endpoints [alts] @ regular_endpoints conf"
    by (simp add: regular_endpoints_def)
  with 2 show ?case by (simp add: altsetting_loop_with with_endpoints_append)
qed (simp add: regular_endpoints_def)

text \<open>
  The three nested loops of \<open>determineEndpoints\<close> amount to this: of the endpoints of the
  interface with number 0, over all its alternate settings, the last inbound one and the
  last outbound one become the endpoints of the connection; where there is none the global
  keeps the value of an earlier device.
\<close>

theorem determineEndpoints_last:
  "determineEndpoints dev s =
     (case config dev of None \<Rightarrow> s
      | Some conf \<Rightarrow>
          let eps = regular_endpoints conf in
          s\<lparr>aoa_endpoint_in := last_or (aoa_endpoint_in s) (filter (\<lambda>e. e AND 0x80 \<noteq> 0) eps),
            aoa_endpoint_out := last_or (aoa_endpoint_out s) (filter (\<lambda>e. e AND 0x80 = 0) eps)\<rparr>)"
  by (simp add: determineEndpoints_def interface_loop_with with_endpoints_def Let_def split: option.split)

section \<open>A device in accessory mode\<close>

lemma vendor_loop_accessory:
  "in_accessory_mode vid pid \<Longrightarrow> vid \<in> set vs \<Longrightarrow>
     vendor_loop env ids dev vid pid vs s =
       bind_res (take_accessory env dev s) (\<lambda>(handle, s). Inr (Return handle, s))"
  by (induction vs) auto

lemma google_listed: "in_accessory_mode vid pid \<Longrightarrow> vid \<in> set vendors"
  by (simp add: in_accessory_mode_def GOOGLE_def vendors_def)

lemma device_loop_accessory:
  assumes "\<forall>d\<in>set before. descriptor d = None" and "descriptor dev = Some (vid, pid)"
    and "in_accessory_mode vid pid"
  shows "device_loop env ids (before @ dev # devs) s =
    bind_res (take_accessory env dev s) (\<lambda>(handle, s). Inr (Return handle, s))"
  using assms(1)
proof (induction before)
  case Nil
  show ?case
    by (cases "take_accessory env dev s")
      (auto simp: assms(2) vendor_loop_accessory [OF assms(3) google_listed [OF assms(3)]])
qed simp

text \<open>
  The first readable device, when it is in accessory mode, is the one the search takes: it
  is opened and its endpoints become those of the connection. When it cannot be opened, the
  error is only printed, and a null handle is passed on to libusb.
\<close>

theorem accessory_taken:
  assumes "ue_devices env = Some (before @ dev # devs)" and "\<forall>d\<in>set before. descriptor d = None"
    and "descriptor dev = Some (vid, pid)" and "in_accessory_mode vid pid"
  shows "findAndInitAccessory env ids s =
    (case ue_open env (calls s) of None \<Rightarrow> Inl NullPointer
     | Some h \<Rightarrow> Inr (Some h, (determineEndpoints dev s)
         \<lparr>calls := calls s @ [OpenListed (Some h), ReleaseInterface h 0, ReleaseInterface h 1, FreeDeviceList]\<rparr>))"
proof (cases "ue_open env (calls s)")
  case None
  with assms device_loop_accessory [OF assms(2-4)] show ?thesis
    by (simp add: findAndInitAccessory_def take_accessory_def release_interface_def Let_def)
next
  case (Some h)
  have "determineEndpoints dev (log_call c s) = log_call c (determineEndpoints dev s)" for c
    by (simp add: determineEndpoints_last log_call_def Let_def split: option.split)
  with assms device_loop_accessory [OF assms(2-4)] Some show ?thesis
    by (simp add: findAndInitAccessory_def take_accessory_def release_interface_def log_call_def Let_def)
qed

section \<open>A phone that is switched to accessory mode\<close>

definition demo_ids :: identification where
  "demo_ids = \<lparr>manufacturer = [73, 0], modelName = [65, 0], description = [66, 0], version = [49, 0],
     uri = [104, 0], serialNumber = [48, 0]\<rparr>"

text \<open>A Samsung phone with accessory protocol 2 that refuses the transfer after \<open>n\<close> calls.\<close>

definition demo_usb_env :: "nat \<Rightarrow> usb_env" where
  "demo_usb_env n = \<lparr>ue_devices = Some [\<lparr>descriptor = Some (0x04E8, 0x6860), config = None\<rparr>],
     ue_open_vid = (\<lambda>tr. Some 1), ue_open = (\<lambda>tr. Some 2), ue_kernel_active = (\<lambda>tr. False),
     ue_out = (\<lambda>tr. if length tr = n then -1 else 2), ue_in = (\<lambda>tr. (2, [2, 0]))\<rparr>"

definition demo_usb_state :: usb_state where
  "demo_usb_state = \<lparr>calls = [], aoa_endpoint_in = 0, aoa_endpoint_out = 0\<rparr>"

lemma demo_switched:
  "\<exists>s'. findAndInitAccessory (demo_usb_env 4) demo_ids demo_usb_state = Inr (None, s') \<and>
     calls s' = [OpenVidPid 0x04E8 0x6860 (Some 1), ClaimInterface 1 0, ControlIn 1 51 2,
       ControlOut 1 52 0 0 [73, 0] 2, ControlOut 1 52 0 1 [65, 0] (-1), FreeDeviceList]"
proof -
  have "case findAndInitAccessory (demo_usb_env 4) demo_ids demo_usb_state of
      Inr (None, s') \<Rightarrow> calls s' = [OpenVidPid 0x04E8 0x6860 (Some 1), ClaimInterface 1 0, ControlIn 1 51 2,
       ControlOut 1 52 0 0 [73, 0] 2, ControlOut 1 52 0 1 [65, 0] (-1), FreeDeviceList]
    | _ \<Rightarrow> False"
    by code_simp
  then show ?thesis by (auto split: sum.splits option.splits)
qed

theorem findAndInitAccessory_handles_witness:
  "\<exists>s' h. findAndInitAccessory (demo_usb_env 4) demo_ids demo_usb_state = Inr (None, s') \<and> held s' = [h]"
proof -
  obtain s' where run: "findAndInitAccessory (demo_usb_env 4) demo_ids demo_usb_state = Inr (None, s')"
    "calls s' = [OpenVidPid 0x04E8 0x6860 (Some 1), ClaimInterface 1 0, ControlIn 1 51 2,
       ControlOut 1 52 0 0 [73, 0] 2, ControlOut 1 52 0 1 [65, 0] (-1), FreeDeviceList]"
    using demo_switched by blast
  have "calls demo_usb_state = []" "held demo_usb_state = []"
    by (simp_all add: demo_usb_state_def held_def)
  with findAndInitAccessory_handles [OF run(1)] run(2) have "\<exists>h. held s' = [h]"
    by (simp add: setup_failed_def)
  with run(1) show ?thesis by blast
qed

theorem setupAccessory_protocol_witness:
  "\<exists>s'. setupAccessory (demo_usb_env 0) demo_ids 1 demo_usb_state = Inr (None, s') \<and>
     (drop 8 (calls s') = [ReleaseInterface 1 0, CloseHandle 1] \<or> failed_out (last (calls s')))"
proof -
  have "ids_show demo_ids [[73], [65], [66], [49], [104], [48]]"
    by (simp add: ids_show_def demo_ids_def shows_str_def)
  moreover have "calls demo_usb_state = []" by (simp add: demo_usb_state_def)
  ultimately show ?thesis
    using setupAccessory_protocol [of demo_ids _ "demo_usb_env 0" 1 demo_usb_state]
    by (auto simp: stopped_at_def)
qed

theorem accessory_taken_witness:
  "findAndInitAccessory ((demo_usb_env 0)\<lparr>ue_devices := Some [\<lparr>descriptor = Some (0x18d1, 0x2D01), config = None\<rparr>],
       ue_open := (\<lambda>tr. None)\<rparr>) demo_ids demo_usb_state = Inl NullPointer"
  using accessory_taken [of "(demo_usb_env 0)\<lparr>ue_devices := Some [\<lparr>descriptor = Some (0x18d1, 0x2D01), config = None\<rparr>],
       ue_open := (\<lambda>tr. None)\<rparr>" "[]" _ _ "0x18d1" "0x2D01" demo_ids demo_usb_state]
  by (simp add: in_accessory_mode_def GOOGLE_def ACCESSORY_ADB_def)

end
