(* ===== verification/Bluetooth.thy ===== *)
theory Bluetooth
  imports Prelude
begin

text \<open>
  Listening on bluetooth, \<open>bt.c\<close>: the parser of textual UUIDs, the record that is registered
  with the local SDP server, and the listening socket. The calls of the socket and SDP
  libraries are recorded; their answers are an argument (\<open>bt_env\<close>).
\<close>

section \<open>UUIDs\<close>

text \<open>
  What \<open>sscanf\<close> with \<open>%x\<close> reads from a string of two characters: white space is skipped, a sign
  and a prefix \<open>0x\<close> may come first, and reading ends at the first other character. \<open>None\<close>: no
  number was read and nothing is stored.
\<close>

definition hex_digit :: "byte \<Rightarrow> nat option" where
  "hex_digit c =
     (if 48 \<le> c \<and> c \<le> 57 then Some (unat c - 48)
      else if 97 \<le> c \<and> c \<le> 102 then Some (unat c - 87)
      else if 65 \<le> c \<and> c \<le> 70 then Some (unat c - 55)
      else None)"

definition is_space :: "byte \<Rightarrow> bool" where
  "is_space c \<longleftrightarrow> c = 32 \<or> 9 \<le> c \<and> c \<le> 13"

fun scan_unsigned :: "byte list \<Rightarrow> uint32 option" where
  "scan_unsigned [] = None"
| "scan_unsigned [c] = map_option of_nat (hex_digit c)"
| "scan_unsigned (c # d # cs) =
     (case (hex_digit c, hex_digit d) of
        (None, _) \<Rightarrow> None
      | (Some h, Some l) \<Rightarrow> Some (of_nat (16 * h + l))
      | (Some h, None) \<Rightarrow> if c = 48 \<and> d \<in> {88, 120} then None else Some (of_nat h))"

definition scan_hex :: "byte \<Rightarrow> byte \<Rightarrow> uint32 option" where
  "scan_hex c0 c1 =
     (case dropWhile is_space (takeWhile (\<lambda>c. c \<noteq> 0) [c0, c1]) of
        [] \<Rightarrow> None
      | c # cs \<Rightarrow>
          if c = 43 then scan_unsigned cs
          else if c = 45 then map_option uminus (scan_unsigned cs)
          else scan_unsigned (c # cs))"

text \<open>\<open>while(str[ch_nr] == '-') ch_nr++\<close>, over what the pointer can read.\<close>

fun skip_dashes :: "byte list \<Rightarrow> nat \<Rightarrow> nat res" where
  "skip_dashes [] ch_nr = Inl OutOfBounds"
| "skip_dashes (c # cs) ch_nr = (if c = 45 then skip_dashes cs (ch_nr + 1) else Inr ch_nr)"

text \<open>The loop over the 16 bytes of the UUID, of which \<open>todo\<close> are left.\<close>

fun uuid_bytes :: "byte list \<Rightarrow> nat \<Rightarrow> nat \<Rightarrow> nat \<Rightarrow> byte list \<Rightarrow> (int \<times> byte list) res" where
  "uuid_bytes str n 0 ch_nr uuid = Inr (0, uuid)"
| "uuid_bytes str n (Suc todo) ch_nr uuid =
     bind_res (skip_dashes (drop ch_nr str) ch_nr) (\<lambda>ch_nr.
     if n \<le> ch_nr then Inr (2, uuid)
     else
       bind_res (rd str ch_nr) (\<lambda>c0.
       bind_res (rd str (ch_nr + 1)) (\<lambda>c1.
       case scan_hex c0 c1 of None \<Rightarrow> Inl Uninitialised
       | Some result \<Rightarrow> uuid_bytes str n todo (ch_nr + 2) (uuid @ [ucast result]))))"

definition sdp_strn2uuid :: "byte list \<Rightarrow> nat \<Rightarrow> (int \<times> byte list) res" where
  "sdp_strn2uuid str n = (if n < 32 then Inr (1, []) else uuid_bytes str n 16 0 [])"

section \<open>The service record\<close>

text \<open>The 16-bit UUIDs, by the names the BlueZ headers give their numbers.\<close>

datatype sdp_id =
  SERIAL_PORT_SVCLASS_ID | SERIAL_PORT_PROFILE_ID | PUBLIC_BROWSE_GROUP | L2CAP_UUID | RFCOMM_UUID

datatype sdp_uuid = Uuid128 "byte list" | Uuid16 sdp_id

record sdp_record =
  service_classes :: "sdp_uuid list"
  profiles :: "(sdp_uuid \<times> short) list"
  browse_groups :: "sdp_uuid list"
  access_protos :: "(sdp_uuid \<times> byte option) list"   \<comment> \<open>a protocol and its channel\<close>
  service_name :: "byte list"
  service_provider :: "byte list option"
  service_description :: "byte list"

datatype bt_call =
    Socket int
  | Bind int byte
  | Listen int
  | SdpConnect "nat option"
  | SdpRegister nat sdp_record int
  | SdpClose nat
  | CloseSocket int

record bt_env =
  bte_socket :: int
  bte_bind :: int
  bte_listen :: int
  bte_connect :: "nat option"
  bte_register :: int

definition custom_uuid_str :: "byte list" where
  "custom_uuid_str = bytes_of ''b5c1cc93-5e2f-e357-d00e-a6c2771c4659'' @ [0]"

text \<open>
  The loop over \<open>bt_uuids\<close>: \<open>i\<close> indexes that array, whose elements are pointers to C strings
  or NULL, and \<open>custom_uuids[100]\<close>, which \<open>sdp_strn2uuid\<close> writes unless the string is short.
\<close>

fun uuid_classes :: "byte list option list \<Rightarrow> nat \<Rightarrow> sdp_uuid list res" where
  "uuid_classes [] i = Inl OutOfBounds"
| "uuid_classes (None # us) i = Inr []"
| "uuid_classes (Some u # us) i =
     bind_res (c_strlen u) (\<lambda>n.
     if 32 \<le> n \<and> 100 \<le> i then Inl OutOfBounds
     else
       bind_res (sdp_strn2uuid u n) (\<lambda>(errorcode, uuid).
       bind_res (uuid_classes us (i + 1)) (\<lambda>classes.
       Inr (if errorcode \<noteq> 0 then classes else Uuid128 uuid # classes))))"

definition the_record ::
    "byte list \<Rightarrow> byte list \<Rightarrow> byte list option \<Rightarrow> sdp_uuid list \<Rightarrow> byte list \<Rightarrow> byte \<Rightarrow> sdp_record" where
  "the_record name dsc prov classes custom channel =
     \<lparr>service_classes = classes @ [Uuid128 custom, Uuid16 SERIAL_PORT_SVCLASS_ID],
      profiles = [(Uuid16 SERIAL_PORT_PROFILE_ID, 0x0100)],
      browse_groups = [Uuid16 PUBLIC_BROWSE_GROUP],
      access_protos = [(Uuid16 L2CAP_UUID, None), (Uuid16 RFCOMM_UUID, Some channel)],
      service_name = name, service_provider = prov, service_description = dsc\<rparr>"

definition register_service ::
    "bt_env \<Rightarrow> byte list \<Rightarrow> byte list \<Rightarrow> byte list option \<Rightarrow> byte list option list \<Rightarrow> byte
       \<Rightarrow> (nat option \<times> bt_call list) res" where
  "register_service env name dsc prov bt_uuids rfcomm_channel =
     bind_res (uuid_classes bt_uuids 0) (\<lambda>classes.
     bind_res (c_strlen custom_uuid_str) (\<lambda>n.
     bind_res (sdp_strn2uuid custom_uuid_str n) (\<lambda>(_, custom).
     let sdp = the_record name dsc prov classes custom rfcomm_channel;
         session = bte_connect env
     in case session of None \<Rightarrow> Inr (None, [SdpConnect None])
        | Some s \<Rightarrow>
            (let error = bte_register env in
             Inr (if error = -1 then None else Some s,
                  [SdpConnect (Some s), SdpRegister s sdp error])))))"

section \<open>The listening socket\<close>

record bt_service =
  sdp_session :: nat
  bts_fd :: int

definition bt_listen ::
    "bt_env \<Rightarrow> byte list \<Rightarrow> byte list \<Rightarrow> byte list option \<Rightarrow> byte list option list
       \<Rightarrow> (bt_service option \<times> bt_call list) res" where
  "bt_listen env name dsc prov bt_uuids =
     (let fd = bte_socket env; port = 4 in
      if bte_bind env = -1 then Inr (None, [Socket fd, Bind fd port, CloseSocket fd])
      else if bte_listen env = -1 then Inr (None, [Socket fd, Bind fd port, Listen fd, CloseSocket fd])
      else
        bind_res (register_service env name dsc prov bt_uuids port) (\<lambda>(session, cs).
        let cs = [Socket fd, Bind fd port, Listen fd] @ cs in
        case session of None \<Rightarrow> Inr (None, cs @ [CloseSocket fd])
        | Some s \<Rightarrow> Inr (Some \<lparr>sdp_session = s, bts_fd = fd\<rparr>, cs)))"

definition bt_getFD :: "bt_service \<Rightarrow> int" where
  "bt_getFD service = bts_fd service"

definition bt_close :: "bt_service option \<Rightarrow> bt_call list res" where
  "bt_close service =
     (case service of None \<Rightarrow> Inl NullPointer
      | Some s \<Rightarrow> Inr [SdpClose (sdp_session s), CloseSocket (bts_fd s)])"

section \<open>Parsing UUIDs\<close>

text \<open>A UUID written as pairs of hexadecimal digits with some dashes before each pair.\<close>

type_synonym digit_pair = "nat \<times> byte \<times> byte"

fun pairs_text :: "digit_pair list \<Rightarrow> byte list" where
  "pairs_text [] = []"
| "pairs_text ((k, c0, c1) # ps) = replicate k 45 @ c0 # c1 # pairs_text ps"

definition pair_ok :: "digit_pair \<Rightarrow> bool" where
  "pair_ok = (\<lambda>(k, c0, c1). hex_digit c0 \<noteq> None \<and> hex_digit c1 \<noteq> None)"

definition pair_value :: "digit_pair \<Rightarrow> byte" where
  "pair_value = (\<lambda>(k, c0, c1). of_nat (16 * the (hex_digit c0) + the (hex_digit c1)))"

lemma hex_digit_cases:
  assumes "hex_digit c = Some h"
  shows "h < 16" and "c \<noteq> 0" and "c \<noteq> 43" and "c \<noteq> 45" and "\<not> is_space c"
  using assms
  by (auto simp: hex_digit_def is_space_def word_le_nat_alt word_less_nat_alt split: if_splits)

lemma scan_hex_pair:
  assumes "hex_digit c0 = Some h" and "hex_digit c1 = Some l"
  shows "scan_hex c0 c1 = Some (of_nat (16 * h + l))"
  using hex_digit_cases [OF assms(1)] hex_digit_cases [OF assms(2)] assms
  by (simp add: scan_hex_def)

lemma skip_dashes_replicate:
  "c \<noteq> 45 \<Longrightarrow> skip_dashes (replicate k 45 @ c # cs) ch = Inr (ch + k)"
  by (induction k arbitrary: ch) auto

lemma ucast_small: "n < 256 \<Longrightarrow> (ucast (of_nat n :: uint32) :: byte) = of_nat n"
  by (simp add: unsigned_of_nat take_bit_nat_eq_self)

lemma uuid_bytes_pairs:
  "list_all pair_ok ps \<Longrightarrow> length pre + length (pairs_text ps) \<le> n \<Longrightarrow>
     uuid_bytes (pre @ pairs_text ps @ rest) n (length ps + m) (length pre) uuid =
     uuid_bytes (pre @ pairs_text ps @ rest) n m (length pre + length (pairs_text ps)) (uuid @ map pair_value ps)"
proof (induction ps arbitrary: pre uuid)
  case Nil
  then show ?case by simp
next
  case (Cons p ps)
  obtain k c0 c1 where p: "p = (k, c0, c1)" by (cases p)
  with Cons.prems obtain h l where hl: "hex_digit c0 = Some h" "hex_digit c1 = Some l"
    by (auto simp: pair_ok_def)
  let ?pre = "pre @ replicate k 45 @ [c0, c1]"
  let ?str = "pre @ pairs_text (p # ps) @ rest"
  have str: "?str = ?pre @ pairs_text ps @ rest" using p by simp
  have skip: "skip_dashes (drop (length pre) ?str) (length pre) = Inr (length pre + k)"
    using p hex_digit_cases(4) [OF hl(1)] by (simp add: skip_dashes_replicate)
  have c: "rd ?str (length pre + k) = Inr c0" "rd ?str (length pre + k + 1) = Inr c1"
    using p by (simp_all add: rd_def nth_append)
  have "ucast (of_nat (16 * h + l) :: uint32) = pair_value p"
    using hl hex_digit_cases(1) [OF hl(1)] hex_digit_cases(1) [OF hl(2)] p
    by (simp add: pair_value_def del: of_nat_add of_nat_mult add: ucast_small)
  moreover have "\<not> n \<le> length pre + k" using Cons.prems(2) p by simp
  ultimately have "uuid_bytes ?str n (length (p # ps) + m) (length pre) uuid =
      uuid_bytes ?str n (length ps + m) (length pre + k + 2) (uuid @ [pair_value p])"
    using skip c scan_hex_pair [OF hl] by simp
  also have "\<dots> = uuid_bytes ?str n m (length ?pre + length (pairs_text ps))
      ((uuid @ [pair_value p]) @ map pair_value ps)"
    using Cons.IH [of ?pre "uuid @ [pair_value p]"] Cons.prems p unfolding str by (simp add: ac_simps)
  finally show ?case using p by (simp add: ac_simps)
qed

lemma length_pairs_text: "2 * length ps \<le> length (pairs_text ps)"
  by (induction ps rule: pairs_text.induct) auto

lemma uuid_pairs_parsed:
  assumes "length ps = 16" and "list_all pair_ok ps" and "n = length (pairs_text ps @ rest)"
  shows "sdp_strn2uuid (pairs_text ps @ rest @ 0 # p) n = Inr (0, map pair_value ps)"
  using uuid_bytes_pairs [of ps "[]" n "rest @ 0 # p" 0 "[]"] length_pairs_text [of ps] assms
  by (simp add: sdp_strn2uuid_def)

definition uuid_text :: "byte list \<Rightarrow> digit_pair list \<Rightarrow> bool" where
  "uuid_text u ps \<longleftrightarrow> length ps = 16 \<and> list_all pair_ok ps \<and>
     (\<exists>rest p. u = pairs_text ps @ rest @ 0 # p \<and> 0 \<notin> set rest)"

lemma pairs_text_no_null: "list_all pair_ok ps \<Longrightarrow> 0 \<notin> set (pairs_text ps)"
  by (induction ps rule: pairs_text.induct) (auto simp: pair_ok_def dest: hex_digit_cases(2))

lemma uuid_text_parsed:
  assumes "uuid_text u ps"
  shows "\<exists>n. c_strlen u = Inr n \<and> 32 \<le> n \<and> sdp_strn2uuid u n = Inr (0, map pair_value ps)"
proof -
  from assms obtain rest p where u: "u = (pairs_text ps @ rest) @ 0 # p" "0 \<notin> set (pairs_text ps @ rest)"
    and ps: "length ps = 16" "list_all pair_ok ps"
    using pairs_text_no_null by (auto simp: uuid_text_def)
  have "c_strlen u = Inr (length (pairs_text ps @ rest))"
    unfolding u(1) using u(2) by (rule c_strlen_append)
  moreover have "32 \<le> length (pairs_text ps @ rest)" using length_pairs_text [of ps] ps by simp
  moreover have "sdp_strn2uuid u (length (pairs_text ps @ rest)) = Inr (0, map pair_value ps)"
    using uuid_pairs_parsed [OF ps refl] u(1) by simp
  ultimately show ?thesis by blast
qed

text \<open>
  C35: sixteen pairs of hexadecimal digits, upper or lower case, with dashes between the pairs,
  parse to the sixteen bytes they spell, whatever follows in the string.
\<close>

theorem uuid_parsed:
  assumes "length ps = 16" and "list_all pair_ok ps"
  shows "sdp_strn2uuid (pairs_text ps @ rest @ 0 # p) (length (pairs_text ps @ rest)) =
    Inr (0, map pair_value ps)"
  using assms by (rule uuid_pairs_parsed) simp

lemma scan_hex_single: "hex_digit c = Some v \<Longrightarrow> scan_hex c 0 = Some (of_nat v)"
  using hex_digit_cases [of c v] by (simp add: scan_hex_def)

text \<open>
  A string that is long enough but has one digit too few for its last pair is not
  rejected: the parser takes the terminator for a digit, steps over it, and reads past the
  end of the string.
\<close>

theorem uuid_read_past_end:
  assumes "length ps = 14" and "list_all pair_ok ps" and "hex_digit c \<noteq> None"
    and "n = length (pairs_text ps) + k + 1" and "32 \<le> n"
  shows "sdp_strn2uuid (pairs_text ps @ replicate k 45 @ [c, 0]) n = Inl OutOfBounds"
proof -
  let ?str = "pairs_text ps @ replicate k 45 @ [c, 0]"
  obtain v where v: "hex_digit c = Some v" using assms(3) by auto
  have "uuid_bytes ?str n 16 0 [] = uuid_bytes ?str n 2 (length (pairs_text ps)) (map pair_value ps)"
    using uuid_bytes_pairs [OF assms(2), of "[]" n "replicate k 45 @ [c, 0]" 2 "[]"] assms(1,4) by simp
  moreover have "skip_dashes (replicate k 45 @ [c, 0]) (length (pairs_text ps)) = Inr (length (pairs_text ps) + k)"
    using hex_digit_cases(4) [OF v] by (rule skip_dashes_replicate)
  moreover have "rd ?str (length (pairs_text ps) + k) = Inr c" "rd ?str (length (pairs_text ps) + k + 1) = Inr 0"
    by (simp_all add: rd_def nth_append)
  ultimately show ?thesis
    using assms(4,5) scan_hex_single [OF v] by (simp add: sdp_strn2uuid_def numeral_2_eq_2)
qed

section \<open>Listening\<close>

lemma uuid_classes_texts:
  "list_all2 uuid_text us pss \<Longrightarrow>
     uuid_classes (map Some us @ None # after) i =
       (if i + length us \<le> 100 \<or> us = [] then Inr (map (Uuid128 \<circ> map pair_value) pss) else Inl OutOfBounds)"
proof (induction us pss arbitrary: i rule: list_all2_induct)
  case Nil
  then show ?case by simp
next
  case (Cons u us ps pss)
  from uuid_text_parsed [OF Cons.hyps(1)] obtain n where
    "c_strlen u = Inr n" "32 \<le> n" "sdp_strn2uuid u n = Inr (0, map pair_value ps)" by blast
  with Cons.IH [of "i + 1"] show ?case by auto
qed

definition library_uuid :: "byte list" where
  "library_uuid = [0xb5, 0xc1, 0xcc, 0x93, 0x5e, 0x2f, 0xe3, 0x57, 0xd0, 0x0e, 0xa6, 0xc2, 0x77, 0x1c, 0x46, 0x59]"

lemma custom_uuid_parsed: "sdp_strn2uuid custom_uuid_str 36 = Inr (0, library_uuid)"
  by code_simp

lemma custom_uuid_length: "c_strlen custom_uuid_str = Inr 36"
  by code_simp

lemma register_service_texts:
  assumes "list_all2 uuid_text us pss"
  shows "register_service env name dsc prov (map Some us @ None # after) ch =
    (if length us \<le> 100 then
       (let sdp = the_record name dsc prov (map (Uuid128 \<circ> map pair_value) pss) library_uuid ch in
        case bte_connect env of None \<Rightarrow> Inr (None, [SdpConnect None])
        | Some s \<Rightarrow> Inr (if bte_register env = -1 then None else Some s,
            [SdpConnect (Some s), SdpRegister s sdp (bte_register env)]))
     else Inl OutOfBounds)"
  using uuid_classes_texts [OF assms, of after 0]
  by (auto simp: register_service_def custom_uuid_parsed custom_uuid_length Let_def split: option.split)

text \<open>
  With at most 100 well-formed UUIDs \<open>bt_listen\<close> listens and registers a record whose
  service classes are those UUIDs in order, the UUID of the library and the serial port; the
  service is returned exactly when all five calls succeed, and otherwise the socket is closed
  as the last call. The session of a registration that failed is not closed. A 101st UUID is
  written behind \<open>custom_uuids\<close>.
\<close>

theorem bt_listen_registers:
  assumes "list_all2 uuid_text us pss" and "bte_bind env \<noteq> -1" and "bte_listen env \<noteq> -1"
  shows "bt_listen env name dsc prov (map Some us @ None # after) =
    (if 100 < length us then Inl OutOfBounds
     else
       let fd = bte_socket env;
           opened = [Socket fd, Bind fd 4, Listen fd];
           sdp = the_record name dsc prov (map (Uuid128 \<circ> map pair_value) pss) library_uuid 4
       in case bte_connect env of
            None \<Rightarrow> Inr (None, opened @ [SdpConnect None, CloseSocket fd])
          | Some s \<Rightarrow>
              if bte_register env = -1
              then Inr (None, opened @ [SdpConnect (Some s), SdpRegister s sdp (-1), CloseSocket fd])
              else Inr (Some \<lparr>sdp_session = s, bts_fd = fd\<rparr>,
                opened @ [SdpConnect (Some s), SdpRegister s sdp (bte_register env)]))"
  using assms(2,3)
  by (auto simp: bt_listen_def register_service_texts [OF assms(1)] Let_def split: option.split)

section \<open>The UUID of the bridge\<close>

definition bridge_uuid :: "byte list" where
  "bridge_uuid = bytes_of ''a48e5d50-188b-4fca-b261-89c13914e118'' @ [0]"

definition bridge_pairs :: "digit_pair list" where
  "bridge_pairs = [(0, 97, 52), (0, 56, 101), (0, 53, 100), (0, 53, 48), (1, 49, 56), (0, 56, 98),
     (1, 52, 102), (0, 99, 97), (1, 98, 50), (0, 54, 49), (1, 56, 57), (0, 99, 49), (0, 51, 57),
     (0, 49, 52), (0, 101, 49), (0, 49, 56)]"

lemma bridge_pairs_ok: "length bridge_pairs = 16" "list_all pair_ok bridge_pairs"
  by (simp_all add: bridge_pairs_def pair_ok_def hex_digit_def)

lemma bridge_uuid_text: "uuid_text bridge_uuid bridge_pairs"
proof -
  have "bridge_uuid = pairs_text bridge_pairs @ [] @ 0 # []" by code_simp
  then show ?thesis using bridge_pairs_ok unfolding uuid_text_def by fastforce
qed

theorem uuid_parsed_witness:
  "sdp_strn2uuid (pairs_text bridge_pairs @ [] @ 0 # []) (length (pairs_text bridge_pairs @ [])) =
     Inr (0, map pair_value bridge_pairs)"
  using bridge_pairs_ok by (rule uuid_parsed)

theorem uuid_read_past_end_witness:
  "sdp_strn2uuid (pairs_text (replicate 14 (0, 97, 49)) @ replicate 3 45 @ [57, 0]) 32 = Inl OutOfBounds"
proof -
  have len: "length (pairs_text (replicate 14 (0, 97, 49))) = 28" by code_simp
  show ?thesis
    by (rule uuid_read_past_end) (simp_all only: len, simp_all add: pair_ok_def hex_digit_def list_all_length)
qed

definition demo_bt_env :: bt_env where
  "demo_bt_env = \<lparr>bte_socket = 8, bte_bind = 0, bte_listen = 0, bte_connect = Some 9, bte_register = 0\<rparr>"

theorem bt_listen_registers_witness:
  "\<exists>cs. bt_listen demo_bt_env [65, 0] [66, 0] None [Some bridge_uuid, None] =
     Inr (Some \<lparr>sdp_session = 9, bts_fd = 8\<rparr>, cs)"
  using bt_listen_registers [of "[bridge_uuid]" "[bridge_pairs]" demo_bt_env "[65, 0]" "[66, 0]" None "[]"]
    bridge_uuid_text by (simp add: demo_bt_env_def Let_def)

end
