(* ===== verification/Connection.thy ===== *)
theory Connection
  imports Transport UsbInit Bluetooth
begin

text \<open>
  The life of an accessory and its connections (\<open>accessory.c\<close>, and \<open>tryGetNextUSB\<close> and the
  closing functions of \<open>usb.c\<close> and \<open>bt.c\<close>): setting up both transports, waiting for the next
  Android device on either, closing a connection, and releasing everything.

  The answers of \<open>poll\<close>, udev, \<open>accept\<close> and libusb are one record per round of the waiting
  loop; a waiting loop without a further round is the fault \<open>Blocked\<close>. Calls outside libusb are
  a second trace (\<open>acc_call\<close>).
\<close>

section \<open>The accessory\<close>

datatype acc_call =
    LibusbInit
  | LibusbExit
  | UdevNew
  | UdevUnref
  | MonitorNew
  | MonitorUnref
  | DeviceUnref
  | Accept int
  | CloseConnectionFd int
  | BtCall bt_call

record accessory =
  acc_ids :: identification
  acc_uuids :: "byte list option list"
  acc_bt :: "bt_service option"
  acc_fds :: "int \<times> int"

record init_env =
  ie_libusb :: int          \<comment> \<open>answer of \<open>libusb_init\<close>\<close>
  ie_udev :: bool           \<comment> \<open>\<open>udev_new\<close> is not NULL\<close>
  ie_monitor_fd :: int
  ie_bt :: bt_env

definition initAccessory ::
    "init_env \<Rightarrow> identification \<Rightarrow> byte list option list \<Rightarrow> (accessory option \<times> acc_call list) res" where
  "initAccessory env ids uuids =
     (if ie_libusb env \<noteq> 0 then Inr (None, [LibusbInit])
      else if \<not> ie_udev env then Inr (None, [LibusbInit, UdevNew, LibusbExit])
      else
        bind_res (bt_listen (ie_bt env) (modelName ids) (description ids) None uuids) (\<lambda>(bt_service, cs).
        Inr (Some \<lparr>acc_ids = ids, acc_uuids = uuids, acc_bt = bt_service,
                acc_fds = (ie_monitor_fd env,
                  case bt_service of None \<Rightarrow> -1 | Some service \<Rightarrow> bt_getFD service)\<rparr>,
             [LibusbInit, UdevNew, MonitorNew] @ map BtCall cs)))"

definition deInitaccessory :: "accessory \<Rightarrow> acc_call list res" where
  "deInitaccessory acc =
     bind_res (bt_close (acc_bt acc)) (\<lambda>cs.
     Inr ([MonitorUnref, UdevUnref, LibusbExit] @ map BtCall cs))"

section \<open>Waiting for a device\<close>

text \<open>What \<open>udev_monitor_receive_device\<close> returns: nothing, or a device of some type and action.\<close>

datatype udev_event = NoDevice | Device string string

text \<open>\<open>tryGetNextUSB\<close> returns the device (\<open>True\<close>), or NULL after it has dropped its reference.\<close>

definition tryGetNextUSB :: "udev_event \<Rightarrow> bool \<times> acc_call list" where
  "tryGetNextUSB ev =
     (case ev of NoDevice \<Rightarrow> (False, [])
      | Device devtype action \<Rightarrow>
          if ''usb_device'' = devtype \<and> ''add'' = action then (True, [])
          else (False, [DeviceUnref]))"

text \<open>
  One round of the loop: which descriptors are ready, and what is behind them; the scripts
  are those a new connection starts with (theory \<open>Transport\<close>).
\<close>

record poll_round =
  pr_udev :: "udev_event option"
  pr_accept :: "int option"
  pr_usb :: usb_env
  pr_usb_in :: "usb_event list"
  pr_usb_out :: "(int \<times> nat) list"
  pr_bt_in :: "bt_event list"
  pr_bt_out :: "wr_event list"

text \<open>
  A new USB connection. Nothing reads the fresh \<open>malloc(16384)\<close> before a transfer has filled
  it; it is modelled as zeros.
\<close>

definition usb_connection :: "nat \<Rightarrow> usb_state \<Rightarrow> poll_round \<Rightarrow> aap" where
  "usb_connection h us p =
     \<lparr>physicalConnection = USBConn
        \<lparr>dev_handle = h, ep_in = aoa_endpoint_in us, ep_out = aoa_endpoint_out us,
         receiveBuffer = replicate 16384 0, read_count = 0, startValidData = 0, buf_length = 16384,
         usb_in = pr_usb_in p, usb_out = pr_usb_out p, usb_wire = []\<rparr>,
      readFn = FnUSB, writeFn = FnUSB, closeFn = FnUSB\<rparr>"

definition bt_connection :: "int \<Rightarrow> poll_round \<Rightarrow> aap" where
  "bt_connection fd p =
     \<lparr>physicalConnection = BTConn \<lparr>bt_fd = fd, bt_in = pr_bt_in p, bt_out = pr_bt_out p, bt_wire = []\<rparr>,
      readFn = FnBT, writeFn = FnBT, closeFn = FnBT\<rparr>"

text \<open>The udev half of a round: whether it ends in \<open>continue\<close>, and the connection.\<close>

definition poll_udev ::
    "accessory \<Rightarrow> poll_round \<Rightarrow> usb_state \<Rightarrow> (bool \<times> aap option \<times> usb_state \<times> acc_call list) res" where
  "poll_udev acc p us =
     (case pr_udev p of None \<Rightarrow> Inr (False, None, us, [])
      | Some ev \<Rightarrow>
          (case tryGetNextUSB ev of
             (False, cs) \<Rightarrow> Inr (True, None, us, cs)
           | (True, cs) \<Rightarrow>
               bind_res (findAndInitAccessory (pr_usb p) (acc_ids acc) us) (\<lambda>(dev_handle, us).
               Inr (False, map_option (\<lambda>h. usb_connection h us p) dev_handle, us, cs @ [DeviceUnref]))))"

text \<open>The bluetooth half; without a bluetooth service that descriptor is not polled.\<close>

definition poll_bt :: "accessory \<Rightarrow> poll_round \<Rightarrow> aap option \<Rightarrow> aap option \<times> acc_call list" where
  "poll_bt acc p con =
     (case (acc_bt acc, pr_accept p) of
        (Some service, Some fd) \<Rightarrow> (Some (bt_connection fd p), [Accept fd])
      | _ \<Rightarrow> (con, []))"

fun getNextAndroidConnection ::
    "accessory \<Rightarrow> poll_round list \<Rightarrow> usb_state \<Rightarrow> acc_call list \<Rightarrow> (aap \<times> usb_state \<times> acc_call list) res" where
  "getNextAndroidConnection acc [] us cs = Inl Blocked"
| "getNextAndroidConnection acc (p # ps) us cs =
     bind_res (poll_udev acc p us) (\<lambda>(skip, con, us, cs1).
     if skip then getNextAndroidConnection acc ps us (cs @ cs1)
     else
       let (con, cs2) = poll_bt acc p con in
       case con of None \<Rightarrow> getNextAndroidConnection acc ps us (cs @ cs1 @ cs2)
       | Some c \<Rightarrow> Inr (c, us, cs @ cs1 @ cs2))"

section \<open>Closing\<close>

definition closeAccessoryUSB :: "usbconn \<Rightarrow> usb_state \<Rightarrow> usb_state" where
  "closeAccessoryUSB c us = closeUsb (Some (dev_handle c)) us"

definition closeAccessoryBT :: "btconn \<Rightarrow> acc_call list" where
  "closeAccessoryBT c = [CloseConnectionFd (bt_fd c)]"

definition closeAndroidConnection :: "aap \<Rightarrow> usb_state \<Rightarrow> (usb_state \<times> acc_call list) res" where
  "closeAndroidConnection con us =
     (case (closeFn con, physicalConnection con) of
        (FnUSB, USBConn c) \<Rightarrow> Inr (closeAccessoryUSB c us, [])
      | (FnBT, BTConn c) \<Rightarrow> Inr (us, closeAccessoryBT c)
      | _ \<Rightarrow> Inl TypeConfusion)"

section \<open>The connection that is returned\<close>

text \<open>What libusb documents: error codes are negative, and no transfer exceeds its buffer.\<close>

definition round_ok :: "poll_round \<Rightarrow> bool" where
  "round_ok p \<longleftrightarrow>
     list_all (\<lambda>ev. case ev of UsbXfer err bs \<Rightarrow> err \<le> 0 \<and> length bs \<le> 16384) (pr_usb_in p) \<and>
     list_all (\<lambda>(err, k). err \<le> 0) (pr_usb_out p)"

text \<open>What the peer of a connection of this round sends, and a connection that starts with it.\<close>

definition incoming :: "poll_round \<Rightarrow> physical \<Rightarrow> byte list" where
  "incoming p con =
     (case con of
        USBConn _ \<Rightarrow> concat (map (\<lambda>ev. case ev of UsbXfer err bs \<Rightarrow> bs) (pr_usb_in p))
      | BTConn _ \<Rightarrow> bt_events_stream (pr_bt_in p))"

definition starts_empty :: "poll_round \<Rightarrow> aap \<Rightarrow> bool" where
  "starts_empty p con \<longleftrightarrow> aap_wire con = [] \<and> aap_stream con = incoming p (physicalConnection con) \<and>
     (case physicalConnection con of USBConn c \<Rightarrow> read_count c = 0 \<and> buf_length c = 16384 | BTConn c \<Rightarrow> True)"

lemma connection_starts_empty:
  "starts_empty p (usb_connection h us p)" "starts_empty p (bt_connection fd p)"
  by (simp_all add: starts_empty_def incoming_def usb_connection_def bt_connection_def aap_wire_def
      aap_stream_def usb_stream_def bt_stream_def)

lemma usb_connection_ok: "round_ok p \<Longrightarrow> aap_ok (usb_connection h us p) \<and> aap_wire (usb_connection h us p) = []"
  by (auto simp: aap_ok_def aap_wire_def usb_connection_def usb_ok_def usb_out_ok_def round_ok_def
      list_all_iff split: usb_event.splits)

lemma bt_connection_ok: "aap_ok (bt_connection fd p) \<and> aap_wire (bt_connection fd p) = []"
  by (simp add: aap_ok_def aap_wire_def bt_connection_def)

definition closes_clean :: "aap \<Rightarrow> usb_state \<Rightarrow> bool" where
  "closes_clean con us \<longleftrightarrow> (\<exists>us' cs. closeAndroidConnection con us = Inr (us', cs) \<and>
     (case physicalConnection con of
        USBConn c \<Rightarrow> held us = dev_handle c # held us'
      | BTConn c \<Rightarrow> us' = us \<and> cs = [CloseConnectionFd (bt_fd c)]))"

lemma usb_closes: "held us = h # others \<Longrightarrow> closes_clean (usb_connection h us p) us"
  by (simp add: closes_clean_def closeAndroidConnection_def usb_connection_def closeAccessoryUSB_def
      closeUsb_def)

lemma bt_closes: "closes_clean (bt_connection fd p) us"
  by (simp add: closes_clean_def closeAndroidConnection_def bt_connection_def closeAccessoryBT_def)

lemma poll_udev_usb:
  assumes "poll_udev acc p us = Inr (skip, Some con, us', cs)"
  shows "\<exists>h. \<not> skip \<and> con = usb_connection h us' p \<and> held us' = h # held us"
proof -
  from assms obtain h where "findAndInitAccessory (pr_usb p) (acc_ids acc) us = Inr (Some h, us')"
    "\<not> skip" "con = usb_connection h us' p"
    by (auto simp: poll_udev_def res_simps split: option.splits prod.splits bool.splits)
  with search_outcome show ?thesis by (force simp: outcome_def)
qed

lemma poll_bt_cases: "poll_bt acc p con = (Some c, cs) \<Longrightarrow> con = Some c \<or> (\<exists>fd. c = bt_connection fd p)"
  by (auto simp: poll_bt_def split: option.splits)

lemma next_connection:
  "getNextAndroidConnection acc ps us cs = Inr (con, us', cs') \<Longrightarrow> list_all round_ok ps \<Longrightarrow>
     aap_ok con \<and> aap_wire con = [] \<and> closes_clean con us' \<and> (\<exists>p\<in>set ps. starts_empty p con)"
proof (induction acc ps us cs rule: getNextAndroidConnection.induct)
  case (2 acc p ps us cs)
  from "2.prems"(1) obtain skip c1 us1 cs1 where udev: "poll_udev acc p us = Inr (skip, c1, us1, cs1)"
    by (auto simp: res_simps)
  obtain c2 cs2 where bt: "poll_bt acc p c1 = (c2, cs2)" by force
  show ?case
  proof (cases skip)
    case True
    with "2.IH"(1) [OF udev refl refl refl] "2.prems" udev show ?thesis by simp
  next
    case False
    show ?thesis
    proof (cases c2)
      case None
      with "2.IH"(2) [OF udev refl refl refl False bt [symmetric] refl] "2.prems" udev bt False show ?thesis
        by simp
    next
      case (Some c)
      with "2.prems" udev bt False have con: "con = c" "us' = us1" by auto
      from poll_bt_cases [of acc p c1 c cs2] bt Some consider "c1 = Some c" | fd where "c = bt_connection fd p"
        by auto
      then show ?thesis
      proof cases
        case 1
        with udev poll_udev_usb obtain h where "c = usb_connection h us1 p" "held us1 = h # held us"
          by blast
        with con "2.prems"(2) usb_connection_ok usb_closes connection_starts_empty(1) show ?thesis by simp
      next
        case 2
        with con bt_connection_ok bt_closes connection_starts_empty(2) show ?thesis by simp
      qed
    qed
  qed
qed simp

text \<open>
  C22: whatever happens while the program waits, the connection \<open>getNextAndroidConnection\<close>
  returns has function pointers that fit its kind and a receive buffer of the right length,
  so that the theorems on reading and writing apply to it; it starts empty: the buffer holds
  no byte, nothing has been written, and what can be read from it is exactly what its peer
  sends; and \<open>closeAndroidConnection\<close> gives back the one handle or descriptor it owns.
\<close>

theorem connection_lifecycle:
  assumes "getNextAndroidConnection acc ps us cs = Inr (con, us', cs')" and "list_all round_ok ps"
  shows "aap_ok con \<and> aap_wire con = [] \<and>
    (\<exists>p\<in>set ps. aap_stream con = incoming p (physicalConnection con)) \<and>
    (\<forall>c. physicalConnection con = USBConn c \<longrightarrow> read_count c = 0 \<and> length (receiveBuffer c) = 16384) \<and>
    (\<exists>us'' cs''. closeAndroidConnection con us' = Inr (us'', cs'') \<and>
       (case physicalConnection con of
          USBConn c \<Rightarrow> held us' = dev_handle c # held us''
        | BTConn c \<Rightarrow> us'' = us' \<and> cs'' = [CloseConnectionFd (bt_fd c)]))"
proof -
  from next_connection [OF assms] have ok: "aap_ok con" "aap_wire con = []" "closes_clean con us'"
    "\<exists>p\<in>set ps. starts_empty p con" by auto
  from ok(1,4) have "\<forall>c. physicalConnection con = USBConn c \<longrightarrow> read_count c = 0 \<and> length (receiveBuffer c) = 16384"
    by (auto simp: starts_empty_def aap_ok_def usb_ok_def)
  with ok show ?thesis by (auto simp: starts_empty_def closes_clean_def)
qed

section \<open>Both transports at once\<close>

text \<open>
  When a USB device in accessory mode and a bluetooth peer arrive in the same round, the
  bluetooth connection overwrites the pointer to the USB one, whose handle stays open with
  nobody left to close it.
\<close>

theorem usb_connection_lost:
  assumes "pr_udev p = Some (Device ''usb_device'' ''add'')" and "pr_accept p = Some fd"
    and "acc_bt acc = Some service"
    and "findAndInitAccessory (pr_usb p) (acc_ids acc) us = Inr (Some h, us')"
  shows "\<exists>cs'. getNextAndroidConnection acc (p # ps) us cs = Inr (bt_connection fd p, us', cs') \<and>
    held us' = h # held us \<and>
    closeAndroidConnection (bt_connection fd p) us' = Inr (us', [CloseConnectionFd fd])"
proof -
  have "held us' = h # held us"
    using search_outcome [OF assms(4)] by (auto simp: outcome_def)
  with assms show ?thesis
    by (simp add: poll_udev_def tryGetNextUSB_def poll_bt_def closeAndroidConnection_def
        bt_connection_def closeAccessoryBT_def)
qed

section \<open>Without bluetooth\<close>

text \<open>
  Without a bluetooth device \<open>initAccessory\<close> still returns an accessory, which then waits on
  USB only, as its documentation promises; but \<open>deInitaccessory\<close> dereferences the missing
  bluetooth service.
\<close>

theorem deInit_without_bluetooth:
  assumes "ie_libusb env = 0" and "ie_udev env"
    and "bt_listen (ie_bt env) (modelName ids) (description ids) None uuids = Inr (None, cs)"
  shows "\<exists>acc. initAccessory env ids uuids = Inr (Some acc, [LibusbInit, UdevNew, MonitorNew] @ map BtCall cs) \<and>
    (\<forall>p con. poll_bt acc p con = (con, [])) \<and> deInitaccessory acc = Inl NullPointer"
  using assms by (simp add: initAccessory_def poll_bt_def deInitaccessory_def bt_close_def)

section \<open>Concrete runs\<close>

definition demo_round :: poll_round where
  "demo_round = \<lparr>pr_udev = Some (Device ''usb_device'' ''add''), pr_accept = Some 11,
     pr_usb = (demo_usb_env 0)\<lparr>ue_devices := Some [\<lparr>descriptor = Some (0x18d1, 0x2D00), config = None\<rparr>]\<rparr>,
     pr_usb_in = [UsbXfer 0 [1, 2]], pr_usb_out = [], pr_bt_in = [], pr_bt_out = []\<rparr>"

definition demo_accessory :: accessory where
  "demo_accessory = \<lparr>acc_ids = demo_ids, acc_uuids = [None],
     acc_bt = Some \<lparr>sdp_session = 9, bts_fd = 8\<rparr>, acc_fds = (3, 8)\<rparr>"

lemma demo_round_runs:
  "\<exists>us'. findAndInitAccessory (pr_usb demo_round) demo_ids demo_usb_state = Inr (Some 2, us')"
proof -
  have "case findAndInitAccessory (pr_usb demo_round) demo_ids demo_usb_state of
      Inr (Some h, us') \<Rightarrow> h = 2 | _ \<Rightarrow> False" by code_simp
  then show ?thesis by (auto split: sum.splits option.splits)
qed

theorem usb_connection_lost_witness:
  "\<exists>us' cs'. getNextAndroidConnection demo_accessory [demo_round] demo_usb_state [] =
       Inr (bt_connection 11 demo_round, us', cs') \<and> held us' = [2]"
proof -
  obtain us' where "findAndInitAccessory (pr_usb demo_round) demo_ids demo_usb_state = Inr (Some 2, us')"
    using demo_round_runs by blast
  with usb_connection_lost [of demo_round 11 demo_accessory _ demo_usb_state 2 us' "[]" "[]"]
  show ?thesis by (auto simp: demo_round_def demo_accessory_def demo_usb_state_def held_def)
qed

theorem connection_lifecycle_witness:
  "\<exists>con us' cs'. getNextAndroidConnection (demo_accessory\<lparr>acc_bt := None\<rparr>) [demo_round] demo_usb_state [] =
       Inr (con, us', cs') \<and> aap_ok con \<and>
     aap_stream con = incoming demo_round (physicalConnection con)"
proof -
  obtain us' where "findAndInitAccessory (pr_usb demo_round) demo_ids demo_usb_state = Inr (Some 2, us')"
    using demo_round_runs by blast
  then have "\<exists>con cs'. getNextAndroidConnection (demo_accessory\<lparr>acc_bt := None\<rparr>) [demo_round] demo_usb_state [] =
      Inr (con, us', cs')"
    by (simp add: poll_udev_def tryGetNextUSB_def poll_bt_def demo_accessory_def demo_round_def)
  moreover have "list_all round_ok [demo_round]" by (simp add: round_ok_def demo_round_def)
  ultimately show ?thesis using connection_lifecycle by fastforce
qed

theorem deInit_without_bluetooth_witness:
  "\<exists>acc cs. initAccessory \<lparr>ie_libusb = 0, ie_udev = True, ie_monitor_fd = 3,
       ie_bt = demo_bt_env\<lparr>bte_bind := -1\<rparr>\<rparr> demo_ids [None] = Inr (Some acc, cs) \<and>
     deInitaccessory acc = Inl NullPointer"
  using deInit_without_bluetooth [of "\<lparr>ie_libusb = 0, ie_udev = True, ie_monitor_fd = 3,
       ie_bt = demo_bt_env\<lparr>bte_bind := -1\<rparr>\<rparr>" demo_ids "[None]"]
  by (fastforce simp: bt_listen_def demo_bt_env_def Let_def)

end
