(* ===== verification/Echo.thy ===== *)
theory Echo
  imports Connection
begin

text \<open>
  The example of the library, the echo server \<open>doc/echo.c\<close>: it waits for one connection and
  sends back what it reads until a call fails. The program is a client of the transport
  and of the life of a connection, and shows what their contracts are good for.
\<close>

section \<open>The program\<close>

definition echo_ids :: identification where
  "echo_ids =
     \<lparr>manufacturer = bytes_of ''Echo server company'' @ [0],
      modelName = bytes_of ''Echo server'' @ [0],
      description = bytes_of ''This echo server will send anything back you send it'' @ [0],
      version = bytes_of ''1.0'' @ [0],
      uri = bytes_of ''https://play.google.com/store/apps/details?id=es.pymasde.blueterm'' @ [0],
      serialNumber = [0]\<rparr>"

definition echo_uuids :: "byte list option list" where
  "echo_uuids = [Some (bytes_of ''db0d662d-40cf-4995-9849-6dc604563e10'' @ [0]), None]"

text \<open>
  The body of the loop, and whether the loop goes on; the 1024 bytes of \<open>buffer\<close> are those the
  read has stored. \<open>None\<close> is a call or a loop that never ends. \<open>echo_turns k\<close> is the connection
  after \<open>k\<close> turns of a loop that goes on.
\<close>

definition echo_body :: "aap \<Rightarrow> (bool \<times> aap) res option" where
  "echo_body con =
     (case readAccessory con 1024 of
        Inl f \<Rightarrow> Some (Inl f)
      | Inr (con, n, buffer) \<Rightarrow>
          if n < 0 then Some (Inr (False, con))
          else (case writeAllAccessory con buffer n of
              None \<Rightarrow> None
            | Some (Inl f) \<Rightarrow> Some (Inl f)
            | Some (Inr (con, e)) \<Rightarrow> Some (Inr (e = 0, con))))"

partial_function (option) echo_loop :: "aap \<Rightarrow> aap res option" where
  "echo_loop con =
     (case echo_body con of
        None \<Rightarrow> None
      | Some (Inl f) \<Rightarrow> Some (Inl f)
      | Some (Inr (go_on, con)) \<Rightarrow> if go_on then echo_loop con else Some (Inr con))"

fun echo_turns :: "nat \<Rightarrow> aap \<Rightarrow> aap option" where
  "echo_turns 0 con = Some con"
| "echo_turns (Suc k) con =
     (case echo_body con of Some (Inr (True, con)) \<Rightarrow> echo_turns k con | _ \<Rightarrow> None)"

definition echo_main ::
    "init_env \<Rightarrow> poll_round list \<Rightarrow> usb_state \<Rightarrow> (aap \<times> usb_state \<times> acc_call list) res option" where
  "echo_main env ps us =
     (case initAccessory env echo_ids echo_uuids of
        Inl f \<Rightarrow> Some (Inl f)
      | Inr (None, cs) \<Rightarrow> Some (Inl NullPointer)
      | Inr (Some accessory, cs) \<Rightarrow>
          (case getNextAndroidConnection accessory ps us cs of
             Inl f \<Rightarrow> Some (Inl f)
           | Inr (con, us, cs) \<Rightarrow>
               (case echo_loop con of
                  None \<Rightarrow> None
                | Some (Inl f) \<Rightarrow> Some (Inl f)
                | Some (Inr con) \<Rightarrow>
                    Some (bind_res (closeAndroidConnection con us) (\<lambda>(us, cs1).
                      bind_res (deInitaccessory accessory) (\<lambda>cs2.
                      Inr (con, us, cs @ cs1 @ cs2)))))))"

section \<open>What a connection keeps\<close>

lemma readAccessoryUSB_handle:
  "readAccessoryUSB c n = Inr (c', r, bs) \<Longrightarrow> dev_handle c' = dev_handle c"
proof (induction c n arbitrary: c' r bs rule: readAccessoryUSB.induct)
  case (1 c n)
  show ?case
  proof (cases "read_count c = 0")
    case False
    with "1.prems" show ?thesis
      by (subst (asm) readAccessoryUSB.simps) (auto simp: Let_def split: if_splits)
  next
    case True
    with "1.prems" obtain err xs evs where ev: "usb_in c = UsbXfer err xs # evs"
      "\<not> buf_length c < length xs"
      by (subst (asm) readAccessoryUSB.simps) (auto split: list.splits usb_event.splits if_splits)
    show ?thesis
      using "1.prems" True ev "1.IH" [OF _ ev(1) refl ev(2)]
      by (subst (asm) readAccessoryUSB.simps) (auto split: if_splits)
  qed
qed

lemma readAccessory_closes:
  "readAccessory c n = Inr (c', r, bs) \<Longrightarrow> closeAndroidConnection c' us = closeAndroidConnection c us"
  by (auto simp: readAccessory_def closeAndroidConnection_def closeAccessoryUSB_def closeAccessoryBT_def
      res_simps Let_def dest: readAccessoryUSB_handle
      split: conn_fn.splits physical.splits if_splits list.splits bt_event.splits)

lemma writeAccessory_closes:
  "writeAccessory c buf n = Inr (c', r) \<Longrightarrow> closeAndroidConnection c' us = closeAndroidConnection c us"
  by (auto simp: writeAccessory_def closeAndroidConnection_def closeAccessoryUSB_def closeAccessoryBT_def
      res_simps Let_def split: conn_fn.splits physical.splits if_splits list.splits wr_event.splits)

lemma readAccessory_ready: "readAccessory c n = Inr (c', r, bs) \<Longrightarrow> aap_ready c' = aap_ready c"
  by (auto simp: readAccessory_def aap_ready_def bt_ready_def usb_ready_def
      res_simps Let_def dest: readAccessoryUSB_keeps_out
      split: conn_fn.splits physical.splits if_splits list.splits bt_event.splits)

lemma writeAccessory_clean: "writeAccessory c buf n = Inr (c', r) \<Longrightarrow> aap_clean c' = aap_clean c"
  by (auto simp: writeAccessory_def aap_clean_def bt_clean_def usb_clean_def
      res_simps Let_def split: conn_fn.splits physical.splits if_splits list.splits wr_event.splits)

text \<open>The sink of the loop: writing keeps what is still to be read, and how to close.\<close>

definition echo_ok :: "byte list \<Rightarrow> (usb_state \<times> acc_call list) res \<Rightarrow> usb_state \<Rightarrow> bool \<Rightarrow> aap \<Rightarrow> bool" where
  "echo_ok rest cl us b c \<longleftrightarrow>
     aap_ok c \<and> aap_stream c = rest \<and> closeAndroidConnection c us = cl \<and> aap_clean c = b"

interpretation echo_out: live_sink writeAccessory aap_wire "echo_ok rest cl us b" aap_ready
  for rest cl us b
proof unfold_locales
  fix c c' :: aap and n buf r
  assume "echo_ok rest cl us b c" "0 < n" "writeAccessory c buf n = Inr (c', r)"
  then show "echo_ok rest cl us b c' \<and> r \<le> n \<and> nat n \<le> length buf \<and>
      (\<exists>k\<le>nat n. aap_wire c' = aap_wire c @ take k buf \<and> (0 \<le> r \<longrightarrow> int k = r))"
    using conn_out.wrt_ok [of c n buf c' r] writeAccessory_stream [of c buf n c' r]
      writeAccessory_closes [of c buf n c' r us] writeAccessory_clean [of c buf n c' r]
    unfolding echo_ok_def by blast
next
  fix c :: aap and n and buf :: "byte list"
  assume "echo_ok rest cl us b c" "0 < n" "nat n \<le> length buf" "0 < aap_ready c"
  then show "\<exists>c' r. writeAccessory c buf n = Inr (c', r) \<and> 0 < r \<and> aap_ready c \<le> Suc (aap_ready c')"
    using conn_out.ready_wrt [of c n buf] unfolding echo_ok_def by blast
qed

section \<open>One turn of the loop\<close>

lemma echo_read:
  assumes "aap_ok c" and "readAccessory c 1024 = Inr (c1, n, bs)"
  shows "aap_stream c = bs @ aap_stream c1" "int (length bs) = max 0 n" "n \<le> 1024"
    "aap_wire c1 = aap_wire c"
    "echo_ok (aap_stream c1) (closeAndroidConnection c us) us (aap_clean c1) c1"
  using conn.read_ok [OF assms(1) _ _ assms(2)] readAccessory_wire [OF assms(2)]
    readAccessory_closes [OF assms(2)]
  by (simp_all add: echo_ok_def)

lemma echo_turn:
  assumes "aap_ok c" and "readAccessory c 1024 = Inr (c1, n, bs)" and "0 \<le> n"
    and "writeAllAccessory c1 bs n = Some (Inr (c2, e))"
  shows "aap_ok c2" "aap_stream c = bs @ aap_stream c2" "length bs \<le> 1024"
    "closeAndroidConnection c2 us = closeAndroidConnection c us"
    "\<exists>k \<le> length bs. aap_wire c2 = aap_wire c @ take k bs \<and> (e = 0 \<longrightarrow> k = length bs)"
proof -
  note r = echo_read [OF assms(1,2)]
  have out: "echo_ok (aap_stream c1) (closeAndroidConnection c us) us (aap_clean c1) c2 \<and> e \<le> 0 \<and>
    (\<exists>k\<le>nat n. k \<le> length bs \<and> aap_wire c2 = aap_wire c1 @ take k bs \<and> (e = 0 \<longrightarrow> k = nat n))"
    using echo_out.writeAll_sound [OF assms(4) [unfolded writeAllAccessory_def] r(5) order_refl] .
  from out r(1) show "aap_ok c2" "aap_stream c = bs @ aap_stream c2"
    "closeAndroidConnection c2 us = closeAndroidConnection c us" by (auto simp: echo_ok_def)
  from r(2,3) assms(3) have n: "nat n = length bs" "length bs \<le> 1024" by auto
  then show "length bs \<le> 1024" by simp
  from out r(4) n show "\<exists>k \<le> length bs. aap_wire c2 = aap_wire c @ take k bs \<and> (e = 0 \<longrightarrow> k = length bs)"
    by auto
qed

lemma echo_turn_live:
  assumes "aap_ok c" and "aap_clean c" and "aap_stream c \<noteq> []" and "length (aap_stream c) \<le> aap_ready c"
  shows "\<exists>c1 n bs c2. readAccessory c 1024 = Inr (c1, n, bs) \<and> 0 < n \<and>
    writeAllAccessory c1 bs n = Some (Inr (c2, 0)) \<and> bs \<noteq> [] \<and> aap_clean c2 \<and>
    aap_wire c2 = aap_wire c @ bs \<and> length (aap_stream c2) \<le> aap_ready c2"
proof -
  from conn.clean_read [OF assms(1,2) _ _ assms(3), of 1024] obtain c1 n bs where
    read: "readAccessory c 1024 = Inr (c1, n, bs)" "0 < n" "aap_clean c1" by auto
  note r = echo_read [OF assms(1) read(1)]
  from r(2) read(2) have n: "nat n = length bs" by simp
  have "nat n \<le> aap_ready c1"
    using assms(4) r(1) n readAccessory_ready [OF read(1)] by simp
  from echo_out.writeAll_total [OF r(5) _ this order_refl, of bs] n obtain c2 where
    c2: "writeAllAccessory c1 bs n = Some (Inr (c2, 0))"
      "echo_ok (aap_stream c1) (closeAndroidConnection c undefined) undefined (aap_clean c1) c2"
      "aap_wire c2 = aap_wire c1 @ take (nat n) bs" "aap_ready c1 \<le> aap_ready c2 + nat n"
    by (auto simp: writeAllAccessory_def)
  have "length (aap_stream c2) \<le> aap_ready c2"
    using assms(4) c2(2,4) r(1) n readAccessory_ready [OF read(1)] by (simp add: echo_ok_def)
  then show ?thesis using read c2 n r(4) by (auto simp: echo_ok_def)
qed

section \<open>The whole loop\<close>

lemma echo_prefix:
  assumes "echo_loop c = Some (Inr c')" and "aap_ok c"
  shows "aap_ok c' \<and> closeAndroidConnection c' us = closeAndroidConnection c us \<and>
    (\<exists>xs k. aap_stream c = xs @ aap_stream c' \<and> k \<le> length xs \<and> length xs \<le> k + 1024 \<and>
      aap_wire c' = aap_wire c @ take k xs)"
proof -
  define P where "P c res \<longleftrightarrow> (aap_ok c \<longrightarrow> (\<forall>c'. res = Inr c' \<longrightarrow>
      aap_ok c' \<and> closeAndroidConnection c' us = closeAndroidConnection c us \<and>
      (\<exists>xs k. aap_stream c = xs @ aap_stream c' \<and> k \<le> length xs \<and> length xs \<le> k + 1024 \<and>
        aap_wire c' = aap_wire c @ take k xs)))" for c and res :: "aap res"
  have "P c (Inr c')"
  proof (rule echo_loop.raw_induct [where P = P, OF _ assms(1)])
    fix f :: "aap \<Rightarrow> aap res option" and c res
    assume IH: "\<And>c res. f c = Some res \<Longrightarrow> P c res"
      and eq: "(case echo_body c of
        None \<Rightarrow> None
      | Some (Inl f) \<Rightarrow> Some (Inl f)
      | Some (Inr (go_on, con)) \<Rightarrow> if go_on then f con else Some (Inr con)) = Some res"
    show "P c res"
      unfolding P_def
    proof (intro impI allI)
      fix c' assume c: "aap_ok c" and res: "res = Inr c'"
      from eq res obtain c1 n bs where read: "readAccessory c 1024 = Inr (c1, n, bs)"
        by (auto simp: echo_body_def split: sum.splits)
      show "aap_ok c' \<and> closeAndroidConnection c' us = closeAndroidConnection c us \<and>
        (\<exists>xs k. aap_stream c = xs @ aap_stream c' \<and> k \<le> length xs \<and> length xs \<le> k + 1024 \<and>
          aap_wire c' = aap_wire c @ take k xs)"
      proof (cases "n < 0")
        case True
        with eq read res have "c' = c1" by (simp add: echo_body_def)
        with True echo_read(1-4) [OF c read] echo_read(5) [OF c read, of us] show ?thesis
          by (auto simp: echo_ok_def)
      next
        case False
        with eq read res obtain c2 e where w: "writeAllAccessory c1 bs n = Some (Inr (c2, e))"
          by (auto simp: echo_body_def split: option.splits sum.splits)
        from False have "0 \<le> n" by simp
        note turn = echo_turn [OF c read this w]
        show ?thesis
        proof (cases "e = 0")
          case False
          with eq read res w \<open>\<not> n < 0\<close> have "c' = c2" by (simp add: echo_body_def)
          with turn(1,2,3) turn(4) [of us] turn(5) show ?thesis by fastforce
        next
          case True
          with eq read res w \<open>\<not> n < 0\<close> have "f c2 = Some (Inr c')" by (simp add: echo_body_def)
          from IH [OF this] turn(1) obtain xs k where rest: "aap_ok c'"
            "closeAndroidConnection c' us = closeAndroidConnection c2 us"
            "aap_stream c2 = xs @ aap_stream c'" "k \<le> length xs" "length xs \<le> k + 1024"
            "aap_wire c' = aap_wire c2 @ take k xs" by (auto simp: P_def)
          from turn(5) True have "aap_wire c2 = aap_wire c @ bs" by auto
          with rest turn(2) turn(4) [of us] show ?thesis
            by (intro conjI exI [of _ "bs @ xs"] exI [of _ "length bs + k"]) simp_all
        qed
      qed
    qed
  qed
  with assms(2) show ?thesis by (simp add: P_def)
qed

lemma echo_repeats:
  assumes "physicalConnection con = BTConn c" and "aap_ok con" and "bt_in c = BtEof # evs"
  shows "echo_body con = Some (Inr (True, con))"
proof -
  have con: "con\<lparr>physicalConnection := BTConn c\<rparr> = con" using assms(1) by (cases con) simp
  with assms have read: "readAccessory con 1024 = Inr (con, 0, [])"
    by (simp add: readAccessory_def aap_ok_def)
  have wrote: "writeAllAccessory con [] 0 = Some (Inr (con, 0))"
    unfolding writeAllAccessory_def by (subst writeAll_loop.simps) simp
  with read show ?thesis by (simp add: echo_body_def)
qed

lemma echo_spins: "echo_body con = Some (Inr (True, con)) \<Longrightarrow> echo_loop con = None"
proof (cases "echo_loop con")
  case (Some res)
  assume again: "echo_body con = Some (Inr (True, con))"
  have "con \<noteq> con"
  proof (rule echo_loop.raw_induct [where P = "\<lambda>c _. c \<noteq> con", OF _ Some])
    fix f :: "aap \<Rightarrow> aap res option" and c' res
    assume IH: "\<And>c res. f c = Some res \<Longrightarrow> c \<noteq> con"
      and eq: "(case echo_body c' of
        None \<Rightarrow> None
      | Some (Inl f) \<Rightarrow> Some (Inl f)
      | Some (Inr (go_on, con)) \<Rightarrow> if go_on then f con else Some (Inr con)) = Some res"
    show "c' \<noteq> con" using IH [of con res] eq again by auto
  qed
  then show ?thesis by simp
qed simp

section \<open>Properties\<close>

lemma echo_turns_loop: "echo_turns k c = Some c' \<Longrightarrow> echo_loop c = echo_loop c'"
proof (induction k arbitrary: c)
  case (Suc k)
  then obtain c1 where "echo_body c = Some (Inr (True, c1))" "echo_turns k c1 = Some c'"
    by (auto split: option.splits sum.splits bool.splits)
  with Suc.IH show ?case by (subst echo_loop.simps) simp
qed simp

lemma echo_sends_all:
  assumes "aap_ok c" and "aap_clean c" and "length (aap_stream c) \<le> aap_ready c"
  shows "\<exists>k c'. k \<le> length (aap_stream c) \<and> echo_turns k c = Some c' \<and> aap_ok c' \<and>
    aap_wire c' = aap_wire c @ aap_stream c \<and> aap_stream c' = []"
  using assms
proof (induction "length (aap_stream c)" arbitrary: c rule: less_induct)
  case less
  show ?case
  proof (cases "aap_stream c = []")
    case True
    with less.prems(1) show ?thesis by (intro exI [of _ 0] exI [of _ c]) simp
  next
    case False
    from echo_turn_live [OF less.prems(1,2) False less.prems(3)] obtain c1 n bs c2 where
      turn: "readAccessory c 1024 = Inr (c1, n, bs)" "0 < n"
        "writeAllAccessory c1 bs n = Some (Inr (c2, 0))" "bs \<noteq> []" "aap_clean c2"
        "aap_wire c2 = aap_wire c @ bs" "length (aap_stream c2) \<le> aap_ready c2" by blast
    have c2: "aap_ok c2" "aap_stream c = bs @ aap_stream c2"
      using echo_turn(1,2) [OF less.prems(1) turn(1) _ turn(3)] turn(2) by simp_all
    with turn(4) have "length (aap_stream c2) < length (aap_stream c)" by (cases bs) simp_all
    from less.hyps [OF this c2(1) turn(5,7)] obtain k c' where
      k: "k \<le> length (aap_stream c2)" "echo_turns k c2 = Some c'" "aap_ok c'"
        "aap_wire c' = aap_wire c2 @ aap_stream c2" "aap_stream c' = []" by blast
    have "echo_body c = Some (Inr (True, c2))" using turn by (simp add: echo_body_def)
    with k have "echo_turns (Suc k) c = Some c'" by simp
    moreover have "Suc k \<le> length (aap_stream c)" using k(1) c2(2) turn(4) by (cases bs) simp_all
    moreover have "aap_wire c' = aap_wire c @ aap_stream c" using k(4) turn(6) c2(2) by simp
    ultimately show ?thesis using k(3,5) by blast
  qed
qed

text \<open>
  C38: the echo server sends back everything that arrives, in order: on a connection that has
  neither failed nor ended and that accepts what is written, the loop has, after some number
  of turns, at most one per byte, read the whole stream and written exactly this stream,
  behind what was written before. A bluetooth peer that then closes its end is not noticed:
  each further turn reads 0 bytes, writes 0 bytes and changes nothing, so that the loop runs
  for ever and the connection is never closed.
\<close>

theorem echo_everything:
  assumes "aap_ok c" and "aap_clean c" and "length (aap_stream c) \<le> aap_ready c"
  shows "\<exists>k c'. k \<le> length (aap_stream c) \<and> echo_turns k c = Some c' \<and>
    aap_wire c' = aap_wire c @ aap_stream c \<and> aap_stream c' = [] \<and>
    (\<forall>b evs. physicalConnection c' = BTConn b \<longrightarrow> bt_in b = BtEof # evs \<longrightarrow>
       echo_body c' = Some (Inr (True, c')) \<and> echo_loop c = None)"
proof -
  from echo_sends_all [OF assms] obtain k c' where
    k: "k \<le> length (aap_stream c)" "echo_turns k c = Some c'" "aap_ok c'"
      "aap_wire c' = aap_wire c @ aap_stream c" "aap_stream c' = []" by blast
  with echo_repeats echo_spins echo_turns_loop [OF k(2)] show ?thesis by metis
qed

text \<open>
  A run of the whole example. When it ends, without undefined behaviour on the way, it has
  sent back, in order, what it read from the connection it got, but for at most the 1024 bytes
  of the last, failing write; and it has closed that connection.
\<close>

theorem echo_serves:
  assumes "echo_main env ps us = Some (Inr (con', us', cs))" and "list_all round_ok ps"
  shows "\<exists>con xs k. aap_wire con = [] \<and> aap_stream con = xs @ aap_stream con' \<and>
    k \<le> length xs \<and> length xs \<le> k + 1024 \<and> aap_wire con' = take k xs \<and>
    (case physicalConnection con of
       USBConn c \<Rightarrow> \<exists>us1. held us1 = dev_handle c # held us'
     | BTConn c \<Rightarrow> CloseConnectionFd (bt_fd c) \<in> set cs)"
proof -
  from assms(1) obtain acc cs0 con us1 cs1 cs2 cs3 where
    run: "getNextAndroidConnection acc ps us cs0 = Inr (con, us1, cs1)"
      "echo_loop con = Some (Inr con')" "closeAndroidConnection con' us1 = Inr (us', cs2)"
      "cs = cs1 @ cs2 @ cs3"
    by (fastforce simp: echo_main_def res_simps split: sum.splits option.splits)
  from next_connection [OF run(1) assms(2)] have con: "aap_ok con" "aap_wire con = []" "closes_clean con us1"
    by auto
  have closed: "case physicalConnection con of
      USBConn c \<Rightarrow> \<exists>us1. held us1 = dev_handle c # held us'
    | BTConn c \<Rightarrow> CloseConnectionFd (bt_fd c) \<in> set cs"
    using echo_prefix [OF run(2) con(1), of us1] run(3,4) con(3)
    by (auto simp: closes_clean_def split: physical.splits)
  from echo_prefix [OF run(2) con(1), of us1] con(2) closed show ?thesis by fastforce
qed

section \<open>Concrete runs\<close>

definition echo_demo :: aap where
  "echo_demo = \<lparr>physicalConnection = BTConn \<lparr>bt_fd = 5, bt_in = [BtData [1, 2], BtData [3], BtEof],
     bt_out = [WrAccept 1, WrAccept 1, WrAccept 9], bt_wire = []\<rparr>,
     readFn = FnBT, writeFn = FnBT, closeFn = FnBT\<rparr>"

theorem echo_everything_witness:
  "\<exists>k c'. k \<le> 3 \<and> echo_turns k echo_demo = Some c' \<and> aap_wire c' = [1, 2, 3] \<and> aap_stream c' = []"
proof -
  have "aap_ok echo_demo" "aap_clean echo_demo" "aap_stream echo_demo = [1, 2, 3]" "aap_wire echo_demo = []"
    "3 \<le> aap_ready echo_demo"
    by (simp_all add: echo_demo_def aap_defs bt_stream_def bt_clean_def aap_ready_def bt_ready_def)
  with echo_everything [of echo_demo] show ?thesis by (auto simp: numeral_3_eq_3)
qed

definition echo_env :: init_env where
  "echo_env = \<lparr>ie_libusb = 0, ie_udev = True, ie_monitor_fd = 3, ie_bt = demo_bt_env\<rparr>"

definition echo_round :: poll_round where
  "echo_round = \<lparr>pr_udev = None, pr_accept = Some 11, pr_usb = demo_usb_env 0, pr_usb_in = [],
     pr_usb_out = [], pr_bt_in = [BtData [104, 105], BtErr], pr_bt_out = [WrAccept 1, WrAccept 1]\<rparr>"

lemma echo_init: "\<exists>acc cs service. initAccessory echo_env echo_ids echo_uuids = Inr (Some acc, cs) \<and>
    acc_bt acc = Some service"
proof -
  have "case initAccessory echo_env echo_ids echo_uuids of
      Inr (Some acc, cs) \<Rightarrow> acc_bt acc \<noteq> None | _ \<Rightarrow> False" by code_simp
  then show ?thesis by (auto split: sum.splits option.splits)
qed

lemma echo_demo_loop: "\<exists>con'. echo_loop (bt_connection 11 echo_round) = Some (Inr con') \<and>
    closeAndroidConnection con' us = Inr (us, [CloseConnectionFd 11])"
  unfolding bt_connection_def echo_round_def
  by (subst echo_loop.simps, simp add: echo_body_def readAccessory_def writeAllAccessory_def,
      (subst writeAll_loop.simps, simp add: writeAccessory_def)+,
      subst echo_loop.simps, simp add: echo_body_def readAccessory_def closeAndroidConnection_def closeAccessoryBT_def)

theorem echo_serves_witness:
  "\<exists>con' us' cs xs k. echo_main echo_env [echo_round] demo_usb_state = Some (Inr (con', us', cs)) \<and>
     length xs \<le> k + 1024 \<and> aap_wire con' = take k xs"
proof -
  obtain acc cs service where acc: "initAccessory echo_env echo_ids echo_uuids = Inr (Some acc, cs)"
    "acc_bt acc = Some service" using echo_init by blast
  obtain con' where con': "echo_loop (bt_connection 11 echo_round) = Some (Inr con')"
    "closeAndroidConnection con' demo_usb_state = Inr (demo_usb_state, [CloseConnectionFd 11])"
    using echo_demo_loop by blast
  have "getNextAndroidConnection acc [echo_round] demo_usb_state cs =
      Inr (bt_connection 11 echo_round, demo_usb_state, cs @ [Accept 11])"
    using acc(2) by (simp add: poll_udev_def poll_bt_def echo_round_def)
  with acc con' obtain cs' where
    "echo_main echo_env [echo_round] demo_usb_state = Some (Inr (con', demo_usb_state, cs'))"
    by (auto simp: echo_main_def deInitaccessory_def bt_close_def)
  moreover have "list_all round_ok [echo_round]" by (simp add: round_ok_def echo_round_def)
  ultimately show ?thesis using echo_serves by blast
qed

end
