(* ===== verification/BSearch.thy ===== *)
theory BSearch
  imports BString
begin

text \<open>
  Searching in \<open>bstrlib.c\<close>: the loop of \<open>binstr\<close> is unrolled, matches the pattern with gaps
  first and checks for gaps afterwards; here it is shown to find the first occurrence, and
  to end.

  Two arguments may share their buffer: \<open>same\<close> is the outcome of comparing the two \<open>data\<close>
  pointers.
\<close>

section \<open>Reading cells\<close>

definition cell :: "byte option list \<Rightarrow> int \<Rightarrow> byte res" where
  "cell d i =
     (if 0 \<le> i \<and> nat i < length d
      then (case d ! nat i of Some c \<Rightarrow> Inr c | None \<Rightarrow> Inl Uninitialised)
      else Inl OutOfBounds)"

text \<open>The cells of a bstring that can be read, and its length.\<close>

definition bparts :: "bstring option \<Rightarrow> (byte option list \<times> int) option" where
  "bparts bp = (case bp of None \<Rightarrow> None | Some b \<Rightarrow>
     (case data b of None \<Rightarrow> None | Some d \<Rightarrow> if slen b < 0 then None else Some (d, slen b)))"

lemma cell_rep:
  assumes "take (length xs) d = map Some xs" and "0 \<le> i" and "i < int (length xs)"
  shows "cell d i = Inr (xs ! nat i)"
proof -
  have i: "nat i < length xs" using assms(2,3) by linarith
  from assms(1) have "length xs \<le> length d" by (metis length_map length_take min.absorb_iff2 min.commute)
  moreover from i assms(1) have "d ! nat i = Some (xs ! nat i)" by (metis nth_map nth_take)
  ultimately show ?thesis using assms(2) i by (simp add: cell_def)
qed

lemma bs_rep_parts:
  "bs_rep b xs \<Longrightarrow> \<exists>d. bparts (Some b) = Some (d, int (length xs)) \<and> take (length xs) d = map Some xs \<and>
     length xs < 2 ^ 31"
  by (auto simp: bs_rep_def bparts_def)

section \<open>binstr\<close>

text \<open>The state of the loop: \<open>i\<close>, \<open>j\<close>, \<open>ii\<close> and \<open>c1\<close>.\<close>

type_synonym search_state = "int \<times> int \<times> int \<times> byte"

text \<open>The label \<open>N0\<close>: the match is reported, or the search goes back to the start of the pattern.\<close>

definition search_N0 :: "byte \<Rightarrow> int \<Rightarrow> int \<Rightarrow> int \<Rightarrow> int res + search_state" where
  "search_N0 c0 i j ii = (if i = ii + j then Inl (Inr ii) else Inr (i - j, 0, ii, c0))"

text \<open>The character at \<open>i\<close> has matched.\<close>

definition search_hit ::
    "byte option list \<Rightarrow> int \<Rightarrow> byte \<Rightarrow> int \<Rightarrow> int \<Rightarrow> int \<Rightarrow> int res + search_state" where
  "search_hit d0 ll c0 i j ii =
     (let ii = (if j = 0 then i else ii); j = j + 1; i = i + 1 in
      if j < ll then (case cell d0 j of Inl f \<Rightarrow> Inl (Inl f) | Inr c1 \<Rightarrow> Inr (i, j, ii, c1))
      else search_N0 c0 i j ii)"

text \<open>
  From the test of the loop to the next one: a result of \<open>binstr\<close>, or the next state. Behind
  the loop is the last case, which may jump back into it.
\<close>

definition search_step ::
    "byte option list \<Rightarrow> byte option list \<Rightarrow> int \<Rightarrow> int \<Rightarrow> byte \<Rightarrow> search_state \<Rightarrow> int res + search_state" where
  "search_step d0 d1 ll lf c0 = (\<lambda>(i, j, ii, c1).
     if i < lf then
       (case cell d1 i of Inl f \<Rightarrow> Inl (Inl f)
        | Inr x \<Rightarrow>
            if c1 \<noteq> x then
              (case cell d1 (1 + i) of Inl f \<Rightarrow> Inl (Inl f)
               | Inr y \<Rightarrow> if c1 \<noteq> y then Inr (i + 2, j, ii, c1) else search_hit d0 ll c0 (i + 1) j ii)
            else search_hit d0 ll c0 i j ii)
     else if i = lf \<and> ll = j + 1 then
       (case cell d1 i of Inl f \<Rightarrow> Inl (Inl f)
        | Inr x \<Rightarrow> if c1 = x then search_N0 c0 i j ii else Inl (Inr BSTR_ERR))
     else Inl (Inr BSTR_ERR))"

partial_function (option) search_loop ::
    "(search_state \<Rightarrow> int res + search_state) \<Rightarrow> search_state \<Rightarrow> int res option" where
  "search_loop step st = (case step st of Inl r \<Rightarrow> Some r | Inr st \<Rightarrow> search_loop step st)"

text \<open>The loop of the case of a single character.\<close>

function find_char :: "byte option list \<Rightarrow> byte \<Rightarrow> int \<Rightarrow> int \<Rightarrow> int res" where
  "find_char d1 c0 i lf =
     (if i < lf then bind_res (cell d1 i) (\<lambda>c. if c0 = c then Inr i else find_char d1 c0 (i + 1) lf)
      else Inr BSTR_ERR)"
  by pat_completeness auto
termination
  by (relation "measure (\<lambda>(d1, c0, i, lf). nat (lf - i))") auto

declare find_char.simps [simp del]

definition binstr :: "bool \<Rightarrow> bstring option \<Rightarrow> int \<Rightarrow> bstring option \<Rightarrow> int res option" where
  "binstr same b1 pos b2 =
     (case (bparts b1, bparts b2) of
        (Some (d1, slen1), Some (d0, ll)) \<Rightarrow>
          if slen1 = pos then Some (Inr (if ll = 0 then pos else BSTR_ERR))
          else if slen1 < pos \<or> pos < 0 then Some (Inr BSTR_ERR)
          else if ll = 0 then Some (Inr pos)
          else
            let lf = s32 (slen1 - ll + 1) in
            if lf \<le> pos then Some (Inr BSTR_ERR)
            else if same \<and> pos = 0 then Some (Inr 0)
            else
              (case cell d0 0 of Inl f \<Rightarrow> Some (Inl f)
               | Inr c0 \<Rightarrow>
                   if 1 = ll then Some (find_char d1 c0 pos lf)
                   else search_loop (search_step d0 d1 ll (slen1 - 1) c0) (pos, 0, -1, c0))
      | _ \<Rightarrow> Some (Inr BSTR_ERR))"

section \<open>The first occurrence\<close>

definition occurs_at :: "byte list \<Rightarrow> byte list \<Rightarrow> nat \<Rightarrow> bool" where
  "occurs_at xs ys p \<longleftrightarrow> take (length ys) (drop p xs) = ys"

definition first_occurrence :: "byte list \<Rightarrow> byte list \<Rightarrow> int \<Rightarrow> int" where
  "first_occurrence xs ys pos =
     (if pos < 0 then BSTR_ERR
      else case find (occurs_at xs ys) [nat pos..<Suc (length xs)] of
        None \<Rightarrow> BSTR_ERR | Some p \<Rightarrow> int p)"

lemma occurs_at_nth:
  assumes "ys \<noteq> []"
  shows "occurs_at xs ys p \<longleftrightarrow> p + length ys \<le> length xs \<and> (\<forall>k<length ys. xs ! (p + k) = ys ! k)"
proof
  assume "occurs_at xs ys p"
  then have eq: "take (length ys) (drop p xs) = ys" by (simp add: occurs_at_def)
  then have "min (length xs - p) (length ys) = length ys" by (metis length_drop length_take min.commute)
  then have "length ys \<le> length xs - p" by linarith
  moreover have "0 < length ys" using assms by simp
  ultimately have fits: "p + length ys \<le> length xs" by linarith
  have "xs ! (p + k) = ys ! k" if "k < length ys" for k
  proof -
    have "ys ! k = take (length ys) (drop p xs) ! k" using eq by simp
    with that fits show ?thesis by simp
  qed
  with fits show "p + length ys \<le> length xs \<and> (\<forall>k<length ys. xs ! (p + k) = ys ! k)" by simp
next
  assume "p + length ys \<le> length xs \<and> (\<forall>k<length ys. xs ! (p + k) = ys ! k)"
  then show "occurs_at xs ys p"
    unfolding occurs_at_def by (intro nth_equalityI) auto
qed

lemma find_append: "find P (xs @ ys) = (case find P xs of None \<Rightarrow> find P ys | Some x \<Rightarrow> Some x)"
  by (induction xs) auto

lemma first_occurrence_found:
  assumes "occurs_at xs ys p" and "pos \<le> p" and "p \<le> length xs"
    and "\<And>q. pos \<le> q \<Longrightarrow> q < p \<Longrightarrow> \<not> occurs_at xs ys q"
  shows "first_occurrence xs ys (int pos) = int p"
proof -
  obtain k where k: "Suc (length xs) = p + Suc k" using assms(3) by (metis add_Suc_right le_Suc_ex)
  have "[pos..<Suc (length xs)] = [pos..<p] @ p # [Suc p..<Suc (length xs)]"
    unfolding k using upt_add_eq_append [OF assms(2), of "Suc k"] by (simp add: upt_conv_Cons)
  moreover have "find (occurs_at xs ys) [pos..<p] = None"
    using assms(4) by (simp add: find_None_iff)
  ultimately have "find (occurs_at xs ys) [pos..<Suc (length xs)] = Some p"
    using assms(1) by (simp add: find_append del: upt_Suc)
  then show ?thesis by (simp add: first_occurrence_def del: upt_Suc)
qed

lemma first_occurrence_none:
  assumes "\<And>q. pos \<le> q \<Longrightarrow> \<not> occurs_at xs ys q"
  shows "first_occurrence xs ys (int pos) = BSTR_ERR"
proof -
  have "find (occurs_at xs ys) [pos..<Suc (length xs)] = None"
    using assms by (simp add: find_None_iff del: upt_Suc)
  then show ?thesis by (simp add: first_occurrence_def del: upt_Suc)
qed

section \<open>The loop finds it\<close>

text \<open>
  With \<open>j\<close> characters matched in order from \<open>ii\<close> on, not necessarily without gaps, the search
  has not overtaken any occurrence: \<open>i\<close> is no further than where an occurrence at \<open>p\<close> has its
  character \<open>j\<close>.
\<close>

definition not_overtaken :: "byte list \<Rightarrow> byte list \<Rightarrow> nat \<Rightarrow> int \<Rightarrow> int \<Rightarrow> int \<Rightarrow> bool" where
  "not_overtaken xs ys pos i j ii \<longleftrightarrow>
     (\<forall>p. pos \<le> p \<longrightarrow> occurs_at xs ys p \<longrightarrow> i \<le> int p + j \<and> (0 < j \<longrightarrow> ii \<le> int p))"

definition matched :: "byte list \<Rightarrow> byte list \<Rightarrow> nat \<Rightarrow> int \<Rightarrow> int \<Rightarrow> int \<Rightarrow> bool" where
  "matched xs ys pos i j ii \<longleftrightarrow> int pos \<le> ii \<and> ii + j \<le> i \<and>
     (i = ii + j \<longrightarrow> (\<forall>k<nat j. xs ! (nat ii + k) = ys ! k))"

definition search_inv :: "byte list \<Rightarrow> byte list \<Rightarrow> nat \<Rightarrow> search_state \<Rightarrow> bool" where
  "search_inv xs ys pos = (\<lambda>(i, j, ii, c1).
     int pos \<le> i \<and> i \<le> int (length xs) \<and> 0 \<le> j \<and> j < int (length ys) \<and> c1 = ys ! nat j \<and>
     (0 < j \<longrightarrow> matched xs ys pos i j ii) \<and> not_overtaken xs ys pos i j ii)"

definition search_rank :: "nat \<Rightarrow> (search_state \<times> search_state) set" where
  "search_rank n = measures
     [\<lambda>(i, j, ii, c1). nat (int n + 1 - (if j = 0 then i else ii)), \<lambda>(i, j, ii, c1). nat (int n + 1 - i)]"

definition step_good :: "byte list \<Rightarrow> byte list \<Rightarrow> nat \<Rightarrow> search_state \<Rightarrow> int res + search_state \<Rightarrow> bool" where
  "step_good xs ys pos st r \<longleftrightarrow>
     (case r of Inl x \<Rightarrow> x = Inr (first_occurrence xs ys (int pos))
      | Inr st' \<Rightarrow> search_inv xs ys pos st' \<and> (st', st) \<in> search_rank (length xs))"

lemma search_N0_good:
  assumes "matched xs ys pos i j ii" and "not_overtaken xs ys pos i j ii" and "0 < j"
    and "i \<le> int (length xs)" and "ys \<noteq> []" and "0 < j0"
    and whole: "i = ii + j \<Longrightarrow> occurs_at xs ys (nat ii)"
  shows "step_good xs ys pos (i0, j0, ii, c) (search_N0 (ys ! 0) i j ii)"
proof (cases "i = ii + j")
  case True
  have pos: "int pos \<le> ii" using assms(1) by (simp add: matched_def)
  have "first_occurrence xs ys (int pos) = int (nat ii)"
  proof (rule first_occurrence_found [OF whole [OF True]])
    show "pos \<le> nat ii" using pos by linarith
    show "nat ii \<le> length xs" using True assms(3,4) by linarith
    show "\<not> occurs_at xs ys q" if "pos \<le> q" "q < nat ii" for q
      using assms(2,3) that by (auto simp: not_overtaken_def)
  qed
  with True pos show ?thesis by (simp add: search_N0_def step_good_def)
next
  case False
  with assms(1) have "ii < i - j" "int pos \<le> i - j" by (auto simp: matched_def)
  moreover have "not_overtaken xs ys pos (i - j) 0 ii"
    using assms(2) by (auto simp: not_overtaken_def)
  ultimately show ?thesis
    using False assms(3-6) by (auto simp: search_N0_def step_good_def search_inv_def search_rank_def)
qed

lemma occurs_if_matched:
  assumes "\<forall>k<length ys. xs ! (nat ii + k) = ys ! k" and "0 \<le> ii" and "ii + int (length ys) \<le> int (length xs)"
    and "ys \<noteq> []"
  shows "occurs_at xs ys (nat ii)"
  using assms by (simp add: occurs_at_nth)

lemma not_overtaken_char:
  assumes "not_overtaken xs ys pos i j ii" and "occurs_at xs ys p" and "pos \<le> p"
    and "0 \<le> j" and "j < int (length ys)" and "0 \<le> i" and "xs ! nat i \<noteq> ys ! nat j"
  shows "i + 1 \<le> int p + j"
proof (rule ccontr)
  assume "\<not> i + 1 \<le> int p + j"
  moreover have "i \<le> int p + j" using assms(1-3) by (simp add: not_overtaken_def)
  ultimately have "nat i = p + nat j" using assms(4,6) by linarith
  moreover have "nat j < length ys" "ys \<noteq> []" using assms(4,5) by auto
  ultimately have "xs ! nat i = ys ! nat j" using assms(2) by (simp add: occurs_at_nth)
  with assms(7) show False by simp
qed

lemma not_overtaken_skip:
  assumes "not_overtaken xs ys pos i j ii" and "0 \<le> j" and "j < int (length ys)" and "0 \<le> i"
    and "xs ! nat i \<noteq> ys ! nat j"
  shows "not_overtaken xs ys pos (i + 1) j ii"
  using not_overtaken_char [OF assms(1) _ _ assms(2-5)] assms(1) by (auto simp: not_overtaken_def)

lemma search_hit_good:
  assumes "0 \<le> j" and "j < int (length ys)" and "2 \<le> length ys" and "int pos \<le> i" and "i < int (length xs)"
    and hit: "xs ! nat i = ys ! nat j" and no: "not_overtaken xs ys pos i j ii"
    and m: "0 < j \<Longrightarrow> matched xs ys pos i j ii"
    and d0: "take (length ys) d0 = map Some ys" and "i0 \<le> i"
  shows "step_good xs ys pos (i0, j, ii, c) (search_hit d0 (int (length ys)) (ys ! 0) i j ii)"
proof -
  define ii' where "ii' = (if j = 0 then i else ii)"
  have no': "not_overtaken xs ys pos (i + 1) (j + 1) ii'"
    using no assms(1) by (auto simp: not_overtaken_def ii'_def)
  have m': "matched xs ys pos (i + 1) (j + 1) ii'"
  proof (cases "j = 0")
    case True
    with hit assms(4) show ?thesis by (simp add: matched_def ii'_def)
  next
    case False
    with m assms(1) have old: "matched xs ys pos i j ii" by simp
    have "xs ! (nat ii + k) = ys ! k" if "i = ii + j" "k < nat (j + 1)" for k
    proof (cases "k < nat j")
      case True
      with old that(1) show ?thesis by (simp add: matched_def)
    next
      case False
      with that(2) assms(1) have "k = nat j" by linarith
      moreover from this that(1) old assms(1) have "nat ii + k = nat i" by (auto simp: matched_def)
      ultimately show ?thesis using hit by simp
    qed
    with old False show ?thesis by (auto simp: matched_def ii'_def)
  qed
  show ?thesis
  proof (cases "j + 1 < int (length ys)")
    case True
    then have "cell d0 (j + 1) = Inr (ys ! nat (j + 1))" using cell_rep [OF d0] assms(1) by simp
    with True have "search_hit d0 (int (length ys)) (ys ! 0) i j ii = Inr (i + 1, j + 1, ii', ys ! nat (j + 1))"
      by (simp add: search_hit_def ii'_def Let_def)
    moreover have "search_inv xs ys pos (i + 1, j + 1, ii', ys ! nat (j + 1))"
      using True no' m' assms(1,4,5) by (simp add: search_inv_def)
    moreover have "((i + 1, j + 1, ii', ys ! nat (j + 1)), (i0, j, ii, c)) \<in> search_rank (length xs)"
      using assms(1,5,10) by (auto simp: search_rank_def ii'_def)
    ultimately show ?thesis by (simp add: step_good_def)
  next
    case False
    then have j: "j + 1 = int (length ys)" "0 < j" using assms(2,3) by linarith+
    then have "search_hit d0 (int (length ys)) (ys ! 0) i j ii = search_N0 (ys ! 0) (i + 1) (j + 1) ii"
      by (simp add: search_hit_def Let_def)
    moreover have "occurs_at xs ys (nat ii)" if "i + 1 = ii + (j + 1)"
      using m' that j assms(3,5) by (intro occurs_if_matched) (auto simp: matched_def ii'_def)
    moreover have "ys \<noteq> []" using assms(3) by auto
    ultimately show ?thesis
      using search_N0_good [of xs ys pos "i + 1" "j + 1" ii j i0 c] m' no' j assms(1,5)
      by (simp add: ii'_def)
  qed
qed

lemma matched_gap: "matched xs ys pos i j ii \<Longrightarrow> i < k \<Longrightarrow> matched xs ys pos k j ii"
  by (auto simp: matched_def)

lemma no_occurrence_left:
  assumes "not_overtaken xs ys pos i j ii" and "0 \<le> j" and "j < int (length ys)"
    and "int (length xs) - 1 \<le> i"
    and "i = int (length xs) - 1 \<Longrightarrow> int (length ys) = j + 1 \<Longrightarrow> xs ! nat i \<noteq> ys ! nat j"
  shows "first_occurrence xs ys (int pos) = BSTR_ERR"
proof (rule first_occurrence_none)
  fix p assume p: "pos \<le> p"
  show "\<not> occurs_at xs ys p"
  proof
    assume occ: "occurs_at xs ys p"
    have ne: "ys \<noteq> []" using assms(2,3) by auto
    then have fits: "p + length ys \<le> length xs" using occ by (simp add: occurs_at_nth)
    have "i \<le> int p + j" using assms(1) occ p by (simp add: not_overtaken_def)
    with fits assms(3,4) have at: "i = int (length xs) - 1" "int (length ys) = j + 1" "i = int p + j"
      by linarith+
    then have "nat i = p + nat j" "nat j < length ys" using assms(2) by linarith+
    then have "xs ! nat i = ys ! nat j" using occ ne by (simp add: occurs_at_nth)
    with assms(5) at show False by simp
  qed
qed

lemma search_step_good:
  assumes inv: "search_inv xs ys pos st" and two: "2 \<le> length ys"
    and d0: "take (length ys) d0 = map Some ys" and d1: "take (length xs) d1 = map Some xs"
  shows "step_good xs ys pos st (search_step d0 d1 (int (length ys)) (int (length xs) - 1) (ys ! 0) st)"
proof -
  obtain i j ii c1 where st: "st = (i, j, ii, c1)" by (cases st)
  from inv have i: "int pos \<le> i" "i \<le> int (length xs)" and j: "0 \<le> j" "j < int (length ys)"
    and c1: "c1 = ys ! nat j" and m: "0 < j \<Longrightarrow> matched xs ys pos i j ii"
    and no: "not_overtaken xs ys pos i j ii"
    by (auto simp: search_inv_def st)
  note hit = search_hit_good [OF j two _ _ _ _ _ d0]
  show ?thesis
  proof (cases "i < int (length xs) - 1")
    case True
    then have cells: "cell d1 i = Inr (xs ! nat i)" "cell d1 (1 + i) = Inr (xs ! nat (i + 1))"
      using cell_rep [OF d1, of i] cell_rep [OF d1, of "1 + i"] i by (simp_all add: add.commute)
    show ?thesis
    proof (cases "xs ! nat i = ys ! nat j")
      case same: True
      with True cells c1 hit [OF i(1) _ same no m, of i c1] show ?thesis
        by (simp add: search_step_def st)
    next
      case differs: False
      have no1: "not_overtaken xs ys pos (i + 1) j ii"
        using not_overtaken_skip [OF no j _ differs] i by simp
      have m1: "0 < j \<Longrightarrow> matched xs ys pos (i + 1) j ii" using m matched_gap by fastforce
      show ?thesis
      proof (cases "xs ! nat (i + 1) = ys ! nat j")
        case same: True
        with True differs cells c1 i hit [OF _ _ same no1 m1, of i c1] show ?thesis
          by (simp add: search_step_def st)
      next
        case differs2: False
        have "not_overtaken xs ys pos (i + 2) j ii"
          using not_overtaken_skip [OF no1 j _ differs2] i by (simp add: add.assoc)
        moreover have "0 < j \<Longrightarrow> matched xs ys pos (i + 2) j ii" using m matched_gap by fastforce
        ultimately have "search_inv xs ys pos (i + 2, j, ii, c1)"
          using True i j c1 by (simp add: search_inv_def)
        moreover have "((i + 2, j, ii, c1), st) \<in> search_rank (length xs)"
          using True by (auto simp: search_rank_def st)
        ultimately show ?thesis
          using True differs differs2 cells c1 by (simp add: search_step_def st step_good_def)
      qed
    qed
  next
    case False
    note none = no_occurrence_left [OF no j]
    show ?thesis
    proof (cases "i = int (length xs) - 1 \<and> int (length ys) = j + 1")
      case last: True
      then have "0 \<le> i" "i < int (length xs)" using i by linarith+
      then have cell: "cell d1 i = Inr (xs ! nat i)" by (rule cell_rep [OF d1])
      show ?thesis
      proof (cases "xs ! nat i = ys ! nat j")
        case same: True
        have j0: "0 < j" "ys \<noteq> []" using last two by auto
        have "occurs_at xs ys (nat ii)" if at: "i = ii + j"
        proof (rule occurs_if_matched)
          have old: "matched xs ys pos i j ii" using m j0 by simp
          show "0 \<le> ii" using old by (simp add: matched_def)
          show "ii + int (length ys) \<le> int (length xs)" using at last by linarith
          show "\<forall>k<length ys. xs ! (nat ii + k) = ys ! k"
          proof (intro allI impI)
            fix k assume k: "k < length ys"
            show "xs ! (nat ii + k) = ys ! k"
            proof (cases "k < nat j")
              case True
              with old at show ?thesis by (simp add: matched_def)
            next
              case False
              with k last have "k = nat j" by linarith
              moreover from this at j \<open>0 \<le> ii\<close> have "nat ii + k = nat i" by linarith
              ultimately show ?thesis using same by simp
            qed
          qed
        qed (simp add: j0)
        with search_N0_good [OF m no j0(1) i(2) j0(2) j0(1), of i c1] j0 last cell same c1
        show ?thesis by (simp add: search_step_def st)
      next
        case False
        with none last cell c1 show ?thesis by (simp add: search_step_def st step_good_def)
      qed
    next
      case not_last: False
      with False none show ?thesis by (auto simp: search_step_def st step_good_def)
    qed
  qed
qed

lemma search_loop_first:
  assumes "search_inv xs ys pos st" and two: "2 \<le> length ys"
    and d0: "take (length ys) d0 = map Some ys" and d1: "take (length xs) d1 = map Some xs"
  shows "search_loop (search_step d0 d1 (int (length ys)) (int (length xs) - 1) (ys ! 0)) st =
    Some (Inr (first_occurrence xs ys (int pos)))"
proof -
  have "wf (search_rank (length xs))" by (simp add: search_rank_def)
  then show ?thesis using assms(1)
  proof (induction st rule: wf_induct_rule)
    case (less st)
    from search_step_good [OF less(2) two d0 d1] less(1) show ?case
      by (subst search_loop.simps) (auto simp: step_good_def split: sum.splits)
  qed
qed

lemma find_char_first:
  assumes d1: "take (length xs) d1 = map Some xs"
  shows "int pos \<le> i \<Longrightarrow> (\<And>p. pos \<le> p \<Longrightarrow> int p < i \<Longrightarrow> \<not> occurs_at xs [c] p) \<Longrightarrow>
    find_char d1 c i (int (length xs)) = Inr (first_occurrence xs [c] (int pos))"
proof (induction "nat (int (length xs) - i)" arbitrary: i rule: less_induct)
  case less
  show ?case
  proof (cases "i < int (length xs)")
    case True
    with less(2) have cell: "cell d1 i = Inr (xs ! nat i)" using cell_rep [OF d1] by simp
    show ?thesis
    proof (cases "xs ! nat i = c")
      case same: True
      have "first_occurrence xs [c] (int pos) = int (nat i)"
        by (rule first_occurrence_found) (use same True less(2,3) in \<open>auto simp: occurs_at_nth\<close>)
      with cell same True less(2) show ?thesis by (subst find_char.simps) simp
    next
      case False
      have "\<not> occurs_at xs [c] p" if "pos \<le> p" "int p < i + 1" for p
      proof (cases "int p < i")
        case True
        with less(3) that show ?thesis by blast
      next
        case at: False
        with that have "p = nat i" by linarith
        with False show ?thesis by (simp add: occurs_at_nth)
      qed
      with less(1) [of "i + 1"] less(2) True
      have "find_char d1 c (i + 1) (int (length xs)) = Inr (first_occurrence xs [c] (int pos))" by simp
      with cell False True show ?thesis by (subst find_char.simps) auto
    qed
  next
    case False
    have "first_occurrence xs [c] (int pos) = BSTR_ERR"
    proof (rule first_occurrence_none)
      fix p assume "pos \<le> p"
      with False less(3) [of p] show "\<not> occurs_at xs [c] p"
        by (cases "int p < i") (auto simp: occurs_at_nth)
    qed
    with False show ?thesis by (subst find_char.simps) simp
  qed
qed

lemma first_occurrence_over: "int (length xs) < pos \<Longrightarrow> first_occurrence xs ys pos = BSTR_ERR"
  by (simp add: first_occurrence_def nat_le_iff)

lemma occurs_at_empty: "occurs_at xs [] p"
  by (simp add: occurs_at_def)

lemma search_inv_start:
  assumes "2 \<le> length ys" and "pos \<le> length xs"
  shows "search_inv xs ys pos (int pos, 0, -1, ys ! 0)"
  using assms by (auto simp: search_inv_def not_overtaken_def)

lemma binstr_inside:
  assumes b1: "bparts (Some b1) = Some (d1, int (length xs))" "take (length xs) d1 = map Some xs"
    and b2: "bparts (Some b2) = Some (d0, int (length ys))" "take (length ys) d0 = map Some ys"
    and len: "length xs < 2 ^ 31" "length ys < 2 ^ 31" and pos: "pos < length xs" and ne: "ys \<noteq> []"
    and shared: "same \<Longrightarrow> \<forall>k < min (length xs) (length ys). xs ! k = ys ! k"
  shows "binstr same (Some b1) (int pos) (Some b2) = Some (Inr (first_occurrence xs ys (int pos)))"
proof -
  let ?lf = "int (length xs) - int (length ys) + 1"
  have m: "0 < length ys" using ne by simp
  have "int (length xs) < 2147483648" "int (length ys) < 2147483648" using len by simp_all
  with m have "- 2147483648 \<le> ?lf" "?lf < 2147483648" by linarith+
  then have lf: "s32 ?lf = ?lf" by (intro s32_id) simp_all
  have c0: "cell d0 0 = Inr (ys ! 0)" using cell_rep [OF b2(2), of 0] m by simp
  consider "?lf \<le> int pos" | "int pos < ?lf" "same" "pos = 0" | "int pos < ?lf" "\<not> (same \<and> pos = 0)" "length ys = 1"
    | "int pos < ?lf" "\<not> (same \<and> pos = 0)" "2 \<le> length ys"
    using m by linarith
  then show ?thesis
  proof cases
    case 1
    have "first_occurrence xs ys (int pos) = BSTR_ERR"
      by (rule first_occurrence_none) (use 1 ne in \<open>auto simp: occurs_at_nth\<close>)
    with 1 lf b1(1) b2(1) pos ne show ?thesis by (simp add: binstr_def)
  next
    case 2
    have "first_occurrence xs ys (int 0) = int 0"
      by (rule first_occurrence_found) (use 2 shared ne in \<open>auto simp: occurs_at_nth min_def split: if_splits\<close>)
    with 2 lf b1(1) b2(1) pos ne show ?thesis by (simp add: binstr_def)
  next
    case 3
    then have ys: "ys = [ys ! 0]" by (cases ys) auto
    have "find_char d1 (ys ! 0) (int pos) (int (length xs)) = Inr (first_occurrence xs [ys ! 0] (int pos))"
      by (rule find_char_first [OF b1(2)]) simp_all
    with 3 lf b1(1) b2(1) pos c0 ys show ?thesis by (auto simp: binstr_def)
  next
    case 4
    have "search_loop (search_step d0 d1 (int (length ys)) (int (length xs) - 1) (ys ! 0)) (int pos, 0, -1, ys ! 0) =
        Some (Inr (first_occurrence xs ys (int pos)))"
      by (rule search_loop_first [OF search_inv_start [OF 4(3)] 4(3) b2(2) b1(2)]) (use pos in simp)
    with 4 lf b1(1) b2(1) pos c0 ne show ?thesis by (auto simp: binstr_def)
  qed
qed

lemma binstr_outside:
  assumes b1: "bparts (Some b1) = Some (d1, int (length xs))" and b2: "bparts (Some b2) = Some (d0, int (length ys))"
    and out: "pos < 0 \<or> int (length xs) \<le> pos \<or> ys = []"
  shows "binstr same (Some b1) pos (Some b2) = Some (Inr (first_occurrence xs ys pos))"
proof -
  consider "pos < 0" | "int (length xs) < pos" | "pos = int (length xs)" | "0 \<le> pos" "pos < int (length xs)" "ys = []"
    using out by linarith
  then show ?thesis
  proof cases
    case 1
    with b1 b2 show ?thesis by (simp add: binstr_def first_occurrence_def)
  next
    case 2
    with b1 b2 first_occurrence_over [OF 2] show ?thesis by (simp add: binstr_def)
  next
    case 3
    with b1 b2 show ?thesis by (auto simp: binstr_def first_occurrence_def occurs_at_def)
  next
    case 4
    then have "first_occurrence xs [] (int (nat pos)) = int (nat pos)"
      by (intro first_occurrence_found) (auto simp: occurs_at_empty)
    with 4 b1 b2 show ?thesis by (simp add: binstr_def)
  qed
qed

text \<open>
  C28: \<open>binstr\<close> ends, stays inside both buffers, and returns the first position from \<open>pos\<close> on at
  which the second string occurs in the first, or \<open>BSTR_ERR\<close> when there is none: the unrolled
  loop, which matches with gaps and checks afterwards, equals the naive search. Arguments
  that share their buffer are covered.
\<close>

theorem binstr_first:
  assumes "bs_rep b1 xs" and "bs_rep b2 ys" and "same \<Longrightarrow> \<forall>k < min (length xs) (length ys). xs ! k = ys ! k"
  shows "binstr same (Some b1) pos (Some b2) = Some (Inr (first_occurrence xs ys pos))"
proof -
  obtain d1 where d1: "bparts (Some b1) = Some (d1, int (length xs))" "take (length xs) d1 = map Some xs"
    "length xs < 2 ^ 31" using bs_rep_parts [OF assms(1)] by blast
  obtain d0 where d0: "bparts (Some b2) = Some (d0, int (length ys))" "take (length ys) d0 = map Some ys"
    "length ys < 2 ^ 31" using bs_rep_parts [OF assms(2)] by blast
  show ?thesis
  proof (cases "pos < 0 \<or> int (length xs) \<le> pos \<or> ys = []")
    case True
    with d1(1) d0(1) show ?thesis by (rule binstr_outside)
  next
    case False
    then have "pos = int (nat pos)" "nat pos < length xs" "ys \<noteq> []" by auto
    with binstr_inside [OF d1(1,2) d0(1,2) d1(3) d0(3), of "nat pos" same] assms(3) show ?thesis by simp
  qed
qed

definition demo_text :: bstring where
  "demo_text = \<lparr>mlen = 8, slen = 6, data = Some (map Some [97, 97, 98, 97, 98, 99] @ [Some 0, None])\<rparr>"

definition demo_pattern :: bstring where
  "demo_pattern = \<lparr>mlen = 8, slen = 3, data = Some (map Some [97, 98, 99] @ Some 0 # replicate 4 None)\<rparr>"

theorem binstr_first_witness: "binstr False (Some demo_text) 0 (Some demo_pattern) = Some (Inr 3)"
proof -
  have "bs_rep demo_text [97, 97, 98, 97, 98, 99]" "bs_rep demo_pattern [97, 98, 99]"
    by (simp_all add: bs_rep_def demo_text_def demo_pattern_def)
  moreover have "first_occurrence [97, 97, 98, 97, 98, 99] [97, 98, 99] 0 = 3" by code_simp
  ultimately show ?thesis using binstr_first [of demo_text _ demo_pattern _ False 0] by simp
qed

end
