(* ===== verification/BEdit.thy ===== *)
theory BEdit
  imports BSearch
begin

text \<open>
  Copying, cutting and comparing in \<open>bstrlib.c\<close>. Every function is shown to do on the content
  of a valid bstring what its comment says, and \<open>bdelete\<close> also where it does not: the sum of
  a position and a length may overflow.
\<close>

section \<open>Copying\<close>

text \<open>The size of the buffer for a block of \<open>len\<close> bytes, and the copy with its terminator.\<close>

definition blk2bstr :: "byte option list option \<Rightarrow> int \<Rightarrow> alloc \<Rightarrow> (bstring option \<times> alloc) res" where
  "blk2bstr blk len al =
     (case blk of None \<Rightarrow> Inr (None, al) | Some s \<Rightarrow>
      if len < 0 then Inr (None, al) else
      (case answer al of
         (False, al) \<Rightarrow> Inr (None, al)
       | (True, al) \<Rightarrow>
           let i = snapUpSize (s32 (len + (2 - (if len \<noteq> 0 then 1 else 0)))) in
           (case bstr_alloc i al of
              (None, al) \<Rightarrow> Inr (None, al)
            | (Some d, al) \<Rightarrow>
                bind_res (first_cells s len) (\<lambda>cs.
                bind_res (if len > 0 then overwrite d 0 cs else Inr d) (\<lambda>d.
                bind_res (put d len 0) (\<lambda>d.
                Inr (Some \<lparr>mlen = i, slen = len, data = Some d\<rparr>, al)))))))"

definition bfromcstralloc :: "int \<Rightarrow> byte list option \<Rightarrow> alloc \<Rightarrow> (bstring option \<times> alloc) res" where
  "bfromcstralloc ml str al =
     (case str of None \<Rightarrow> Inr (None, al) | Some p \<Rightarrow>
      bind_res (c_strlen p) (\<lambda>j.
      let i = snapUpSize (s32 (int j + (2 - (if j \<noteq> 0 then 1 else 0)))) in
      if i \<le> s32 (int j) then Inr (None, al)
      else case answer al of
        (False, al) \<Rightarrow> Inr (None, al)
      | (True, al) \<Rightarrow>
          let i = (if i < ml then ml else i) in
          (case bstr_alloc i al of
             (None, al) \<Rightarrow> Inr (None, al)
           | (Some d, al) \<Rightarrow>
               bind_res (overwrite d 0 (map Some (take (j + 1) p))) (\<lambda>d.
               Inr (Some \<lparr>mlen = i, slen = s32 (int j), data = Some d\<rparr>, al)))))"

definition bstrcpy :: "bstring option \<Rightarrow> alloc \<Rightarrow> (bstring option \<times> alloc) res" where
  "bstrcpy bp al =
     (case bparts bp of None \<Rightarrow> Inr (None, al) | Some (s, i) \<Rightarrow>
      (case answer al of
         (False, al) \<Rightarrow> Inr (None, al)
       | (True, al) \<Rightarrow>
           let j = snapUpSize (s32 (i + 1));
               (got, al) =
                 (case bstr_alloc j al of
                    (Some d, al) \<Rightarrow> (Some (d, j), al)
                  | (None, al) \<Rightarrow>
                      (case bstr_alloc (s32 (i + 1)) al of
                         (Some d, al) \<Rightarrow> (Some (d, s32 (i + 1)), al)
                       | (None, al) \<Rightarrow> (None, al)))
           in case got of None \<Rightarrow> Inr (None, al)
              | Some (d, j) \<Rightarrow>
                  bind_res (first_cells s i) (\<lambda>cs.
                  bind_res (if i \<noteq> 0 then overwrite d 0 cs else Inr d) (\<lambda>d.
                  bind_res (put d i 0) (\<lambda>d.
                  Inr (Some \<lparr>mlen = j, slen = i, data = Some d\<rparr>, al))))))"

definition bassignblk ::
    "bstring option \<Rightarrow> byte list option \<Rightarrow> int \<Rightarrow> alloc \<Rightarrow> (int \<times> bstring option \<times> alloc) res" where
  "bassignblk ap s len al =
     (case (ap, s) of
        (Some a, Some s) \<Rightarrow>
          if data a = None \<or> mlen a < slen a \<or> slen a < 0 \<or> mlen a = 0 \<or> s32 (len + 1) < 1
          then Inr (BSTR_ERR, ap, al)
          else
            bind_res (if mlen a < s32 (len + 1) then balloc ap (s32 (len + 1)) al else Inr (BSTR_OK, ap, al))
              (\<lambda>(r, ap, al).
              if 0 > r then Inr (BSTR_ERR, ap, al) else
              case ap of None \<Rightarrow> Inl NullPointer | Some a \<Rightarrow>
              (case data a of None \<Rightarrow> Inl NullPointer | Some d \<Rightarrow>
               bind_res (first_cells (map Some s) len) (\<lambda>cs.
               bind_res (if len > 0 then overwrite d 0 cs else Inr d) (\<lambda>d.
               bind_res (put d len 0) (\<lambda>d.
               Inr (BSTR_OK, Some (a\<lparr>data := Some d, slen := len\<rparr>), al))))))
      | _ \<Rightarrow> Inr (BSTR_ERR, ap, al))"

definition ballocmin :: "bstring option \<Rightarrow> int \<Rightarrow> alloc \<Rightarrow> (int \<times> bstring option \<times> alloc) res" where
  "ballocmin bp len al =
     (case bp of None \<Rightarrow> Inr (BSTR_ERR, bp, al) | Some b \<Rightarrow>
     (case data b of None \<Rightarrow> Inr (BSTR_ERR, bp, al) | Some d \<Rightarrow>
       if s32 (slen b + 1) < 0 \<or> mlen b \<le> 0 \<or> mlen b < slen b \<or> len \<le> 0 then Inr (BSTR_ERR, bp, al)
       else
         let len = (if len < s32 (slen b + 1) then s32 (slen b + 1) else len) in
         if len = mlen b then Inr (BSTR_OK, bp, al)
         else (case bstr_realloc d len al of
             (None, al) \<Rightarrow> Inr (BSTR_ERR, bp, al)
           | (Some s, al) \<Rightarrow>
               bind_res (put s (slen b) 0) (\<lambda>s.
               Inr (BSTR_OK, Some (b\<lparr>data := Some s, mlen := len\<rparr>), al)))))"

section \<open>Cutting\<close>

text \<open>The test with which the editing functions begin.\<close>

definition writable :: "bstring \<Rightarrow> bool" where
  "writable b \<longleftrightarrow> data b \<noteq> None \<and> slen b \<le> mlen b \<and> 0 \<le> slen b \<and> 0 < mlen b"

definition btrunc :: "bstring option \<Rightarrow> int \<Rightarrow> (int \<times> bstring option) res" where
  "btrunc bp n =
     (case bp of None \<Rightarrow> Inr (BSTR_ERR, bp) | Some b \<Rightarrow>
      if n < 0 \<or> \<not> writable b then Inr (BSTR_ERR, bp)
      else if slen b > n then
        bind_res (put (the (data b)) n 0) (\<lambda>d. Inr (BSTR_OK, Some (b\<lparr>slen := n, data := Some d\<rparr>)))
      else Inr (BSTR_OK, bp))"

text \<open>\<open>bBlockCopy\<close> inside one buffer.\<close>

definition move_cells :: "byte option list \<Rightarrow> int \<Rightarrow> int \<Rightarrow> int \<Rightarrow> byte option list res" where
  "move_cells d dst src n =
     (if n \<le> 0 then Inr d
      else if 0 \<le> src \<and> nat src + nat n \<le> length d then overwrite d dst (take (nat n) (drop (nat src) d))
      else Inl OutOfBounds)"

definition bdelete :: "bstring option \<Rightarrow> int \<Rightarrow> int \<Rightarrow> (int \<times> bstring option) res" where
  "bdelete bp pos len =
     (let (pos, len) = (if pos < 0 then (0, s32 (len + pos)) else (pos, len)) in
      if len < 0 then Inr (BSTR_ERR, bp) else
      case bp of None \<Rightarrow> Inr (BSTR_ERR, bp) | Some b \<Rightarrow>
      if \<not> writable b then Inr (BSTR_ERR, bp)
      else if 0 < len \<and> pos < slen b then
        bind_res
          (if s32 (pos + len) \<ge> slen b then Inr (the (data b), pos)
           else bind_res (move_cells (the (data b)) pos (pos + len) (s32 (slen b - s32 (pos + len))))
                  (\<lambda>d. Inr (d, s32 (slen b - len))))
          (\<lambda>(d, sl). bind_res (put d sl 0) (\<lambda>d. Inr (BSTR_OK, Some (b\<lparr>slen := sl, data := Some d\<rparr>))))
      else Inr (BSTR_OK, bp))"

definition bmidstr :: "bstring option \<Rightarrow> int \<Rightarrow> int \<Rightarrow> alloc \<Rightarrow> (bstring option \<times> alloc) res" where
  "bmidstr bp left len al =
     (case bparts bp of None \<Rightarrow> Inr (None, al) | Some (d, sl) \<Rightarrow>
      let (left, len) = (if left < 0 then (0, s32 (len + left)) else (left, len));
          len = (if len > s32 (sl - left) then s32 (sl - left) else len)
      in if len \<le> 0 then bfromcstr (Some [0]) al
         else blk2bstr (Some (drop (nat left) d)) len al)"

section \<open>Comparing and searching for a character\<close>

text \<open>\<open>memcmp\<close> for equality, from index \<open>i\<close> on.\<close>

fun same_cells :: "byte option list \<Rightarrow> byte option list \<Rightarrow> int \<Rightarrow> nat \<Rightarrow> bool res" where
  "same_cells d0 d1 i 0 = Inr True"
| "same_cells d0 d1 i (Suc todo) =
     bind_res (cell d0 i) (\<lambda>x.
     bind_res (cell d1 i) (\<lambda>y.
     if x \<noteq> y then Inr False else same_cells d0 d1 (i + 1) todo))"

definition biseq :: "bool \<Rightarrow> bstring option \<Rightarrow> bstring option \<Rightarrow> int res" where
  "biseq same b0 b1 =
     (case (bparts b0, bparts b1) of
        (Some (d0, n0), Some (d1, n1)) \<Rightarrow>
          if n0 \<noteq> n1 then Inr BSTR_OK
          else if same \<or> n0 = 0 then Inr 1
          else bind_res (same_cells d0 d1 0 (nat n0)) (\<lambda>e. Inr (if e then 1 else 0))
      | _ \<Rightarrow> Inr BSTR_ERR)"

fun cstr_loop :: "byte option list \<Rightarrow> byte list \<Rightarrow> int \<Rightarrow> nat \<Rightarrow> int res" where
  "cstr_loop d s i 0 = bind_res (rd s (nat i)) (\<lambda>c. Inr (if c = 0 then 1 else 0))"
| "cstr_loop d s i (Suc todo) =
     bind_res (rd s (nat i)) (\<lambda>c.
     if c = 0 then Inr BSTR_OK
     else bind_res (cell d i) (\<lambda>x. if x \<noteq> c then Inr BSTR_OK else cstr_loop d s (i + 1) todo))"

definition biseqcstr :: "bstring option \<Rightarrow> byte list option \<Rightarrow> int res" where
  "biseqcstr bp sp =
     (case (bparts bp, sp) of
        (Some (d, n), Some s) \<Rightarrow> cstr_loop d s 0 (nat n)
      | _ \<Rightarrow> Inr BSTR_ERR)"

text \<open>\<open>memchr\<close> and the subtraction of its result.\<close>

definition bstrchrp :: "bstring option \<Rightarrow> byte \<Rightarrow> int \<Rightarrow> int res" where
  "bstrchrp bp c pos =
     (case bp of None \<Rightarrow> Inr BSTR_ERR | Some b \<Rightarrow>
     (case data b of None \<Rightarrow> Inr BSTR_ERR | Some d \<Rightarrow>
        if slen b \<le> pos \<or> pos < 0 then Inr BSTR_ERR else find_char d c pos (slen b)))"

fun find_back :: "byte option list \<Rightarrow> byte \<Rightarrow> nat \<Rightarrow> int res" where
  "find_back d c 0 = Inr BSTR_ERR"
| "find_back d c (Suc i) =
     bind_res (cell d (int i)) (\<lambda>x. if x = c then Inr (int i) else find_back d c i)"

definition bstrrchrp :: "bstring option \<Rightarrow> byte \<Rightarrow> int \<Rightarrow> int res" where
  "bstrrchrp bp c pos =
     (case bp of None \<Rightarrow> Inr BSTR_ERR | Some b \<Rightarrow>
     (case data b of None \<Rightarrow> Inr BSTR_ERR | Some d \<Rightarrow>
        if slen b \<le> pos \<or> pos < 0 then Inr BSTR_ERR else find_back d c (nat pos + 1)))"

section \<open>What they do\<close>

lemma bs_repE:
  assumes "bs_rep b xs"
  obtains d where "data b = Some d" "length d = nat (mlen b)" "0 < mlen b" "mlen b < 2 ^ 31"
    "slen b = int (length xs)" "slen b \<le> mlen b" "take (length xs) d = map Some xs"
    "length xs \<le> length d" "writable b" "bparts (Some b) = Some (d, int (length xs))"
proof -
  from assms obtain d where d: "data b = Some d" "length d = nat (mlen b)" "0 < mlen b" "mlen b < 2 ^ 31"
    "slen b = int (length xs)" "slen b \<le> mlen b" "take (length xs) d = map Some xs"
    by (auto simp: bs_rep_def)
  moreover from d have "length xs \<le> length d" by simp
  ultimately show ?thesis using that by (simp add: writable_def bparts_def)
qed

lemma first_cells_rep: "first_cells (map Some xs @ rest) (int (length xs)) = Inr (map Some xs)"
  by (simp add: first_cells_def)

lemma first_cells_take: "take (length xs) d = map Some xs \<Longrightarrow> length xs \<le> length d \<Longrightarrow>
    first_cells d (int (length xs)) = Inr (map Some xs)"
  by (simp add: first_cells_def)

text \<open>A content and a terminator written to a buffer that has room for both.\<close>

lemma fill_cells:
  assumes "length xs < length d"
  shows "\<exists>e. bind_res (if int (length xs) > 0 then overwrite d 0 (map Some xs) else Inr d)
      (\<lambda>d. bind_res (put d (int (length xs)) 0) F) = F e \<and> length e = length d \<and>
    take (length xs) e = map Some xs \<and> e ! length xs = Some 0"
proof (cases "xs = []")
  case True
  with assms show ?thesis by (auto simp: put_def)
next
  case False
  with assms show ?thesis by (auto simp: put_def overwrite_def nth_list_update)
qed

lemma blk2bstr_rep:
  assumes "take (length xs) s = map Some xs" and "length xs \<le> length s" and "int (length xs) < 2 ^ 30"
  shows "\<exists>bp al'. blk2bstr (Some s) (int (length xs)) al = Inr (bp, al') \<and>
    (\<forall>b. bp = Some b \<longrightarrow> bs_ok b xs) \<and> (al = [] \<longrightarrow> bp \<noteq> None \<and> al' = [])"
proof -
  let ?n = "int (length xs) + (2 - (if int (length xs) \<noteq> 0 then 1 else 0))"
  have n: "s32 ?n = ?n" "?n < 2 ^ 31" using assms(3) by simp_all
  note snap = snapUpSize_bounds [OF n(2)]
  let ?i = "snapUpSize ?n"
  have room: "length xs < nat ?i" using snap(1) by (simp split: if_splits)
  obtain ok al1 where a: "answer al = (ok, al1)" "al = [] \<longrightarrow> ok \<and> al1 = []" by (cases al) auto
  show ?thesis
  proof (cases ok)
    case False
    with a show ?thesis by (auto simp: blk2bstr_def)
  next
    case True
    show ?thesis
    proof (cases rule: bstr_allocE [of ?i al1])
      case (1 al')
      with True a n snap(2) show ?thesis by (auto simp: blk2bstr_def Let_def)
    next
      case (2 al')
      have "length xs < length (replicate (nat ?i) (None :: byte option))" using room by simp
      from fill_cells [OF this] obtain e where
        e: "bind_res (if int (length xs) > 0 then overwrite (replicate (nat ?i) None) 0 (map Some xs)
              else Inr (replicate (nat ?i) None))
            (\<lambda>d. bind_res (put d (int (length xs)) 0)
              (\<lambda>d. Inr (Some \<lparr>mlen = ?i, slen = int (length xs), data = Some d\<rparr>, al'))) =
            Inr (Some \<lparr>mlen = ?i, slen = int (length xs), data = Some e\<rparr>, al')"
          "length e = nat ?i" "take (length xs) e = map Some xs" "e ! length xs = Some 0" by auto
      have "blk2bstr (Some s) (int (length xs)) al =
          Inr (Some \<lparr>mlen = ?i, slen = int (length xs), data = Some e\<rparr>, al')"
        unfolding e(1) [symmetric]
        using True a n 2 first_cells_take [OF assms(1,2)] by (simp add: blk2bstr_def Let_def)
      moreover have "bs_ok \<lparr>mlen = ?i, slen = int (length xs), data = Some e\<rparr> xs"
        using e(2-4) room snap by (auto simp: bs_ok_def bs_rep_def)
      ultimately show ?thesis using 2 a by auto
    qed
  qed
qed

lemma bfromcstralloc_empty:
  assumes "m < 2 ^ 31"
  shows "\<exists>bp al'. bfromcstralloc m (Some [0]) al = Inr (bp, al') \<and>
    (\<forall>b. bp = Some b \<longrightarrow> bs_ok b [] \<and> m \<le> mlen b) \<and> (al = [] \<longrightarrow> bp \<noteq> None \<and> al' = [])"
proof -
  have i: "snapUpSize 2 = 8" by (simp add: snapUpSize_def)
  define n where "n = (if 8 < m then m else 8)"
  have n: "0 < nat n" "8 \<le> n" "m \<le> n" "n < 2 ^ 31" using assms by (simp_all add: n_def)
  obtain ok al1 where a: "answer al = (ok, al1)" "al = [] \<longrightarrow> ok \<and> al1 = []" by (cases al) auto
  let ?d = "Some 0 # replicate (nat n - 1) (None :: byte option)"
  have "overwrite (replicate (nat n) None) 0 [Some 0] = Inr ?d"
    using n(1) by (cases "nat n") (simp_all add: overwrite_def)
  then have run: "bfromcstralloc m (Some [0]) al = (if \<not> ok then Inr (None, al1)
      else case bstr_alloc n al1 of (None, al) \<Rightarrow> Inr (None, al)
        | (Some d, al) \<Rightarrow> bind_res (overwrite d 0 [Some 0]) (\<lambda>d. Inr (Some \<lparr>mlen = n, slen = 0, data = Some d\<rparr>, al)))"
    using a(1) by (cases ok) (simp_all add: bfromcstralloc_def Let_def i n_def cong: option.case_cong prod.case_cong)
  have "bs_ok \<lparr>mlen = n, slen = 0, data = Some ?d\<rparr> []"
    using n by (simp add: bs_ok_def bs_rep_def)
  note made = this
  show ?thesis
  proof (cases ok)
    case False
    with run a show ?thesis by auto
  next
    case True
    show ?thesis
    proof (cases rule: bstr_allocE [of n al1])
      case (1 al')
      with True run a n show ?thesis by auto
    next
      case (2 al')
      with True run a n made \<open>overwrite (replicate (nat n) None) 0 [Some 0] = Inr ?d\<close> show ?thesis by auto
    qed
  qed
qed

lemma bstrcpy_rep:
  assumes "bs_rep b xs" and "int (length xs) < 2 ^ 31 - 1"
  shows "\<exists>bp al'. bstrcpy (Some b) al = Inr (bp, al') \<and>
    (\<forall>b'. bp = Some b' \<longrightarrow> bs_ok b' xs) \<and> (al = [] \<longrightarrow> bp \<noteq> None \<and> al' = [])"
proof -
  obtain s where s: "take (length xs) s = map Some xs" "length xs \<le> length s"
    "bparts (Some b) = Some (s, int (length xs))" using assms(1) by (rule bs_repE)
  let ?n = "int (length xs) + 1"
  have n: "s32 ?n = ?n" "?n < 2 ^ 31" using assms(2) by simp_all
  note snap = snapUpSize_bounds [OF n(2)]
  obtain ok al1 where a: "answer al = (ok, al1)" "al = [] \<longrightarrow> ok \<and> al1 = []" by (cases al) auto
  define fin where "fin = (\<lambda>(got, al :: alloc). case got of None \<Rightarrow> Inr (None, al)
    | Some (d, j) \<Rightarrow>
        bind_res (if int (length xs) \<noteq> 0 then overwrite d 0 (map Some xs) else Inr d) (\<lambda>d.
        bind_res (put d (int (length xs)) 0) (\<lambda>d.
        Inr (Some \<lparr>mlen = j, slen = int (length xs), data = Some d\<rparr>, al))))"
  have fin: "\<exists>b'. fin (Some (replicate (nat j) None, j), al') = Inr (Some b', al') \<and> bs_ok b' xs"
    if j: "?n \<le> j" "j < 2 ^ 31" for j al'
  proof -
    have room: "length xs < length (replicate (nat j) (None :: byte option))" using j by simp
    from fill_cells [OF room, of "\<lambda>d. Inr (Some \<lparr>mlen = j, slen = int (length xs), data = Some d\<rparr>, al')"]
    obtain e where e: "fin (Some (replicate (nat j) None, j), al') =
        Inr (Some \<lparr>mlen = j, slen = int (length xs), data = Some e\<rparr>, al')"
      "length e = nat j" "take (length xs) e = map Some xs" "e ! length xs = Some 0"
      by (auto simp: fin_def)
    then show ?thesis using j by (auto simp: bs_ok_def bs_rep_def)
  qed
  define got where "got = (case bstr_alloc (snapUpSize ?n) al1 of
      (Some d, al) \<Rightarrow> (Some (d, snapUpSize ?n), al)
    | (None, al) \<Rightarrow> (case bstr_alloc ?n al of (Some d, al) \<Rightarrow> (Some (d, ?n), al) | (None, al) \<Rightarrow> (None, al)))"
  have run: "bstrcpy (Some b) al = (if ok then fin got else Inr (None, al1))"
    using s(3) first_cells_take [OF s(1,2)] a(1) n(1)
    by (auto simp: bstrcpy_def fin_def got_def Let_def split: option.splits prod.splits)
  consider al' where "got = (None, al')" "al1 \<noteq> []"
    | j al' where "got = (Some (replicate (nat j) None, j), al')" "?n \<le> j" "j < 2 ^ 31" "al1 = [] \<longrightarrow> al' = []"
  proof (cases rule: bstr_allocE [of "snapUpSize ?n" al1])
    case (1 al')
    then show ?thesis using that snap n
      by (cases rule: bstr_allocE [of ?n al']) (auto simp: got_def)
  next
    case (2 al')
    with snap show ?thesis by (intro that(2)) (auto simp: got_def)
  qed
  then show ?thesis
  proof cases
    case 1
    with run a show ?thesis by (auto simp: fin_def)
  next
    case (2 j al')
    with run a fin [OF 2(2,3), of al'] show ?thesis by auto
  qed
qed

text \<open>An assignment replaces the content or, for lack of memory, keeps it.\<close>

lemma bassignblk_rep:
  assumes "bs_rep b xs" and "int (length ys) < 2 ^ 31 - 1"
  shows "\<exists>r b' al'. bassignblk (Some b) (Some (ys @ p)) (int (length ys)) al = Inr (r, Some b', al') \<and>
    (r = BSTR_OK \<and> bs_ok b' ys \<or> r = BSTR_ERR \<and> bs_rep b' xs) \<and> (al = [] \<longrightarrow> r = BSTR_OK \<and> al' = [])"
proof -
  obtain d where d: "data b = Some d" "0 < mlen b" "slen b = int (length xs)" "slen b \<le> mlen b"
    using assms(1) by (rule bs_repE)
  let ?n = "int (length ys) + 1"
  have n: "s32 ?n = ?n" using assms(2) by simp
  have grow: "\<exists>r b' al'. (if mlen b < ?n then balloc (Some b) ?n al else Inr (BSTR_OK, Some b, al)) =
      Inr (r, Some b', al') \<and> bs_rep b' xs \<and>
      (r = BSTR_OK \<and> ?n \<le> mlen b' \<or> r = BSTR_ERR) \<and> (al = [] \<longrightarrow> r = BSTR_OK \<and> al' = [])"
  proof (cases "mlen b < ?n")
    case True
    with balloc_rep [OF assms(1), of ?n al] assms(2) d show ?thesis by fastforce
  next
    case False
    with assms(1) show ?thesis by simp
  qed
  then obtain r b' al' where g: "(if mlen b < ?n then balloc (Some b) ?n al
        else Inr (BSTR_OK, Some b, al)) = Inr (r, Some b', al')" and rep: "bs_rep b' xs"
    and r: "r = BSTR_OK \<and> ?n \<le> mlen b' \<or> r = BSTR_ERR" "al = [] \<longrightarrow> r = BSTR_OK \<and> al' = []"
    by blast
  obtain e where e: "data b' = Some e" "length e = nat (mlen b')" "mlen b' < 2 ^ 31" "0 < mlen b'"
    using rep by (rule bs_repE)
  define fin where "fin = bind_res (if int (length ys) > 0 then overwrite e 0 (map Some ys) else Inr e) (\<lambda>d.
    bind_res (put d (int (length ys)) 0) (\<lambda>d.
    Inr (BSTR_OK, Some (b'\<lparr>data := Some d, slen := int (length ys)\<rparr>), al')))"
  have run: "bassignblk (Some b) (Some (ys @ p)) (int (length ys)) al =
      (if 0 > r then Inr (BSTR_ERR, Some b', al') else fin)"
    using d e(1) n g by (simp add: bassignblk_def fin_def first_cells_rep cong: if_cong)
  show ?thesis
  proof (cases "r = BSTR_ERR")
    case True
    with run rep r show ?thesis by (auto simp: BSTR_ERR_def BSTR_OK_def)
  next
    case False
    with r have ok: "r = BSTR_OK" "?n \<le> mlen b'" by auto
    then have "length ys < length e" using e by simp
    from fill_cells [OF this, of "\<lambda>d. Inr (BSTR_OK, Some (b'\<lparr>data := Some d, slen := int (length ys)\<rparr>), al')"]
    obtain u where u: "fin = Inr (BSTR_OK, Some (b'\<lparr>data := Some u, slen := int (length ys)\<rparr>), al')"
      "length u = length e" "take (length ys) u = map Some ys" "u ! length ys = Some 0"
      unfolding fin_def by blast
    with ok e have "bs_ok (b'\<lparr>data := Some u, slen := int (length ys)\<rparr>) ys"
      by (simp add: bs_ok_def bs_rep_def)
    with run u(1) ok r show ?thesis by (simp add: BSTR_OK_def)
  qed
qed

lemma ballocmin_rep:
  assumes "bs_rep b xs" and "int (length xs) < 2 ^ 31 - 1" and "0 < len" and "len < 2 ^ 31"
  shows "\<exists>r b' al'. ballocmin (Some b) len al = Inr (r, Some b', al') \<and> bs_rep b' xs \<and>
    (r = BSTR_OK \<and> mlen b' = max len (int (length xs) + 1) \<or> r = BSTR_ERR \<and> b' = b)"
proof -
  obtain d where d: "data b = Some d" "length d = nat (mlen b)" "0 < mlen b" "mlen b < 2 ^ 31"
    "slen b = int (length xs)" "slen b \<le> mlen b" "take (length xs) d = map Some xs"
    "length xs \<le> length d" using assms(1) by (rule bs_repE)
  have n: "s32 (int (length xs) + 1) = int (length xs) + 1" using assms(2) by simp
  let ?len = "max len (int (length xs) + 1)"
  have run: "ballocmin (Some b) len al = (if ?len = mlen b then Inr (BSTR_OK, Some b, al)
      else case bstr_realloc d ?len al of
        (None, al) \<Rightarrow> Inr (BSTR_ERR, Some b, al)
      | (Some s, al) \<Rightarrow> bind_res (put s (int (length xs)) 0) (\<lambda>s.
          Inr (BSTR_OK, Some (b\<lparr>data := Some s, mlen := ?len\<rparr>), al)))"
    using d(1,3,5,6) n assms(3)
    by (cases "len < int (length xs) + 1") (simp_all add: ballocmin_def Let_def max_absorb1 max_absorb2
        cong: if_cong option.case_cong)
  show ?thesis
  proof (cases "?len = mlen b")
    case True
    with run assms(1) show ?thesis by simp
  next
    case False
    show ?thesis
    proof (cases rule: bstr_reallocE [of d ?len al])
      case (1 al')
      with False run assms(1) show ?thesis by simp
    next
      case (2 al')
      define m s where "m = ?len" and "s = take (nat ?len) (d @ replicate (nat ?len) None)"
      have m: "int (length xs) < m" "m < 2 ^ 31" using assms(2,4) by (auto simp: m_def)
      have s: "length s = nat m" "take (length xs) s = map Some xs"
        using d(7,8) m(1) unfolding s_def m_def [symmetric] by (simp_all add: min_absorb1)
      have rep: "bs_rep (b\<lparr>data := Some (s[length xs := Some 0]), mlen := m\<rparr>) xs"
        using s m d(5) by (simp add: bs_rep_def)
      have "put s (int (length xs)) 0 = Inr (s[length xs := Some 0])"
        using s(1) m(1) by (simp add: put_def)
      moreover have "bstr_realloc d m al = (Some s, al')" using 2(1) by (simp only: m_def s_def)
      ultimately have "ballocmin (Some b) len al =
          Inr (BSTR_OK, Some (b\<lparr>data := Some (s[length xs := Some 0]), mlen := m\<rparr>), al')"
        using False run unfolding m_def [symmetric] by simp
      with rep show ?thesis unfolding m_def by fastforce
    qed
  qed
qed

lemma btrunc_rep:
  assumes "bs_rep b xs" and "0 \<le> n"
  shows "\<exists>b'. btrunc (Some b) n = Inr (BSTR_OK, Some b') \<and> bs_rep b' (take (nat n) xs)"
proof -
  obtain d where d: "data b = Some d" "length d = nat (mlen b)" "0 < mlen b" "mlen b < 2 ^ 31"
    "slen b = int (length xs)" "slen b \<le> mlen b" "take (length xs) d = map Some xs"
    "length xs \<le> length d" "writable b" using assms(1) by (rule bs_repE)
  show ?thesis
  proof (cases "slen b > n")
    case True
    with d(5,8) assms(2) have n: "nat n < length xs" "nat n < length d" by linarith+
    have "take (nat n) d = map Some (take (nat n) xs)"
      using d(7) n by (metis less_imp_le min.absorb1 take_map take_take)
    then have "bs_rep (b\<lparr>slen := n, data := Some (d[nat n := Some 0])\<rparr>) (take (nat n) xs)"
      using d n assms(2) True by (simp add: bs_rep_def)
    with True d assms(2) n show ?thesis by (simp add: btrunc_def put_def)
  next
    case False
    with d(5) have "take (nat n) xs = xs" by simp
    with False d assms show ?thesis by (simp add: btrunc_def)
  qed
qed

lemma same_cells_rep:
  assumes "take (length xs) d0 = map Some xs" and "take (length ys) d1 = map Some ys"
  shows "i + n \<le> length xs \<Longrightarrow> i + n \<le> length ys \<Longrightarrow>
    same_cells d0 d1 (int i) n = Inr (\<forall>k. i \<le> k \<and> k < i + n \<longrightarrow> xs ! k = ys ! k)"
proof (induction n arbitrary: i)
  case 0
  then show ?case by auto
next
  case (Suc n)
  then have "cell d0 (int i) = Inr (xs ! i)" "cell d1 (int i) = Inr (ys ! i)"
    using cell_rep [OF assms(1), of "int i"] cell_rep [OF assms(2), of "int i"] by simp_all
  moreover have "same_cells d0 d1 (int i + 1) n = Inr (\<forall>k. Suc i \<le> k \<and> k < Suc i + n \<longrightarrow> xs ! k = ys ! k)"
    using Suc.IH [of "Suc i"] Suc.prems by (simp add: add.commute)
  moreover have "(\<forall>k. i \<le> k \<and> k < i + Suc n \<longrightarrow> xs ! k = ys ! k) \<longleftrightarrow>
      xs ! i = ys ! i \<and> (\<forall>k. Suc i \<le> k \<and> k < Suc i + n \<longrightarrow> xs ! k = ys ! k)"
    by (auto simp: le_Suc_eq less_Suc_eq_le) (metis Suc_leI le_neq_implies_less)
  ultimately show ?case by simp
qed

lemma biseq_rep:
  assumes "bs_rep b0 xs" and "bs_rep b1 ys" and "same \<Longrightarrow> \<forall>k < min (length xs) (length ys). xs ! k = ys ! k"
  shows "biseq same (Some b0) (Some b1) = Inr (if xs = ys then 1 else 0)"
proof -
  obtain d0 where d0: "take (length xs) d0 = map Some xs" "bparts (Some b0) = Some (d0, int (length xs))"
    using assms(1) by (rule bs_repE)
  obtain d1 where d1: "take (length ys) d1 = map Some ys" "bparts (Some b1) = Some (d1, int (length ys))"
    using assms(2) by (rule bs_repE)
  show ?thesis
  proof (cases "length xs = length ys \<and> xs \<noteq> [] \<and> \<not> same")
    case True
    then have len: "length ys = length xs" by simp
    have "same_cells d0 d1 (int 0) (length xs) = Inr (\<forall>k. 0 \<le> k \<and> k < 0 + length xs \<longrightarrow> xs ! k = ys ! k)"
      by (rule same_cells_rep [OF d0(1) d1(1)]) (simp_all only: len add_0 order_refl)
    moreover have "(\<forall>k. 0 \<le> k \<and> k < 0 + length xs \<longrightarrow> xs ! k = ys ! k) = (xs = ys)"
      using nth_equalityI [OF len [symmetric]] by auto
    ultimately have "same_cells d0 d1 0 (length xs) = Inr (xs = ys)" by simp
    with True len d0(2) d1(2) show ?thesis by (simp add: biseq_def)
  next
    case False
    then consider "length xs \<noteq> length ys" | "length xs = length ys" "xs = []" | "length xs = length ys" same by blast
    then show ?thesis
    proof cases
      case 3
      with assms(3) have "xs = ys" by (intro nth_equalityI) simp_all
      with 3 d0(2) d1(2) show ?thesis by (simp add: biseq_def)
    qed (use d0(2) d1(2) in \<open>auto simp: biseq_def BSTR_OK_def\<close>)
  qed
qed

lemma cstr_loop_rep:
  assumes "take (length xs) d = map Some xs" and "0 \<notin> set ys"
  shows "i + n = length xs \<Longrightarrow> i \<le> length ys \<Longrightarrow>
    cstr_loop d (ys @ 0 # p) (int i) n = Inr (if drop i xs = drop i ys then 1 else 0)"
proof (induction n arbitrary: i)
  case 0
  then show ?case
    by (cases "i = length ys") (use assms(2) in \<open>auto simp: rd_def nth_append in_set_conv_nth\<close>)
next
  case (Suc n)
  then have i: "i < length xs" by simp
  then have x: "cell d (int i) = Inr (xs ! i)" using cell_rep [OF assms(1), of "int i"] by simp
  have xs: "drop i xs = xs ! i # drop (Suc i) xs" using i by (simp add: Cons_nth_drop_Suc)
  show ?case
  proof (cases "i < length ys")
    case True
    then have "rd (ys @ 0 # p) i = Inr (ys ! i)" "ys ! i \<noteq> 0" "drop i ys = ys ! i # drop (Suc i) ys"
      using assms(2) by (auto simp: rd_def nth_append Cons_nth_drop_Suc in_set_conv_nth)
    with x xs Suc.IH [of "Suc i"] Suc.prems True show ?thesis
      by (auto simp: BSTR_OK_def add.commute)
  next
    case False
    with Suc.prems have "i = length ys" by simp
    with xs show ?thesis by (simp add: rd_def nth_append BSTR_OK_def)
  qed
qed

lemma biseqcstr_rep:
  assumes "bs_rep b xs" and "0 \<notin> set ys"
  shows "biseqcstr (Some b) (Some (ys @ 0 # p)) = Inr (if xs = ys then 1 else 0)"
proof -
  obtain d where d: "take (length xs) d = map Some xs" "bparts (Some b) = Some (d, int (length xs))"
    using assms(1) by (rule bs_repE)
  from cstr_loop_rep [OF d(1) assms(2), of 0 "length xs" p] d(2) show ?thesis by (simp add: biseqcstr_def)
qed

lemma bstrchrp_rep:
  assumes "bs_rep b xs"
  shows "bstrchrp (Some b) c pos = Inr (first_occurrence xs [c] pos)"
proof -
  obtain d where d: "data b = Some d" "slen b = int (length xs)" "take (length xs) d = map Some xs"
    using assms by (rule bs_repE)
  show ?thesis
  proof (cases "0 \<le> pos \<and> pos < int (length xs)")
    case True
    with find_char_first [OF d(3), of "nat pos" pos c] d show ?thesis by (simp add: bstrchrp_def)
  next
    case False
    have "first_occurrence xs [c] pos = BSTR_ERR"
    proof (cases "pos < 0")
      case neg: False
      have "first_occurrence xs [c] (int (nat pos)) = BSTR_ERR"
        by (rule first_occurrence_none) (use neg False in \<open>auto simp: occurs_at_nth\<close>)
      with neg show ?thesis by simp
    qed (simp add: first_occurrence_def)
    with False d show ?thesis by (auto simp: bstrchrp_def)
  qed
qed

text \<open>The backward search stops at the last occurrence up to \<open>pos\<close>.\<close>

lemma find_back_rep:
  assumes "take (length xs) d = map Some xs"
  shows "n \<le> length xs \<Longrightarrow> find_back d c n =
    Inr (case find (\<lambda>i. xs ! i = c) (rev [0..<n]) of None \<Rightarrow> BSTR_ERR | Some i \<Rightarrow> int i)"
proof (induction n)
  case (Suc n)
  then have "cell d (int n) = Inr (xs ! n)" using cell_rep [OF assms, of "int n"] by simp
  with Suc show ?case by simp
qed simp

lemma bstrrchrp_rep:
  assumes "bs_rep b xs" and "0 \<le> pos" and "pos < int (length xs)"
  shows "bstrrchrp (Some b) c pos =
    Inr (case find (\<lambda>i. xs ! i = c) (rev [0..<Suc (nat pos)]) of None \<Rightarrow> BSTR_ERR | Some i \<Rightarrow> int i)"
proof -
  obtain d where d: "data b = Some d" "slen b = int (length xs)" "take (length xs) d = map Some xs"
    using assms(1) by (rule bs_repE)
  have "Suc (nat pos) \<le> length xs" using assms(2,3) by linarith
  with find_back_rep [OF d(3) this] d assms(2,3) show ?thesis
    by (simp add: bstrrchrp_def del: find_back.simps upt_Suc)
qed

text \<open>Both ends of the section that \<open>bdelete\<close> removes are clamped to the content.\<close>

lemma bdelete_rep:
  assumes "bs_rep b xs" and "0 \<le> pos" and "0 \<le> len" and "pos + len < 2 ^ 31"
  shows "\<exists>b'. bdelete (Some b) pos len = Inr (BSTR_OK, Some b') \<and>
    bs_rep b' (take (nat pos) xs @ drop (nat (pos + len)) xs)"
proof -
  obtain d where d: "data b = Some d" "length d = nat (mlen b)" "0 < mlen b" "mlen b < 2 ^ 31"
    "slen b = int (length xs)" "slen b \<le> mlen b" "take (length xs) d = map Some xs"
    "length xs \<le> length d" "writable b" using assms(1) by (rule bs_repE)
  have end_: "s32 (pos + len) = pos + len" using assms(2-4) by simp
  consider "len = 0 \<or> int (length xs) \<le> pos" | "0 < len" "pos < int (length xs)" "int (length xs) \<le> pos + len"
    | "0 < len" "pos + len < int (length xs)" using assms(3) by linarith
  then show ?thesis
  proof cases
    case 1
    with assms(2,3) have "take (nat pos) xs @ drop (nat (pos + len)) xs = xs" by auto
    with 1 d assms show ?thesis by (auto simp: bdelete_def)
  next
    case 2
    with d(8) assms(2) have n: "nat pos < length xs" "nat pos < length d" by linarith+
    have "take (nat pos) d = map Some (take (nat pos) xs)"
      using d(7) n by (metis less_imp_le min.absorb1 take_map take_take)
    then have "bs_rep (b\<lparr>slen := pos, data := Some (d[nat pos := Some 0])\<rparr>) (take (nat pos) xs)"
      using d n assms(2) 2 by (simp add: bs_rep_def)
    with 2 d n assms(2) end_ show ?thesis by (simp add: bdelete_def put_def)
  next
    case 3
    define p l where "p = nat pos" and "l = nat len"
    have pl: "pos = int p" "len = int l" "0 < l" "p + l < length xs" using 3 assms(2,3) by (auto simp: p_def l_def)
    define q where "q = length xs - (p + l)"
    have q: "p + l + q = length xs" using pl(4) by (simp add: q_def)
    define e where "e = take p d @ take q (drop (p + l) d) @ drop (p + q) d"
    let ?ys = "take p xs @ drop (p + l) xs"
    have ys: "int (length ?ys) = int (length xs) - int l" using pl by simp
    have len_e: "length e = length d" using q d(8) by (simp add: e_def)
    have "take (p + q) e = take p d @ take q (drop (p + l) d)" using q d(8) by (simp add: e_def)
    also have "take p d = map Some (take p xs)"
      using pl d(7) by (metis (no_types) add_leD1 less_imp_le min.absorb1 take_map take_take)
    also have "take q (drop (p + l) d) = map Some (drop (p + l) xs)"
      using d(7) by (metis drop_map drop_take q_def)
    finally have e: "take (length ?ys) (e[p + q := Some 0]) = map Some ?ys" using q by (simp add: q_def)
    have n: "s32 (int (length xs) - (pos + len)) = int q"
      using pl(1,2) q [symmetric] d(4-6) by simp
    have sl: "s32 (int (length xs) - len) = int (p + q)"
      using pl(1,2) q [symmetric] d(4-6) by simp
    have mv: "move_cells d pos (pos + len) (int q) = Inr e"
      using pl(1,2) q d(8) by (simp add: move_cells_def overwrite_def e_def nat_add_distrib)
    have room: "p + q < length e" using pl q d(8) len_e by linarith
    have "bdelete (Some b) pos len =
        Inr (BSTR_OK, Some (b\<lparr>slen := int (p + q), data := Some (e[p + q := Some 0])\<rparr>))"
      using 3 d(1,5,9) pl(2) end_ n sl mv room assms(2,3) by (simp add: bdelete_def put_def nat_add_distrib)
    moreover have "bs_rep (b\<lparr>slen := int (p + q), data := Some (e[p + q := Some 0])\<rparr>) ?ys"
      using d e len_e pl ys q [symmetric] by (simp add: bs_rep_def)
    ultimately show ?thesis using pl by (auto simp: nat_add_distrib)
  qed
qed

text \<open>
  Where the end of the section is past the range of \<open>int\<close>, the clamping fails: the shift reads
  past the buffer, or the terminator is written before it.
\<close>

lemma s32_above: "2 ^ 31 \<le> i \<Longrightarrow> i < 2 ^ 32 \<Longrightarrow> s32 i = i - 2 ^ 32"
proof -
  assume i: "2 ^ 31 \<le> i" "i < 2 ^ 32"
  have "(word_of_int i :: 32 word) = word_of_int (i - 2 ^ 32)"
    by (simp add: word_of_int_eq_iff take_bit_eq_mod)
  then have "s32 i = s32 (i - 2 ^ 32)" unfolding s32_def by (rule arg_cong)
  with i show "s32 i = i - 2 ^ 32" by simp
qed

lemma bdelete_overflow:
  assumes "bs_rep b xs" and "length xs \<le> 2 ^ 30" and "0 \<le> pos" and "pos < int (length xs)"
    and "len < 2 ^ 31" and "2 ^ 31 \<le> pos + len"
  shows "bdelete (Some b) pos len = Inl OutOfBounds"
proof -
  obtain d where d: "data b = Some d" "length d = nat (mlen b)" "0 < mlen b" "mlen b < 2 ^ 31"
    "slen b = int (length xs)" "slen b \<le> mlen b" "take (length xs) d = map Some xs"
    "length xs \<le> length d" "writable b" using assms(1) by (rule bs_repE)
  have xs: "int (length xs) \<le> 2 ^ 30" using assms(2) by simp
  have neg: "s32 (pos + len) < int (length xs)" using s32_above [of "pos + len"] xs assms(3-6) by simp
  have len: "0 < len" "s32 (int (length xs) - len) < 0" using xs assms(4-6) by simp_all
  let ?n = "s32 (int (length xs) - s32 (pos + len))"
  have "move_cells d pos (pos + len) ?n = (if ?n \<le> 0 then Inr d else Inl OutOfBounds)"
    using d(2-4) assms(3,6) by (auto simp: move_cells_def)
  with neg len d assms(3,4) show ?thesis by (auto simp: bdelete_def put_def)
qed

lemma bmidstr_rep:
  assumes "bs_rep b xs" and "length xs < 2 ^ 30" and "0 \<le> len" and "len < 2 ^ 31"
    and "- (2 ^ 31) \<le> left" and "left < 2 ^ 31"
  shows "\<exists>bp al'. bmidstr (Some b) left len al = Inr (bp, al') \<and>
    (\<forall>b'. bp = Some b' \<longrightarrow> bs_ok b' (take (nat (left + len) - nat left) (drop (nat left) xs))) \<and>
    (al = [] \<longrightarrow> bp \<noteq> None \<and> al' = [])"
proof -
  obtain d where d: "slen b = int (length xs)" "take (length xs) d = map Some xs"
    "length xs \<le> length d" "bparts (Some b) = Some (d, int (length xs))" using assms(1) by (rule bs_repE)
  have xs: "int (length xs) < 2 ^ 30" using assms(2) by simp
  define l n where "l = nat left" and "n = nat (left + len) - l"
  let ?ys = "take n (drop l xs)"
  define m where "m = (let len = (if left < 0 then s32 (len + left) else len)
    in if len > s32 (int (length xs) - int l) then s32 (int (length xs) - int l) else len)"
  have "s32 (len + left) = len + left" if "left < 0" using that assms(3-6) by simp
  moreover have "s32 (int (length xs) - int l) = int (length xs) - int l"
    using xs assms(5,6) by (simp add: l_def)
  ultimately have m: "nat m = length ?ys"
    using assms(3) by (auto simp: m_def l_def n_def Let_def min_def)
  have run: "bmidstr (Some b) left len al =
      (if m \<le> 0 then bfromcstr (Some [0]) al else blk2bstr (Some (drop l d)) m al)"
    using d(4) by (simp add: bmidstr_def m_def l_def Let_def)
  show ?thesis
  proof (cases "m \<le> 0")
    case True
    then have "length ?ys = 0" using m by linarith
    then have "?ys = []" by (simp only: length_0_conv)
    with run True have "bmidstr (Some b) left len al = bfromcstr (Some ([] @ 0 # [])) al" by simp
    moreover have "\<exists>bp al'. bfromcstr (Some ([] @ 0 # [])) al = Inr (bp, al') \<and>
        (\<forall>b. bp = Some b \<longrightarrow> bs_ok b ?ys) \<and> (al = [] \<longrightarrow> bp \<noteq> None \<and> al' = [])"
      unfolding \<open>?ys = []\<close> by (rule bfromcstr_rep) simp_all
    ultimately show ?thesis unfolding n_def l_def by (simp only:)
  next
    case False
    with m have mi: "m = int (length ?ys)" by linarith
    have "take (length xs - l) (drop l d) = map Some (drop l xs)"
      using d(2) by (metis drop_map drop_take)
    then have "take n (take (length xs - l) (drop l d)) = map Some ?ys" by (simp add: take_map)
    then have "take (length ?ys) (drop l d) = map Some ?ys" by (simp add: min.commute)
    moreover have "length ?ys \<le> length (drop l d)" using d(3) by simp
    moreover have "int (length ?ys) < 2 ^ 30" using xs by simp
    ultimately have "\<exists>bp al'. blk2bstr (Some (drop l d)) (int (length ?ys)) al = Inr (bp, al') \<and>
        (\<forall>b. bp = Some b \<longrightarrow> bs_ok b ?ys) \<and> (al = [] \<longrightarrow> bp \<noteq> None \<and> al' = [])"
      by (rule blk2bstr_rep)
    moreover from run False mi
    have "bmidstr (Some b) left len al = blk2bstr (Some (drop l d)) (int (length ?ys)) al" by (simp only: if_False)
    ultimately show ?thesis unfolding n_def l_def by (simp only:)
  qed
qed

text \<open>A section that begins left of the content is cut there.\<close>

lemma bdelete_left:
  "pos < 0 \<Longrightarrow> - (2 ^ 31) \<le> pos + len \<Longrightarrow> len < 2 ^ 31 \<Longrightarrow> 0 \<le> pos + len \<Longrightarrow> bdelete bp pos len = bdelete bp 0 (pos + len)"
  by (simp add: bdelete_def add.commute)

lemma bdelete_nothing:
  assumes "len < 0 \<or> pos + len < 0" and "- (2 ^ 31) \<le> pos + len" and "len < 2 ^ 31"
  shows "bdelete bp pos len = Inr (BSTR_ERR, bp)"
proof (cases "pos < 0")
  case True
  with assms have "s32 (len + pos) < 0" by (subst s32_id) auto
  with True show ?thesis by (simp add: bdelete_def)
next
  case False
  with assms(1) have "len < 0" by linarith
  with False show ?thesis by (simp add: bdelete_def)
qed

text \<open>
  C29: \<open>bdelete\<close> removes exactly the characters from \<open>pos\<close> to \<open>pos + len - 1\<close>, clamped to the
  string on both sides - what lies before its first or behind its last character counts for
  nothing - and leaves a valid bstring. A negative length, or a section that ends before the
  first character, is an error that changes nothing. Where \<open>pos + len\<close> exceeds the range of \<open>int\<close>
  and \<open>pos\<close> is inside the string the clamping fails: the buffer is read or written outside its
  bounds.
\<close>

theorem bdelete_section:
  assumes "bs_rep b xs" and "length xs \<le> 2 ^ 30" and "- (2 ^ 31) \<le> pos + len" and "pos < 2 ^ 31" and "len < 2 ^ 31"
  shows "if len < 0 \<or> pos + len < 0 then bdelete (Some b) pos len = Inr (BSTR_ERR, Some b)
    else if pos < int (length xs) \<and> 2 ^ 31 \<le> pos + len
    then bdelete (Some b) pos len = Inl OutOfBounds
    else \<exists>b'. bdelete (Some b) pos len = Inr (BSTR_OK, Some b') \<and>
      bs_rep b' (take (nat pos) xs @ drop (nat (pos + len)) xs)"
proof -
  consider "len < 0 \<or> pos + len < 0" | "pos < 0" "0 \<le> len" "0 \<le> pos + len" | "0 \<le> pos" "0 \<le> len" "pos + len < 2 ^ 31"
    | "0 \<le> pos" "0 \<le> len" "2 ^ 31 \<le> pos + len" "pos < int (length xs)"
    | "0 \<le> pos" "0 \<le> len" "2 ^ 31 \<le> pos + len" "int (length xs) \<le> pos"
    by linarith
  then show ?thesis
  proof cases
    case 1
    with bdelete_nothing [OF 1 assms(3,5)] show ?thesis by simp
  next
    case 2
    with assms(5) have "pos + len < 2 ^ 31" by linarith
    with bdelete_rep [OF assms(1), of 0 "pos + len"] bdelete_left [OF 2(1) assms(3,5) 2(3)] 2 show ?thesis by simp
  next
    case 3
    with bdelete_rep [OF assms(1) 3(1,2)] show ?thesis by simp
  next
    case 4
    with bdelete_overflow [OF assms(1,2) 4(1) _ assms(5)] show ?thesis by simp
  next
    case 5
    then have "take (nat pos) xs @ drop (nat (pos + len)) xs = xs" by auto
    moreover have "slen b = int (length xs)" "writable b" using assms(1) by (auto elim: bs_repE)
    with 5 assms(1) have "bdelete (Some b) pos len = Inr (BSTR_OK, Some b)" by (simp add: bdelete_def)
    ultimately show ?thesis using 5 assms(1) by simp
  qed
qed

theorem bdelete_section_witness:
  "(\<exists>b'. bdelete (Some demo_text) 1 3 = Inr (BSTR_OK, Some b') \<and> bs_rep b' [97, 98, 99]) \<and>
   (\<exists>b'. bdelete (Some demo_text) (- 2) 3 = Inr (BSTR_OK, Some b') \<and> bs_rep b' [97, 98, 97, 98, 99]) \<and>
   bdelete (Some demo_text) (- 2) 1 = Inr (BSTR_ERR, Some demo_text) \<and>
   bdelete (Some demo_text) 1 (2 ^ 31 - 1) = Inl OutOfBounds"
proof -
  have "bs_rep demo_text [97, 97, 98, 97, 98, 99]"
    by (simp add: bs_rep_def demo_text_def)
  from bdelete_section [OF this, of 1 3] bdelete_section [OF this, of "- 2" 3] bdelete_section [OF this, of "- 2" 1]
    bdelete_section [OF this, of 1 "2 ^ 31 - 1"]
  show ?thesis by (simp add: BSTR_OK_def)
qed

end
