(* ===== verification/BInsert.thy ===== *)
theory BInsert
  imports BEdit
begin

text \<open>
  Writing one string into another in \<open>bstrlib.c\<close>: concatenation, assignment, setting,
  inserting and replacing a section, filling and repeating. Each function is shown to do to
  the content what its comment says, in one step of a machine of edits, and sequences of edits
  follow.

  Where a second string is an argument, its buffer may be a part of the first one's: the string
  itself, or a tagged section of it (\<open>blk2tbstr\<close>, \<open>bmid2tbstr\<close>). Such an argument is
  \<open>Inside off n\<close>, and is read where it lies, from the cells as they are at that moment, unless the
  code's comparison of pointers has a copy made before; reading it after the first buffer has
  moved is a fault.
\<close>

section \<open>Steps the functions share\<close>

text \<open>
  An argument is a string with a buffer of its own, or \<open>n\<close> bytes of the first string's buffer
  from \<open>off\<close> on.
\<close>

datatype barg = Apart bstring | Inside int int

fun arg_slen :: "barg \<Rightarrow> int" where
  "arg_slen (Apart a) = slen a"
| "arg_slen (Inside off n) = n"

fun arg_null :: "barg \<Rightarrow> bool" where
  "arg_null (Apart a) \<longleftrightarrow> data a = None"
| "arg_null (Inside off n) \<longleftrightarrow> False"

text \<open>The argument as a \<open>bstring\<close>, with the cells that \<open>b\<close> has now.\<close>

fun arg_tag :: "bstring \<Rightarrow> barg \<Rightarrow> bstring" where
  "arg_tag b (Apart a) = a"
| "arg_tag b (Inside off n) = \<lparr>mlen = mlen b - off, slen = n, data = map_option (drop (nat off)) (data b)\<rparr>"

text \<open>The comparison of pointers: where the argument's data lies, counted from the first string's.\<close>

fun lies_between :: "int \<Rightarrow> int \<Rightarrow> barg \<Rightarrow> bool" where
  "lies_between low high (Apart a) \<longleftrightarrow> False"
| "lies_between low high (Inside off n) \<longleftrightarrow> low \<le> off \<and> off < high"

text \<open>\<open>aux = bstrcpy (b1)\<close> when the comparison \<open>copies\<close> says so.\<close>

definition alias_copy :: "bool \<Rightarrow> bstring \<Rightarrow> barg \<Rightarrow> alloc \<Rightarrow> (barg option \<times> alloc) res" where
  "alias_copy copies b arg al =
     (if copies then bind_res (bstrcpy (Some (arg_tag b arg)) al) (\<lambda>(aux, al). Inr (map_option Apart aux, al))
      else Inr (Some arg, al))"

text \<open>\<open>balloc\<close>, and what follows when it succeeds.\<close>

definition ensure ::
    "bstring option \<Rightarrow> int \<Rightarrow> alloc \<Rightarrow>
     (bstring \<Rightarrow> byte option list \<Rightarrow> alloc \<Rightarrow> (int \<times> bstring option \<times> alloc) res)
     \<Rightarrow> (int \<times> bstring option \<times> alloc) res" where
  "ensure bp n al k =
     bind_res (balloc bp n al) (\<lambda>(r, bp, al).
     if r \<noteq> BSTR_OK then Inr (BSTR_ERR, bp, al)
     else case bp of None \<Rightarrow> Inl NullPointer
     | Some b \<Rightarrow> (case data b of None \<Rightarrow> Inl NullPointer | Some d \<Rightarrow> k b d al))"

text \<open>\<open>bBlockCopy\<close> from another buffer, and \<open>memset\<close>.\<close>

definition copy_cells :: "byte option list \<Rightarrow> int \<Rightarrow> byte option list \<Rightarrow> int \<Rightarrow> byte option list res" where
  "copy_cells d i src n =
     (if n > 0 then bind_res (first_cells src n) (\<lambda>cs. overwrite d i cs) else Inr d)"

definition copy_from :: "byte option list \<Rightarrow> int \<Rightarrow> bstring \<Rightarrow> int \<Rightarrow> byte option list res" where
  "copy_from d i aux n =
     (if n > 0 then (case data aux of None \<Rightarrow> Inl NullPointer | Some src \<Rightarrow> copy_cells d i src n)
      else Inr d)"

text \<open>
  The same from an argument, into the cells \<open>d\<close> of \<open>b\<close>; \<open>home\<close> is the size its buffer had when
  the pointer into it was taken. \<open>balloc\<close> gives a string another buffer only with another size.
\<close>

fun copy_arg :: "int \<Rightarrow> bstring \<Rightarrow> byte option list \<Rightarrow> int \<Rightarrow> barg \<Rightarrow> int \<Rightarrow> byte option list res" where
  "copy_arg home b d i (Apart a) n = copy_from d i a n"
| "copy_arg home b d i (Inside off m) n =
     (if n \<le> 0 then Inr d
      else if mlen b \<noteq> home then Inl DanglingPointer
      else if off < 0 then Inl OutOfBounds
      else copy_cells d i (drop (nat off) d) n)"

definition set_cells :: "byte option list \<Rightarrow> int \<Rightarrow> byte \<Rightarrow> int \<Rightarrow> byte option list res" where
  "set_cells d i c n =
     (if n < 0 then Inl OutOfBounds else overwrite d i (replicate (nat n) (Some c)))"

text \<open>The new length, the terminator, and the return.\<close>

definition finish ::
    "bstring \<Rightarrow> byte option list \<Rightarrow> int \<Rightarrow> alloc \<Rightarrow> (int \<times> bstring option \<times> alloc) res" where
  "finish b d n al =
     bind_res (put d n 0) (\<lambda>d. Inr (BSTR_OK, Some (b\<lparr>data := Some d, slen := n\<rparr>), al))"

section \<open>Concatenation and assignment\<close>

definition bconcat ::
    "bstring option \<Rightarrow> barg option \<Rightarrow> alloc \<Rightarrow> (int \<times> bstring option \<times> alloc) res" where
  "bconcat bp0 bp1 al =
     (case (bp0, bp1) of (Some b0, Some b1) \<Rightarrow>
       if data b0 = None \<or> arg_null b1 then Inr (BSTR_ERR, bp0, al)
       else
         let d = slen b0; len = arg_slen b1 in
         if d < 0 \<or> s32 (mlen b0 - d) < 0 \<or> len < 0 \<or> s32 (d + len) < 0 then Inr (BSTR_ERR, bp0, al)
         else
           let copy = (\<lambda>b x aux al. bind_res (copy_arg (mlen b0) b x d aux len) (\<lambda>x. finish b x (s32 (d + len)) al)) in
           if mlen b0 \<le> s32 (d + len + 1) then
             bind_res (alias_copy (lies_between 0 (mlen b0) b1) b0 b1 al) (\<lambda>(aux, al).
             case aux of None \<Rightarrow> Inr (BSTR_ERR, bp0, al)
             | Some aux \<Rightarrow> ensure bp0 (s32 (d + len + 1)) al (\<lambda>b x al. copy b x aux al))
           else copy b0 (the (data b0)) b1 al
     | _ \<Rightarrow> Inr (BSTR_ERR, bp0, al))"

text \<open>The buffer's size at the entry.\<close>

definition home_of :: "bstring option \<Rightarrow> int" where
  "home_of bp = (case bp of None \<Rightarrow> 0 | Some b \<Rightarrow> mlen b)"

definition bassign ::
    "bstring option \<Rightarrow> barg option \<Rightarrow> alloc \<Rightarrow> (int \<times> bstring option \<times> alloc) res" where
  "bassign ap bp al =
     (case bp of None \<Rightarrow> Inr (BSTR_ERR, ap, al) | Some b \<Rightarrow>
       let n = arg_slen b in
       if arg_null b \<or> n < 0 then Inr (BSTR_ERR, ap, al)
       else if n \<noteq> 0 then
         ensure ap n al (\<lambda>a d al. bind_res (copy_arg (home_of ap) a d 0 b n) (\<lambda>d. finish a d n al))
       else
         (case ap of None \<Rightarrow> Inr (BSTR_ERR, ap, al) | Some a \<Rightarrow>
         (case data a of None \<Rightarrow> Inr (BSTR_ERR, ap, al) | Some d \<Rightarrow>
            if mlen a < slen a \<or> slen a < 0 \<or> mlen a = 0 then Inr (BSTR_ERR, ap, al)
            else finish a d n al)))"

text \<open>The pointer \<open>b->data + left\<close>.\<close>

fun arg_skip :: "int \<Rightarrow> barg \<Rightarrow> barg" where
  "arg_skip k (Apart a) = Apart (a\<lparr>data := map_option (drop (nat k)) (data a)\<rparr>)"
| "arg_skip k (Inside off n) = Inside (off + k) n"

definition bassignmidstr ::
    "bstring option \<Rightarrow> barg option \<Rightarrow> int \<Rightarrow> int \<Rightarrow> alloc \<Rightarrow> (int \<times> bstring option \<times> alloc) res" where
  "bassignmidstr ap bp left len al =
     (case bp of None \<Rightarrow> Inr (BSTR_ERR, ap, al) | Some b \<Rightarrow>
       let n = arg_slen b in
       if arg_null b \<or> n < 0 then Inr (BSTR_ERR, ap, al)
       else
       let (left, len) = (if left < 0 then (0, s32 (len + left)) else (left, len));
           len = (if len > s32 (n - left) then s32 (n - left) else len) in
       (case ap of None \<Rightarrow> Inr (BSTR_ERR, ap, al) | Some a \<Rightarrow>
       (case data a of None \<Rightarrow> Inr (BSTR_ERR, ap, al) | Some d \<Rightarrow>
          if mlen a < slen a \<or> slen a < 0 \<or> mlen a = 0 then Inr (BSTR_ERR, ap, al)
          else if len > 0 then
            ensure ap len al (\<lambda>a d al.
              bind_res (copy_arg (home_of ap) a d 0 (arg_skip left b) len) (\<lambda>d. finish a d len al))
          else finish a d 0 al)))"

definition bassigncstr ::
    "bstring option \<Rightarrow> byte list option \<Rightarrow> alloc \<Rightarrow> (int \<times> bstring option \<times> alloc) res" where
  "bassigncstr ap sp al =
     (case (ap, sp) of (Some a, Some s) \<Rightarrow>
       (case data a of None \<Rightarrow> Inr (BSTR_ERR, ap, al) | Some d \<Rightarrow>
         if mlen a < slen a \<or> slen a < 0 \<or> mlen a = 0 then Inr (BSTR_ERR, ap, al)
         else
           bind_res (cat_loop d 0 s (nat (mlen a))) (\<lambda>(d, i, s, found).
             let a = a\<lparr>data := Some d, slen := int i\<rparr> in
             if found then Inr (BSTR_OK, Some a, al)
             else
               bind_res (c_strlen s) (\<lambda>len.
               if int len > 2 ^ 31 - 1 \<or> int i + int len + 1 > 2 ^ 31 - 1 then Inr (BSTR_ERR, Some a, al)
               else
                 bind_res (balloc (Some a) (int i + int len + 1) al) (\<lambda>(r, ap, al).
                 if 0 > r then Inr (BSTR_ERR, ap, al)
                 else case ap of None \<Rightarrow> Inl NullPointer
                 | Some a \<Rightarrow> (case data a of None \<Rightarrow> Inl NullPointer | Some d \<Rightarrow>
                     bind_res (overwrite d (int i) (map Some (take (len + 1) s))) (\<lambda>d.
                     Inr (BSTR_OK, Some (a\<lparr>data := Some d, slen := s32 (slen a + int len)\<rparr>), al)))))))
     | _ \<Rightarrow> Inr (BSTR_ERR, ap, al))"

section \<open>Sections\<close>

text \<open>\<open>bsetstr\<close> behind its aliasing case; \<open>aux\<close> is \<open>None\<close> when \<open>b1\<close> is NULL.\<close>

definition bsetstr_aux ::
    "bstring \<Rightarrow> int \<Rightarrow> byte \<Rightarrow> barg option \<Rightarrow> alloc \<Rightarrow> (int \<times> bstring option \<times> alloc) res" where
  "bsetstr_aux b0 pos fill aux al =
     (let d = (case aux of None \<Rightarrow> pos | Some a \<Rightarrow> s32 (pos + arg_slen a)) in
      ensure (Some b0) (s32 (d + 1)) al (\<lambda>b x al.
        let sl = slen b; newlen = (if pos > sl then pos else sl) in
        bind_res (if pos > sl then set_cells x sl fill (pos - sl) else Inr x) (\<lambda>x.
        bind_res (case aux of None \<Rightarrow> Inr x | Some a \<Rightarrow> copy_arg (mlen b0) b x pos a (arg_slen a)) (\<lambda>x.
        finish b x (if d > newlen then d else newlen) al))))"

definition bsetstr ::
    "bstring option \<Rightarrow> int \<Rightarrow> barg option \<Rightarrow> byte \<Rightarrow> alloc \<Rightarrow> (int \<times> bstring option \<times> alloc) res" where
  "bsetstr bp0 pos bp1 fill al =
     (case bp0 of None \<Rightarrow> Inr (BSTR_ERR, bp0, al) | Some b0 \<Rightarrow>
      if pos < 0 \<or> \<not> writable b0 then Inr (BSTR_ERR, bp0, al)
      else
        case bp1 of None \<Rightarrow> bsetstr_aux b0 pos fill None al
        | Some b1 \<Rightarrow>
            if arg_slen b1 < 0 \<or> arg_null b1 then Inr (BSTR_ERR, bp0, al)
            else bind_res (alias_copy (lies_between 0 (mlen b0) b1) b0 b1 al) (\<lambda>(aux, al).
              case aux of None \<Rightarrow> Inr (BSTR_ERR, Some b0, al) | Some aux \<Rightarrow> bsetstr_aux b0 pos fill (Some aux) al))"

text \<open>\<open>binsert\<close> behind its aliasing case.\<close>

definition binsert_aux ::
    "bstring \<Rightarrow> int \<Rightarrow> byte \<Rightarrow> barg \<Rightarrow> alloc \<Rightarrow> (int \<times> bstring option \<times> alloc) res" where
  "binsert_aux b1 pos fill aux al =
     (let d = s32 (slen b1 + arg_slen aux); l = s32 (pos + arg_slen aux);
          ins = (\<lambda>b x n al. bind_res (copy_arg (mlen b1) b x pos aux (arg_slen aux)) (\<lambda>x. finish b x n al)) in
      if d < 0 \<or> l < 0 then Inr (BSTR_ERR, Some b1, al)
      else if l > d then
        ensure (Some b1) (s32 (l + 1)) al (\<lambda>b x al.
        bind_res (set_cells x (slen b) fill (pos - slen b)) (\<lambda>x. ins b x l al))
      else
        ensure (Some b1) (s32 (d + 1)) al (\<lambda>b x al.
        bind_res (move_cells x l pos (d - l)) (\<lambda>x. ins b x d al)))"

definition binsert ::
    "bstring option \<Rightarrow> int \<Rightarrow> barg option \<Rightarrow> byte \<Rightarrow> alloc \<Rightarrow> (int \<times> bstring option \<times> alloc) res" where
  "binsert bp1 pos bp2 fill al =
     (case (bp1, bp2) of (Some b1, Some b2) \<Rightarrow>
       if pos < 0 \<or> slen b1 < 0 \<or> arg_slen b2 < 0 \<or> mlen b1 < slen b1 \<or> mlen b1 \<le> 0 then Inr (BSTR_ERR, bp1, al)
       else
         bind_res (alias_copy (lies_between 0 (mlen b1) b2) b1 b2 al) (\<lambda>(aux, al).
         case aux of None \<Rightarrow> Inr (BSTR_ERR, Some b1, al) | Some aux \<Rightarrow> binsert_aux b1 pos fill aux al)
     | _ \<Rightarrow> Inr (BSTR_ERR, bp1, al))"

text \<open>
  \<open>breplace\<close> where the section ends inside the string, behind its aliasing case, which compares
  with \<open>slen\<close> where the other functions compare with \<open>mlen\<close>.
\<close>

definition breplace_aux ::
    "bstring \<Rightarrow> int \<Rightarrow> int \<Rightarrow> barg \<Rightarrow> alloc \<Rightarrow> (int \<times> bstring option \<times> alloc) res" where
  "breplace_aux b1 pos len aux al =
     (let n = arg_slen aux;
          rep = (\<lambda>b x al.
            bind_res (if n \<noteq> len then move_cells x (pos + n) (pos + len) (slen b - (pos + len)) else Inr x) (\<lambda>x.
            bind_res (copy_arg (mlen b1) b x pos aux n) (\<lambda>x.
            finish b x (s32 (slen b + (n - len))) al))) in
      if n > len then ensure (Some b1) (s32 (slen b1 + n - len)) al rep
      else rep b1 (the (data b1)) al)"

definition breplace ::
    "bstring option \<Rightarrow> int \<Rightarrow> int \<Rightarrow> barg option \<Rightarrow> byte \<Rightarrow> alloc
     \<Rightarrow> (int \<times> bstring option \<times> alloc) res" where
  "breplace bp1 pos len bp2 fill al =
     (case (bp1, bp2) of (Some b1, Some b2) \<Rightarrow>
       let pl = s32 (pos + len) in
       if pos < 0 \<or> len < 0 \<or> pl < 0 \<or> \<not> writable b1 \<or> arg_null b2 \<or> arg_slen b2 < 0
       then Inr (BSTR_ERR, bp1, al)
       else if pl \<ge> slen b1 then
         bind_res (bsetstr bp1 pos bp2 fill al) (\<lambda>(r, bp1, al).
         if r < 0 then Inr (r, bp1, al)
         else case bp1 of None \<Rightarrow> Inl NullPointer | Some b1 \<Rightarrow>
           if s32 (pos + arg_slen b2) < slen b1 then finish b1 (the (data b1)) (s32 (pos + arg_slen b2)) al
           else Inr (r, bp1, al))
       else
         bind_res (alias_copy (lies_between 0 (slen b1) b2) b1 b2 al) (\<lambda>(aux, al).
         case aux of None \<Rightarrow> Inr (BSTR_ERR, Some b1, al) | Some aux \<Rightarrow> breplace_aux b1 pos len aux al)
     | _ \<Rightarrow> Inr (BSTR_ERR, bp1, al))"

section \<open>Filling and repeating\<close>

text \<open>The loops that copy cells one by one, upwards and downwards.\<close>

fun shift_up :: "byte option list \<Rightarrow> int \<Rightarrow> int \<Rightarrow> nat \<Rightarrow> byte option list res" where
  "shift_up d i dist 0 = Inr d"
| "shift_up d i dist (Suc todo) =
     bind_res (if 0 \<le> i - dist \<and> nat (i - dist) < length d then Inr (d ! nat (i - dist)) else Inl OutOfBounds)
       (\<lambda>c. bind_res (overwrite d i [c]) (\<lambda>d. shift_up d (i - 1) dist todo))"

fun repeat_up :: "byte option list \<Rightarrow> int \<Rightarrow> int \<Rightarrow> nat \<Rightarrow> byte option list res" where
  "repeat_up d i dist 0 = Inr d"
| "repeat_up d i dist (Suc todo) =
     bind_res (cell d (i - dist)) (\<lambda>c. bind_res (put d i c) (\<lambda>d. repeat_up d (i + 1) dist todo))"

definition binsertch ::
    "bstring option \<Rightarrow> int \<Rightarrow> int \<Rightarrow> byte \<Rightarrow> alloc \<Rightarrow> (int \<times> bstring option \<times> alloc) res" where
  "binsertch bp pos len fill al =
     (case bp of None \<Rightarrow> Inr (BSTR_ERR, bp, al) | Some b \<Rightarrow>
      if pos < 0 \<or> slen b < 0 \<or> mlen b < slen b \<or> mlen b \<le> 0 \<or> len < 0 then Inr (BSTR_ERR, bp, al)
      else
        let d = s32 (slen b + len); l = s32 (pos + len) in
        if d < 0 \<or> l < 0 then Inr (BSTR_ERR, bp, al)
        else if l > d then
          ensure bp (s32 (l + 1)) al (\<lambda>b x al.
          bind_res (if slen b < l then set_cells x (slen b) fill (l - slen b) else Inr x) (\<lambda>x. finish b x l al))
        else
          ensure bp (s32 (d + 1)) al (\<lambda>b x al.
          bind_res (shift_up x (d - 1) len (nat (d - l))) (\<lambda>x.
          bind_res (if pos < l then set_cells x pos fill (l - pos) else Inr x) (\<lambda>x. finish b x d al))))"

definition bpattern :: "bstring option \<Rightarrow> int \<Rightarrow> alloc \<Rightarrow> (int \<times> bstring option \<times> alloc) res" where
  "bpattern bp len al =
     (let d = (case bp of None \<Rightarrow> 0 | Some b \<Rightarrow> if slen b < 0 then 0 else slen b) in
      if d \<le> 0 \<or> len < 0 then Inr (BSTR_ERR, bp, al)
      else
        ensure bp (s32 (len + 1)) al (\<lambda>b x al.
        if len > 0 \<and> d = 1 then
          bind_res (cell x 0) (\<lambda>c. bsetstr (Some b) len None c al)
        else
          bind_res (repeat_up x d d (nat (len - d))) (\<lambda>x. finish b x len al)))"

section \<open>The outcome of an edit\<close>

text \<open>
  \<open>edit_ok al r xs zs\<close>: the call succeeds and leaves \<open>zs\<close> with its terminator, or fails and leaves
  the content \<open>xs\<close>; with enough memory it succeeds.
\<close>

definition edit_ok :: "alloc \<Rightarrow> (int \<times> bstring option \<times> alloc) res \<Rightarrow> byte list \<Rightarrow> byte list \<Rightarrow> bool" where
  "edit_ok al r xs zs \<longleftrightarrow> (\<exists>c b al'. r = Inr (c, Some b, al') \<and>
     (c = BSTR_OK \<and> bs_ok b zs \<or> c = BSTR_ERR \<and> bs_rep b xs) \<and> (al = [] \<longrightarrow> c = BSTR_OK \<and> al' = []))"

lemma ok_not_err [simp]: "BSTR_OK \<noteq> BSTR_ERR" "BSTR_ERR \<noteq> BSTR_OK"
  by (simp_all add: BSTR_OK_def BSTR_ERR_def)

named_theorems edit_intros \<open>how the outcome of an edit follows from its steps\<close>

lemma bs_rep_cells:
  assumes "bs_rep b xs"
  obtains r where "data b = Some (map Some xs @ r)" "length xs + length r = nat (mlen b)"
    "0 < mlen b" "mlen b < 2 ^ 31" "slen b = int (length xs)" "int (length xs) \<le> mlen b" "writable b"
proof -
  obtain d where d: "data b = Some d" "length d = nat (mlen b)" "0 < mlen b" "mlen b < 2 ^ 31"
    "slen b = int (length xs)" "slen b \<le> mlen b" "take (length xs) d = map Some xs" "writable b"
    using assms by (rule bs_repE)
  then have "d = map Some xs @ drop (length xs) d" by (metis append_take_drop_id)
  moreover from this d(2) have "length xs + length (drop (length xs) d) = nat (mlen b)"
    by (metis length_append length_map)
  ultimately show ?thesis using that d by metis
qed

text \<open>With enough memory \<open>balloc\<close> leaves room for a terminator behind the requested size.\<close>

lemma bs_rep_slen: "bs_rep b xs \<Longrightarrow> slen b = int (length xs)"
  by (auto simp: bs_rep_def)

lemma balloc_strict:
  assumes "bs_rep b xs" and "0 < n" and "n < 2 ^ 30" and "balloc (Some b) n [] = Inr (c, Some b', al')"
  shows "n < mlen b'"
proof -
  obtain r where b: "data b = Some (map Some xs @ r)" "length xs + length r = nat (mlen b)"
    "0 < mlen b" "mlen b < 2 ^ 31" "slen b = int (length xs)" "int (length xs) \<le> mlen b" "writable b"
    using assms(1) by (rule bs_rep_cells)
  have snap: "n < snapUpSize n" "8 \<le> snapUpSize n" using snapUpSize_bounds [of n] assms(3) by simp_all
  show ?thesis
  proof (cases "n < mlen b \<or> snapUpSize n \<le> mlen b")
    case True
    with assms(2,4) b snap show ?thesis by (auto simp: balloc_def Let_def split: if_splits)
  next
    case False
    with b assms(2,4) snap show ?thesis
      by (auto simp: balloc_def Let_def balloc_grow_def reallocStrategy_def bstr_realloc_def bstr_alloc_def
          res_simps split: if_splits)
  qed
qed

lemma ensure_edit [edit_intros]:
  assumes "bs_rep b xs" and "0 < n" and "n < 2 ^ 31" and "slen b < mlen b \<or> slen b < n"
    and "\<And>b' r al'. data b' = Some (map Some xs @ r) \<Longrightarrow> length xs + length r = nat (mlen b') \<Longrightarrow>
      mlen b' < 2 ^ 31 \<Longrightarrow> slen b' = int (length xs) \<Longrightarrow> n \<le> mlen b' \<Longrightarrow> bs_rep b' xs \<Longrightarrow>
      (bs_ok b xs \<Longrightarrow> bs_ok b' xs) \<Longrightarrow> (al = [] \<Longrightarrow> n < 2 ^ 30 \<Longrightarrow> al' = [] \<and> n < mlen b') \<Longrightarrow>
      edit_ok al' (k b' (map Some xs @ r) al') xs zs"
  shows "edit_ok al (ensure (Some b) n al k) xs zs"
proof -
  from balloc_rep [OF assms(1-4), of al] obtain c b' al' where
    g: "balloc (Some b) n al = Inr (c, Some b', al')" "bs_rep b' xs" "bs_ok b xs \<longrightarrow> bs_ok b' xs"
      "c = BSTR_OK \<and> n \<le> mlen b' \<or> c = BSTR_ERR" "al = [] \<longrightarrow> c = BSTR_OK \<and> al' = []" by blast
  from g(2) obtain r where r: "data b' = Some (map Some xs @ r)" "length xs + length r = nat (mlen b')"
    "mlen b' < 2 ^ 31" "slen b' = int (length xs)" by (rule bs_rep_cells)
  show ?thesis
  proof (cases "c = BSTR_OK")
    case True
    with g(4) have "n \<le> mlen b'" by (auto simp: BSTR_OK_def BSTR_ERR_def)
    moreover have "al' = [] \<and> n < mlen b'" if "al = []" "n < 2 ^ 30"
      using balloc_strict [OF assms(1,2)] g(1,5) that by blast
    ultimately have "edit_ok al' (k b' (map Some xs @ r) al') xs zs" using assms(5) r g(2,3) by blast
    with True g(1,5) r(1) show ?thesis by (auto simp: ensure_def edit_ok_def)
  next
    case False
    with g show ?thesis by (auto simp: ensure_def edit_ok_def)
  qed
qed

text \<open>What an argument says where the first string has the content \<open>xs\<close>.\<close>

fun arg_rep :: "byte list \<Rightarrow> barg \<Rightarrow> byte list \<Rightarrow> bool" where
  "arg_rep xs (Apart a) ys \<longleftrightarrow> bs_rep a ys"
| "arg_rep xs (Inside off n) ys \<longleftrightarrow> 0 \<le> off \<and> n = int (length ys) \<and> nat off + length ys \<le> length xs \<and>
     ys = take (length ys) (drop (nat off) xs)"

lemma arg_rep_slen: "arg_rep xs arg ys \<Longrightarrow> arg_slen arg = int (length ys)"
  by (cases arg) (simp_all add: bs_rep_slen)

lemma arg_rep_not_null: "arg_rep xs arg ys \<Longrightarrow> \<not> arg_null arg"
  by (cases arg) (auto simp: bs_rep_def)

lemma arg_tag_rep:
  assumes "bs_rep b xs" and "arg_rep xs arg ys" and "\<And>off n. arg = Inside off n \<Longrightarrow> off < mlen b"
  shows "bs_rep (arg_tag b arg) ys"
proof (cases arg)
  case (Apart a)
  with assms(2) show ?thesis by simp
next
  case (Inside off n)
  obtain r where b: "data b = Some (map Some xs @ r)" "length xs + length r = nat (mlen b)"
    "0 < mlen b" "mlen b < 2 ^ 31" using assms(1) by (rule bs_rep_cells)
  from Inside assms(2) have y: "0 \<le> off" "n = int (length ys)" "nat off + length ys \<le> length xs"
    "ys = take (length ys) (drop (nat off) xs)" by simp_all
  have "map Some ys = take (length ys) (drop (nat off) (map Some xs @ r))"
    using y(3) by (subst y(4)) (simp add: take_map drop_map)
  with y(1-3) b assms(3) [OF Inside] Inside show ?thesis by (auto simp: bs_rep_def)
qed

text \<open>After the aliasing case an argument that is read at all has a buffer of its own.\<close>

definition own :: "barg \<Rightarrow> byte list \<Rightarrow> bool" where
  "own aux ys \<longleftrightarrow> arg_slen aux = int (length ys) \<and> (ys = [] \<or> (\<exists>a. aux = Apart a \<and> bs_rep a ys))"

lemma own_slen: "own aux ys \<Longrightarrow> arg_slen aux = int (length ys)"
  by (simp add: own_def)

lemma alias_edit [edit_intros]:
  assumes "arg_rep xs arg ys" and "int (length ys) < 2 ^ 31 - 1" and "bs_rep b xs"
    and "int (length xs) \<le> lim" and "lim \<le> mlen b"
    and "\<And>aux al'. own aux ys \<Longrightarrow> (al = [] \<Longrightarrow> al' = []) \<Longrightarrow> edit_ok al' (k aux al') xs zs"
  shows "edit_ok al (bind_res (alias_copy (lies_between 0 lim arg) b arg al) (\<lambda>(aux, al).
    case aux of None \<Rightarrow> Inr (BSTR_ERR, Some b, al) | Some aux \<Rightarrow> k aux al)) xs zs"
proof (cases "lies_between 0 lim arg")
  case False
  have "own arg ys"
  proof (cases arg)
    case (Apart a)
    with assms(1) show ?thesis by (simp add: own_def bs_rep_slen)
  next
    case (Inside off n)
    with False assms(1,4) show ?thesis by (auto simp: own_def)
  qed
  with False assms(6) [of arg al] show ?thesis by (simp add: alias_copy_def)
next
  case True
  have "bs_rep (arg_tag b arg) ys"
    by (rule arg_tag_rep [OF assms(3,1)]) (use True assms(5) in auto)
  from bstrcpy_rep [OF this assms(2), of al] obtain bp al' where
    cp: "bstrcpy (Some (arg_tag b arg)) al = Inr (bp, al')" "\<forall>b'. bp = Some b' \<longrightarrow> bs_ok b' ys"
      "al = [] \<longrightarrow> bp \<noteq> None \<and> al' = []" by blast
  show ?thesis
  proof (cases bp)
    case None
    with True cp assms(3) show ?thesis by (auto simp: alias_copy_def edit_ok_def)
  next
    case (Some aux)
    with cp(2) have "own (Apart aux) ys" by (auto simp: own_def bs_ok_def bs_rep_slen)
    then have "edit_ok al' (k (Apart aux) al') xs zs" using cp(3) by (intro assms(6)) simp_all
    with True Some cp(1,3) show ?thesis by (auto simp: alias_copy_def edit_ok_def)
  qed
qed

text \<open>A buffer that is large enough is left as it is.\<close>

lemma ensure_same:
  assumes "bs_rep b xs" and "0 < n" and "n < mlen b" and "data b = Some d"
  shows "ensure (Some b) n al k = k b d al"
proof -
  have "0 \<le> slen b" "slen b \<le> mlen b" "0 < mlen b" using assms(1) by (auto elim: bs_rep_cells)
  with assms(2-4) show ?thesis by (simp add: ensure_def balloc_def)
qed

lemma finish_edit:
  assumes "take (length zs) d = map Some zs" and "length zs < length d" and "length d = nat (mlen b)"
    and "mlen b < 2 ^ 31" and "n = int (length zs)"
  shows "edit_ok al (finish b d n al) xs zs"
proof -
  have "put d n 0 = Inr (d[length zs := Some 0])" using assms(2,5) by (simp add: put_def)
  moreover have "bs_ok (b\<lparr>data := Some (d[length zs := Some 0]), slen := n\<rparr>) zs"
    using assms by (auto simp: bs_ok_def bs_rep_def)
  ultimately show ?thesis by (auto simp: finish_def edit_ok_def)
qed

lemma finish_cells [edit_intros]:
  assumes "d = map Some zs @ r" and "r \<noteq> []" and "length zs + length r = nat (mlen b)"
    and "mlen b < 2 ^ 31" and "n = int (length zs)"
  shows "edit_ok al (finish b d n al) xs zs"
  using assms by (intro finish_edit) (simp_all, cases r, simp_all)

section \<open>Cells\<close>

lemma overwrite_at:
  "i = int (length u) \<Longrightarrow> length v = length cs \<Longrightarrow> overwrite (u @ v @ w) i cs = Inr (u @ cs @ w)"
  by (simp add: overwrite_def)

lemma copy_from_at:
  assumes "bs_rep aux ys" and "i = int (length u)" and "length v = length ys"
  shows "copy_from (u @ v @ w) i aux (int (length ys)) = Inr (u @ map Some ys @ w)"
proof (cases "ys = []")
  case True
  with assms(3) show ?thesis by (simp add: copy_from_def)
next
  case False
  from assms(1) obtain r where "data aux = Some (map Some ys @ r)" by (rule bs_rep_cells)
  with False assms(2,3) overwrite_at [of i u v "map Some ys" w] show ?thesis
    by (simp add: copy_from_def copy_cells_def first_cells_def)
qed

lemma copy_own_at:
  assumes "own aux ys" and "i = int (length u)" and "length v = length ys"
  shows "copy_arg home b (u @ v @ w) i aux (int (length ys)) = Inr (u @ map Some ys @ w)"
proof (cases aux)
  case (Apart a)
  show ?thesis
  proof (cases "ys = []")
    case True
    with Apart assms(3) show ?thesis by (simp add: copy_from_def)
  next
    case False
    with Apart assms(1) have "bs_rep a ys" by (auto simp: own_def)
    with Apart copy_from_at [OF _ assms(2,3)] show ?thesis by simp
  qed
next
  case (Inside off n)
  with assms show ?thesis by (auto simp: own_def)
qed

text \<open>An argument that still lies where it lay is read there.\<close>

lemma copy_inside_at:
  assumes "arg_rep xs arg ys" and "mlen b = home" and "i = int (length u)" and "length v = length ys"
    and "take (length xs) (u @ v @ w) = map Some xs"
  shows "copy_arg home b (u @ v @ w) i arg (int (length ys)) = Inr (u @ map Some ys @ w)"
proof (cases arg)
  case (Apart a)
  with assms copy_from_at show ?thesis by simp
next
  case (Inside off n)
  with assms(1) have y: "0 \<le> off" "nat off + length ys \<le> length xs" "ys = take (length ys) (drop (nat off) xs)"
    by simp_all
  define x where "x = u @ v @ w"
  have "length xs \<le> length x" using arg_cong [OF assms(5), of length] by (simp add: x_def)
  have "map Some ys = take (length ys) (drop (nat off) (map Some xs))"
    by (subst y(3)) (simp add: take_map drop_map)
  also have "\<dots> = take (length ys) (drop (nat off) (take (length xs) x))" by (simp only: assms(5) x_def)
  also have "\<dots> = take (length ys) (drop (nat off) x)" using y(2) by (simp add: drop_take min_def)
  finally have "first_cells (drop (nat off) x) (int (length ys)) = Inr (map Some ys)"
    using y(2) \<open>length xs \<le> length x\<close> by (simp add: first_cells_def)
  with Inside y(1) assms(2-4) overwrite_at [of i u v "map Some ys" w] show ?thesis
    unfolding x_def by (cases "ys = []") (simp_all add: copy_cells_def)
qed

lemma set_cells_at:
  "i = int (length u) \<Longrightarrow> n = int (length v) \<Longrightarrow>
     set_cells (u @ v @ w) i c n = Inr (u @ map Some (replicate (length v) c) @ w)"
  by (simp add: set_cells_def overwrite_at)

lemma move_cells_at:
  assumes "src = int (length u)" and "n = int (length v)" and "dst = int (length u')"
    and "u @ v @ w = u' @ v' @ w'" and "length v' = length v"
  shows "move_cells (u @ v @ w) dst src n = Inr (u' @ v @ w')"
proof (cases "v = []")
  case True
  with assms(5) have "v' = []" by simp
  with True assms(2,4) show ?thesis by (simp add: move_cells_def)
next
  case False
  have "overwrite (u @ v @ w) dst v = Inr (u' @ v @ w')"
    unfolding assms(4) using assms(3,5) by (intro overwrite_at) simp_all
  moreover have "take (nat n) (drop (nat src) (u @ v @ w)) = v" "nat src + nat n \<le> length (u @ v @ w)"
    using assms(1,2) by simp_all
  ultimately show ?thesis using False assms(1,2) unfolding move_cells_def by simp
qed

section \<open>What the functions do\<close>

definition padded :: "byte \<Rightarrow> nat \<Rightarrow> byte list \<Rightarrow> byte list" where
  "padded fill n xs = xs @ replicate (n - length xs) fill"

definition set_section :: "byte \<Rightarrow> nat \<Rightarrow> byte list \<Rightarrow> byte list \<Rightarrow> byte list" where
  "set_section fill p ys xs = take p (padded fill p xs) @ ys @ drop (p + length ys) xs"

definition replace_section :: "byte \<Rightarrow> nat \<Rightarrow> nat \<Rightarrow> byte list \<Rightarrow> byte list \<Rightarrow> byte list" where
  "replace_section fill p n ys xs = take p (padded fill p xs) @ ys @ drop (p + n) xs"

text \<open>Overwriting from the start, as assignments do: an argument inside the buffer needs no growth.\<close>

lemma overwrite_edit:
  assumes rep: "bs_rep b xs" and sl: "slen b < mlen b" and arg: "arg_rep xs arg ys"
    and ys: "ys \<noteq> []" "int (length ys) < 2 ^ 30" and al: "al = []"
  shows "edit_ok al (ensure (Some b) (int (length ys)) al (\<lambda>a d al.
    bind_res (copy_arg (mlen b) a d 0 arg (int (length ys))) (\<lambda>d. finish a d (int (length ys)) al))) xs ys"
proof -
  from rep obtain r where b: "data b = Some (map Some xs @ r)" "length xs + length r = nat (mlen b)"
    "0 < mlen b" "mlen b < 2 ^ 31" "slen b = int (length xs)" "int (length xs) \<le> mlen b" by (rule bs_rep_cells)
  have fin: "edit_ok al' (bind_res (copy_arg (mlen b) b' d 0 arg (int (length ys))) (\<lambda>d. finish b' d (int (length ys)) al')) xs ys"
    if d: "length d = nat (mlen b')" "length ys < length d" "mlen b' < 2 ^ 31"
      and copy: "copy_arg (mlen b) b' ([] @ take (length ys) d @ drop (length ys) d) 0 arg (int (length ys)) =
        Inr ([] @ map Some ys @ drop (length ys) d)"
    for b' d al'
    using copy d by (auto intro!: finish_edit)
  show ?thesis
  proof (cases arg)
    case (Apart a)
    show ?thesis
    proof (rule ensure_edit [OF rep])
      show "0 < int (length ys)" using ys by simp
      show "int (length ys) < 2 ^ 31" using ys by simp
      show "slen b < mlen b \<or> slen b < int (length ys)" using sl by simp
    next
      fix b' :: bstring and r :: "byte option list" and al' :: alloc
      assume b': "length xs + length r = nat (mlen b')" "mlen b' < 2 ^ 31"
        and room: "al = [] \<Longrightarrow> int (length ys) < 2 ^ 30 \<Longrightarrow> al' = [] \<and> int (length ys) < mlen b'"
      have own: "own arg ys" using Apart arg by (simp add: own_def bs_rep_slen)
      have len: "length (map Some xs @ r) = nat (mlen b')" "length ys < length (map Some xs @ r)"
        using b'(1) room ys al by auto
      show "edit_ok al' (bind_res (copy_arg (mlen b) b' (map Some xs @ r) 0 arg (int (length ys)))
          (\<lambda>d. finish b' d (int (length ys)) al')) xs ys"
        by (rule fin [OF len b'(2)], rule copy_own_at [OF own]) (use len in simp_all)
    qed
  next
    case (Inside off n)
    with arg sl b(5) have short: "length ys \<le> length xs" "int (length ys) < mlen b" by auto
    have len: "length (map Some xs @ r) = nat (mlen b)" "length ys < length (map Some xs @ r)"
      using b(2) short by auto
    have "edit_ok al (bind_res (copy_arg (mlen b) b (map Some xs @ r) 0 arg (int (length ys)))
          (\<lambda>d. finish b d (int (length ys)) al)) xs ys"
      by (rule fin [OF len b(4)], rule copy_inside_at [OF arg refl])
        (use len in \<open>simp_all only: append_Nil append_take_drop_id, simp_all\<close>)
    then show ?thesis using ys short(2) by (subst ensure_same [OF rep _ _ b(1)]) simp_all
  qed
qed

lemma bconcat_edit:
  assumes "bs_rep b xs" and "arg_rep xs arg ys" and "int (length xs) + int (length ys) < 2 ^ 30"
  shows "edit_ok al (bconcat (Some b) (Some arg) al) xs (xs @ ys)"
proof -
  obtain r where b: "data b = Some (map Some xs @ r)" "length xs + length r = nat (mlen b)"
    "0 < mlen b" "mlen b < 2 ^ 31" "slen b = int (length xs)" "int (length xs) \<le> mlen b"
    using assms(1) by (rule bs_rep_cells)
  note arg = arg_rep_slen [OF assms(2)] arg_rep_not_null [OF assms(2)]
  have n: "s32 (mlen b - int (length xs)) = mlen b - int (length xs)"
    "s32 (int (length xs) + int (length ys)) = int (length xs) + int (length ys)"
    "s32 (int (length xs) + int (length ys) + 1) = int (length xs) + int (length ys) + 1"
    using b(3-6) assms(3) by simp_all
  let ?d = "int (length xs)" and ?l = "int (length ys)"
  have fin: "edit_ok al (bind_res (copy_arg (mlen b) b' (map Some xs @ r) ?d aux ?l) (\<lambda>x. finish b' x (?d + ?l) al)) xs (xs @ ys)"
    if aux: "\<And>v w. length v = length ys \<Longrightarrow>
        copy_arg (mlen b) b' (map Some xs @ v @ w) ?d aux ?l = Inr (map Some xs @ map Some ys @ w)"
      and r: "length xs + length r = nat (mlen b')" "mlen b' < 2 ^ 31" "length xs + length ys < nat (mlen b')"
    for aux b' r al
  proof -
    define v w where "v = take (length ys) r" and "w = drop (length ys) r"
    then have vw: "r = v @ w" "length v = length ys" "w \<noteq> []" using r(1,3) by auto
    with aux [of v w] r show ?thesis by (auto intro!: finish_cells [of _ _ w])
  qed
  show ?thesis
  proof (cases "mlen b \<le> ?d + ?l + 1")
    case True
    have "bconcat (Some b) (Some arg) al = bind_res (alias_copy (lies_between 0 (mlen b) arg) b arg al) (\<lambda>(aux, al).
      case aux of None \<Rightarrow> Inr (BSTR_ERR, Some b, al) | Some aux \<Rightarrow>
        ensure (Some b) (?d + ?l + 1) al (\<lambda>b' x al.
          bind_res (copy_arg (mlen b) b' x ?d aux ?l) (\<lambda>x. finish b' x (?d + ?l) al)))"
      using b arg n True by (simp add: bconcat_def Let_def cong: option.case_cong)
    moreover have "edit_ok al \<dots> xs (xs @ ys)"
      by (rule alias_edit [OF assms(2) _ assms(1) b(6) order_refl], use assms(3) in simp,
          rule ensure_edit [OF assms(1)], use assms(3) b(5) in \<open>simp_all add: fin copy_own_at\<close>)
    ultimately show ?thesis by simp
  next
    case False
    have "bconcat (Some b) (Some arg) al =
        bind_res (copy_arg (mlen b) b (map Some xs @ r) ?d arg ?l) (\<lambda>x. finish b x (?d + ?l) al)"
      using b arg n False by (simp add: bconcat_def Let_def)
    moreover have "edit_ok al \<dots> xs (xs @ ys)"
      using False b by (intro fin copy_inside_at [OF assms(2)]) simp_all
    ultimately show ?thesis by simp
  qed
qed

lemma bassign_edit:
  assumes "bs_ok b xs" and "arg_rep xs arg ys" and "int (length ys) < 2 ^ 30" and "al = []"
  shows "edit_ok al (bassign (Some b) (Some arg) al) xs ys"
proof -
  have rep: "bs_rep b xs" and sl: "slen b < mlen b" using assms(1) by (simp_all add: bs_ok_def)
  from rep obtain r where b: "data b = Some (map Some xs @ r)" "length xs + length r = nat (mlen b)"
    "0 < mlen b" "mlen b < 2 ^ 31" "slen b = int (length xs)" "int (length xs) \<le> mlen b" by (rule bs_rep_cells)
  note arg = arg_rep_slen [OF assms(2)] arg_rep_not_null [OF assms(2)]
  show ?thesis
  proof (cases "ys = []")
    case True
    have "map Some xs @ r \<noteq> []" using b(2,3) by (cases "xs = []") auto
    then have "edit_ok al (finish b (map Some xs @ r) 0 al) xs []"
      using b by (intro finish_edit) simp_all
    with True b arg show ?thesis by (simp add: bassign_def)
  next
    case False
    have run: "bassign (Some b) (Some arg) al = ensure (Some b) (int (length ys)) al (\<lambda>a d al.
        bind_res (copy_arg (mlen b) a d 0 arg (int (length ys))) (\<lambda>d. finish a d (int (length ys)) al))"
      using arg False by (simp add: bassign_def home_of_def Let_def)
    show ?thesis
      unfolding run
      by (rule overwrite_edit [OF rep sl assms(2)]) (use False assms(3,4) in simp_all)
  qed
qed

lemma length_padded [simp]: "length (padded fill p xs) = max p (length xs)"
  by (auto simp: padded_def)

lemma drop_padded: "p \<le> n \<Longrightarrow> drop n (padded fill p xs) = drop n xs"
  by (simp add: padded_def)

lemma take_drop_padded: "take p (padded fill p xs) @ drop p xs = padded fill p xs"
  by (metis append_take_drop_id drop_padded order_refl)

lemma pad_cells:
  assumes "p \<le> length xs + length r"
  shows "(if int p > int (length xs) then set_cells (map Some xs @ r) (int (length xs)) fill (int p - int (length xs))
      else Inr (map Some xs @ r)) = Inr (map Some (padded fill p xs) @ drop (p - length xs) r)"
proof (cases "length xs < p")
  case True
  then have n: "length (take (p - length xs) r) = p - length xs" using assms by simp
  have "set_cells (map Some xs @ take (p - length xs) r @ drop (p - length xs) r) (int (length xs)) fill
      (int p - int (length xs)) =
      Inr (map Some xs @ map Some (replicate (length (take (p - length xs) r)) fill) @ drop (p - length xs) r)"
    using True n by (intro set_cells_at) auto
  with True n show ?thesis by (simp add: padded_def)
next
  case False
  then show ?thesis by (simp add: padded_def)
qed

lemma copy_section:
  assumes "own aux ys" and "p \<le> length zs" and "p + length ys \<le> length zs + length r"
  shows "copy_arg home b (map Some zs @ r) (int p) aux (int (length ys)) =
    Inr (map Some (take p zs @ ys @ drop (p + length ys) zs) @ drop (p + length ys - length zs) r)"
proof -
  define x where "x = map Some zs @ r"
  have "copy_arg home b (take p x @ take (length ys) (drop p x) @ drop (length ys) (drop p x)) (int p) aux (int (length ys)) =
      Inr (take p x @ map Some ys @ drop (length ys) (drop p x))"
    using assms by (intro copy_own_at) (auto simp: x_def)
  then have "copy_arg home b x (int p) aux (int (length ys)) = Inr (take p x @ map Some ys @ drop (length ys) (drop p x))"
    by (simp only: append_take_drop_id)
  with assms(2) show ?thesis by (simp add: x_def take_map drop_map add.commute)
qed

definition argument :: "byte list \<Rightarrow> barg option \<Rightarrow> byte list \<Rightarrow> bool" where
  "argument xs bp ys \<longleftrightarrow> (case bp of None \<Rightarrow> ys = [] | Some b \<Rightarrow> arg_rep xs b ys)"

definition own_argument :: "barg option \<Rightarrow> byte list \<Rightarrow> bool" where
  "own_argument bp ys \<longleftrightarrow> (case bp of None \<Rightarrow> ys = [] | Some b \<Rightarrow> own b ys)"

lemma bsetstr_edit:
  assumes "bs_ok b xs" and "argument xs bp ys" and "int p + int (length ys) < 2 ^ 30" and "length xs < 2 ^ 30"
  shows "edit_ok al (bsetstr (Some b) (int p) bp fill al) xs (set_section fill p ys xs)"
proof -
  have rep: "bs_rep b xs" and sl: "slen b < mlen b" using assms(1) by (simp_all add: bs_ok_def)
  have wr: "writable b" using rep by (rule bs_rep_cells)
  let ?d = "int p + int (length ys)"
  define fill_in where "fill_in = (\<lambda>aux al. ensure (Some b) (?d + 1) al (\<lambda>b' x al.
      let sl = slen b'; newlen = (if int p > sl then int p else sl) in
      bind_res (if int p > sl then set_cells x sl fill (int p - sl) else Inr x) (\<lambda>x.
      bind_res (case aux of None \<Rightarrow> Inr x | Some a \<Rightarrow> copy_arg (mlen b) b' x (int p) a (arg_slen a)) (\<lambda>x.
      finish b' x (if ?d > newlen then ?d else newlen) al))))"
  have fill_in: "edit_ok al (fill_in aux al) xs (set_section fill p ys xs)" if aux: "own_argument aux ys" for aux al
    unfolding fill_in_def
  proof (rule ensure_edit [OF rep])
    fix b' :: bstring and r :: "byte option list" and al' :: alloc
    assume b': "length xs + length r = nat (mlen b')" "mlen b' < 2 ^ 31" "slen b' = int (length xs)" "?d + 1 \<le> mlen b'"
      and ok: "bs_ok b xs \<Longrightarrow> bs_ok b' xs"
    from ok assms(1) have room: "length xs < nat (mlen b')" by (auto simp: bs_ok_def b'(3))
    define zs q where "zs = padded fill p xs" and "q = drop (p - length xs) r"
    have len: "length zs + length q = nat (mlen b')" "p \<le> length zs" "length xs \<le> length zs"
      using b'(1,4) by (auto simp: zs_def q_def)
    define q2 where "q2 = drop (p + length ys - length zs) q"
    have copy: "(case aux of None \<Rightarrow> Inr (map Some zs @ q) | Some a \<Rightarrow> copy_arg (mlen b) b' (map Some zs @ q) (int p) a (arg_slen a)) =
        Inr (map Some (set_section fill p ys xs) @ q2)"
    proof (cases aux)
      case None
      with aux len(2) show ?thesis
        by (simp add: own_argument_def set_section_def q2_def zs_def take_drop_padded)
    next
      case (Some a)
      with aux have a: "own a ys" by (simp add: own_argument_def)
      then have "arg_slen a = int (length ys)" by (rule own_slen)
      moreover have "p + length ys \<le> length zs + length q" using len(1) b'(4) by linarith
      ultimately show ?thesis
        using copy_section [OF a len(2), of q "mlen b" b'] Some
        by (simp add: set_section_def q2_def zs_def drop_padded)
    qed
    have n: "length (set_section fill p ys xs) = max (p + length ys) (length xs)"
      using len by (auto simp: set_section_def zs_def [symmetric])
    have q2: "length (set_section fill p ys xs) + length q2 = nat (mlen b')" "q2 \<noteq> []"
      using len b'(4) room by (auto simp: q2_def n zs_def max_def split: if_splits)
    have pad: "(if int p > int (length xs) then set_cells (map Some xs @ r) (int (length xs)) fill (int p - int (length xs))
      else Inr (map Some xs @ r)) = Inr (map Some zs @ q)"
      unfolding zs_def q_def using b'(1,4) by (intro pad_cells) linarith
    show "edit_ok al' (let sl = slen b'; newlen = (if int p > sl then int p else sl) in
      bind_res (if int p > sl then set_cells (map Some xs @ r) sl fill (int p - sl) else Inr (map Some xs @ r)) (\<lambda>x.
      bind_res (case aux of None \<Rightarrow> Inr x | Some a \<Rightarrow> copy_arg (mlen b) b' x (int p) a (arg_slen a)) (\<lambda>x.
      finish b' x (if ?d > newlen then ?d else newlen) al'))) xs (set_section fill p ys xs)"
      unfolding b'(3) Let_def pad bind_res.simps copy
      by (rule finish_cells [OF refl q2(2,1) b'(2)]) (auto simp: n)
  qed (use assms(3) sl in simp_all)
  have "bsetstr_aux b (int p) fill aux al = fill_in aux al" if "own_argument aux ys" for aux al
  proof -
    from that have "(case aux of None \<Rightarrow> int p | Some a \<Rightarrow> s32 (int p + arg_slen a)) = ?d"
      using assms(3) by (cases aux) (simp_all add: own_argument_def own_slen)
    moreover have "s32 (?d + 1) = ?d + 1" using assms(3) by simp
    ultimately show ?thesis by (simp only: bsetstr_aux_def fill_in_def Let_def)
  qed
  with fill_in have aux: "edit_ok al (bsetstr_aux b (int p) fill aux al) xs (set_section fill p ys xs)"
    if "own_argument aux ys" for aux al using that by simp
  show ?thesis
  proof (cases bp)
    case None
    with aux [of None al] assms(2) wr show ?thesis by (simp add: bsetstr_def argument_def own_argument_def)
  next
    case (Some b1)
    with assms(2) have b1: "arg_rep xs b1 ys" by (simp add: argument_def)
    have "bsetstr (Some b) (int p) bp fill al = bind_res (alias_copy (lies_between 0 (mlen b) b1) b b1 al) (\<lambda>(aux, al).
        case aux of None \<Rightarrow> Inr (BSTR_ERR, Some b, al) | Some aux \<Rightarrow> bsetstr_aux b (int p) fill (Some aux) al)"
      using Some wr arg_rep_slen [OF b1] arg_rep_not_null [OF b1] by (simp add: bsetstr_def)
    moreover have "edit_ok al \<dots> xs (set_section fill p ys xs)"
      by (rule alias_edit [OF b1 _ rep _ order_refl]) (use assms(3) sl bs_rep_slen [OF rep] in \<open>simp_all add: own_argument_def aux\<close>)
    ultimately show ?thesis by simp
  qed
qed

lemma binsert_room:
  assumes rep: "bs_rep b xs" and sl: "slen b < mlen b" and "arg_rep xs arg ys" and "int p + int (length ys) < 2 ^ 30"
    and "int (length xs) + int (length ys) < 2 ^ 30"
  shows "edit_ok al (binsert (Some b) (int p) (Some arg) fill al) xs (replace_section fill p 0 ys xs)"
proof -
  from rep have b: "slen b = int (length xs)" "0 < mlen b" "int (length xs) \<le> mlen b"
    by (auto elim: bs_rep_cells)
  note arg = arg_rep_slen [OF assms(3)]
  let ?n = "int (length ys)" and ?zs = "replace_section fill p 0 ys xs"
  define ins where "ins = (\<lambda>aux b' x n al. bind_res (copy_arg (mlen b) b' x (int p) aux ?n) (\<lambda>x. finish b' x n al))"
  define rest where "rest = (\<lambda>aux al.
    if int p > int (length xs) then
      ensure (Some b) (int p + ?n + 1) al (\<lambda>b x al.
      bind_res (set_cells x (slen b) fill (int p - slen b)) (\<lambda>x. ins aux b x (int p + ?n) al))
    else
      ensure (Some b) (int (length xs) + ?n + 1) al (\<lambda>b x al.
      bind_res (move_cells x (int p + ?n) (int p) (int (length xs) + ?n - (int p + ?n)))
        (\<lambda>x. ins aux b x (int (length xs) + ?n) al)))"
  have "edit_ok al (rest aux al) xs ?zs" if aux: "own aux ys" for aux al
  proof (cases "int p > int (length xs)")
    case True
    have "edit_ok al (ensure (Some b) (int p + ?n + 1) al (\<lambda>b x al.
      bind_res (set_cells x (slen b) fill (int p - slen b)) (\<lambda>x. ins aux b x (int p + ?n) al))) xs ?zs"
    proof (rule ensure_edit [OF rep])
      fix b' :: bstring and r :: "byte option list" and al' :: alloc
      assume b': "length xs + length r = nat (mlen b')" "mlen b' < 2 ^ 31" "slen b' = int (length xs)"
        "int p + ?n + 1 \<le> mlen b'"
      define q where "q = drop (p - length xs) r"
      have pad: "set_cells (map Some xs @ r) (slen b') fill (int p - slen b') =
          Inr (map Some (padded fill p xs) @ q)"
        using pad_cells [of p xs r fill] True b' by (simp add: q_def)
      have len: "p + length q = nat (mlen b')" "p + length ys < nat (mlen b')" using b' True by (auto simp: q_def)
      have lp: "length (padded fill p xs) = p" using True by simp
      have zs: "?zs = padded fill p xs @ ys" using True by (simp add: replace_section_def padded_def)
      have "copy_arg (mlen b) b' (map Some (padded fill p xs) @ q) (int p) aux ?n = Inr (map Some ?zs @ drop (length ys) q)"
        using copy_section [OF aux, of p "padded fill p xs" q "mlen b" b'] lp len zs by simp
      with pad len lp zs b'(2) show "edit_ok al' (bind_res (set_cells (map Some xs @ r) (slen b') fill (int p - slen b'))
          (\<lambda>x. ins aux b' x (int p + ?n) al')) xs ?zs"
        unfolding ins_def by (auto intro!: finish_cells)
    qed (use assms(4) sl in simp_all)
    with True show ?thesis by (simp add: rest_def)
  next
    case False
    then have p: "p \<le> length xs" by simp
    have "edit_ok al (ensure (Some b) (int (length xs) + ?n + 1) al (\<lambda>b x al.
      bind_res (move_cells x (int p + ?n) (int p) (int (length xs) + ?n - (int p + ?n)))
        (\<lambda>x. ins aux b x (int (length xs) + ?n) al))) xs ?zs"
    proof (rule ensure_edit [OF rep])
      fix b' :: bstring and r :: "byte option list" and al' :: alloc
      assume b': "length xs + length r = nat (mlen b')" "mlen b' < 2 ^ 31" "slen b' = int (length xs)"
        "int (length xs) + ?n + 1 \<le> mlen b'"
      then have r: "length ys < length r" by linarith
      define x m where "x = map Some xs @ r" and "m = length xs - p"
      have x: "x = map Some (take p xs) @ map Some (drop p xs) @ r" by (simp add: x_def flip: map_append)
      let ?u = "take (p + length ys) x" and ?w = "drop (length ys) r"
      have u: "?u = map Some (take p xs) @ take (length ys) (map Some (drop p xs) @ r)" using p by (simp add: x)
      have parts: "map Some (take p xs) @ map Some (drop p xs) @ r =
          ?u @ take m (drop (p + length ys) x) @ drop (p + length ys + m) x"
        unfolding x [symmetric] by (metis add.commute append_take_drop_id drop_drop)
      have w: "drop (p + length ys + m) x = ?w" using p by (simp add: x_def m_def)
      have mv: "move_cells x (int p + ?n) (int p) (int (length xs) + ?n - (int p + ?n)) =
          Inr (?u @ map Some (drop p xs) @ ?w)"
        unfolding x w [symmetric]
        by (rule move_cells_at [OF _ _ _ parts [unfolded x]]) (use p r in \<open>auto simp: x m_def\<close>)
      have "copy_arg (mlen b) b' (map Some (take p xs) @ take (length ys) (map Some (drop p xs) @ r) @ map Some (drop p xs) @ ?w)
          (int p) aux ?n = Inr (map Some (take p xs) @ map Some ys @ map Some (drop p xs) @ ?w)"
        using p r by (intro copy_own_at aux) auto
      with mv u p have cp: "bind_res (move_cells x (int p + ?n) (int p) (int (length xs) + ?n - (int p + ?n)))
          (\<lambda>x. copy_arg (mlen b) b' x (int p) aux ?n) = Inr (map Some ?zs @ ?w)"
        by (simp add: replace_section_def padded_def)
      have "edit_ok al' (bind_res (bind_res (move_cells x (int p + ?n) (int p) (int (length xs) + ?n - (int p + ?n)))
          (\<lambda>x. copy_arg (mlen b) b' x (int p) aux ?n)) (\<lambda>x. finish b' x (int (length xs) + ?n) al')) xs ?zs"
        unfolding cp bind_res.simps
        by (rule finish_cells [OF refl _ _ b'(2)]) (use r p b'(1) in \<open>auto simp: replace_section_def\<close>)
      then show "edit_ok al' (bind_res (move_cells (map Some xs @ r) (int p + ?n) (int p) (int (length xs) + ?n - (int p + ?n)))
        (\<lambda>x. ins aux b' x (int (length xs) + ?n) al')) xs ?zs"
        by (simp add: ins_def bind_res_assoc x_def)
    qed (use assms(5) sl in simp_all)
    with False show ?thesis by (simp add: rest_def)
  qed
  moreover have "binsert_aux b (int p) fill aux al = rest aux al" if "own aux ys" for aux al
  proof -
    from that have "arg_slen aux = ?n" by (rule own_slen)
    moreover have "s32 (int (length xs) + ?n) = int (length xs) + ?n" "s32 (int p + ?n) = int p + ?n"
      "s32 (int (length xs) + ?n + 1) = int (length xs) + ?n + 1" "s32 (int p + ?n + 1) = int p + ?n + 1"
      using assms(4,5) by simp_all
    ultimately show ?thesis
      by (simp add: binsert_aux_def rest_def ins_def b(1) Let_def cong: if_cong)
  qed
  ultimately have aux: "edit_ok al (binsert_aux b (int p) fill aux al) xs ?zs" if "own aux ys" for aux al
    using that by simp
  have "binsert (Some b) (int p) (Some arg) fill al = bind_res (alias_copy (lies_between 0 (mlen b) arg) b arg al) (\<lambda>(aux, al).
      case aux of None \<Rightarrow> Inr (BSTR_ERR, Some b, al) | Some aux \<Rightarrow> binsert_aux b (int p) fill aux al)"
    using b arg by (simp add: binsert_def)
  moreover have "edit_ok al \<dots> xs ?zs"
    by (rule alias_edit [OF assms(3) _ rep b(3) order_refl]) (use assms(5) in \<open>simp_all add: aux\<close>)
  ultimately show ?thesis by simp
qed

lemma binsert_edit:
  assumes "bs_ok b xs" and "arg_rep xs arg ys" and "int p + int (length ys) < 2 ^ 30"
    and "int (length xs) + int (length ys) < 2 ^ 30"
  shows "edit_ok al (binsert (Some b) (int p) (Some arg) fill al) xs (replace_section fill p 0 ys xs)"
  using assms by (intro binsert_room) (simp_all add: bs_ok_def)


text \<open>Cutting off the end with a terminator, as the straddling case of \<open>breplace\<close> does.\<close>

lemma cut_edit:
  assumes "bs_rep b zs" and "n < length zs"
  shows "edit_ok al (finish b (the (data b)) (int n) al) xs (take n zs)"
proof -
  obtain r where "data b = Some (map Some zs @ r)" "length zs + length r = nat (mlen b)" "mlen b < 2 ^ 31"
    using assms(1) by (rule bs_rep_cells)
  with assms(2) show ?thesis by (intro finish_edit) (simp_all add: take_map)
qed

lemma breplace_middle:
  assumes "bs_ok b xs" and "own aux ys" and "p + n < length xs"
    and "int (length xs) + int (length ys) < 2 ^ 30" and "length ys \<le> n \<or> al = []"
  shows "edit_ok al (breplace_aux b (int p) (int n) aux al) xs (replace_section fill p n ys xs)"
proof -
  have rep: "bs_rep b xs" and sl: "slen b < mlen b" using assms(1) by (simp_all add: bs_ok_def)
  obtain r0 where b: "data b = Some (map Some xs @ r0)" "length xs + length r0 = nat (mlen b)"
    "mlen b < 2 ^ 31" "slen b = int (length xs)" using rep by (rule bs_rep_cells)
  note y = own_slen [OF assms(2)]
  let ?n = "int (length ys)" and ?zs = "replace_section fill p n ys xs"
  define zs where "zs = take p xs @ ys @ drop (p + n) xs"
  have zs: "?zs = zs" using assms(3) by (simp add: replace_section_def padded_def zs_def)
  have sums: "s32 (int (length xs) + ?n - int n) = int (length xs) + ?n - int n"
    "s32 (int (length xs) + (?n - int n)) = int (length xs) + ?n - int n"
    using assms(3,4) by simp_all
  have len: "int (length zs) = int (length xs) + ?n - int n" using assms(3) by (simp add: zs_def)
  define rep where "rep = (\<lambda>b' x al.
      bind_res (if ?n \<noteq> int n then move_cells x (int p + ?n) (int p + int n) (slen b' - (int p + int n)) else Inr x) (\<lambda>x.
      bind_res (copy_arg (mlen b) b' x (int p) aux ?n) (\<lambda>x. finish b' x (s32 (slen b' + (?n - int n))) al)))"
  have step: "edit_ok al (rep b' (map Some xs @ r) al) xs zs"
    if b': "length xs + length r = nat (mlen b')" "mlen b' < 2 ^ 31" "slen b' = int (length xs)"
      and room: "length zs < nat (mlen b')" for b' r al
  proof -
    define x m where "x = map Some xs @ r" and "m = length xs - (p + n)"
    let ?u = "take (p + length ys) x" and ?v = "map Some (drop (p + n) xs)"
    let ?w = "drop (p + length ys + m) x"
    have lx: "length x = nat (mlen b')" "p + length ys + m < length x" "p + n + m = length xs"
      using b' room assms(3) by (auto simp: x_def m_def zs_def)
    have x: "x = map Some (take (p + n) xs) @ ?v @ r" by (simp add: x_def flip: map_append)
    have parts: "map Some (take (p + n) xs) @ ?v @ r = ?u @ take m (drop (p + length ys) x) @ ?w"
      unfolding x [symmetric] by (metis add.commute append_take_drop_id drop_drop)
    have mv: "move_cells x (int p + ?n) (int p + int n) (slen b' - (int p + int n)) = Inr (?u @ ?v @ ?w)"
      by (subst (1) x) (rule move_cells_at [OF _ _ _ parts], use assms(3) b'(3) lx in \<open>auto simp: m_def\<close>)
    have moved: "(if ?n \<noteq> int n then move_cells x (int p + ?n) (int p + int n) (slen b' - (int p + int n)) else Inr x)
        = Inr (?u @ ?v @ ?w)"
    proof (cases "length ys = n")
      case True
      with parts x assms(3) show ?thesis by (simp add: x_def m_def)
    next
      case False
      with mv show ?thesis by simp
    qed
    have "take p x = map Some (take p xs)" using assms(3) by (simp add: x_def take_map)
    moreover have "take p ?u = take p x" by simp
    ultimately have u: "?u = map Some (take p xs) @ drop p ?u" by (metis append_take_drop_id)
    define q where "q = drop p ?u"
    have q: "length q = length ys" using lx by (simp add: q_def)
    have "copy_arg (mlen b) b' (map Some (take p xs) @ q @ ?v @ ?w) (int p) aux ?n =
        Inr (map Some (take p xs) @ map Some ys @ ?v @ ?w)"
      using assms(3) q by (intro copy_own_at assms(2)) simp_all
    moreover have "?u @ ?v @ ?w = map Some (take p xs) @ q @ ?v @ ?w"
      unfolding q_def append_assoc [symmetric] by (subst u) (rule refl)
    ultimately have cp: "copy_arg (mlen b) b' (?u @ ?v @ ?w) (int p) aux ?n = Inr (map Some zs @ ?w)"
      by (simp add: zs_def)
    show ?thesis
      unfolding rep_def x_def [symmetric] moved bind_res.simps cp
      by (rule finish_cells [OF refl _ _ b'(2)])
        (use lx len assms(3) sums(2) b'(3) in \<open>auto simp: zs_def m_def\<close>)
  qed
  show ?thesis
  proof (cases "int n < ?n")
    case True
    with assms(5) have al: "al = []" by simp
    have "breplace_aux b (int p) (int n) aux al = ensure (Some b) (int (length zs)) al rep"
      using True y b(4) sums(1) len by (simp add: breplace_aux_def rep_def Let_def)
    moreover have "edit_ok al (ensure (Some b) (int (length zs)) al rep) xs zs"
    proof (rule ensure_edit [OF \<open>bs_rep b xs\<close>])
      show "0 < int (length zs)" using True len by linarith
      show "int (length zs) < 2 ^ 31" using len assms(4) by simp
      show "slen b < mlen b \<or> slen b < int (length zs)" using sl by simp
    next
      fix b' :: bstring and r :: "byte option list" and al' :: alloc
      assume b': "length xs + length r = nat (mlen b')" "mlen b' < 2 ^ 31" "slen b' = int (length xs)"
        and "al = [] \<Longrightarrow> int (length zs) < 2 ^ 30 \<Longrightarrow> al' = [] \<and> int (length zs) < mlen b'"
      then have "length zs < nat (mlen b')" using al len assms(4) by auto
      with step [OF b'] show "edit_ok al' (rep b' (map Some xs @ r) al') xs zs" .
    qed
    ultimately show ?thesis using zs by simp
  next
    case False
    have "breplace_aux b (int p) (int n) aux al = rep b (map Some xs @ r0) al"
      using False y b(1) by (simp add: breplace_aux_def rep_def Let_def)
    with step [OF b(2-4)] sl b len False zs show ?thesis by simp
  qed
qed

lemma replace_is_cut:
  "length xs \<le> p + n \<Longrightarrow> replace_section fill p n ys xs = take (p + length ys) (set_section fill p ys xs)"
  by (simp add: replace_section_def set_section_def)

lemma breplace_edit:
  assumes "bs_ok b xs" and "arg_rep xs arg ys" and "int p + int n < 2 ^ 31" and "int p + int (length ys) < 2 ^ 30"
    and "int (length xs) + int (length ys) < 2 ^ 30" and "al = []"
  shows "edit_ok al (breplace (Some b) (int p) (int n) (Some arg) fill al) xs (replace_section fill p n ys xs)"
proof -
  have rep: "bs_rep b xs" using assms(1) by (simp add: bs_ok_def)
  then have b: "writable b" "slen b = int (length xs)" by (auto elim: bs_rep_cells)
  note b1 = arg_rep_slen [OF assms(2)] arg_rep_not_null [OF assms(2)]
  have lim: "int (length xs) \<le> slen b" "slen b \<le> mlen b" using rep by (auto elim: bs_rep_cells)
  have sums: "s32 (int p + int n) = int p + int n" "s32 (int p + int (length ys)) = int p + int (length ys)"
    using assms(3,4) by simp_all
  show ?thesis
  proof (cases "p + n < length xs")
    case True
    then have "breplace (Some b) (int p) (int n) (Some arg) fill al = bind_res (alias_copy (lies_between 0 (slen b) arg) b arg al) (\<lambda>(aux, al).
        case aux of None \<Rightarrow> Inr (BSTR_ERR, Some b, al) | Some aux \<Rightarrow> breplace_aux b (int p) (int n) aux al)"
      using b b1 sums(1) by (simp add: breplace_def)
    moreover have "edit_ok al \<dots> xs (replace_section fill p n ys xs)"
      by (rule alias_edit [OF assms(2) _ rep lim])
        (use assms(5,6) in \<open>simp_all add: breplace_middle [OF assms(1) _ True assms(5)]\<close>)
    ultimately show ?thesis by simp
  next
    case False
    let ?zs = "set_section fill p ys xs"
    from bsetstr_edit [OF assms(1) _ assms(4), of "Some arg" al fill] assms(2,5,6)
    obtain b' where set: "bsetstr (Some b) (int p) (Some arg) fill al = Inr (BSTR_OK, Some b', [])" "bs_ok b' ?zs"
      by (auto simp: argument_def edit_ok_def)
    from set(2) have b': "bs_rep b' ?zs" "slen b' = int (length ?zs)"
      by (auto simp: bs_ok_def elim: bs_rep_cells)
    have run: "breplace (Some b) (int p) (int n) (Some arg) fill al =
        (if int p + int (length ys) < slen b' then finish b' (the (data b')) (int p + int (length ys)) []
         else Inr (BSTR_OK, Some b', []))"
      using False b b1 sums set(1) by (simp add: breplace_def BSTR_OK_def)
    have cut: "replace_section fill p n ys xs = take (p + length ys) ?zs"
      using False by (intro replace_is_cut) simp
    show ?thesis
    proof (cases "p + length ys < length ?zs")
      case True
      with cut_edit [OF b'(1) True, of "[]" xs] run b'(2) assms(6) cut show ?thesis by simp
    next
      case notcut: False
      with cut have "replace_section fill p n ys xs = ?zs" by simp
      with notcut run b'(2) set(2) assms(6) show ?thesis by (auto simp: edit_ok_def)
    qed
  qed
qed

text \<open>The section of \<open>binsertch\<close> is a run of one character.\<close>

definition insert_chars :: "byte \<Rightarrow> nat \<Rightarrow> nat \<Rightarrow> byte list \<Rightarrow> byte list" where
  "insert_chars c p n xs = replace_section c p 0 (replicate n c) xs"

lemma overwrite_one: "0 \<le> i \<Longrightarrow> nat i < length d \<Longrightarrow> overwrite d i [c] = Inr (d[nat i := c])"
  by (simp add: overwrite_def upd_conv_take_nth_drop)

lemma shift_up_cells:
  "n \<le> length w \<Longrightarrow> i = int (length u + n + length v) - 1 \<Longrightarrow>
     shift_up (u @ v @ w) i (int n) (length v) = Inr (take (length u + n) (u @ v @ w) @ v @ drop n w)"
proof (induction v arbitrary: w i rule: rev_induct)
  case Nil
  then show ?case by simp
next
  case (snoc c v)
  let ?w = "(c # w)[n := c]"
  have i: "nat (i - int n) = length u + length v" "0 \<le> i - int n" "nat i = length u + (length v + n)" "0 \<le> i"
    using snoc.prems(2) by auto
  have ow: "overwrite (u @ v @ c # w) i [c] = Inr (u @ v @ ?w)"
    using i snoc.prems(1) by (simp add: overwrite_one list_update_append)
  have rd: "(u @ v @ c # w) ! nat (i - int n) = c" using i(1) by (simp add: nth_append)
  have "take (length u + n) (u @ v @ ?w) = take (length u + n) ((u @ v @ c # w)[length u + (length v + n) := c])"
    by (simp add: list_update_append)
  also have "\<dots> = take (length u + n) (u @ v @ c # w)" by (intro take_update_cancel) simp
  finally have t: "take (length u + n) (u @ v @ ?w) = take (length u + n) (u @ v @ c # w)" .
  have dr: "drop n ?w = c # drop n w"
    by (subst upd_conv_take_nth_drop) (use snoc.prems(1) in simp_all)
  have "shift_up (u @ v @ ?w) (i - 1) (int n) (length v) =
      Inr (take (length u + n) (u @ v @ ?w) @ v @ drop n ?w)"
    using snoc.prems by (intro snoc.IH) (simp_all split: nat.split)
  with ow rd i snoc.prems(1) show ?case unfolding t dr by simp
qed

lemma binsertch_edit:
  assumes "bs_ok b xs" and "int p + int n < 2 ^ 30" and "int (length xs) + int n < 2 ^ 30"
  shows "edit_ok al (binsertch (Some b) (int p) (int n) c al) xs (insert_chars c p n xs)"
proof -
  have rep: "bs_rep b xs" and sl: "slen b < mlen b" using assms(1) by (simp_all add: bs_ok_def)
  from rep have b: "slen b = int (length xs)" "0 < mlen b" "int (length xs) \<le> mlen b"
    by (auto elim: bs_rep_cells)
  let ?zs = "insert_chars c p n xs"
  have sums: "s32 (int (length xs) + int n) = int (length xs) + int n" "s32 (int p + int n) = int p + int n"
    "s32 (int p + int n + 1) = int p + int n + 1" "s32 (int (length xs) + int n + 1) = int (length xs) + int n + 1"
    using assms(2,3) by simp_all
  show ?thesis
  proof (cases "length xs < p")
    case True
    then have zs: "?zs = padded c (p + n) xs"
      by (simp add: insert_chars_def replace_section_def padded_def flip: replicate_add)
    have "binsertch (Some b) (int p) (int n) c al = ensure (Some b) (int p + int n + 1) al (\<lambda>b x al.
        bind_res (if slen b < int p + int n then set_cells x (slen b) c (int p + int n - slen b) else Inr x)
          (\<lambda>x. finish b x (int p + int n) al))"
      using True b sums by (simp add: binsertch_def Let_def cong: if_cong)
    moreover have "edit_ok al \<dots> xs ?zs"
    proof (rule ensure_edit [OF rep])
      fix b' :: bstring and r :: "byte option list" and al' :: alloc
      assume b': "length xs + length r = nat (mlen b')" "mlen b' < 2 ^ 31" "slen b' = int (length xs)"
        "int p + int n + 1 \<le> mlen b'"
      then have "p + n \<le> length xs + length r" by linarith
      from pad_cells [OF this, of c] True b'(3) have
        "(if slen b' < int p + int n then set_cells (map Some xs @ r) (slen b') c (int p + int n - slen b')
          else Inr (map Some xs @ r)) = Inr (map Some ?zs @ drop (p + n - length xs) r)"
        by (simp add: zs)
      then show "edit_ok al' (bind_res (if slen b' < int p + int n
            then set_cells (map Some xs @ r) (slen b') c (int p + int n - slen b') else Inr (map Some xs @ r))
          (\<lambda>x. finish b' x (int p + int n) al')) xs ?zs"
        using b' True zs by (auto intro!: finish_cells)
    qed (use assms(2) sl in simp_all)
    ultimately show ?thesis by simp
  next
    case False
    then have p: "p \<le> length xs" by simp
    define u v where "u = map Some (take p xs)" and "v = map Some (drop p xs)"
    have uv: "map Some xs = u @ v" "length u = p" "length v = length xs - p"
      using p by (simp_all add: u_def v_def flip: map_append)
    have zs: "?zs = take p xs @ replicate n c @ drop p xs"
      using p by (simp add: insert_chars_def replace_section_def padded_def)
    have d: "int (length xs) + int n - (int p + int n) = int (length v)" using p by (simp add: uv(3))
    have "binsertch (Some b) (int p) (int n) c al = ensure (Some b) (int (length xs) + int n + 1) al (\<lambda>b x al.
        bind_res (shift_up x (int (length xs) + int n - 1) (int n) (length v)) (\<lambda>x.
        bind_res (if 0 < n then set_cells x (int p) c (int n) else Inr x) (\<lambda>x.
        finish b x (int (length xs) + int n) al)))"
      using p b sums d by (simp add: binsertch_def Let_def cong: if_cong)
    moreover have "edit_ok al \<dots> xs ?zs"
    proof (rule ensure_edit [OF rep])
      fix b' :: bstring and r :: "byte option list" and al' :: alloc
      assume b': "length xs + length r = nat (mlen b')" "mlen b' < 2 ^ 31" "slen b' = int (length xs)"
        "int (length xs) + int n + 1 \<le> mlen b'"
      then have r: "n < length r" by linarith
      define q where "q = take n (v @ r)"
      have q: "length q = n" using r by (simp add: q_def)
      have up: "shift_up (map Some xs @ r) (int (length xs) + int n - 1) (int n) (length v) = Inr (u @ q @ v @ drop n r)"
        using shift_up_cells [of n r "int (length xs) + int n - 1" u v] r uv p by (simp add: q_def)
      have fill: "(if 0 < n then set_cells (u @ q @ v @ drop n r) (int p) c (int n) else Inr (u @ q @ v @ drop n r))
          = Inr (map Some ?zs @ drop n r)"
        using set_cells_at [of "int p" u "int n" q "v @ drop n r" c] q uv by (auto simp: zs u_def v_def)
      show "edit_ok al' (bind_res (shift_up (map Some xs @ r) (int (length xs) + int n - 1) (int n) (length v)) (\<lambda>x.
          bind_res (if 0 < n then set_cells x (int p) c (int n) else Inr x) (\<lambda>x.
          finish b' x (int (length xs) + int n) al'))) xs ?zs"
        unfolding up bind_res.simps fill
        by (rule finish_cells [OF refl _ _ b'(2)]) (use r b'(1) p in \<open>auto simp: zs\<close>)
    qed (use assms(3) sl in simp_all)
    ultimately show ?thesis by simp
  qed
qed

text \<open>The repetition of a content, cut to a length.\<close>

definition pattern :: "byte list \<Rightarrow> nat \<Rightarrow> byte list" where
  "pattern xs n = map (\<lambda>k. xs ! (k mod length xs)) [0..<n]"

lemma length_pattern [simp]: "length (pattern xs n) = n"
  by (simp add: pattern_def)

lemma pattern_start: "n \<le> length xs \<Longrightarrow> pattern xs n = take n xs"
  by (intro nth_equalityI) (simp_all add: pattern_def)

lemma pattern_Suc: "pattern xs (Suc n) = pattern xs n @ [xs ! (n mod length xs)]"
  by (simp add: pattern_def)

lemma repeat_up_cells:
  "xs \<noteq> [] \<Longrightarrow> length xs \<le> i \<Longrightarrow> n < length r \<Longrightarrow>
     repeat_up (map Some (pattern xs i) @ r) (int i) (int (length xs)) n =
     Inr (map Some (pattern xs (i + n)) @ drop n r)"
proof (induction n arbitrary: i r)
  case 0
  then show ?case by simp
next
  case (Suc n)
  have "nat (int i - int (length xs)) = i - length xs" by linarith
  then have "cell (map Some (pattern xs i) @ r) (int i - int (length xs)) = Inr (pattern xs i ! (i - length xs))"
    using Suc.prems cell_rep [of "pattern xs i" _ "int i - int (length xs)"] by simp
  also have "pattern xs i ! (i - length xs) = xs ! (i mod length xs)"
  proof -
    have "i - length xs < i" using Suc.prems by (cases xs) simp_all
    with le_mod_geq [of "length xs" i] Suc.prems show ?thesis by (simp add: pattern_def)
  qed
  finally have c: "cell (map Some (pattern xs i) @ r) (int i - int (length xs)) = Inr (xs ! (i mod length xs))"
    .
  have p: "put (map Some (pattern xs i) @ r) (int i) (xs ! (i mod length xs)) =
      Inr (map Some (pattern xs (Suc i)) @ drop 1 r)"
    using Suc.prems by (cases r) (simp_all add: put_def pattern_Suc list_update_append)
  have "repeat_up (map Some (pattern xs (Suc i)) @ drop 1 r) (int (Suc i)) (int (length xs)) n =
      Inr (map Some (pattern xs (Suc i + n)) @ drop n (drop 1 r))"
    using Suc.prems by (intro Suc.IH) simp_all
  then show ?case by (simp add: c p add.commute)
qed

lemma pattern_one: "pattern [c] n = replicate n c"
  by (intro nth_equalityI) (simp_all add: pattern_def)

lemma bpattern_edit:
  assumes "bs_ok b xs" and "xs \<noteq> []" and "int n < 2 ^ 30" and "length xs < 2 ^ 30"
  shows "edit_ok al (bpattern (Some b) (int n) al) xs (pattern xs n)"
proof -
  have rep: "bs_rep b xs" and sl: "slen b < mlen b" using assms(1) by (simp_all add: bs_ok_def)
  from rep have b: "slen b = int (length xs)" by (auto elim: bs_rep_cells)
  have "s32 (int n + 1) = int n + 1" using assms(3) by simp
  with b assms(2) have "bpattern (Some b) (int n) al = ensure (Some b) (int n + 1) al (\<lambda>b x al.
      if 0 < n \<and> length xs = 1 then bind_res (cell x 0) (\<lambda>c. bsetstr (Some b) (int n) None c al)
      else bind_res (repeat_up x (int (length xs)) (int (length xs)) (n - length xs)) (\<lambda>x. finish b x (int n) al))"
    by (simp add: bpattern_def Let_def nat_diff_distrib' cong: if_cong)
  moreover have "edit_ok al \<dots> xs (pattern xs n)"
  proof (rule ensure_edit [OF rep])
    fix b' :: bstring and r :: "byte option list" and al' :: alloc
    assume b': "length xs + length r = nat (mlen b')" "mlen b' < 2 ^ 31" "slen b' = int (length xs)"
      "int n + 1 \<le> mlen b'" and ok: "bs_ok b xs \<Longrightarrow> bs_ok b' xs"
    show "edit_ok al' (if 0 < n \<and> length xs = 1
        then bind_res (cell (map Some xs @ r) 0) (\<lambda>c. bsetstr (Some b') (int n) None c al')
        else bind_res (repeat_up (map Some xs @ r) (int (length xs)) (int (length xs)) (n - length xs))
          (\<lambda>x. finish b' x (int n) al')) xs (pattern xs n)"
    proof (cases "0 < n \<and> length xs = 1")
      case True
      then obtain c where xs: "xs = [c]" by (auto simp: length_Suc_conv)
      have "replicate n c = c # replicate (n - Suc 0) c" using True by (cases n) auto
      then have "set_section c n [] xs = pattern xs n"
        using True by (simp add: xs set_section_def padded_def pattern_one)
      with bsetstr_edit [OF ok [OF assms(1)], of None "[]" n al' c] assms(3) xs True
      show ?thesis by (simp add: argument_def cell_def)
    next
      case False
      have "n - length xs < length r"
        using b' ok [OF assms(1)] by (auto simp: bs_ok_def)
      moreover have "map Some xs = map Some (pattern xs (length xs))" by (simp add: pattern_start)
      ultimately have "repeat_up (map Some xs @ r) (int (length xs)) (int (length xs)) (n - length xs) =
          Inr (map Some (pattern xs (length xs + (n - length xs))) @ drop (n - length xs) r)"
        using repeat_up_cells [OF assms(2), of "length xs" "n - length xs" r] by simp
      moreover have "take n (pattern xs (length xs + (n - length xs))) = pattern xs n"
        by (intro nth_equalityI) (auto simp: pattern_def)
      ultimately show ?thesis using False b'
        by (auto intro!: finish_edit simp: take_map)
    qed
  qed (use assms(3) sl in simp_all)
  ultimately show ?thesis by simp
qed

lemma arg_skip_rep:
  assumes "arg_rep xs arg ys" and "p + length zs \<le> length ys" and "zs = take (length zs) (drop p ys)" and "zs \<noteq> []"
  shows "copy_arg home b d i (arg_skip (int p) arg) (int (length zs)) =
    (case arg of Apart a \<Rightarrow> copy_cells d i (map Some zs) (int (length zs))
     | Inside off n \<Rightarrow> copy_arg home b d i (Inside (off + int p) (int (length zs))) (int (length zs)))"
proof (cases arg)
  case (Apart a)
  with assms(1) obtain r where "data a = Some (map Some ys @ r)" by (auto elim: bs_rep_cells)
  moreover have "take (length zs) (drop p (map Some ys @ r)) = map Some zs"
    using assms(2) by (subst (2) assms(3)) (simp add: take_map drop_map)
  moreover have "length zs \<le> length (drop p (map Some ys @ r))" using assms(2) by simp
  ultimately have "first_cells (drop p (map Some ys @ r)) (int (length zs)) = Inr (map Some zs)"
    by (simp add: first_cells_def)
  with Apart \<open>data a = _\<close> assms(4) show ?thesis
    by (simp add: copy_from_def copy_cells_def first_cells_def)
next
  case (Inside off n)
  then show ?thesis by simp
qed

lemma bassignmidstr_edit:
  assumes "bs_ok b xs" and "arg_rep xs arg ys" and "length ys < 2 ^ 30" and "p \<le> length ys" and "int n < 2 ^ 31"
    and "al = []"
  shows "edit_ok al (bassignmidstr (Some b) (Some arg) (int p) (int n) al) xs (take n (drop p ys))"
proof -
  have rep: "bs_rep b xs" and sl: "slen b < mlen b" using assms(1) by (simp_all add: bs_ok_def)
  from rep obtain r where b: "data b = Some (map Some xs @ r)" "length xs + length r = nat (mlen b)"
    "0 < mlen b" "mlen b < 2 ^ 31" "slen b = int (length xs)" "int (length xs) \<le> mlen b" by (rule bs_rep_cells)
  note arg = arg_rep_slen [OF assms(2)] arg_rep_not_null [OF assms(2)]
  define zs where "zs = take n (drop p ys)"
  have len: "int (length zs) = (if int (length ys) - int p < int n then int (length ys) - int p else int n)"
    using assms(4) by (simp add: zs_def of_nat_diff)
  have "s32 (int (length ys) - int p) = int (length ys) - int p" using assms(3,4) by simp
  then have run: "bassignmidstr (Some b) (Some arg) (int p) (int n) al =
      (if int (length zs) > 0 then ensure (Some b) (int (length zs)) al (\<lambda>a d al.
         bind_res (copy_arg (mlen b) a d 0 (arg_skip (int p) arg) (int (length zs))) (\<lambda>d. finish a d (int (length zs)) al))
       else finish b (map Some xs @ r) 0 al)"
    unfolding len using b arg by (auto simp: bassignmidstr_def Let_def home_of_def)
  show ?thesis
  proof (cases "zs = []")
    case True
    have "edit_ok al (finish b (map Some xs @ r) 0 al) xs []"
      using b by (intro finish_edit) auto
    with run True have "edit_ok al (bassignmidstr (Some b) (Some arg) (int p) (int n) al) xs zs" by simp
    then show ?thesis by (simp only: zs_def)
  next
    case False
    define arg' where "arg' = (case arg of Apart a \<Rightarrow> Apart \<lparr>mlen = int (length zs), slen = int (length zs), data = Some (map Some zs)\<rparr>
      | Inside off m \<Rightarrow> Inside (off + int p) (int (length zs)))"
    have cut: "zs = take (length zs) (drop p ys)" "p + length zs \<le> length ys"
      using assms(4) by (auto simp: zs_def min_def)
    have "length zs < 2 ^ 31" "0 < length zs" using assms(3) False by (simp_all add: zs_def)
    then have arg': "arg_rep xs arg' zs"
    proof (cases arg)
      case (Apart a)
      with \<open>length zs < 2 ^ 31\<close> \<open>0 < length zs\<close> show ?thesis by (simp add: arg'_def bs_rep_def writable_def)
    next
      case (Inside off m)
      with assms(2) have y: "0 \<le> off" "nat off + length ys \<le> length xs" "ys = take (length ys) (drop (nat off) xs)"
        by simp_all
      have "zs = take (length zs) (drop p (take (length ys) (drop (nat off) xs)))"
        by (subst y(3) [symmetric]) (rule cut(1))
      also have "\<dots> = take (length zs) (drop (nat (off + int p)) xs)"
        using cut(2) y(1) by (simp add: drop_take nat_add_distrib add.commute)
      finally show ?thesis using Inside y(1,2) cut(2) by (simp add: arg'_def nat_add_distrib)
    qed
    have same: "copy_arg (mlen b) a d 0 (arg_skip (int p) arg) (int (length zs)) =
        copy_arg (mlen b) a d 0 arg' (int (length zs))" for a d
      using arg_skip_rep [OF assms(2) cut(2,1) False] False
      by (cases arg) (simp_all add: arg'_def copy_from_def)
    have "edit_ok al (ensure (Some b) (int (length zs)) al (\<lambda>a d al.
         bind_res (copy_arg (mlen b) a d 0 arg' (int (length zs))) (\<lambda>d. finish a d (int (length zs)) al))) xs zs"
      by (rule overwrite_edit [OF rep sl arg' False _ assms(6)]) (use assms(3) in \<open>simp add: zs_def\<close>)
    with run False have "edit_ok al (bassignmidstr (Some b) (Some arg) (int p) (int n) al) xs zs" by (simp add: same)
    then show ?thesis by (simp only: zs_def)
  qed
qed

lemma bassigncstr_edit:
  assumes "bs_ok b xs" and "0 \<notin> set ys" and "int (length ys) < 2 ^ 30" and "al = []"
  shows "edit_ok al (bassigncstr (Some b) (Some (ys @ 0 # p)) al) xs ys"
proof -
  have rep: "bs_rep b xs" using assms(1) by (simp add: bs_ok_def)
  then obtain r where b: "data b = Some (map Some xs @ r)" "length xs + length r = nat (mlen b)"
    "0 < mlen b" "mlen b < 2 ^ 31" "slen b = int (length xs)" "int (length xs) \<le> mlen b" by (rule bs_rep_cells)
  define d l where "d = map Some xs @ r" and "l = nat (mlen b)"
  have d: "length d = l" using b(2) by (simp add: d_def l_def)
  have start: "bassigncstr (Some b) (Some (ys @ 0 # p)) al =
      bind_res (cat_loop d (int 0) (ys @ 0 # p) l) (\<lambda>(d, i, s, found).
        let a = b\<lparr>data := Some d, slen := int i\<rparr> in
        if found then Inr (BSTR_OK, Some a, al)
        else
          bind_res (c_strlen s) (\<lambda>len.
          if int len > 2 ^ 31 - 1 \<or> int i + int len + 1 > 2 ^ 31 - 1 then Inr (BSTR_ERR, Some a, al)
          else
            bind_res (balloc (Some a) (int i + int len + 1) al) (\<lambda>(r, ap, al).
            if 0 > r then Inr (BSTR_ERR, ap, al)
            else case ap of None \<Rightarrow> Inl NullPointer
            | Some a \<Rightarrow> (case data a of None \<Rightarrow> Inl NullPointer | Some d \<Rightarrow>
                bind_res (overwrite d (int i) (map Some (take (len + 1) s))) (\<lambda>d.
                Inr (BSTR_OK, Some (a\<lparr>data := Some d, slen := s32 (slen a + int len)\<rparr>), al))))))"
    using b by (simp add: bassigncstr_def d_def l_def)
  show ?thesis
  proof (cases "length ys < l")
    case True
    from cat_loop_fits [OF assms(2) True, of 0 d p] d start have
      "bassigncstr (Some b) (Some (ys @ 0 # p)) al =
        Inr (BSTR_OK, Some (b\<lparr>data := Some (map Some ys @ Some 0 # drop (length ys + 1) d), slen := int (length ys)\<rparr>), al)"
      by simp
    moreover have "bs_ok (b\<lparr>data := Some (map Some ys @ Some 0 # drop (length ys + 1) d), slen := int (length ys)\<rparr>) ys"
      using True d b(3,4) by (auto simp: bs_ok_def bs_rep_def l_def nth_append)
    ultimately show ?thesis by (auto simp: edit_ok_def)
  next
    case False
    then have l: "l \<le> length ys" by simp
    let ?a = "b\<lparr>data := Some (map Some (take l ys)), slen := int l\<rparr>"
    have a: "bs_rep ?a (take l ys)" using l b(3,4) by (auto simp: bs_rep_def l_def)
    have len: "c_strlen (drop l ys @ 0 # p) = Inr (length ys - l)"
      using assms(2) by (subst c_strlen_append) (auto dest: in_set_dropD)
    have room: "slen ?a < mlen ?a \<or> slen ?a < int (length ys) + 1" using l by simp
    from balloc_rep [OF a _ _ room, of al] assms(3,4) obtain a' where
      g: "balloc (Some ?a) (int (length ys) + 1) [] = Inr (BSTR_OK, Some a', [])" "bs_rep a' (take l ys)"
        "int (length ys) + 1 \<le> mlen a'"
      by auto
    obtain q where q: "data a' = Some (map Some (take l ys) @ q)" "length (take l ys) + length q = nat (mlen a')"
      "mlen a' < 2 ^ 31" "slen a' = int (length (take l ys))" using g(2) by (rule bs_rep_cells)
    let ?tail = "map Some (drop l ys) @ [Some 0]"
    have "length ?tail \<le> length q" using q(2) g(3) l by simp
    moreover define w where "w = drop (length ?tail) q"
    ultimately have "overwrite (map Some (take l ys) @ q) (int l) ?tail = Inr (map Some (take l ys) @ ?tail @ w)"
      using overwrite_at [of "int l" "map Some (take l ys)" "take (length ?tail) q" ?tail w] l
      by (simp add: append_take_drop_id [of "length ?tail" q])
    then have ow: "overwrite (map Some (take l ys) @ q) (int l) ?tail = Inr (map Some ys @ Some 0 # w)"
      by (simp flip: map_append append_assoc)
    have w: "length ys + 1 + length w = nat (mlen a')"
      using q(2) g(3) l by (simp add: w_def)
    have tk: "take (length ys - l + 1) (drop l ys @ 0 # p) = drop l ys @ [0]" by simp
    have "\<not> 2147483647 < length ys - l" using assms(3) by simp
    note small = this
    have cl: "cat_loop d (int 0) (ys @ 0 # p) l = Inr (map Some (take l ys), l, drop l ys @ 0 # p, False)"
      using cat_loop_fills [OF assms(2) l, of 0 d p] d by simp
    have "bassigncstr (Some b) (Some (ys @ 0 # p)) al =
        Inr (BSTR_OK, Some (a'\<lparr>data := Some (map Some ys @ Some 0 # w), slen := int (length ys)\<rparr>), [])"
      unfolding start cl
      using len g(1) q(1,4) ow l assms(3,4) tk small
      by (simp add: BSTR_OK_def min_absorb2 Let_def of_nat_diff)
    moreover have "bs_ok (a'\<lparr>data := Some (map Some ys @ Some 0 # w), slen := int (length ys)\<rparr>) ys"
      using w q(3) g(3) by (auto simp: bs_ok_def bs_rep_def nth_append)
    ultimately show ?thesis using assms(4) by (auto simp: edit_ok_def)
  qed
qed

section \<open>Sequences of edits\<close>

text \<open>
  A string editor: a representation, commands that run on it, what they mean on contents, and
  when they apply. A run of commands then means the composition of their meanings.
\<close>

locale string_editor =
  fixes rep :: "'b \<Rightarrow> byte list \<Rightarrow> bool"
    and run :: "'e \<Rightarrow> 'b \<Rightarrow> 'b res"
    and meaning :: "'e \<Rightarrow> byte list \<Rightarrow> byte list"
    and fits :: "'e \<Rightarrow> byte list \<Rightarrow> bool"
  assumes run_law: "rep b xs \<Longrightarrow> fits e xs \<Longrightarrow> \<exists>b'. run e b = Inr b' \<and> rep b' (meaning e xs)"

fun run_all :: "('e \<Rightarrow> 'b \<Rightarrow> 'b res) \<Rightarrow> 'e list \<Rightarrow> 'b \<Rightarrow> 'b res" where
  "run_all run [] b = Inr b"
| "run_all run (e # es) b = bind_res (run e b) (run_all run es)"

fun all_fit :: "('e \<Rightarrow> byte list \<Rightarrow> byte list) \<Rightarrow> ('e \<Rightarrow> byte list \<Rightarrow> bool) \<Rightarrow> 'e list \<Rightarrow> byte list \<Rightarrow> bool" where
  "all_fit meaning fits [] xs \<longleftrightarrow> True"
| "all_fit meaning fits (e # es) xs \<longleftrightarrow> fits e xs \<and> all_fit meaning fits es (meaning e xs)"

context string_editor begin

lemma run_all_law:
  "rep b xs \<Longrightarrow> all_fit meaning fits es xs \<Longrightarrow> \<exists>b'. run_all run es b = Inr b' \<and> rep b' (fold meaning es xs)"
proof (induction es arbitrary: b xs)
  case Nil
  then show ?case by simp
next
  case (Cons e es)
  then obtain b1 where "run e b = Inr b1" "rep b1 (meaning e xs)" using run_law by fastforce
  with Cons show ?case by simp
qed

end

text \<open>
  The commands: a call of a function with its arguments, other strings included. A call that
  does not return \<open>BSTR_OK\<close>, or for \<open>bstring\<close>s that are no arguments at all, has no successor.
\<close>

datatype edit =
    Concat barg
  | Assign barg
  | AssignMid barg nat nat
  | AssignCstr "byte list"
  | SetAt nat "barg option" byte
  | InsertAt nat barg byte
  | ReplaceAt nat nat barg byte
  | InsertChars nat nat byte
  | Pattern nat
  | Delete nat nat
  | Truncate nat

definition content :: "bstring \<Rightarrow> byte list" where
  "content b = map the (take (nat (slen b)) (the (data b)))"

text \<open>What an argument says when the string that is edited has the content \<open>xs\<close>.\<close>

fun arg_content :: "byte list \<Rightarrow> barg \<Rightarrow> byte list" where
  "arg_content xs (Apart a) = content a"
| "arg_content xs (Inside off n) = take (nat n) (drop (nat off) xs)"

definition content_opt :: "byte list \<Rightarrow> barg option \<Rightarrow> byte list" where
  "content_opt xs bp = (case bp of None \<Rightarrow> [] | Some b \<Rightarrow> arg_content xs b)"

lemma content_rep: "bs_rep b xs \<Longrightarrow> content b = xs"
proof -
  assume "bs_rep b xs"
  then obtain r where "data b = Some (map Some xs @ r)" "slen b = int (length xs)" by (rule bs_rep_cells)
  then show ?thesis by (simp add: content_def comp_def)
qed

definition taken_as :: "(int \<times> bstring option \<times> alloc) res \<Rightarrow> bstring res" where
  "taken_as r = bind_res r (\<lambda>(c, bp, al).
     case bp of Some b \<Rightarrow> if c = BSTR_OK then Inr b else Inl NullPointer | None \<Rightarrow> Inl NullPointer)"

fun run_edit :: "edit \<Rightarrow> bstring \<Rightarrow> bstring res" where
  "run_edit (Concat b1) b = taken_as (bconcat (Some b) (Some b1) [])"
| "run_edit (Assign b1) b = taken_as (bassign (Some b) (Some b1) [])"
| "run_edit (AssignMid b1 p n) b = taken_as (bassignmidstr (Some b) (Some b1) (int p) (int n) [])"
| "run_edit (AssignCstr s) b = taken_as (bassigncstr (Some b) (Some (s @ [0])) [])"
| "run_edit (SetAt p bp c) b = taken_as (bsetstr (Some b) (int p) bp c [])"
| "run_edit (InsertAt p b1 c) b = taken_as (binsert (Some b) (int p) (Some b1) c [])"
| "run_edit (ReplaceAt p n b1 c) b = taken_as (breplace (Some b) (int p) (int n) (Some b1) c [])"
| "run_edit (InsertChars p n c) b = taken_as (binsertch (Some b) (int p) (int n) c [])"
| "run_edit (Pattern n) b = taken_as (bpattern (Some b) (int n) [])"
| "run_edit (Delete p n) b = bind_res (bdelete (Some b) (int p) (int n)) (\<lambda>(c, bp). taken_as (Inr (c, bp, [])))"
| "run_edit (Truncate n) b = bind_res (btrunc (Some b) (int n)) (\<lambda>(c, bp). taken_as (Inr (c, bp, [])))"

fun edit_meaning :: "edit \<Rightarrow> byte list \<Rightarrow> byte list" where
  "edit_meaning (Concat b1) xs = xs @ arg_content xs b1"
| "edit_meaning (Assign b1) xs = arg_content xs b1"
| "edit_meaning (AssignMid b1 p n) xs = take n (drop p (arg_content xs b1))"
| "edit_meaning (AssignCstr s) xs = s"
| "edit_meaning (SetAt p bp c) xs = set_section c p (content_opt xs bp) xs"
| "edit_meaning (InsertAt p b1 c) xs = replace_section c p 0 (arg_content xs b1) xs"
| "edit_meaning (ReplaceAt p n b1 c) xs = replace_section c p n (arg_content xs b1) xs"
| "edit_meaning (InsertChars p n c) xs = insert_chars c p n xs"
| "edit_meaning (Pattern n) xs = pattern xs n"
| "edit_meaning (Delete p n) xs = take p xs @ drop (p + n) xs"
| "edit_meaning (Truncate n) xs = take n xs"

definition small_string :: "bstring \<Rightarrow> bool" where
  "small_string b \<longleftrightarrow> (\<exists>ys. bs_rep b ys \<and> length ys < 2 ^ 29)"

fun small_arg :: "byte list \<Rightarrow> barg \<Rightarrow> bool" where
  "small_arg xs (Apart a) \<longleftrightarrow> small_string a"
| "small_arg xs (Inside off n) \<longleftrightarrow> 0 \<le> off \<and> 0 \<le> n \<and> off + n \<le> int (length xs) \<and> n < 2 ^ 29"

fun edit_fits :: "edit \<Rightarrow> byte list \<Rightarrow> bool" where
  "edit_fits (Concat b1) xs \<longleftrightarrow> length xs < 2 ^ 29 \<and> small_arg xs b1"
| "edit_fits (Assign b1) xs \<longleftrightarrow> small_arg xs b1"
| "edit_fits (AssignMid b1 p n) xs \<longleftrightarrow> small_arg xs b1 \<and> p \<le> length (arg_content xs b1) \<and> n < 2 ^ 29"
| "edit_fits (AssignCstr s) xs \<longleftrightarrow> 0 \<notin> set s \<and> length s < 2 ^ 29"
| "edit_fits (SetAt p bp c) xs \<longleftrightarrow> length xs < 2 ^ 29 \<and> p < 2 ^ 29 \<and> (\<forall>b1. bp = Some b1 \<longrightarrow> small_arg xs b1)"
| "edit_fits (InsertAt p b1 c) xs \<longleftrightarrow> length xs < 2 ^ 29 \<and> p < 2 ^ 29 \<and> small_arg xs b1"
| "edit_fits (ReplaceAt p n b1 c) xs \<longleftrightarrow> length xs < 2 ^ 29 \<and> p < 2 ^ 29 \<and> n < 2 ^ 29 \<and> small_arg xs b1"
| "edit_fits (InsertChars p n c) xs \<longleftrightarrow> length xs < 2 ^ 29 \<and> p < 2 ^ 29 \<and> n < 2 ^ 29"
| "edit_fits (Pattern n) xs \<longleftrightarrow> xs \<noteq> [] \<and> length xs < 2 ^ 29 \<and> n < 2 ^ 29"
| "edit_fits (Delete p n) xs \<longleftrightarrow> p < 2 ^ 29 \<and> n < 2 ^ 29"
| "edit_fits (Truncate n) xs \<longleftrightarrow> True"

lemma small_stringE:
  assumes "small_string b"
  obtains "bs_rep b (content b)" "length (content b) < 2 ^ 29"
proof -
  from assms obtain ys where "bs_rep b ys" "length ys < 2 ^ 29" unfolding small_string_def by blast
  with content_rep [of b ys] show ?thesis using that by simp
qed

lemma small_argE:
  assumes "small_arg xs arg"
  obtains "arg_rep xs arg (arg_content xs arg)" "length (arg_content xs arg) < 2 ^ 29"
proof (cases arg)
  case (Apart a)
  with assms that show thesis by (auto elim!: small_stringE)
next
  case (Inside off n)
  with assms have n: "0 \<le> off" "0 \<le> n" "nat off + nat n \<le> length xs" "n < 2 ^ 29" by auto
  then have "length (take (nat n) (drop (nat off) xs)) = nat n" by simp
  with Inside n that show thesis by simp
qed

lemma taken_ok: "edit_ok [] r xs zs \<Longrightarrow> \<exists>b'. taken_as r = Inr b' \<and> bs_ok b' zs"
  by (auto simp: edit_ok_def taken_as_def)

text \<open>Deleting and truncating leave a terminator where they found one.\<close>

lemma put_ends:
  assumes "put d n 0 = Inr e" and "bs_rep (b\<lparr>slen := n, data := Some e\<rparr>) zs"
  shows "bs_ok (b\<lparr>slen := n, data := Some e\<rparr>) zs"
proof -
  from assms(1) have "0 \<le> n" "nat n < length d" "e = d[nat n := Some 0]" by (auto simp: put_def split: if_splits)
  moreover from assms(2) have "n = int (length zs)" "length e = nat (mlen b)"
    by (auto simp: bs_rep_def)
  ultimately show ?thesis using assms(2) by (simp add: bs_ok_def)
qed

lemma bs_ok_same:
  assumes "bs_ok b xs" and "bs_rep b zs"
  shows "bs_ok b zs"
proof -
  from assms have "slen b = int (length xs)" "slen b = int (length zs)"
    by (auto simp: bs_ok_def elim!: bs_rep_cells)
  then have "length xs = length zs" by simp
  with assms show ?thesis by (simp add: bs_ok_def)
qed

lemma bdelete_edit:
  assumes "bs_ok b xs" and "int p + int n < 2 ^ 31"
  shows "\<exists>b'. bdelete (Some b) (int p) (int n) = Inr (BSTR_OK, Some b') \<and> bs_ok b' (take p xs @ drop (p + n) xs)"
proof -
  have "bs_rep b xs" using assms(1) by (simp add: bs_ok_def)
  with bdelete_rep [of b xs "int p" "int n"] assms(2) obtain b' where
    b': "bdelete (Some b) (int p) (int n) = Inr (BSTR_OK, Some b')" "bs_rep b' (take p xs @ drop (p + n) xs)"
    by (auto simp: nat_add_distrib)
  have "b' = b \<or> (\<exists>d sl e. put d sl 0 = Inr e \<and> b' = b\<lparr>slen := sl, data := Some e\<rparr>)"
    using b'(1) by (auto simp: bdelete_def res_simps Let_def split: if_splits)
  with b' bs_ok_same [OF assms(1)] put_ends show ?thesis by blast
qed

lemma btrunc_edit:
  assumes "bs_ok b xs"
  shows "\<exists>b'. btrunc (Some b) (int n) = Inr (BSTR_OK, Some b') \<and> bs_ok b' (take n xs)"
proof -
  have "bs_rep b xs" using assms(1) by (simp add: bs_ok_def)
  with btrunc_rep [of b xs "int n"] obtain b' where
    b': "btrunc (Some b) (int n) = Inr (BSTR_OK, Some b')" "bs_rep b' (take n xs)" by auto
  have "b' = b \<or> (\<exists>d e. put d (int n) 0 = Inr e \<and> b' = b\<lparr>slen := int n, data := Some e\<rparr>)"
    using b'(1) by (auto simp: btrunc_def res_simps split: if_splits)
  with b' bs_ok_same [OF assms(1)] put_ends show ?thesis by blast
qed

interpretation edits: string_editor bs_ok run_edit edit_meaning edit_fits
proof
  fix b xs e
  assume b: "bs_ok b xs" and fits: "edit_fits e xs"
  show "\<exists>b'. run_edit e b = Inr b' \<and> bs_ok b' (edit_meaning e xs)"
  proof (cases e)
    case (Concat b1)
    with fits b have "bs_rep b xs" by (simp add: bs_ok_def)
    with Concat fits show ?thesis by (auto elim!: small_argE intro!: taken_ok bconcat_edit)
  next
    case (Assign b1)
    with fits b show ?thesis by (auto elim!: small_argE intro!: taken_ok bassign_edit)
  next
    case (AssignMid b1 p n)
    with fits b show ?thesis by (auto elim!: small_argE intro!: taken_ok bassignmidstr_edit)
  next
    case (AssignCstr s)
    with fits b show ?thesis by (auto intro!: taken_ok bassigncstr_edit)
  next
    case (SetAt p bp c)
    with fits have "argument xs bp (content_opt xs bp)" "length (content_opt xs bp) < 2 ^ 29"
      by (auto simp: argument_def content_opt_def elim!: small_argE split: option.split)
    with SetAt fits b show ?thesis by (auto intro!: taken_ok bsetstr_edit)
  next
    case (InsertAt p b1 c)
    with fits b show ?thesis by (auto elim!: small_argE intro!: taken_ok binsert_edit)
  next
    case (ReplaceAt p n b1 c)
    with fits b show ?thesis by (auto elim!: small_argE intro!: taken_ok breplace_edit)
  next
    case (InsertChars p n c)
    with fits b show ?thesis by (auto intro!: taken_ok binsertch_edit)
  next
    case (Pattern n)
    with fits b show ?thesis by (auto intro!: taken_ok bpattern_edit)
  next
    case (Delete p n)
    with fits b bdelete_edit [OF b, of p n] show ?thesis by (auto simp: taken_as_def)
  next
    case (Truncate n)
    with btrunc_edit [OF b, of n] show ?thesis by (auto simp: taken_as_def)
  qed
qed

section \<open>Properties\<close>

text \<open>
  C25: any sequence of edits of a bstring - concatenation, assignment, setting, inserting and
  replacing sections, filling, repeating, deleting, truncating - with enough memory and on
  strings of less than half a gigabyte, stays inside the buffers and leaves a terminated
  bstring with the content that the same edits of lists of bytes give. The arguments are other
  strings or sections of the content that is edited, which share its buffer and mean the bytes
  they had before the edit: none of them is read after it was overwritten or its buffer moved.
\<close>

theorem edits_refine:
  assumes "bs_ok b xs" and "all_fit edit_meaning edit_fits es xs"
  shows "\<exists>b'. run_all run_edit es b = Inr b' \<and> bs_ok b' (fold edit_meaning es xs)"
  using assms by (rule edits.run_all_law)

definition edit_demo :: bstring where
  "edit_demo = \<lparr>mlen = 8, slen = 3, data = Some (map Some [97, 98, 99, 0, 0, 0, 0, 0])\<rparr>"

theorem edits_refine_witness:
  "\<exists>b'. run_all run_edit [InsertAt 1 (Inside 0 3) 32, ReplaceAt 5 1 (Apart edit_demo) 32,
      ReplaceAt 1 1 (Inside 2 4) 32, Pattern 13] edit_demo = Inr b' \<and>
     bs_ok b' [97, 98, 99, 98, 97, 98, 99, 98, 97, 98, 99, 97, 98]"
proof -
  have d: "bs_rep edit_demo [97, 98, 99]" "content edit_demo = [97, 98, 99]"
    by (simp_all add: bs_rep_def edit_demo_def content_def)
  have small: "small_string edit_demo"
    unfolding small_string_def by (rule exI [of _ "[97, 98, 99]"]) (simp add: d(1))
  have ok: "bs_ok edit_demo [97, 98, 99]" using d(1) by (simp add: bs_ok_def edit_demo_def)
  let ?es = "[InsertAt 1 (Inside 0 3) 32, ReplaceAt 5 1 (Apart edit_demo) 32, ReplaceAt 1 1 (Inside 2 4) 32, Pattern 13]"
  have "replace_section 32 1 0 [97, 98, 99] [97, 98, 99] = [97, 97, 98, 99, 98, 99]"
    "replace_section 32 5 1 [97, 98, 99] [97, 97, 98, 99, 98, 99] = [97, 97, 98, 99, 98, 97, 98, 99]"
    "replace_section 32 1 1 [98, 99, 98, 97] [97, 97, 98, 99, 98, 97, 98, 99] = [97, 98, 99, 98, 97, 98, 99, 98, 97, 98, 99]"
    "pattern [97, 98, 99, 98, 97, 98, 99, 98, 97, 98, 99] 13 = [97, 98, 99, 98, 97, 98, 99, 98, 97, 98, 99, 97, 98]"
    by code_simp+
  then have "fold edit_meaning ?es [97, 98, 99] = [97, 98, 99, 98, 97, 98, 99, 98, 97, 98, 99, 97, 98]"
    "all_fit edit_meaning edit_fits ?es [97, 98, 99]"
    using small d(2) by simp_all
  with edits_refine [OF ok, of ?es] show ?thesis by simp
qed

text \<open>
  Where memory is short, \<open>balloc\<close> may grow the buffer to exactly the requested size; \<open>bassign\<close>
  asks for no room for the terminator, which it then writes behind the buffer.
\<close>

lemma bassign_tight:
  "bassign (Some \<lparr>mlen = 8, slen = 0, data = Some (replicate 8 (Some 0))\<rparr>)
     (Some (Apart \<lparr>mlen = 21, slen = 20, data = Some (replicate 21 (Some 0))\<rparr>)) [False, False, True] = Inl OutOfBounds"
  by code_simp

end
