(* ===== verification/BCase.thy ===== *)
theory BCase
  imports BInsert
begin

text \<open>
  Case conversion, white space and the order of strings in \<open>bstrlib.c\<close>, with the character
  functions of the C library in its default locale. \<open>char\<close> is signed. Two strings may share
  their buffer: \<open>same\<close> is the outcome of comparing the pointers.
\<close>

section \<open>Characters\<close>

definition upcase :: "byte \<Rightarrow> byte" where
  "upcase c = (if 97 \<le> c \<and> c \<le> 122 then c - 32 else c)"

definition downcase :: "byte \<Rightarrow> byte" where
  "downcase c = (if 65 \<le> c \<and> c \<le> 90 then c + 32 else c)"

definition wspace :: "byte \<Rightarrow> bool" where
  "wspace c \<longleftrightarrow> c = 32 \<or> 9 \<le> c \<and> c \<le> 13"

definition SHRT_MIN :: int where "SHRT_MIN = - 32768"
definition UCHAR_MAX :: int where "UCHAR_MAX = 255"

section \<open>Conversion\<close>

fun convert_cells :: "(byte \<Rightarrow> byte) \<Rightarrow> byte option list \<Rightarrow> int \<Rightarrow> nat \<Rightarrow> byte option list res" where
  "convert_cells f d i 0 = Inr d"
| "convert_cells f d i (Suc todo) =
     bind_res (cell d i) (\<lambda>c. bind_res (put d i (f c)) (\<lambda>d. convert_cells f d (i + 1) todo))"

definition convert :: "(byte \<Rightarrow> byte) \<Rightarrow> bstring option \<Rightarrow> (int \<times> bstring option) res" where
  "convert f bp =
     (case bp of None \<Rightarrow> Inr (BSTR_ERR, bp) | Some b \<Rightarrow>
      if \<not> writable b then Inr (BSTR_ERR, bp)
      else bind_res (convert_cells f (the (data b)) 0 (nat (slen b))) (\<lambda>d.
        Inr (BSTR_OK, Some (b\<lparr>data := Some d\<rparr>))))"

definition btoupper :: "bstring option \<Rightarrow> (int \<times> bstring option) res" where
  "btoupper bp = convert upcase bp"

definition btolower :: "bstring option \<Rightarrow> (int \<times> bstring option) res" where
  "btolower bp = convert downcase bp"

section \<open>White space\<close>

text \<open>The number of white-space characters from \<open>i\<close> on, and where the last other one is.\<close>

fun skip_ws :: "byte option list \<Rightarrow> int \<Rightarrow> nat \<Rightarrow> (int \<times> bool) res" where
  "skip_ws d i 0 = Inr (i, False)"
| "skip_ws d i (Suc todo) =
     bind_res (cell d i) (\<lambda>c. if wspace c then skip_ws d (i + 1) todo else Inr (i, True))"

fun last_ink :: "byte option list \<Rightarrow> nat \<Rightarrow> int res" where
  "last_ink d 0 = Inr (-1)"
| "last_ink d (Suc i) =
     bind_res (cell d (int i)) (\<lambda>c. if wspace c then last_ink d i else Inr (int i))"

text \<open>The end of the functions when there is nothing but white space.\<close>

definition emptied :: "bstring \<Rightarrow> (int \<times> bstring option) res" where
  "emptied b = bind_res (put (the (data b)) 0 0) (\<lambda>d. Inr (BSTR_OK, Some (b\<lparr>data := Some d, slen := 0\<rparr>)))"

definition bltrimws :: "bstring option \<Rightarrow> (int \<times> bstring option) res" where
  "bltrimws bp =
     (case bp of None \<Rightarrow> Inr (BSTR_ERR, bp) | Some b \<Rightarrow>
      if \<not> writable b then Inr (BSTR_ERR, bp)
      else bind_res (skip_ws (the (data b)) 0 (nat (slen b))) (\<lambda>(i, found).
        if found then bdelete bp 0 i else emptied b))"

text \<open>The string up to its last other character; the terminator has room when \<open>i < mlen\<close>.\<close>

definition cut_behind :: "bstring \<Rightarrow> int \<Rightarrow> bstring res" where
  "cut_behind b i =
     bind_res (if mlen b > i then put (the (data b)) (i + 1) 0 else Inr (the (data b))) (\<lambda>d.
     Inr (b\<lparr>data := Some d, slen := i + 1\<rparr>))"

definition brtrimws :: "bstring option \<Rightarrow> (int \<times> bstring option) res" where
  "brtrimws bp =
     (case bp of None \<Rightarrow> Inr (BSTR_ERR, bp) | Some b \<Rightarrow>
      if \<not> writable b then Inr (BSTR_ERR, bp)
      else bind_res (last_ink (the (data b)) (nat (slen b))) (\<lambda>i.
        if i \<ge> 0 then bind_res (cut_behind b i) (\<lambda>b. Inr (BSTR_OK, Some b)) else emptied b))"

text \<open>The inner loop of \<open>btrimws\<close> has no bound of its own; the buffer ends it.\<close>

definition btrimws :: "bstring option \<Rightarrow> (int \<times> bstring option) res" where
  "btrimws bp =
     (case bp of None \<Rightarrow> Inr (BSTR_ERR, bp) | Some b \<Rightarrow>
      if \<not> writable b then Inr (BSTR_ERR, bp)
      else bind_res (last_ink (the (data b)) (nat (slen b))) (\<lambda>i.
        if i \<ge> 0 then bind_res (cut_behind b i) (\<lambda>b.
          bind_res (skip_ws (the (data b)) 0 (length (the (data b)))) (\<lambda>(j, found).
          if found then bdelete (Some b) 0 j else Inl OutOfBounds))
        else emptied b))"

section \<open>Comparison\<close>

text \<open>
  The loops compare cell by cell, from \<open>i\<close> on; \<open>test\<close> gives the result at which they stop.
\<close>

fun compare_cells ::
    "(byte \<Rightarrow> byte \<Rightarrow> int option) \<Rightarrow> byte option list \<Rightarrow> byte option list \<Rightarrow> int \<Rightarrow> nat \<Rightarrow> int option res" where
  "compare_cells test d0 d1 i 0 = Inr None"
| "compare_cells test d0 d1 i (Suc todo) =
     bind_res (cell d0 i) (\<lambda>x. bind_res (cell d1 i) (\<lambda>y.
     case test x y of Some v \<Rightarrow> Inr (Some v) | None \<Rightarrow> compare_cells test d0 d1 (i + 1) todo))"

definition bstrcmp :: "bool \<Rightarrow> bstring option \<Rightarrow> bstring option \<Rightarrow> int res" where
  "bstrcmp same b0 b1 =
     (case (bparts b0, bparts b1) of
        (Some (d0, n0), Some (d1, n1)) \<Rightarrow>
          let n = (if n0 > n1 then n1 else n0) in
          if n0 = n1 \<and> (same \<or> n0 = 0) then Inr BSTR_OK
          else bind_res (compare_cells (\<lambda>x y. if sint x - sint y \<noteq> 0 then Some (sint x - sint y)
              else if x = 0 then Some BSTR_OK else None) d0 d1 0 (nat n)) (\<lambda>r.
            case r of Some v \<Rightarrow> Inr v
            | None \<Rightarrow> Inr (if n0 > n then 1 else if n1 > n then -1 else BSTR_OK))
      | _ \<Rightarrow> Inr SHRT_MIN)"

definition bstrncmp :: "bool \<Rightarrow> bstring option \<Rightarrow> bstring option \<Rightarrow> int \<Rightarrow> int res" where
  "bstrncmp same b0 b1 n =
     (case (bparts b0, bparts b1) of
        (Some (d0, n0), Some (d1, n1)) \<Rightarrow>
          let m = n; m = (if m > n0 then n0 else m); m = (if m > n1 then n1 else m) in
          bind_res (if same then Inr None
            else compare_cells (\<lambda>x y. if sint x - sint y \<noteq> 0 then Some (sint x - sint y)
              else if x = 0 then Some BSTR_OK else None) d0 d1 0 (nat m)) (\<lambda>r.
            case r of Some v \<Rightarrow> Inr v
            | None \<Rightarrow> Inr (if n = m \<or> n0 = n1 then BSTR_OK else if n0 > m then 1 else -1))
      | _ \<Rightarrow> Inr SHRT_MIN)"

text \<open>The extra character of the longer string, which counts as 256 when it is NUL.\<close>

definition extra_char :: "byte option list \<Rightarrow> int \<Rightarrow> int res" where
  "extra_char d n = bind_res (cell d n) (\<lambda>c.
     let v = sint (downcase c) in Inr (if v \<noteq> 0 then v else UCHAR_MAX + 1))"

definition bstricmp :: "bool \<Rightarrow> bstring option \<Rightarrow> bstring option \<Rightarrow> int res" where
  "bstricmp same b0 b1 =
     (case (bparts b0, bparts b1) of
        (Some (d0, n0), Some (d1, n1)) \<Rightarrow>
          let n = (if n0 > n1 then n1 else n0) in
          if \<not> n0 > n1 \<and> n0 = n1 \<and> same then Inr BSTR_OK
          else bind_res (compare_cells (\<lambda>x y. let v = sint (downcase x) - sint (downcase y) in
              if v \<noteq> 0 then Some v else None) d0 d1 0 (nat n)) (\<lambda>r.
            case r of Some v \<Rightarrow> Inr v
            | None \<Rightarrow>
                if n0 > n then extra_char d0 n
                else if n1 > n then bind_res (extra_char d1 n) (\<lambda>v. Inr (- v))
                else Inr BSTR_OK)
      | _ \<Rightarrow> Inr SHRT_MIN)"

definition bstrnicmp :: "bool \<Rightarrow> bstring option \<Rightarrow> bstring option \<Rightarrow> int \<Rightarrow> int res" where
  "bstrnicmp same b0 b1 n =
     (case (bparts b0, bparts b1) of
        (Some (d0, n0), Some (d1, n1)) \<Rightarrow>
          if n < 0 then Inr SHRT_MIN
          else
            let m = n; m = (if m > n0 then n0 else m); m = (if m > n1 then n1 else m) in
            bind_res (if same then Inr None
              else compare_cells (\<lambda>x y. if sint (downcase x) - sint (downcase y) \<noteq> 0
                then Some (uint x - uint y) else None) d0 d1 0 (nat m)) (\<lambda>r.
              case r of Some v \<Rightarrow> Inr v
              | None \<Rightarrow>
                  if n = m \<or> n0 = n1 then Inr BSTR_OK
                  else if n0 > m then extra_char d0 m
                  else bind_res (extra_char d1 m) (\<lambda>v. Inr (- v)))
      | _ \<Rightarrow> Inr SHRT_MIN)"

section \<open>Equality\<close>

definition biseqcaseless :: "bool \<Rightarrow> bstring option \<Rightarrow> bstring option \<Rightarrow> int res" where
  "biseqcaseless same b0 b1 =
     (case (bparts b0, bparts b1) of
        (Some (d0, n0), Some (d1, n1)) \<Rightarrow>
          if n0 \<noteq> n1 then Inr BSTR_OK
          else if same \<or> n0 = 0 then Inr 1
          else bind_res (compare_cells (\<lambda>x y. if x \<noteq> y \<and> downcase x \<noteq> downcase y then Some 0 else None) d0 d1 0 (nat n0))
            (\<lambda>r. Inr (case r of Some v \<Rightarrow> v | None \<Rightarrow> 1))
      | _ \<Rightarrow> Inr BSTR_ERR)"

text \<open>The block is a pointer to bytes that can be read, or NULL.\<close>

definition bisstemeqblk :: "bool \<Rightarrow> bstring option \<Rightarrow> byte list option \<Rightarrow> int \<Rightarrow> int res" where
  "bisstemeqblk same b0 blk len =
     (case (bparts b0, blk) of
        (Some (d0, n0), Some s) \<Rightarrow>
          if len < 0 then Inr BSTR_ERR
          else if n0 < len then Inr BSTR_OK
          else if same \<or> len = 0 then Inr 1
          else bind_res (compare_cells (\<lambda>x y. if x \<noteq> y then Some BSTR_OK else None) d0 (map Some s) 0 (nat len))
            (\<lambda>r. Inr (case r of Some v \<Rightarrow> v | None \<Rightarrow> 1))
      | _ \<Rightarrow> Inr BSTR_ERR)"

definition bisstemeqcaselessblk :: "bool \<Rightarrow> bstring option \<Rightarrow> byte list option \<Rightarrow> int \<Rightarrow> int res" where
  "bisstemeqcaselessblk same b0 blk len =
     (case (bparts b0, blk) of
        (Some (d0, n0), Some s) \<Rightarrow>
          if len < 0 then Inr BSTR_ERR
          else if n0 < len then Inr BSTR_OK
          else if same \<or> len = 0 then Inr 1
          else bind_res (compare_cells (\<lambda>x y. if x \<noteq> y \<and> downcase x \<noteq> downcase y then Some 0 else None)
              d0 (map Some s) 0 (nat len)) (\<lambda>r. Inr (case r of Some v \<Rightarrow> v | None \<Rightarrow> 1))
      | _ \<Rightarrow> Inr BSTR_ERR)"

fun cstr_caseless_loop :: "byte option list \<Rightarrow> byte list \<Rightarrow> int \<Rightarrow> nat \<Rightarrow> int res" where
  "cstr_caseless_loop d s i 0 = bind_res (rd s (nat i)) (\<lambda>c. Inr (if c = 0 then 1 else 0))"
| "cstr_caseless_loop d s i (Suc todo) =
     bind_res (rd s (nat i)) (\<lambda>c.
     if c = 0 then Inr BSTR_OK
     else bind_res (cell d i) (\<lambda>x.
       if x \<noteq> c \<and> downcase x \<noteq> downcase c then Inr BSTR_OK else cstr_caseless_loop d s (i + 1) todo))"

definition biseqcstrcaseless :: "bstring option \<Rightarrow> byte list option \<Rightarrow> int res" where
  "biseqcstrcaseless bp sp =
     (case (bparts bp, sp) of
        (Some (d, n), Some s) \<Rightarrow> cstr_caseless_loop d s 0 (nat n)
      | _ \<Rightarrow> Inr BSTR_ERR)"

section \<open>What conversion and trimming do\<close>

lemma convert_cells_at:
  "convert_cells f (map Some us @ map Some xs @ r) (int (length us)) (length xs) =
     Inr (map Some us @ map Some (map f xs) @ r)"
proof (induction xs arbitrary: us)
  case Nil
  then show ?case by simp
next
  case (Cons x xs)
  have "cell (map Some us @ map Some (x # xs) @ r) (int (length us)) = Inr x"
    by (simp add: cell_def nth_append)
  moreover have "put (map Some us @ map Some (x # xs) @ r) (int (length us)) (f x) =
      Inr (map Some (us @ [f x]) @ map Some xs @ r)"
    by (simp add: put_def list_update_append)
  ultimately show ?case using Cons.IH [of "us @ [f x]"] by (simp add: add.commute)
qed

lemma convert_edit:
  assumes "bs_ok b xs"
  shows "\<exists>b'. convert f (Some b) = Inr (BSTR_OK, Some b') \<and> bs_ok b' (map f xs)"
proof -
  have "bs_rep b xs" using assms by (simp add: bs_ok_def)
  then obtain r where r: "data b = Some (map Some xs @ r)" "length xs + length r = nat (mlen b)"
    "0 < mlen b" "mlen b < 2 ^ 31" "slen b = int (length xs)" "writable b" by (rule bs_rep_cells)
  then have "convert f (Some b) = Inr (BSTR_OK, Some (b\<lparr>data := Some (map Some (map f xs) @ r)\<rparr>))"
    using convert_cells_at [of f "[]" xs r] by (simp add: convert_def)
  moreover have "bs_ok (b\<lparr>data := Some (map Some (map f xs) @ r)\<rparr>) (map f xs)"
    using r assms by (auto simp: bs_ok_def bs_rep_def nth_append)
  ultimately show ?thesis by blast
qed

lemma skip_ws_at:
  "take (length xs) d = map Some xs \<Longrightarrow> i + n = length xs \<Longrightarrow>
     skip_ws d (int i) n = Inr (int i + int (length (takeWhile wspace (drop i xs))), \<exists>x\<in>set (drop i xs). \<not> wspace x)"
proof (induction n arbitrary: i)
  case 0
  then show ?case by simp
next
  case (Suc n)
  then have i: "i < length xs" by simp
  then have "drop i xs = xs ! i # drop (Suc i) xs" by (simp add: Cons_nth_drop_Suc)
  moreover have "cell d (int i) = Inr (xs ! i)" using cell_rep [OF Suc.prems(1), of "int i"] i by simp
  ultimately show ?case using Suc.IH [of "Suc i"] Suc.prems by (simp add: ac_simps)
qed

lemma skip_ws_more:
  "i + m = length ys \<Longrightarrow> \<exists>x\<in>set (drop i ys). \<not> wspace x \<Longrightarrow>
     skip_ws (map Some ys @ r) (int i) (m + k) = skip_ws (map Some ys) (int i) m"
proof (induction m arbitrary: i)
  case (Suc m)
  then have i: "i < length ys" by simp
  then have "drop i ys = ys ! i # drop (Suc i) ys" by (simp add: Cons_nth_drop_Suc)
  moreover have "cell (map Some ys @ r) (int i) = Inr (ys ! i)" "cell (map Some ys) (int i) = Inr (ys ! i)"
    using i by (simp_all add: cell_def nth_append)
  ultimately show ?case using Suc.IH [of "Suc i"] Suc.prems by (simp add: ac_simps)
qed simp

lemma last_ink_at:
  "take (length xs) d = map Some xs \<Longrightarrow> n \<le> length xs \<Longrightarrow>
     last_ink d n = Inr (int (length (dropWhile wspace (rev (take n xs)))) - 1)"
proof (induction n)
  case 0
  then show ?case by simp
next
  case (Suc n)
  then have "cell d (int n) = Inr (xs ! n)" using cell_rep [OF Suc.prems(1), of "int n"] by simp
  with Suc show ?case by (simp add: take_Suc_conv_app_nth)
qed

definition trim_left :: "byte list \<Rightarrow> byte list" where
  "trim_left xs = dropWhile wspace xs"

definition trim_right :: "byte list \<Rightarrow> byte list" where
  "trim_right xs = rev (dropWhile wspace (rev xs))"

lemma trim_right_take: "trim_right xs = take (length (dropWhile wspace (rev xs))) xs"
proof -
  have "rev xs = takeWhile wspace (rev xs) @ dropWhile wspace (rev xs)" by simp
  then have "xs = rev (dropWhile wspace (rev xs)) @ rev (takeWhile wspace (rev xs))" by (metis rev_append rev_rev_ident)
  then show ?thesis unfolding trim_right_def by (metis append_eq_conv_conj length_rev)
qed

lemma emptied_ok: "bs_rep b xs \<Longrightarrow> \<exists>b'. emptied b = Inr (BSTR_OK, Some b') \<and> bs_ok b' []"
  by (elim bs_rep_cells) (auto simp: emptied_def put_def bs_ok_def bs_rep_def)

lemma trim_left_drop: "trim_left xs = drop (length (takeWhile wspace xs)) xs"
  by (simp add: trim_left_def dropWhile_eq_drop)

lemma bltrimws_edit:
  assumes "bs_ok b xs"
  shows "\<exists>b'. bltrimws (Some b) = Inr (BSTR_OK, Some b') \<and> bs_ok b' (trim_left xs)"
proof -
  have rep: "bs_rep b xs" using assms by (simp add: bs_ok_def)
  then obtain d where d: "data b = Some d" "slen b = int (length xs)" "take (length xs) d = map Some xs"
    "mlen b < 2 ^ 31" "slen b \<le> mlen b" "writable b" by (rule bs_repE)
  let ?n = "length (takeWhile wspace xs)"
  have run: "bltrimws (Some b) = (if \<exists>x\<in>set xs. \<not> wspace x then bdelete (Some b) 0 (int ?n) else emptied b)"
    using d skip_ws_at [OF d(3), of 0 "length xs"] by (simp add: bltrimws_def)
  show ?thesis
  proof (cases "\<exists>x\<in>set xs. \<not> wspace x")
    case True
    have "int 0 + int ?n < 2 ^ 31"
      using d(2,4,5) length_takeWhile_le [of wspace xs] by linarith
    from bdelete_edit [OF assms this] run True show ?thesis by (simp add: trim_left_drop)
  next
    case False
    then have "trim_left xs = []" by (simp add: trim_left_def)
    with emptied_ok [OF rep] run False show ?thesis by simp
  qed
qed

lemma no_ink: "dropWhile wspace (rev xs) = [] \<longleftrightarrow> \<not> (\<exists>x\<in>set xs. \<not> wspace x)"
  by simp

text \<open>Cutting behind the last other character: the content, and where it overruns the buffer.\<close>

lemma cut_behind_ok:
  assumes "bs_ok b xs" and "0 < n" and "n \<le> length xs"
  shows "\<exists>b'. cut_behind b (int n - 1) = Inr b' \<and> bs_ok b' (take n xs)"
proof -
  have "bs_rep b xs" and sl: "slen b < mlen b" using assms(1) by (simp_all add: bs_ok_def)
  then obtain r where r: "data b = Some (map Some xs @ r)" "length xs + length r = nat (mlen b)"
    "0 < mlen b" "mlen b < 2 ^ 31" "slen b = int (length xs)" by (auto elim: bs_rep_cells)
  let ?d = "(map Some xs @ r)[n := Some 0]"
  have "n < length (map Some xs @ r)" using r(2,5) sl assms(3) by simp
  then have "put (map Some xs @ r) (int n) 0 = Inr ?d" by (simp add: put_def)
  moreover have "mlen b > int n - 1" using sl r(5) assms(3) by linarith
  ultimately have "cut_behind b (int n - 1) = Inr (b\<lparr>data := Some ?d, slen := int n\<rparr>)"
    using r(1) by (simp add: cut_behind_def)
  moreover have "bs_ok (b\<lparr>data := Some ?d, slen := int n\<rparr>) (take n xs)"
    using r sl assms(3) by (auto simp: bs_ok_def bs_rep_def min_absorb2 take_map)
  ultimately show ?thesis by blast
qed

lemma cut_behind_overrun:
  assumes "bs_rep b xs" and "slen b = mlen b"
  shows "cut_behind b (int (length xs) - 1) = Inl OutOfBounds"
proof -
  obtain r where "data b = Some (map Some xs @ r)" "length xs + length r = nat (mlen b)" "0 < mlen b"
    "slen b = int (length xs)" using assms(1) by (rule bs_rep_cells)
  with assms(2) show ?thesis by (simp add: cut_behind_def put_def)
qed

lemma btrimws_edit:
  assumes "bs_ok b xs"
  shows "\<exists>b'. brtrimws (Some b) = Inr (BSTR_OK, Some b') \<and> bs_ok b' (trim_right xs)"
    and "\<exists>b'. btrimws (Some b) = Inr (BSTR_OK, Some b') \<and> bs_ok b' (trim_left (trim_right xs))"
proof -
  have rep: "bs_rep b xs" using assms by (simp add: bs_ok_def)
  then obtain d where d: "data b = Some d" "slen b = int (length xs)" "take (length xs) d = map Some xs"
    "mlen b < 2 ^ 31" "slen b \<le> mlen b" "writable b" by (rule bs_repE)
  define n where "n = length (dropWhile wspace (rev xs))"
  have n: "n \<le> length xs" "trim_right xs = take n xs"
    using length_dropWhile_le [of wspace "rev xs"] trim_right_take [of xs] by (simp_all add: n_def)
  have ink: "last_ink d (length xs) = Inr (int n - 1)"
    using last_ink_at [OF d(3) order_refl] by (simp add: n_def)
  have "(\<exists>b'. brtrimws (Some b) = Inr (BSTR_OK, Some b') \<and> bs_ok b' (trim_right xs)) \<and>
    (\<exists>b'. btrimws (Some b) = Inr (BSTR_OK, Some b') \<and> bs_ok b' (trim_left (trim_right xs)))"
  proof (cases "n = 0")
    case True
    with n(2) emptied_ok [OF rep] ink d show ?thesis
      by (simp add: brtrimws_def btrimws_def trim_left_def)
  next
    case False
    then obtain b1 where b1: "cut_behind b (int n - 1) = Inr b1" "bs_ok b1 (take n xs)"
      using cut_behind_ok [OF assms _ n(1)] by blast
    let ?ys = "take n xs"
    have rep1: "bs_rep b1 ?ys" using b1(2) by (simp add: bs_ok_def)
    then obtain r where r: "data b1 = Some (map Some ?ys @ r)" "slen b1 = int (length ?ys)"
      "slen b1 \<le> mlen b1" "mlen b1 < 2 ^ 31" by (auto elim: bs_rep_cells)
    have "dropWhile wspace (rev xs) \<noteq> []" using False by (simp add: n_def)
    then have "\<not> wspace (hd (dropWhile wspace (rev xs)))" by (rule hd_dropWhile)
    moreover have "hd (dropWhile wspace (rev xs)) \<in> set ?ys"
      using n(2) \<open>dropWhile wspace (rev xs) \<noteq> []\<close> by (metis hd_in_set set_rev trim_right_def)
    ultimately have some: "\<exists>x\<in>set ?ys. \<not> wspace x" by blast
    have "skip_ws (map Some ?ys @ r) (int 0) (length ?ys + length r) =
        Inr (int (length (takeWhile wspace ?ys)), True)"
      using skip_ws_more [of 0 "length ?ys" ?ys r "length r"] skip_ws_at [of ?ys "map Some ?ys" 0 "length ?ys"] some by simp
    moreover have "int 0 + int (length (takeWhile wspace ?ys)) < 2 ^ 31"
      using r(2-4) length_takeWhile_le [of wspace ?ys] by linarith
    then obtain b2 where "bdelete (Some b1) 0 (int (length (takeWhile wspace ?ys))) = Inr (BSTR_OK, Some b2)"
      "bs_ok b2 (trim_left ?ys)"
      using bdelete_edit [OF b1(2)] by (fastforce simp: trim_left_drop)
    ultimately show ?thesis
      using b1 ink d n(2) False r(1) by (simp add: brtrimws_def btrimws_def)
  qed
  then show "\<exists>b'. brtrimws (Some b) = Inr (BSTR_OK, Some b') \<and> bs_ok b' (trim_right xs)"
    "\<exists>b'. btrimws (Some b) = Inr (BSTR_OK, Some b') \<and> bs_ok b' (trim_left (trim_right xs))" by auto
qed

section \<open>What comparison does\<close>

definition first_result :: "('a \<Rightarrow> 'a \<Rightarrow> int option) \<Rightarrow> ('a \<times> 'a) list \<Rightarrow> int option" where
  "first_result test ps = (case find (\<lambda>(x, y). test x y \<noteq> None) ps of None \<Rightarrow> None | Some (x, y) \<Rightarrow> test x y)"

lemma first_result_simps [simp]:
  "first_result test [] = None"
  "first_result test ((x, y) # ps) = (case test x y of Some v \<Rightarrow> Some v | None \<Rightarrow> first_result test ps)"
  by (auto simp: first_result_def split: option.splits)

lemma compare_cells_at:
  assumes "take (length xs) d0 = map Some xs" and "take (length ys) d1 = map Some ys"
  shows "i + n \<le> length xs \<Longrightarrow> i + n \<le> length ys \<Longrightarrow>
    compare_cells test d0 d1 (int i) n = Inr (first_result test (zip (take n (drop i xs)) (take n (drop i ys))))"
proof (induction n arbitrary: i)
  case 0
  then show ?case by simp
next
  case (Suc n)
  then have "cell d0 (int i) = Inr (xs ! i)" "cell d1 (int i) = Inr (ys ! i)"
    using cell_rep [OF assms(1), of "int i"] cell_rep [OF assms(2), of "int i"] by simp_all
  moreover have "drop i xs = xs ! i # drop (Suc i) xs" "drop i ys = ys ! i # drop (Suc i) ys"
    using Suc.prems by (simp_all add: Cons_nth_drop_Suc)
  ultimately show ?case using Suc.IH [of "Suc i"] Suc.prems by (simp add: ac_simps split: option.split)
qed

lemma compare_all:
  assumes "take (length xs) d0 = map Some xs" and "take (length ys) d1 = map Some ys" and "n \<le> length xs" and "n \<le> length ys"
  shows "compare_cells test d0 d1 0 n = Inr (first_result test (zip (take n xs) (take n ys)))"
  using compare_cells_at [OF assms(1,2), of 0 n test] assms(3,4) by simp

text \<open>The order of strings up to a NUL, by signed characters.\<close>

fun str_cmp :: "byte list \<Rightarrow> byte list \<Rightarrow> int" where
  "str_cmp [] [] = 0"
| "str_cmp [] (y # ys) = -1"
| "str_cmp (x # xs) [] = 1"
| "str_cmp (x # xs) (y # ys) =
     (if sint x \<noteq> sint y then sint x - sint y else if x = 0 then 0 else str_cmp xs ys)"

definition char_diff :: "byte \<Rightarrow> byte \<Rightarrow> int option" where
  "char_diff x y = (if sint x - sint y \<noteq> 0 then Some (sint x - sint y) else if x = 0 then Some BSTR_OK else None)"

lemma first_diff:
  "(case first_result char_diff (zip xs ys) of Some v \<Rightarrow> v
    | None \<Rightarrow> if length xs > length ys then 1 else if length ys > length xs then -1 else 0) = str_cmp xs ys"
  by (induction xs ys rule: str_cmp.induct) (auto simp: char_diff_def BSTR_OK_def split: option.splits)

lemma zip_min: "zip (take (min (length xs) (length ys)) xs) (take (min (length xs) (length ys)) ys) = zip xs ys"
  by (simp add: take_zip [symmetric])

lemma str_cmp_refl: "str_cmp xs xs = 0"
  by (induction xs) auto

lemma bstrcmp_rep:
  assumes "bs_rep b0 xs" and "bs_rep b1 ys" and "same \<Longrightarrow> length xs = length ys \<Longrightarrow> xs = ys"
  shows "bstrcmp same (Some b0) (Some b1) = Inr (str_cmp xs ys)"
proof -
  obtain d0 where d0: "take (length xs) d0 = map Some xs" "bparts (Some b0) = Some (d0, int (length xs))"
    using assms(1) by (rule bs_repE)
  obtain d1 where d1: "take (length ys) d1 = map Some ys" "bparts (Some b1) = Some (d1, int (length ys))"
    using assms(2) by (rule bs_repE)
  show ?thesis
  proof (cases "length xs = length ys \<and> (same \<or> xs = [])")
    case True
    with assms(3) have "xs = ys" by auto
    with True d0(2) d1(2) show ?thesis by (auto simp: bstrcmp_def str_cmp_refl BSTR_OK_def)
  next
    case False
    let ?n = "min (length xs) (length ys)"
    have cmp: "compare_cells char_diff d0 d1 0 ?n = Inr (first_result char_diff (zip xs ys))"
      using compare_all [OF d0(1) d1(1), of ?n char_diff] by (simp add: zip_min)
    have n: "nat (if int (length xs) > int (length ys) then int (length ys) else int (length xs)) = ?n" by simp
    have "bstrcmp same (Some b0) (Some b1) = Inr (case first_result char_diff (zip xs ys) of Some v \<Rightarrow> v
      | None \<Rightarrow> if length xs > length ys then 1 else if length ys > length xs then -1 else 0)"
      using False d0(2) d1(2) cmp n
      by (auto simp: bstrcmp_def char_diff_def [abs_def] Let_def BSTR_OK_def min_def split: option.split)
    then show ?thesis by (simp only: first_diff)
  qed
qed

definition signed_less :: "(byte \<times> byte) set" where
  "signed_less = {(x, y). sint x < sint y}"

lemma str_cmp_lexord:
  "0 \<notin> set xs \<Longrightarrow> 0 \<notin> set ys \<Longrightarrow>
     (str_cmp xs ys < 0 \<longleftrightarrow> (xs, ys) \<in> lexord signed_less) \<and> (str_cmp xs ys = 0 \<longleftrightarrow> xs = ys) \<and>
     str_cmp ys xs < 0 = (0 < str_cmp xs ys)"
  by (induction xs ys rule: str_cmp.induct) (auto simp: signed_less_def dest: signed_word_eqI)

lemma caseless_eq:
  "length xs = length ys \<Longrightarrow>
     first_result (\<lambda>x y. if x \<noteq> y \<and> downcase x \<noteq> downcase y then Some 0 else None) (zip xs ys) =
     (if map downcase xs = map downcase ys then None else Some 0)"
  by (induction xs ys rule: list_induct2) auto

lemma biseqcaseless_rep:
  assumes "bs_rep b0 xs" and "bs_rep b1 ys" and "same \<Longrightarrow> length xs = length ys \<Longrightarrow> xs = ys"
  shows "biseqcaseless same (Some b0) (Some b1) = Inr (if map downcase xs = map downcase ys then 1 else 0)"
proof -
  obtain d0 where d0: "take (length xs) d0 = map Some xs" "bparts (Some b0) = Some (d0, int (length xs))"
    using assms(1) by (rule bs_repE)
  obtain d1 where d1: "take (length ys) d1 = map Some ys" "bparts (Some b1) = Some (d1, int (length ys))"
    using assms(2) by (rule bs_repE)
  show ?thesis
  proof (cases "length xs = length ys")
    case True
    from compare_all [OF d0(1) d1(1), of "length xs"] caseless_eq [OF True] True d0(2) d1(2) assms(3)
    show ?thesis by (auto simp: biseqcaseless_def)
  next
    case False
    then have "map downcase xs \<noteq> map downcase ys" by (metis length_map)
    with False d0(2) d1(2) show ?thesis by (simp add: biseqcaseless_def BSTR_OK_def)
  qed
qed

section \<open>Properties\<close>

text \<open>
  \<open>bstrcmp\<close> on contents without NUL is the lexicographic order of signed characters: its
  result is negative, zero or positive as the first string comes before, is, or comes after the
  second, also when both share a buffer. The case-insensitive test for equality is
  equality after conversion to lower case.
\<close>

theorem bstrcmp_lexicographic:
  assumes "bs_rep b0 xs" and "bs_rep b1 ys" and "0 \<notin> set xs" and "0 \<notin> set ys"
    and "same \<Longrightarrow> length xs = length ys \<Longrightarrow> xs = ys"
  shows "(\<exists>v. bstrcmp same (Some b0) (Some b1) = Inr v \<and>
      (v < 0 \<longleftrightarrow> (xs, ys) \<in> lexord signed_less) \<and> (v = 0 \<longleftrightarrow> xs = ys) \<and>
      (v > 0 \<longleftrightarrow> (ys, xs) \<in> lexord signed_less)) \<and>
    biseqcaseless same (Some b0) (Some b1) = Inr (if map downcase xs = map downcase ys then 1 else 0)"
  using bstrcmp_rep [OF assms(1,2,5)] biseqcaseless_rep [OF assms(1,2,5)]
    str_cmp_lexord [OF assms(3,4)] str_cmp_lexord [OF assms(4,3)] by auto

definition bstr_of :: "byte list \<Rightarrow> bstring" where
  "bstr_of xs = \<lparr>mlen = int (length xs) + 1, slen = int (length xs), data = Some (map Some xs @ [Some 0])\<rparr>"

lemma bstr_of_ok: "length xs < 2 ^ 31 - 1 \<Longrightarrow> bs_ok (bstr_of xs) xs"
  by (simp add: bstr_of_def bs_ok_def bs_rep_def nth_append)

lemma bstr_of_rep: "length xs < 2 ^ 31 - 1 \<Longrightarrow> bs_rep (bstr_of xs) xs"
  using bstr_of_ok by (simp add: bs_ok_def)

theorem bstrcmp_lexicographic_witness:
  "\<exists>v. bstrcmp False (Some (bstr_of [97, 200])) (Some (bstr_of [97, 98, 99])) = Inr v \<and> v < 0"
  using bstrcmp_lexicographic [of "bstr_of [97, 200]" "[97, 200]" "bstr_of [97, 98, 99]" "[97, 98, 99]" False]
  by (auto simp: bstr_of_rep signed_less_def)

text \<open>
  C30: \<open>btrimws\<close> removes exactly the white space at both ends of a terminated bstring, and the
  functions for one end that of their end. Without room for a terminator, which the tests
  at their start allow, both functions that trim the right end write one past the buffer.
\<close>

theorem btrimws_trims:
  assumes "bs_rep b xs"
  shows "if slen b < mlen b \<and> the (data b) ! length xs = Some 0
    then (\<exists>b'. btrimws (Some b) = Inr (BSTR_OK, Some b') \<and> bs_ok b' (trim_left (trim_right xs))) \<and>
      (\<exists>b'. brtrimws (Some b) = Inr (BSTR_OK, Some b') \<and> bs_ok b' (trim_right xs)) \<and>
      (\<exists>b'. bltrimws (Some b) = Inr (BSTR_OK, Some b') \<and> bs_ok b' (trim_left xs))
    else slen b = mlen b \<and> xs \<noteq> [] \<and> \<not> wspace (last xs) \<longrightarrow>
      btrimws (Some b) = Inl OutOfBounds \<and> brtrimws (Some b) = Inl OutOfBounds"
proof (cases "slen b < mlen b \<and> the (data b) ! length xs = Some 0")
  case True
  with assms have "bs_ok b xs" by (simp add: bs_ok_def)
  from btrimws_edit [OF this] bltrimws_edit [OF this] True show ?thesis by simp
next
  case False
  obtain d where d: "data b = Some d" "slen b = int (length xs)" "take (length xs) d = map Some xs" "writable b"
    using assms by (rule bs_repE)
  have "btrimws (Some b) = Inl OutOfBounds \<and> brtrimws (Some b) = Inl OutOfBounds"
    if full: "slen b = mlen b" and ink: "xs \<noteq> []" "\<not> wspace (last xs)"
  proof -
    have "dropWhile wspace (rev xs) = rev xs" using ink by (cases xs rule: rev_cases) simp_all
    then have "last_ink d (length xs) = Inr (int (length xs) - 1)"
      using last_ink_at [OF d(3) order_refl] by simp
    with cut_behind_overrun [OF assms full] d ink(1) show ?thesis
      by (auto simp: btrimws_def brtrimws_def Suc_le_eq)
  qed
  with False show ?thesis by auto
qed

theorem btrimws_trims_witness:
  "\<exists>b'. btrimws (Some (bstr_of [32, 97, 32, 98, 9])) = Inr (BSTR_OK, Some b') \<and> bs_ok b' [97, 32, 98]"
proof -
  let ?xs = "[32, 97, 32, 98, 9] :: byte list"
  have "bs_ok (bstr_of ?xs) ?xs" by (rule bstr_of_ok) simp
  moreover have "trim_left (trim_right ?xs) = [97, 32, 98]"
    by (simp add: trim_left_def trim_right_def wspace_def)
  ultimately show ?thesis using btrimws_trims [of "bstr_of ?xs" ?xs] unfolding bs_ok_def by auto
qed

text \<open>
  \<open>bstrnicmp\<close> decides with the lower case of two characters and reports the difference of the
  characters themselves: it may order two strings the other way round than \<open>bstricmp\<close>.
\<close>

lemma bstrnicmp_other_sign:
  "bstricmp False (Some (bstr_of [97])) (Some (bstr_of [66])) = Inr (-1)"
  "bstrnicmp False (Some (bstr_of [97])) (Some (bstr_of [66])) 1 = Inr 31"
  by code_simp+

text \<open>Against its comment, \<open>bstrcmp\<close> also gives 0 for strings that differ behind a NUL.\<close>

lemma bstrcmp_stops_at_nul: "bstrcmp False (Some (bstr_of [0, 1])) (Some (bstr_of [0, 2])) = Inr 0"
  by code_simp

end
