(* ===== verification/BFind.thy ===== *)
theory BFind
  imports BCase
begin

text \<open>
  The other searches of \<open>bstrlib.c\<close>: for a string backwards and without regard to case, by
  brute force, and for the characters of a set, which is a field of 256 bits in 32 bytes.
\<close>

section \<open>Searching for strings\<close>

text \<open>
  The loops of \<open>binstrr\<close> and \<open>binstrcaseless\<close>; \<open>eq\<close> is the comparison of two characters, \<open>l\<close>
  the length of the pattern and \<open>stop\<close> the first position that is too far.
\<close>

function search_back ::
    "(byte \<Rightarrow> byte \<Rightarrow> bool) \<Rightarrow> byte option list \<Rightarrow> byte option list \<Rightarrow> int \<Rightarrow> int \<Rightarrow> int \<Rightarrow> int res" where
  "search_back eq d0 d1 l i j =
     bind_res (cell d0 j) (\<lambda>x. bind_res (cell d1 (i + j)) (\<lambda>y.
     if eq x y then (if j + 1 \<ge> l then Inr i else search_back eq d0 d1 l i (j + 1))
     else if i - 1 < 0 then Inr BSTR_ERR
     else search_back eq d0 d1 l (i - 1) 0))"
  by pat_completeness auto
termination
  by (relation "measures [\<lambda>(eq, d0, d1, l, i, j). nat (i + 1), \<lambda>(eq, d0, d1, l, i, j). nat (l - j)]") auto

function search_forward ::
    "(byte \<Rightarrow> byte \<Rightarrow> bool) \<Rightarrow> byte option list \<Rightarrow> byte option list \<Rightarrow> int \<Rightarrow> int \<Rightarrow> int \<Rightarrow> int \<Rightarrow> int res" where
  "search_forward eq d0 d1 ll stop i j =
     bind_res (cell d0 j) (\<lambda>x. bind_res (cell d1 (i + j)) (\<lambda>y.
     if eq x y then (if j + 1 \<ge> ll then Inr i else search_forward eq d0 d1 ll stop i (j + 1))
     else if i + 1 \<ge> stop then Inr BSTR_ERR
     else search_forward eq d0 d1 ll stop (i + 1) 0))"
  by pat_completeness auto
termination
  by (relation "measures [\<lambda>(eq, d0, d1, ll, stop, i, j). nat (stop - i), \<lambda>(eq, d0, d1, ll, stop, i, j). nat (ll - j)]") auto

declare search_back.simps [simp del] search_forward.simps [simp del]

definition caseless :: "byte \<Rightarrow> byte \<Rightarrow> bool" where
  "caseless x y \<longleftrightarrow> x = y \<or> downcase x = downcase y"

text \<open>\<open>binstrr\<close> and \<open>binstrrcaseless\<close> differ in the comparison only.\<close>

definition search_last ::
    "(byte \<Rightarrow> byte \<Rightarrow> bool) \<Rightarrow> bool \<Rightarrow> bstring option \<Rightarrow> int \<Rightarrow> bstring option \<Rightarrow> int res" where
  "search_last eq same b1 pos b2 =
     (case (bparts b1, bparts b2) of
        (Some (d1, n1), Some (d0, n2)) \<Rightarrow>
          if n1 = pos \<and> n2 = 0 then Inr pos
          else if n1 < pos \<or> pos < 0 then Inr BSTR_ERR
          else if n2 = 0 then Inr pos
          else if same \<and> pos = 0 \<and> n2 \<le> n1 then Inr 0
          else
            let l = n1 - n2 in
            if l < 0 then Inr BSTR_ERR
            else search_back eq d0 d1 n2 (if l + 1 \<le> pos then l else pos) 0
      | _ \<Rightarrow> Inr BSTR_ERR)"

definition binstrr :: "bool \<Rightarrow> bstring option \<Rightarrow> int \<Rightarrow> bstring option \<Rightarrow> int res" where
  "binstrr same b1 pos b2 = search_last (=) same b1 pos b2"

definition binstrrcaseless :: "bool \<Rightarrow> bstring option \<Rightarrow> int \<Rightarrow> bstring option \<Rightarrow> int res" where
  "binstrrcaseless same b1 pos b2 = search_last caseless same b1 pos b2"

definition binstrcaseless :: "bool \<Rightarrow> bstring option \<Rightarrow> int \<Rightarrow> bstring option \<Rightarrow> int res" where
  "binstrcaseless same b1 pos b2 =
     (case (bparts b1, bparts b2) of
        (Some (d1, n1), Some (d0, n2)) \<Rightarrow>
          if n1 = pos then Inr (if n2 = 0 then pos else BSTR_ERR)
          else if n1 < pos \<or> pos < 0 then Inr BSTR_ERR
          else if n2 = 0 then Inr pos
          else
            let l = s32 (n1 - n2 + 1) in
            if l \<le> pos then Inr BSTR_ERR
            else if same \<and> pos = 0 then Inr BSTR_OK
            else search_forward caseless d0 d1 n2 l pos 0
      | _ \<Rightarrow> Inr BSTR_ERR)"

section \<open>Sets of characters\<close>

type_synonym char_field = "byte list"

definition testInCharField :: "char_field \<Rightarrow> byte \<Rightarrow> bool" where
  "testInCharField cf c \<longleftrightarrow> (cf ! unat (drop_bit 3 c)) AND push_bit (unat (c AND 7)) 1 \<noteq> 0"

definition setInCharField :: "char_field \<Rightarrow> byte \<Rightarrow> char_field" where
  "setInCharField cf c = cf[unat (drop_bit 3 c) := (cf ! unat (drop_bit 3 c)) OR push_bit (unat (c AND 7)) 1]"

fun set_all :: "char_field \<Rightarrow> byte option list \<Rightarrow> int \<Rightarrow> nat \<Rightarrow> char_field res" where
  "set_all cf d i 0 = Inr cf"
| "set_all cf d i (Suc todo) = bind_res (cell d i) (\<lambda>c. set_all (setInCharField cf c) d (i + 1) todo)"

text \<open>\<open>None\<close>: \<open>BSTR_ERR\<close>.\<close>

definition buildCharField :: "bstring option \<Rightarrow> char_field option res" where
  "buildCharField bp =
     (case bp of None \<Rightarrow> Inr None | Some b \<Rightarrow>
     (case data b of None \<Rightarrow> Inr None | Some d \<Rightarrow>
        if slen b \<le> 0 then Inr None
        else bind_res (set_all (replicate 32 0) d 0 (nat (slen b))) (\<lambda>cf. Inr (Some cf))))"

definition invertCharField :: "char_field \<Rightarrow> char_field" where
  "invertCharField cf = map not cf"

function binchrCF :: "byte option list \<Rightarrow> int \<Rightarrow> int \<Rightarrow> char_field \<Rightarrow> int res" where
  "binchrCF d len i cf =
     (if i < len then bind_res (cell d i) (\<lambda>c. if testInCharField cf c then Inr i else binchrCF d len (i + 1) cf)
      else Inr BSTR_ERR)"
  by pat_completeness auto
termination
  by (relation "measure (\<lambda>(d, len, i, cf). nat (len - i))") auto

declare binchrCF.simps [simp del]

text \<open>The loop downwards; the position it starts with is one less than the number.\<close>

fun binchrrCF :: "byte option list \<Rightarrow> nat \<Rightarrow> char_field \<Rightarrow> int res" where
  "binchrrCF d 0 cf = Inr BSTR_ERR"
| "binchrrCF d (Suc i) cf =
     bind_res (cell d (int i)) (\<lambda>c. if testInCharField cf c then Inr (int i) else binchrrCF d i cf)"

definition first_char :: "bstring \<Rightarrow> byte res" where
  "first_char b = (case data b of None \<Rightarrow> Inl NullPointer | Some d \<Rightarrow> cell d 0)"

definition binchr :: "bstring option \<Rightarrow> int \<Rightarrow> bstring option \<Rightarrow> int res" where
  "binchr bp pos b1 =
     (case bp of None \<Rightarrow> Inr BSTR_ERR | Some b \<Rightarrow>
     (case data b of None \<Rightarrow> Inr BSTR_ERR | Some d \<Rightarrow>
       if pos < 0 \<or> slen b \<le> pos then Inr BSTR_ERR
       else case b1 of None \<Rightarrow> Inl NullPointer
       | Some s \<Rightarrow>
           if 1 = slen s then bind_res (first_char s) (\<lambda>c. bstrchrp bp c pos)
           else bind_res (buildCharField b1) (\<lambda>chrs.
             case chrs of None \<Rightarrow> Inr BSTR_ERR | Some cf \<Rightarrow> binchrCF d (slen b) pos cf)))"

definition binchrr :: "bstring option \<Rightarrow> int \<Rightarrow> bstring option \<Rightarrow> int res" where
  "binchrr bp pos b1 =
     (case (bp, b1) of (Some b, Some s) \<Rightarrow>
       (case data b of None \<Rightarrow> Inr BSTR_ERR | Some d \<Rightarrow>
         if pos < 0 \<or> slen b < pos then Inr BSTR_ERR
         else
           let pos = (if pos = slen b then pos - 1 else pos) in
           if 1 = slen s then bind_res (first_char s) (\<lambda>c. bstrrchrp bp c pos)
           else bind_res (buildCharField b1) (\<lambda>chrs.
             case chrs of None \<Rightarrow> Inr BSTR_ERR | Some cf \<Rightarrow> binchrrCF d (nat (pos + 1)) cf))
     | _ \<Rightarrow> Inr BSTR_ERR)"

definition bninchr :: "bstring option \<Rightarrow> int \<Rightarrow> bstring option \<Rightarrow> int res" where
  "bninchr bp pos b1 =
     (case bp of None \<Rightarrow> Inr BSTR_ERR | Some b \<Rightarrow>
     (case data b of None \<Rightarrow> Inr BSTR_ERR | Some d \<Rightarrow>
       if pos < 0 \<or> slen b \<le> pos then Inr BSTR_ERR
       else bind_res (buildCharField b1) (\<lambda>chrs.
         case chrs of None \<Rightarrow> Inr BSTR_ERR | Some cf \<Rightarrow> binchrCF d (slen b) pos (invertCharField cf))))"

definition bninchrr :: "bstring option \<Rightarrow> int \<Rightarrow> bstring option \<Rightarrow> int res" where
  "bninchrr bp pos b1 =
     (case bp of None \<Rightarrow> Inr BSTR_ERR | Some b \<Rightarrow>
     (case data b of None \<Rightarrow> Inr BSTR_ERR | Some d \<Rightarrow>
       if pos < 0 \<or> slen b < pos then Inr BSTR_ERR
       else
         let pos = (if pos = slen b then pos - 1 else pos) in
         bind_res (buildCharField b1) (\<lambda>chrs.
           case chrs of None \<Rightarrow> Inr BSTR_ERR | Some cf \<Rightarrow> binchrrCF d (nat (pos + 1)) (invertCharField cf))))"

section \<open>The bits of a set\<close>

definition field_of :: "char_field \<Rightarrow> byte set \<Rightarrow> bool" where
  "field_of cf S \<longleftrightarrow> length cf = 32 \<and> (\<forall>c. testInCharField cf c \<longleftrightarrow> c \<in> S)"

lemma byte_bound: "unat c < 256" for c :: byte
  using unsigned_less [of c] by simp

lemma split_char: "unat (drop_bit 3 c) = unat c div 8" "unat (c AND 7) = unat c mod 8" for c :: byte
proof -
  show "unat (drop_bit 3 c) = unat c div 8" by (simp only: unat_drop_bit_eq) (simp add: drop_bit_eq_div)
  have "unat (c AND 7) = unat c AND 7" by (simp add: unsigned_and_eq)
  also have "\<dots> = take_bit 3 (unat c)" by (simp add: take_bit_eq_mask mask_eq_exp_minus_1)
  also have "\<dots> = unat c mod 8" by (simp add: take_bit_eq_mod)
  finally show "unat (c AND 7) = unat c mod 8" .
qed

lemma and_single: "n < 8 \<Longrightarrow> w AND push_bit n 1 \<noteq> 0 \<longleftrightarrow> bit w n" for w :: byte
  by (simp add: bit_iff_and_push_bit_not_eq_0)

lemma test_bit: "testInCharField cf c \<longleftrightarrow> bit (cf ! (unat c div 8)) (unat c mod 8)"
  unfolding testInCharField_def split_char by (rule and_single) simp

lemma bit_single: "n < 8 \<Longrightarrow> bit (push_bit n (1 :: byte)) m \<longleftrightarrow> m = n"
  by (auto simp: bit_simps)

lemma set_field:
  assumes "field_of cf S"
  shows "field_of (setInCharField cf c) (insert c S)"
proof -
  have len: "length cf = 32" using assms by (simp add: field_of_def)
  have c: "unat c div 8 < 32" using byte_bound [of c] by linarith
  have old: "bit (cf ! (unat d div 8)) (unat d mod 8) \<longleftrightarrow> d \<in> S" for d
    using assms by (simp add: field_of_def test_bit)
  have "testInCharField (setInCharField cf c) d \<longleftrightarrow> d = c \<or> d \<in> S" for d
  proof (cases "unat d div 8 = unat c div 8")
    case True
    have "d = c \<longleftrightarrow> unat d mod 8 = unat c mod 8"
      using True by (metis div_mult_mod_eq word_unat_eq_iff)
    moreover have "setInCharField cf c ! (unat d div 8) =
        (cf ! (unat d div 8)) OR push_bit (unat c mod 8) 1"
      using True c len by (simp add: setInCharField_def split_char)
    ultimately show ?thesis
      by (simp add: test_bit bit_or_iff old bit_single del: push_bit_of_1) blast
  next
    case False
    then have "d \<noteq> c" by auto
    moreover have "setInCharField cf c ! (unat d div 8) = cf ! (unat d div 8)"
      using False by (simp add: setInCharField_def split_char)
    ultimately show ?thesis by (simp add: test_bit old)
  qed
  with len show ?thesis by (simp add: field_of_def setInCharField_def)
qed

lemma empty_field: "field_of (replicate 32 0) {}"
proof -
  have "unat c div 8 < 32" for c :: byte using byte_bound [of c] by linarith
  then show ?thesis by (simp add: field_of_def test_bit)
qed

lemma invert_field:
  assumes "field_of cf S"
  shows "field_of (invertCharField cf) (- S)"
proof -
  have "testInCharField (invertCharField cf) c \<longleftrightarrow> c \<notin> S" for c
  proof -
    have "unat c div 8 < length cf" using byte_bound [of c] assms by (simp add: field_of_def)
    moreover have "unat c mod 8 < 8" by simp
    ultimately show ?thesis using assms by (simp add: test_bit invertCharField_def field_of_def bit_simps)
  qed
  with assms show ?thesis by (simp add: field_of_def invertCharField_def)
qed

lemma set_all_field:
  assumes "take (length xs) d = map Some xs"
  shows "field_of cf S \<Longrightarrow> i + n = length xs \<Longrightarrow>
    \<exists>cf'. set_all cf d (int i) n = Inr cf' \<and> field_of cf' (S \<union> set (drop i xs))"
proof (induction n arbitrary: cf S i)
  case 0
  then show ?case by simp
next
  case (Suc n)
  then have i: "i < length xs" by simp
  then have "cell d (int i) = Inr (xs ! i)" "drop i xs = xs ! i # drop (Suc i) xs"
    using cell_rep [OF assms, of "int i"] by (simp_all add: Cons_nth_drop_Suc)
  with Suc.IH [OF set_field [OF Suc.prems(1)], of "Suc i" "xs ! i"] Suc.prems show ?case
    by (simp add: ac_simps insert_commute Un_commute)
qed

lemma buildCharField_field:
  assumes "bs_rep b xs"
  shows "if xs = [] then buildCharField (Some b) = Inr None
    else \<exists>cf. buildCharField (Some b) = Inr (Some cf) \<and> field_of cf (set xs)"
proof -
  obtain d where "data b = Some d" "slen b = int (length xs)" "take (length xs) d = map Some xs"
    using assms by (rule bs_repE)
  with set_all_field [OF this(3) empty_field, of 0 "length xs"] show ?thesis
    by (auto simp: buildCharField_def)
qed

section \<open>What the searches find\<close>

text \<open>The first position from \<open>pos\<close> on, and the last one up to \<open>pos\<close>, that has the property.\<close>

definition first_where :: "(nat \<Rightarrow> bool) \<Rightarrow> nat \<Rightarrow> int \<Rightarrow> int" where
  "first_where P n pos =
     (if pos < 0 then BSTR_ERR
      else case find P [nat pos..<n] of None \<Rightarrow> BSTR_ERR | Some p \<Rightarrow> int p)"

definition last_where :: "(nat \<Rightarrow> bool) \<Rightarrow> nat \<Rightarrow> int \<Rightarrow> int" where
  "last_where P n pos =
     (if pos < 0 then BSTR_ERR
      else case find P (rev [0..<min (Suc (nat pos)) n]) of None \<Rightarrow> BSTR_ERR | Some p \<Rightarrow> int p)"

definition matches :: "(byte \<Rightarrow> byte \<Rightarrow> bool) \<Rightarrow> byte list \<Rightarrow> byte list \<Rightarrow> nat \<Rightarrow> bool" where
  "matches eq ys xs p \<longleftrightarrow> list_all2 eq ys (take (length ys) (drop p xs))"

lemma matches_nth:
  "p \<le> length xs \<Longrightarrow> matches eq ys xs p \<longleftrightarrow>
    p + length ys \<le> length xs \<and> (\<forall>k<length ys. eq (ys ! k) (xs ! (p + k)))"
  by (auto simp: matches_def list_all2_conv_all_nth)

lemma first_where_here: "i < n \<Longrightarrow> P i \<Longrightarrow> first_where P n (int i) = int i"
  by (simp add: first_where_def upt_conv_Cons)

lemma first_where_next: "i < n \<Longrightarrow> \<not> P i \<Longrightarrow> first_where P n (int i) = first_where P n (int (Suc i))"
  by (simp add: first_where_def upt_conv_Cons nat_add_distrib)

lemma first_where_none: "(\<And>p. nat i \<le> p \<Longrightarrow> p < n \<Longrightarrow> \<not> P p) \<Longrightarrow> first_where P n i = BSTR_ERR"
proof -
  assume "\<And>p. nat i \<le> p \<Longrightarrow> p < n \<Longrightarrow> \<not> P p"
  then have "find P [nat i..<n] = None" by (auto simp: find_None_iff)
  then show ?thesis by (simp add: first_where_def)
qed

lemma last_where_here: "i < n \<Longrightarrow> P i \<Longrightarrow> last_where P n (int i) = int i"
  by (simp add: last_where_def min_def)

lemma last_where_next:
  assumes "Suc i < n" and "\<not> P (Suc i)"
  shows "last_where P n (int (Suc i)) = last_where P n (int i)"
proof -
  have "min (Suc (Suc i)) n = Suc (Suc i)" "min (Suc i) n = Suc i" using assms(1) by simp_all
  with assms(2) show ?thesis by (simp only: last_where_def nat_int) simp
qed

lemma last_where_skip:
  "(\<And>p. j < p \<Longrightarrow> p \<le> i \<Longrightarrow> p < n \<Longrightarrow> \<not> P p) \<Longrightarrow> j \<le> i \<Longrightarrow>
    last_where P n (int i) = last_where P n (int j)"
proof (induction i)
  case (Suc i)
  show ?case
  proof (cases "j = Suc i")
    case False
    with Suc have IH: "last_where P n (int i) = last_where P n (int j)" "j < Suc i" by simp_all
    show ?thesis
    proof (cases "Suc i < n")
      case True
      with IH last_where_next [of i n P] Suc.prems(1) [of "Suc i"] show ?thesis by simp
    next
      case False
      then have "min (Suc (Suc i)) n = min (Suc i) n" by simp
      then have "last_where P n (int (Suc i)) = last_where P n (int i)" by (simp only: last_where_def nat_int) simp
      with IH show ?thesis by simp
    qed
  qed simp
qed simp

subsection \<open>Strings\<close>

lemma search_back_at:
  assumes "take (length ys) d0 = map Some ys" and "take (length xs) d1 = map Some xs"
    and "i + length ys \<le> length xs"
  shows "j < length ys \<Longrightarrow> search_back eq d0 d1 (int (length ys)) (int i) (int j) =
    (if \<forall>k. j \<le> k \<and> k < length ys \<longrightarrow> eq (ys ! k) (xs ! (i + k)) then Inr (int i)
     else if i = 0 then Inr BSTR_ERR
     else search_back eq d0 d1 (int (length ys)) (int i - 1) 0)"
proof (induction "length ys - j" arbitrary: j rule: less_induct)
  case less
  have cells: "cell d0 (int j) = Inr (ys ! j)" "cell d1 (int i + int j) = Inr (xs ! (i + j))"
    using cell_rep [OF assms(1), of "int j"] cell_rep [OF assms(2), of "int (i + j)"] less.prems assms(3)
    by (simp_all add: nat_int_add)
  show ?case
  proof (cases "eq (ys ! j) (xs ! (i + j)) \<and> Suc j < length ys")
    case True
    then have more: "\<not> int (length ys) \<le> int j + 1" by simp
    have shift: "int (Suc j) = int j + 1" by simp
    have "(\<forall>k. j \<le> k \<and> k < length ys \<longrightarrow> eq (ys ! k) (xs ! (i + k))) \<longleftrightarrow>
        (\<forall>k. Suc j \<le> k \<and> k < length ys \<longrightarrow> eq (ys ! k) (xs ! (i + k)))"
      using True by (metis Suc_leD le_neq_implies_less Suc_leI)
    with True less.hyps [of "Suc j", unfolded shift] less.prems cells more show ?thesis
      by (subst search_back.simps) simp
  next
    case False
    then have "(\<forall>k. j \<le> k \<and> k < length ys \<longrightarrow> eq (ys ! k) (xs ! (i + k))) \<longleftrightarrow> eq (ys ! j) (xs ! (i + j))"
      using less.prems by (metis Suc_leI le_neq_implies_less less_le_trans le_refl not_less)
    with False less.prems cells show ?thesis by (subst search_back.simps) auto
  qed
qed

lemma search_back_last:
  assumes d: "take (length ys) d0 = map Some ys" "take (length xs) d1 = map Some xs" and ne: "ys \<noteq> []"
  shows "i + length ys \<le> length xs \<Longrightarrow> search_back eq d0 d1 (int (length ys)) (int i) 0 =
    Inr (last_where (matches eq ys xs) (Suc (length xs)) (int i))"
proof (induction i)
  case 0
  with ne search_back_at [OF d 0, of 0] show ?case
    by (cases "\<forall>k<length ys. eq (ys ! k) (xs ! k)") (auto simp: last_where_def matches_nth)
next
  case (Suc i)
  have "0 < length ys" using ne by simp
  note at = search_back_at [OF d Suc.prems this, of eq]
  show ?case
  proof (cases "matches eq ys xs (Suc i)")
    case True
    with Suc.prems last_where_here [of "Suc i" "Suc (length xs)"] at show ?thesis
      by (simp add: matches_nth)
  next
    case False
    with Suc.prems have no: "\<not> (\<forall>k<length ys. eq (ys ! k) (xs ! (Suc i + k)))" by (simp add: matches_nth)
    from False Suc.prems have "last_where (matches eq ys xs) (Suc (length xs)) (int (Suc i)) =
        last_where (matches eq ys xs) (Suc (length xs)) (int i)"
      by (intro last_where_next) simp_all
    with Suc.IH Suc.prems at no show ?thesis by auto
  qed
qed

lemma search_forward_at:
  assumes "take (length ys) d0 = map Some ys" and "take (length xs) d1 = map Some xs"
    and "i + length ys \<le> length xs"
  shows "j < length ys \<Longrightarrow> search_forward eq d0 d1 (int (length ys)) stop (int i) (int j) =
    (if \<forall>k. j \<le> k \<and> k < length ys \<longrightarrow> eq (ys ! k) (xs ! (i + k)) then Inr (int i)
     else if int i + 1 \<ge> stop then Inr BSTR_ERR
     else search_forward eq d0 d1 (int (length ys)) stop (int (Suc i)) 0)"
proof (induction "length ys - j" arbitrary: j rule: less_induct)
  case less
  have cells: "cell d0 (int j) = Inr (ys ! j)" "cell d1 (int i + int j) = Inr (xs ! (i + j))"
    using cell_rep [OF assms(1), of "int j"] cell_rep [OF assms(2), of "int (i + j)"] less.prems assms(3)
    by (simp_all add: nat_int_add)
  show ?case
  proof (cases "eq (ys ! j) (xs ! (i + j)) \<and> Suc j < length ys")
    case True
    then have more: "\<not> int (length ys) \<le> int j + 1" by simp
    have shift: "int (Suc j) = int j + 1" by simp
    have "(\<forall>k. j \<le> k \<and> k < length ys \<longrightarrow> eq (ys ! k) (xs ! (i + k))) \<longleftrightarrow>
        (\<forall>k. Suc j \<le> k \<and> k < length ys \<longrightarrow> eq (ys ! k) (xs ! (i + k)))"
      using True by (metis Suc_leD le_neq_implies_less Suc_leI)
    with True less.hyps [of "Suc j", unfolded shift] less.prems cells more show ?thesis
      by (subst search_forward.simps) simp
  next
    case False
    then have "(\<forall>k. j \<le> k \<and> k < length ys \<longrightarrow> eq (ys ! k) (xs ! (i + k))) \<longleftrightarrow> eq (ys ! j) (xs ! (i + j))"
      using less.prems by (metis Suc_leI le_neq_implies_less less_le_trans le_refl not_less)
    with False less.prems cells show ?thesis by (subst search_forward.simps) (auto simp: add.commute)
  qed
qed

lemma search_forward_first:
  assumes d: "take (length ys) d0 = map Some ys" "take (length xs) d1 = map Some xs" and ne: "ys \<noteq> []"
  shows "i + length ys \<le> length xs \<Longrightarrow>
    search_forward eq d0 d1 (int (length ys)) (int (length xs) - int (length ys) + 1) (int i) 0 =
    Inr (first_where (matches eq ys xs) (Suc (length xs)) (int i))"
proof (induction "length xs - i" arbitrary: i rule: less_induct)
  case less
  have m: "0 < length ys" using ne by simp
  note at = search_forward_at [OF d less.prems m, of eq "int (length xs) - int (length ys) + 1"]
  show ?case
  proof (cases "matches eq ys xs i")
    case True
    with less.prems first_where_here [of i "Suc (length xs)"] at show ?thesis
      by (simp add: matches_nth)
  next
    case False
    with less.prems have no: "\<not> (\<forall>k<length ys. eq (ys ! k) (xs ! (i + k)))" by (simp add: matches_nth)
    have step: "first_where (matches eq ys xs) (Suc (length xs)) (int i) =
        first_where (matches eq ys xs) (Suc (length xs)) (int (Suc i))"
      using False less.prems by (intro first_where_next) simp_all
    show ?thesis
    proof (cases "Suc i + length ys \<le> length xs")
      case True
      with less.hyps [of "Suc i"] m step at no less.prems show ?thesis by simp
    next
      case end_reached: False
      have "first_where (matches eq ys xs) (Suc (length xs)) (int (Suc i)) = BSTR_ERR"
        by (rule first_where_none) (use end_reached in \<open>auto simp: matches_nth nat_le_iff\<close>)
      with end_reached step at no less.prems show ?thesis by simp
    qed
  qed
qed

lemma caseless_refl: "caseless x x"
  by (simp add: caseless_def)

lemma matches_prefix:
  assumes "\<And>x. eq x x" and "\<forall>k < min (length xs) (length ys). xs ! k = ys ! k" and "length ys \<le> length xs"
  shows "matches eq ys xs 0"
  using assms by (simp add: matches_nth min_def)

lemma matches_none: "ys \<noteq> [] \<Longrightarrow> length xs < p + length ys \<Longrightarrow> p \<le> length xs \<Longrightarrow> \<not> matches eq ys xs p"
  by (simp add: matches_nth)

lemma matches_empty: "matches eq [] xs p"
  by (simp add: matches_def)

lemma search_last_rep:
  assumes b1: "bs_rep b1 xs" and b2: "bs_rep b2 ys" and refl: "\<And>x. eq x x"
    and shared: "same \<Longrightarrow> \<forall>k < min (length xs) (length ys). xs ! k = ys ! k"
  shows "search_last eq same (Some b1) pos (Some b2) =
    Inr (if int (length xs) < pos then BSTR_ERR else last_where (matches eq ys xs) (Suc (length xs)) pos)"
proof -
  obtain d1 where d1: "bparts (Some b1) = Some (d1, int (length xs))" "take (length xs) d1 = map Some xs"
    using bs_rep_parts [OF b1] by blast
  obtain d0 where d0: "bparts (Some b2) = Some (d0, int (length ys))" "take (length ys) d0 = map Some ys"
    using bs_rep_parts [OF b2] by blast
  consider "pos < 0 \<or> int (length xs) < pos"
    | (empty) p where "pos = int p" "p \<le> length xs" "ys = []"
    | (short) p where "pos = int p" "p \<le> length xs" "ys \<noteq> []" "length xs < length ys"
    | (search) p where "pos = int p" "p \<le> length xs" "ys \<noteq> []" "length ys \<le> length xs"
    by (metis le_cases nat_int_comparison(3) not_less zero_le_imp_eq_int)
  then show ?thesis
  proof cases
    case 1
    with d1(1) d0(1) show ?thesis by (auto simp: search_last_def last_where_def)
  next
    case empty
    with d1(1) d0(1) last_where_here [of p "Suc (length xs)" "matches eq ys xs"] show ?thesis
      by (simp add: search_last_def matches_empty)
  next
    case short
    then have "last_where (matches eq ys xs) (Suc (length xs)) pos = BSTR_ERR"
      using last_where_skip [of 0 p "Suc (length xs)" "matches eq ys xs"] matches_none [of ys xs 0]
      by (simp add: matches_none last_where_def)
    with short d1(1) d0(1) show ?thesis by (simp add: search_last_def)
  next
    case search
    let ?l = "length xs - length ys"
    have "int (min p ?l) =
        (if int (length xs) - int (length ys) + 1 \<le> int p then int (length xs) - int (length ys) else int p)"
      using search by (auto simp: min_def)
    with search d1(1) d0(1) have run: "search_last eq same (Some b1) pos (Some b2) =
        (if same \<and> p = 0 then Inr 0 else search_back eq d0 d1 (int (length ys)) (int (min p ?l)) 0)"
      by (simp add: search_last_def Let_def)
    have "last_where (matches eq ys xs) (Suc (length xs)) (int p) =
        last_where (matches eq ys xs) (Suc (length xs)) (int (min p ?l))"
      using search by (intro last_where_skip) (auto simp: matches_nth min_def split: if_splits)
    moreover have "search_back eq d0 d1 (int (length ys)) (int (min p ?l)) 0 =
        Inr (last_where (matches eq ys xs) (Suc (length xs)) (int (min p ?l)))"
      using search by (intro search_back_last [OF d0(2) d1(2)]) simp_all
    moreover have "last_where (matches eq ys xs) (Suc (length xs)) (int 0) = int 0" if "same"
      by (rule last_where_here) (use that shared refl search in \<open>simp_all add: matches_prefix\<close>)
    ultimately show ?thesis using search run by (cases "same \<and> p = 0") (simp_all del: of_nat_min)
  qed
qed

lemma binstrcaseless_rep:
  assumes b1: "bs_rep b1 xs" and b2: "bs_rep b2 ys"
    and shared: "same \<Longrightarrow> \<forall>k < min (length xs) (length ys). xs ! k = ys ! k"
  shows "binstrcaseless same (Some b1) pos (Some b2) =
    Inr (first_where (matches caseless ys xs) (Suc (length xs)) pos)"
proof -
  obtain d1 where d1: "bparts (Some b1) = Some (d1, int (length xs))" "take (length xs) d1 = map Some xs"
    "length xs < 2 ^ 31" using bs_rep_parts [OF b1] by blast
  obtain d0 where d0: "bparts (Some b2) = Some (d0, int (length ys))" "take (length ys) d0 = map Some ys"
    "length ys < 2 ^ 31" using bs_rep_parts [OF b2] by blast
  let ?stop = "int (length xs) - int (length ys) + 1"
  consider (out) "pos < 0 \<or> int (length xs) < pos"
    | (empty) p where "pos = int p" "p \<le> length xs" "ys = []"
    | (short) p where "pos = int p" "p \<le> length xs" "ys \<noteq> []" "length xs < p + length ys"
    | (search) p where "pos = int p" "ys \<noteq> []" "p + length ys \<le> length xs"
    by (metis nat_int_comparison(3) not_less zero_le_imp_eq_int)
  then show ?thesis
  proof cases
    case out
    moreover from this have "first_where (matches caseless ys xs) (Suc (length xs)) pos = BSTR_ERR"
      by (auto simp: first_where_def)
    ultimately show ?thesis using d1(1) d0(1) by (auto simp: binstrcaseless_def)
  next
    case empty
    with d1(1) d0(1) first_where_here [of p "Suc (length xs)" "matches caseless ys xs"] show ?thesis
      by (simp add: binstrcaseless_def matches_empty)
  next
    case short
    then have s: "s32 ?stop = ?stop" using d1(3) d0(3) by (cases ys) (auto intro!: s32_id)
    have "first_where (matches caseless ys xs) (Suc (length xs)) pos = BSTR_ERR"
      by (rule first_where_none) (use short in \<open>auto simp: matches_nth\<close>)
    with short s d1(1) d0(1) show ?thesis by (auto simp: binstrcaseless_def Let_def)
  next
    case search
    then have s: "s32 ?stop = ?stop" using d1(3) by (cases ys) (auto intro!: s32_id)
    have "first_where (matches caseless ys xs) (Suc (length xs)) (int 0) = int 0" if "same"
      by (rule first_where_here) (use that shared search in \<open>simp_all add: matches_prefix caseless_refl\<close>)
    moreover have "search_forward caseless d0 d1 (int (length ys)) ?stop (int p) 0 =
        Inr (first_where (matches caseless ys xs) (Suc (length xs)) (int p))"
      using search by (intro search_forward_first [OF d0(2) d1(2)]) simp_all
    moreover have "p < length xs" using search by (cases ys) auto
    ultimately show ?thesis using search s d1(1) d0(1) by (auto simp: binstrcaseless_def Let_def BSTR_OK_def)
  qed
qed

subsection \<open>Characters\<close>

lemma binchrCF_first:
  assumes "take (length xs) d = map Some xs" and "field_of cf S"
  shows "binchrCF d (int (length xs)) (int i) cf = Inr (first_where (\<lambda>p. xs ! p \<in> S) (length xs) (int i))"
proof (induction "length xs - i" arbitrary: i rule: less_induct)
  case less
  show ?case
  proof (cases "i < length xs")
    case True
    then have "cell d (int i) = Inr (xs ! i)" using cell_rep [OF assms(1), of "int i"] by simp
    with True less [of "Suc i"] assms(2) first_where_here [of i "length xs" "\<lambda>p. xs ! p \<in> S"]
      first_where_next [of i "length xs" "\<lambda>p. xs ! p \<in> S"] show ?thesis
      by (subst binchrCF.simps) (auto simp: field_of_def add.commute)
  next
    case False
    then have "first_where (\<lambda>p. xs ! p \<in> S) (length xs) (int i) = BSTR_ERR" by (simp add: first_where_def)
    with False show ?thesis by (subst binchrCF.simps) simp
  qed
qed

lemma binchrrCF_last:
  assumes "take (length xs) d = map Some xs" and "field_of cf S"
  shows "n \<le> length xs \<Longrightarrow>
    binchrrCF d n cf = Inr (last_where (\<lambda>p. xs ! p \<in> S) (length xs) (int n - 1))"
proof (induction n)
  case 0
  then show ?case by (simp add: last_where_def)
next
  case (Suc n)
  then have "cell d (int n) = Inr (xs ! n)" using cell_rep [OF assms(1), of "int n"] by simp
  moreover have "testInCharField cf (xs ! n) \<longleftrightarrow> xs ! n \<in> S" using assms(2) by (simp add: field_of_def)
  moreover have "last_where (\<lambda>p. xs ! p \<in> S) (length xs) (int n) = int n" if "xs ! n \<in> S"
    by (rule last_where_here) (use that Suc.prems in simp_all)
  moreover have "last_where (\<lambda>p. xs ! p \<in> S) (length xs) (int n) =
      last_where (\<lambda>p. xs ! p \<in> S) (length xs) (int n - 1)" if "xs ! n \<notin> S"
  proof (cases n)
    case 0
    with that Suc.prems show ?thesis by (simp add: last_where_def)
  next
    case (Suc m)
    with that Suc.prems last_where_next [of m "length xs" "\<lambda>p. xs ! p \<in> S"] show ?thesis by simp
  qed
  ultimately show ?case using Suc.IH Suc.prems by simp
qed

lemma first_where_single: "first_occurrence xs [c] pos = first_where (\<lambda>p. xs ! p \<in> {c}) (length xs) pos"
proof (cases "pos < 0")
  case False
  define q where "q = nat pos"
  have "find (occurs_at xs [c]) [q..<Suc (length xs)] = find (\<lambda>p. xs ! p = c) [q..<length xs]"
  proof (cases "q \<le> length xs")
    case True
    then have "find (occurs_at xs [c]) [q..<Suc (length xs)] =
        (case find (occurs_at xs [c]) [q..<length xs] of None \<Rightarrow> None | Some x \<Rightarrow> Some x)"
      by (simp add: find_append occurs_at_nth split: option.split)
    also have "\<dots> = find (occurs_at xs [c]) [q..<length xs]" by (simp split: option.split)
    also have "\<dots> = find (\<lambda>p. xs ! p = c) [q..<length xs]"
      by (rule find_cong) (simp_all add: occurs_at_nth)
    finally show ?thesis .
  qed simp
  with False show ?thesis by (simp add: first_occurrence_def first_where_def q_def del: upt_Suc)
qed (simp add: first_occurrence_def first_where_def)

lemma binchr_rep:
  assumes "bs_rep b xs" and "bs_rep s cs"
  shows "binchr (Some b) pos (Some s) = Inr (first_where (\<lambda>p. xs ! p \<in> set cs) (length xs) pos)"
proof -
  obtain d where d: "data b = Some d" "slen b = int (length xs)" "take (length xs) d = map Some xs"
    using assms(1) by (rule bs_repE)
  obtain e where e: "data s = Some e" "slen s = int (length cs)" "take (length cs) e = map Some cs"
    using assms(2) by (rule bs_repE)
  consider "pos < 0 \<or> int (length xs) \<le> pos" | p where "pos = int p" "p < length xs"
    by (metis not_less zero_less_imp_eq_int int_nat_eq nat_less_iff)
  then show ?thesis
  proof cases
    case 1
    then have "first_where (\<lambda>p. xs ! p \<in> set cs) (length xs) pos = BSTR_ERR" by (auto simp: first_where_def)
    with 1 d show ?thesis by (auto simp: binchr_def)
  next
    case 2
    consider (one) c where "cs = [c]" | (many) "length cs \<noteq> 1" by (cases cs) auto
    then show ?thesis
    proof cases
      case one
      with e cell_rep [OF e(3), of 0] have "first_char s = Inr c" by (simp add: first_char_def)
      with 2 one d e bstrchrp_rep [OF assms(1), of c pos] show ?thesis
        by (simp add: binchr_def first_where_single)
    next
      case many
      show ?thesis
      proof (cases "cs = []")
        case True
        from 2 have "first_where (\<lambda>p. False) (length xs) pos = BSTR_ERR" by (intro first_where_none) simp
        with True 2 d e buildCharField_field [OF assms(2)] show ?thesis by (simp add: binchr_def)
      next
        case False
        then obtain cf where cf: "buildCharField (Some s) = Inr (Some cf)" "field_of cf (set cs)"
          using buildCharField_field [OF assms(2)] by auto
        from many e have "slen s \<noteq> 1" by simp
        with cf(1) 2 d binchrCF_first [OF d(3) cf(2)] show ?thesis by (simp add: binchr_def)
      qed
    qed
  qed
qed

lemma find_nothing: "find (\<lambda>p. False) ps = None"
  by (induction ps) simp_all

lemma inverted_rep:
  assumes "bs_rep s cs" and "cs \<noteq> []"
  shows "\<exists>cf. buildCharField (Some s) = Inr (Some cf) \<and> field_of cf (set cs) \<and>
    field_of (invertCharField cf) (- set cs)"
  using buildCharField_field [OF assms(1)] assms(2) invert_field by fastforce

lemma bninchr_rep:
  assumes "bs_rep b xs" and "bs_rep s cs"
  shows "bninchr (Some b) pos (Some s) =
    Inr (if cs = [] then BSTR_ERR else first_where (\<lambda>p. xs ! p \<notin> set cs) (length xs) pos)"
proof -
  obtain d where d: "data b = Some d" "slen b = int (length xs)" "take (length xs) d = map Some xs"
    using assms(1) by (rule bs_repE)
  consider "pos < 0 \<or> int (length xs) \<le> pos" | p where "pos = int p" "p < length xs" "cs = []"
    | p where "pos = int p" "p < length xs" "cs \<noteq> []"
    by (metis not_less zero_less_imp_eq_int int_nat_eq nat_less_iff)
  then show ?thesis
  proof cases
    case 1
    then have "first_where (\<lambda>p. xs ! p \<notin> set cs) (length xs) pos = BSTR_ERR" by (auto simp: first_where_def)
    with 1 d show ?thesis by (auto simp: bninchr_def)
  next
    case 2
    with d buildCharField_field [OF assms(2)] show ?thesis by (simp add: bninchr_def)
  next
    case 3
    then obtain cf where cf: "buildCharField (Some s) = Inr (Some cf)" "field_of (invertCharField cf) (- set cs)"
      using inverted_rep [OF assms(2)] by blast
    with 3 d binchrCF_first [OF d(3) cf(2)] show ?thesis by (simp add: bninchr_def)
  qed
qed

text \<open>The searches backwards start at the last character when they are asked to start behind it.\<close>

definition last_char :: "(byte \<Rightarrow> bool) \<Rightarrow> byte list \<Rightarrow> int \<Rightarrow> int" where
  "last_char P xs pos =
     (if int (length xs) < pos then BSTR_ERR else last_where (\<lambda>p. P (xs ! p)) (length xs) pos)"

lemma last_where_behind: "last_where P n (int n) = last_where P n (int n - 1)"
  by (cases n) (simp_all add: last_where_def)

lemma last_char_start:
  assumes "pos' = (if pos = int (length xs) then pos - 1 else pos)" and "0 \<le> pos" and "pos \<le> int (length xs)"
  shows "last_char P xs pos = last_where (\<lambda>p. P (xs ! p)) (length xs) pos'"
  using assms last_where_behind by (auto simp: last_char_def)

lemma find_back_set:
  assumes "bs_rep b xs" and "pos < int (length xs)"
  shows "bstrrchrp (Some b) c pos = Inr (last_where (\<lambda>p. xs ! p \<in> {c}) (length xs) pos)"
proof (cases "pos < 0")
  case True
  with assms show ?thesis by (auto simp: bstrrchrp_def last_where_def bs_rep_def)
next
  case False
  then have "min (Suc (nat pos)) (length xs) = Suc (nat pos)" using assms(2) False by (intro min.absorb1) linarith
  with False bstrrchrp_rep [OF assms(1) _ assms(2), of c] show ?thesis
    by (simp add: last_where_def del: upt_Suc)
qed

lemma binchrr_rep:
  assumes "bs_rep b xs" and "bs_rep s cs"
  shows "binchrr (Some b) pos (Some s) = Inr (last_char (\<lambda>c. c \<in> set cs) xs pos)"
proof (cases "pos < 0 \<or> int (length xs) < pos")
  case True
  with assms show ?thesis
    by (auto simp: binchrr_def last_char_def last_where_def bs_rep_def)
next
  case False
  obtain d where d: "data b = Some d" "slen b = int (length xs)" "take (length xs) d = map Some xs"
    using assms(1) by (rule bs_repE)
  obtain e where e: "data s = Some e" "slen s = int (length cs)" "take (length cs) e = map Some cs"
    using assms(2) by (rule bs_repE)
  define pos' where "pos' = (if pos = int (length xs) then pos - 1 else pos)"
  with False have start: "last_char P xs pos = last_where (\<lambda>p. P (xs ! p)) (length xs) pos'" for P
    by (intro last_char_start) simp_all
  have in': "-1 \<le> pos'" "pos' < int (length xs)" using False by (auto simp: pos'_def)
  then have n: "nat (pos' + 1) \<le> length xs" "int (nat (pos' + 1)) - 1 = pos'" by linarith+
  consider (one) c where "cs = [c]" | (none) "cs = []" | (many) "length cs \<noteq> 1" "cs \<noteq> []" by (cases cs) auto
  then show ?thesis
  proof cases
    case one
    with e cell_rep [OF e(3), of 0] have "first_char s = Inr c" by (simp add: first_char_def)
    with False one d e find_back_set [OF assms(1) in'(2), of c] start show ?thesis
      by (simp add: binchrr_def Let_def pos'_def [symmetric])
  next
    case none
    have "last_where (\<lambda>p. False) (length xs) pos' = BSTR_ERR"
      by (simp add: last_where_def find_nothing)
    with none False d e buildCharField_field [OF assms(2)] start show ?thesis
      by (simp add: binchrr_def Let_def)
  next
    case many
    then obtain cf where cf: "buildCharField (Some s) = Inr (Some cf)" "field_of cf (set cs)"
      using inverted_rep [OF assms(2)] by blast
    from many e have "slen s \<noteq> 1" by simp
    with cf(1) False d binchrrCF_last [OF d(3) cf(2) n(1)] n(2) start show ?thesis
      by (simp add: binchrr_def Let_def pos'_def [symmetric])
  qed
qed

lemma bninchrr_rep:
  assumes "bs_rep b xs" and "bs_rep s cs"
  shows "bninchrr (Some b) pos (Some s) =
    Inr (if cs = [] then BSTR_ERR else last_char (\<lambda>c. c \<notin> set cs) xs pos)"
proof (cases "pos < 0 \<or> int (length xs) < pos")
  case True
  with assms show ?thesis
    by (auto simp: bninchrr_def last_char_def last_where_def bs_rep_def)
next
  case False
  obtain d where d: "data b = Some d" "slen b = int (length xs)" "take (length xs) d = map Some xs"
    using assms(1) by (rule bs_repE)
  show ?thesis
  proof (cases "cs = []")
    case True
    with False d buildCharField_field [OF assms(2)] show ?thesis by (simp add: bninchrr_def Let_def)
  next
    case some: False
    define pos' where "pos' = (if pos = int (length xs) then pos - 1 else pos)"
    with False have start: "last_char P xs pos = last_where (\<lambda>p. P (xs ! p)) (length xs) pos'" for P
      by (intro last_char_start) simp_all
    have "-1 \<le> pos'" "pos' < int (length xs)" using False by (auto simp: pos'_def)
    then have n: "nat (pos' + 1) \<le> length xs" "int (nat (pos' + 1)) - 1 = pos'" by linarith+
    obtain cf where cf: "buildCharField (Some s) = Inr (Some cf)" "field_of (invertCharField cf) (- set cs)"
      using inverted_rep [OF assms(2) some] by blast
    with False some d binchrrCF_last [OF d(3) cf(2) n(1)] n(2) start show ?thesis
      by (simp add: bninchrr_def Let_def pos'_def [symmetric])
  qed
qed

section \<open>The searches and their references\<close>

text \<open>
  The brute force searches stay inside both buffers, end, and return what the reference
  returns: backwards the last position up to \<open>pos\<close> at which the second string occurs in the first,
  forwards the first one from \<open>pos\<close> on, and without regard to case an occurrence is one up to
  \<open>downcase\<close>. Arguments that share their buffer are covered.
\<close>

theorem searches_agree:
  assumes "bs_rep b1 xs" and "bs_rep b2 ys" and "same \<Longrightarrow> \<forall>k < min (length xs) (length ys). xs ! k = ys ! k"
  shows "binstrr same (Some b1) pos (Some b2) =
      Inr (if int (length xs) < pos then BSTR_ERR else last_where (matches (=) ys xs) (Suc (length xs)) pos) \<and>
    binstrrcaseless same (Some b1) pos (Some b2) =
      Inr (if int (length xs) < pos then BSTR_ERR else last_where (matches caseless ys xs) (Suc (length xs)) pos) \<and>
    binstrcaseless same (Some b1) pos (Some b2) = Inr (first_where (matches caseless ys xs) (Suc (length xs)) pos)"
proof (intro conjI)
  show "binstrr same (Some b1) pos (Some b2) =
      Inr (if int (length xs) < pos then BSTR_ERR else last_where (matches (=) ys xs) (Suc (length xs)) pos)"
    unfolding binstrr_def by (rule search_last_rep) (use assms in auto)
  show "binstrrcaseless same (Some b1) pos (Some b2) =
      Inr (if int (length xs) < pos then BSTR_ERR else last_where (matches caseless ys xs) (Suc (length xs)) pos)"
    unfolding binstrrcaseless_def by (rule search_last_rep) (use assms caseless_refl in auto)
qed (rule binstrcaseless_rep [OF assms])

theorem searches_agree_witness:
  "binstrr False (Some demo_text) 6 (Some demo_pattern) = Inr 3 \<and>
   binstrcaseless False (Some demo_text) 0 (Some demo_pattern) = Inr 3"
proof -
  have "bs_rep demo_text [97, 97, 98, 97, 98, 99]" "bs_rep demo_pattern [97, 98, 99]"
    by (simp_all add: bs_rep_def demo_text_def demo_pattern_def)
  moreover have
    "last_where (matches (=) [97, 98, 99] [97, 97, 98, 97, 98, 99]) (Suc (Suc (Suc (Suc (Suc (Suc (Suc 0))))))) 6 = 3"
    "first_where (matches caseless [97, 98, 99] [97, 97, 98, 97, 98, 99]) (Suc (Suc (Suc (Suc (Suc (Suc (Suc 0))))))) 0 = 3"
    by code_simp+
  ultimately show ?thesis
    using searches_agree [of demo_text _ demo_pattern _ False 6] searches_agree [of demo_text _ demo_pattern _ False 0]
    by simp
qed

text \<open>
  C39: the searches for the characters of a set stay inside the buffers, end, and return the
  first position from \<open>pos\<close> on, or the last up to \<open>pos\<close>, whose character is in the set or is not:
  the bits of the 32 bytes of a \<open>charField\<close> stand for the set, and the short cut for a set of one
  agrees. One case is not as the comments say: with an empty set every position is outside it,
  but \<open>bninchr\<close> and \<open>bninchrr\<close> return \<open>BSTR_ERR\<close>, as \<open>buildCharField\<close> rejects the set.
\<close>

theorem character_sets:
  assumes "bs_rep b xs" and "bs_rep s cs"
  shows "binchr (Some b) pos (Some s) = Inr (first_where (\<lambda>p. xs ! p \<in> set cs) (length xs) pos) \<and>
    binchrr (Some b) pos (Some s) = Inr (last_char (\<lambda>c. c \<in> set cs) xs pos) \<and>
    bninchr (Some b) pos (Some s) =
      Inr (if cs = [] then BSTR_ERR else first_where (\<lambda>p. xs ! p \<notin> set cs) (length xs) pos) \<and>
    bninchrr (Some b) pos (Some s) = Inr (if cs = [] then BSTR_ERR else last_char (\<lambda>c. c \<notin> set cs) xs pos)"
  using binchr_rep [OF assms] binchrr_rep [OF assms] bninchr_rep [OF assms] bninchrr_rep [OF assms] by blast

theorem character_sets_witness:
  "binchr (Some demo_text) 0 (Some demo_pattern) = Inr 0 \<and>
   bninchr (Some demo_text) 0 (Some demo_pattern) = Inr BSTR_ERR \<and>
   binchrr (Some demo_text) 6 (Some demo_pattern) = Inr 5"
proof -
  have "bs_rep demo_text [97, 97, 98, 97, 98, 99]" "bs_rep demo_pattern [97, 98, 99]"
    by (simp_all add: bs_rep_def demo_text_def demo_pattern_def)
  from character_sets [OF this, of 0] character_sets [OF this, of 6] show ?thesis
    by (simp add: first_where_def last_char_def last_where_def BSTR_ERR_def upt_rec numeral_nat)
qed

text \<open>Without a set \<open>binchr\<close> reads through a null pointer where \<open>binchrr\<close> and \<open>bninchr\<close> report an error.\<close>

lemma binchr_null_set:
  assumes "bs_rep b xs" and "0 \<le> pos" and "pos < int (length xs)"
  shows "binchr (Some b) pos None = Inl NullPointer"
    and "binchrr (Some b) pos None = Inr BSTR_ERR"
    and "bninchr (Some b) pos None = Inr BSTR_ERR"
  using assms by (auto simp: binchr_def binchrr_def bninchr_def buildCharField_def bs_rep_def)

end
