(* ===== verification/BSplit.thy ===== *)
theory BSplit
  imports BFind
begin

text \<open>
  Lists of strings in \<open>bstrlib.c\<close>: making and freeing them, splitting a string at a character,
  at the characters of a set or at a string, and joining. The loops that split hand each piece
  to a callback; the callback of the library itself, \<open>bscb\<close>, copies it into a list.

  Callbacks that change the string while it is split are not covered: \<open>bscb\<close> does not.
\<close>

section \<open>Lists of strings\<close>

text \<open>
  The cells of \<open>entry\<close> are \<open>None\<close> until they are written; a written cell is a pointer to a string,
  which may be NULL.
\<close>

record bstrList =
  qty :: int
  room :: int
  entry :: "bstring option option list option"

definition entries_alloc :: "int \<Rightarrow> alloc \<Rightarrow> bstring option option list option \<times> alloc" where
  "entries_alloc n al = (let (ok, al) = answer al in
     (if ok \<and> 0 \<le> n then Some (replicate (nat n) None) else None, al))"

definition entries_realloc ::
    "bstring option option list \<Rightarrow> int \<Rightarrow> alloc \<Rightarrow> bstring option option list option \<times> alloc" where
  "entries_realloc es n al = (let (ok, al) = answer al in
     (if ok \<and> 0 \<le> n then Some (take (nat n) (es @ replicate (nat n) None)) else None, al))"

definition get_entry :: "bstrList \<Rightarrow> int \<Rightarrow> bstring option res" where
  "get_entry bl i =
     (case entry bl of None \<Rightarrow> Inl NullPointer | Some es \<Rightarrow>
      if 0 \<le> i \<and> nat i < length es
      then (case es ! nat i of None \<Rightarrow> Inl Uninitialised | Some e \<Rightarrow> Inr e) else Inl OutOfBounds)"

definition set_entry :: "bstrList \<Rightarrow> int \<Rightarrow> bstring option \<Rightarrow> bstrList res" where
  "set_entry bl i e =
     (case entry bl of None \<Rightarrow> Inl NullPointer | Some es \<Rightarrow>
      if 0 \<le> i \<and> nat i < length es then Inr (bl\<lparr>entry := Some (es[nat i := Some e])\<rparr>) else Inl OutOfBounds)"

definition bstrListCreate :: "alloc \<Rightarrow> bstrList option \<times> alloc" where
  "bstrListCreate al =
     (case answer al of (False, al) \<Rightarrow> (None, al)
      | (True, al) \<Rightarrow>
          (case entries_alloc 1 al of
             (None, al) \<Rightarrow> (None, al)
           | (Some es, al) \<Rightarrow> (Some \<lparr>qty = 0, room = 1, entry = Some es\<rparr>, al)))"

text \<open>What \<open>bdestroy\<close> returns for an entry is not looked at.\<close>

fun destroy_entries :: "bstrList \<Rightarrow> int \<Rightarrow> nat \<Rightarrow> bstrList res" where
  "destroy_entries bl i 0 = Inr bl"
| "destroy_entries bl i (Suc todo) =
     bind_res (get_entry bl i) (\<lambda>e.
     bind_res (case e of None \<Rightarrow> Inr bl | Some b \<Rightarrow> set_entry bl i None) (\<lambda>bl.
     destroy_entries bl (i + 1) todo))"

text \<open>The list is \<open>None\<close> when it has been freed.\<close>

definition bstrListDestroy :: "bstrList option \<Rightarrow> (int \<times> bstrList option) res" where
  "bstrListDestroy sl =
     (case sl of None \<Rightarrow> Inr (BSTR_ERR, None) | Some bl \<Rightarrow>
      if qty bl < 0 then Inr (BSTR_ERR, sl)
      else bind_res (destroy_entries bl 0 (nat (qty bl))) (\<lambda>_. Inr (BSTR_OK, None)))"

text \<open>The size in bytes, as a \<open>size_t\<close> of 64 bits; a pointer has 8.\<close>

definition byte_size :: "int \<Rightarrow> int" where
  "byte_size n = n mod 2 ^ 64 * 8 mod 2 ^ 64"

definition list_valid :: "bstrList \<Rightarrow> bool" where
  "list_valid bl \<longleftrightarrow> entry bl \<noteq> None \<and> 0 \<le> qty bl \<and> 0 < room bl \<and> qty bl \<le> room bl"

definition bstrListAlloc :: "bstrList option \<Rightarrow> int \<Rightarrow> alloc \<Rightarrow> int \<times> bstrList option \<times> alloc" where
  "bstrListAlloc sl msz al =
     (case sl of None \<Rightarrow> (BSTR_ERR, sl, al) | Some bl \<Rightarrow>
      if msz \<le> 0 \<or> \<not> list_valid bl then (BSTR_ERR, sl, al)
      else if room bl \<ge> msz then (BSTR_OK, sl, al)
      else
        let smsz = snapUpSize msz in
        if byte_size smsz < smsz mod 2 ^ 64 then (BSTR_ERR, sl, al)
        else
          (case entries_realloc (the (entry bl)) smsz al of
             (Some l, al) \<Rightarrow> (BSTR_OK, Some (bl\<lparr>room := smsz, entry := Some l\<rparr>), al)
           | (None, al) \<Rightarrow>
               (case entries_realloc (the (entry bl)) msz al of
                  (Some l, al) \<Rightarrow> (BSTR_OK, Some (bl\<lparr>room := msz, entry := Some l\<rparr>), al)
                | (None, al) \<Rightarrow> (BSTR_ERR, sl, al))))"

definition bstrListAllocMin :: "bstrList option \<Rightarrow> int \<Rightarrow> alloc \<Rightarrow> int \<times> bstrList option \<times> alloc" where
  "bstrListAllocMin sl msz al =
     (case sl of None \<Rightarrow> (BSTR_ERR, sl, al) | Some bl \<Rightarrow>
      if msz \<le> 0 \<or> \<not> list_valid bl then (BSTR_ERR, sl, al)
      else
        let msz = (if msz < qty bl then qty bl else msz) in
        if room bl = msz then (BSTR_OK, sl, al)
        else if byte_size msz < msz mod 2 ^ 64 then (BSTR_ERR, sl, al)
        else
          (case entries_realloc (the (entry bl)) msz al of
             (Some l, al) \<Rightarrow> (BSTR_OK, Some (bl\<lparr>room := msz, entry := Some l\<rparr>), al)
           | (None, al) \<Rightarrow> (BSTR_ERR, sl, al)))"

section \<open>Joining\<close>

fun join_len :: "bstrList \<Rightarrow> int \<Rightarrow> int \<Rightarrow> nat \<Rightarrow> int option res" where
  "join_len bl i c 0 = Inr (Some c)"
| "join_len bl i c (Suc todo) =
     bind_res (get_entry bl i) (\<lambda>e. case e of None \<Rightarrow> Inl NullPointer | Some b \<Rightarrow>
       let v = slen b in
       if v < 0 then Inr None
       else if s32 (c + v) < 0 then Inr None
       else join_len bl (i + 1) (s32 (c + v)) todo)"

fun join_fill ::
    "bstrList \<Rightarrow> bstring option \<Rightarrow> byte option list \<Rightarrow> int \<Rightarrow> int \<Rightarrow> nat \<Rightarrow> (byte option list \<times> int) res" where
  "join_fill bl sep d i c 0 = Inr (d, c)"
| "join_fill bl sep d i c (Suc todo) =
     bind_res (case sep of Some s \<Rightarrow>
                 if i > 0 then bind_res (copy_from d c s (slen s)) (\<lambda>d. Inr (d, s32 (c + slen s))) else Inr (d, c)
               | None \<Rightarrow> Inr (d, c)) (\<lambda>(d, c).
     bind_res (get_entry bl i) (\<lambda>e. case e of None \<Rightarrow> Inl NullPointer | Some b \<Rightarrow>
     bind_res (copy_from d c b (slen b)) (\<lambda>d.
     join_fill bl sep d (i + 1) (s32 (c + slen b)) todo)))"

definition bjoin :: "bstrList option \<Rightarrow> bstring option \<Rightarrow> alloc \<Rightarrow> (bstring option \<times> alloc) res" where
  "bjoin blp sep al =
     (case blp of None \<Rightarrow> Inr (None, al) | Some bl \<Rightarrow>
      if qty bl < 0 then Inr (None, al)
      else if (case sep of None \<Rightarrow> False | Some s \<Rightarrow> slen s < 0 \<or> data s = None) then Inr (None, al)
      else
        bind_res (join_len bl 0 1 (nat (qty bl))) (\<lambda>total. case total of None \<Rightarrow> Inr (None, al) | Some c \<Rightarrow>
          let c = (case sep of None \<Rightarrow> c | Some s \<Rightarrow> s32 (c + s32 ((qty bl - 1) * slen s))) in
          case answer al of (False, al) \<Rightarrow> Inr (None, al)
          | (True, al) \<Rightarrow>
              (case bstr_alloc c al of (None, al) \<Rightarrow> Inr (None, al)
               | (Some d, al) \<Rightarrow>
                   bind_res (join_fill bl sep d 0 0 (nat (qty bl))) (\<lambda>(d, n).
                   bind_res (put d n 0) (\<lambda>d.
                   Inr (Some \<lparr>mlen = c, slen = c - 1, data = Some d\<rparr>, al))))))"

section \<open>Splitting\<close>

text \<open>
  A callback gets the offset and the length of a piece and its own state, and returns a number,
  negative to stop, and the new state.
\<close>

type_synonym 's callback = "int \<Rightarrow> int \<Rightarrow> 's \<Rightarrow> (int \<times> 's) res"

definition char_at :: "bstring \<Rightarrow> int \<Rightarrow> byte res" where
  "char_at b i = (case data b of None \<Rightarrow> Inl NullPointer | Some d \<Rightarrow> cell d i)"

text \<open>
  The two nested loops of \<open>bsplitcb\<close> and \<open>bsplitscb\<close> as one: \<open>i\<close> moves on from \<open>p\<close>, the start of the
  piece, until \<open>test\<close> finds a separator or the string ends.
\<close>

function split_loop ::
    "(byte \<Rightarrow> bool res) \<Rightarrow> bstring \<Rightarrow> 's callback \<Rightarrow> int \<Rightarrow> int \<Rightarrow> 's \<Rightarrow> (int \<times> 's) res" where
  "split_loop test b cb p i s =
     bind_res (if i < slen b then bind_res (char_at b i) test else Inr True) (\<lambda>stop.
     if \<not> stop \<and> i < slen b then split_loop test b cb p (i + 1) s
     else bind_res (cb p (i - p) s) (\<lambda>(ret, s).
       if ret < 0 then Inr (ret, s)
       else if i + 1 \<le> slen b then split_loop test b cb (i + 1) (i + 1) s
       else Inr (BSTR_OK, s)))"
  by pat_completeness auto
termination
  by (relation "measure (\<lambda>(test, b, cb, p, i, s). nat (slen b - i))") auto

declare split_loop.simps [simp del]

definition bsplitcb :: "bstring option \<Rightarrow> byte \<Rightarrow> int \<Rightarrow> 's callback option \<Rightarrow> 's \<Rightarrow> (int \<times> 's) res" where
  "bsplitcb str splitChar pos cb s =
     (case (cb, str) of (Some cb, Some b) \<Rightarrow>
        if pos < 0 \<or> pos > slen b then Inr (BSTR_ERR, s)
        else split_loop (\<lambda>c. Inr (c = splitChar)) b cb pos pos s
      | _ \<Rightarrow> Inr (BSTR_ERR, s))"

text \<open>
  The result of \<open>buildCharField\<close> is not looked at: without a set the field is not initialised.
\<close>

definition bsplitscb ::
    "bstring option \<Rightarrow> bstring option \<Rightarrow> int \<Rightarrow> 's callback option \<Rightarrow> 's \<Rightarrow> (int \<times> 's) res" where
  "bsplitscb str splitStr pos cb s =
     (case (cb, str, splitStr) of (Some f, Some b, Some sp) \<Rightarrow>
        if pos < 0 \<or> pos > slen b \<or> slen sp < 0 then Inr (BSTR_ERR, s)
        else if slen sp = 0 then
          bind_res (f 0 (slen b) s) (\<lambda>(ret, s). Inr (if ret > 0 then 0 else ret, s))
        else if slen sp = 1 then bind_res (char_at sp 0) (\<lambda>c. bsplitcb str c pos cb s)
        else
          bind_res (buildCharField splitStr) (\<lambda>chrs.
          split_loop (\<lambda>c. case chrs of None \<Rightarrow> Inl Uninitialised | Some cf \<Rightarrow> Inr (testInCharField cf c))
            b f pos pos s)
      | _ \<Rightarrow> Inr (BSTR_ERR, s))"

fun each_char :: "'s callback \<Rightarrow> int \<Rightarrow> nat \<Rightarrow> 's \<Rightarrow> (int \<times> 's) res" where
  "each_char cb i 0 s = Inr (BSTR_OK, s)"
| "each_char cb i (Suc todo) s =
     bind_res (cb i 1 s) (\<lambda>(ret, s). if ret < 0 then Inr (ret, s) else each_char cb (i + 1) todo s)"

text \<open>\<open>memcmp\<close> of the separator with the text at \<open>i\<close>.\<close>

definition separator_at :: "bstring \<Rightarrow> bstring \<Rightarrow> int \<Rightarrow> bool res" where
  "separator_at b sp i =
     (case (data b, data sp) of
        (Some d, Some e) \<Rightarrow> if i < 0 then Inl OutOfBounds else same_cells e (drop (nat i) d) 0 (nat (slen sp))
      | _ \<Rightarrow> Inl NullPointer)"

text \<open>\<open>n\<close> is the length of the separator.\<close>

function splitstr_loop ::
    "bstring \<Rightarrow> bstring \<Rightarrow> nat \<Rightarrow> 's callback \<Rightarrow> int \<Rightarrow> int \<Rightarrow> 's \<Rightarrow> (int \<times> 's) res" where
  "splitstr_loop b sp n cb p i s =
     (if i \<le> slen b - int n then
        bind_res (separator_at b sp i) (\<lambda>here.
        if here then
          bind_res (cb p (i - p) s) (\<lambda>(ret, s).
          if ret < 0 then Inr (ret, s)
          else splitstr_loop b sp n cb (i + int n) (i + int n + 1) s)
        else splitstr_loop b sp n cb p (i + 1) s)
      else
        bind_res (cb p (slen b - p) s) (\<lambda>(ret, s). Inr (if ret < 0 then ret else BSTR_OK, s)))"
  by pat_completeness auto
termination
  by (relation "measure (\<lambda>(b, sp, n, cb, p, i, s). nat (slen b - int n + 1 - i))") auto

declare splitstr_loop.simps [simp del]

definition bsplitstrcb ::
    "bstring option \<Rightarrow> bstring option \<Rightarrow> int \<Rightarrow> 's callback option \<Rightarrow> 's \<Rightarrow> (int \<times> 's) res" where
  "bsplitstrcb str splitStr pos cb s =
     (case (cb, str, splitStr) of (Some f, Some b, Some sp) \<Rightarrow>
        if pos < 0 \<or> pos > slen b \<or> slen sp < 0 then Inr (BSTR_ERR, s)
        else if slen sp = 0 then each_char f pos (nat (slen b - pos)) s
        else if slen sp = 1 then bind_res (char_at sp 0) (\<lambda>c. bsplitcb str c pos cb s)
        else splitstr_loop b sp (nat (slen sp)) f pos pos s
      | _ \<Rightarrow> Inr (BSTR_ERR, s))"

section \<open>Splitting into a list\<close>

text \<open>
  The loop in \<open>bscb\<close> that looks for a size that suffices: doubling may pass the range of \<open>int\<close>, which
  \<open>Inr None\<close> reports. From a size of 0 it never ends, and \<open>None\<close> is that outcome.
\<close>

partial_function (option) double_room :: "int \<Rightarrow> int \<Rightarrow> int \<Rightarrow> int option option" where
  "double_room n old ml =
     (if n \<ge> ml then (if ml < old then Some None else double_room n old (s32 (ml + ml))) else Some (Some ml))"

text \<open>The state of the callback is the list, and the memory there is.\<close>

type_synonym gen_list = "bstrList \<times> alloc"

definition bscb :: "bstring option \<Rightarrow> gen_list callback" where
  "bscb b ofs len = (\<lambda>(bl, al).
     let store = (\<lambda>(bl, al).
       bind_res (bmidstr b ofs len al) (\<lambda>(e, al).
       bind_res (set_entry bl (qty bl) e) (\<lambda>bl. Inr (BSTR_OK, bl\<lparr>qty := qty bl + 1\<rparr>, al))))
     in
     if qty bl \<ge> room bl then
       (case double_room (qty bl) (room bl) (s32 (room bl * 2)) of None \<Rightarrow> Inl Blocked
        | Some None \<Rightarrow> Inr (BSTR_ERR, bl, al)
        | Some (Some ml) \<Rightarrow>
            (case entry bl of None \<Rightarrow> Inl NullPointer | Some es \<Rightarrow>
            (case entries_realloc es ml al of
               (None, al) \<Rightarrow> Inr (BSTR_ERR, bl, al)
             | (Some tbl, al) \<Rightarrow> store (bl\<lparr>entry := Some tbl, room := ml\<rparr>, al))))
     else store (bl, al))"

text \<open>What \<open>bsplit\<close>, \<open>bsplitstr\<close> and \<open>bsplits\<close> share: an empty list of four, and what becomes of it.\<close>

definition split_into ::
    "(gen_list callback option \<Rightarrow> gen_list \<Rightarrow> (int \<times> gen_list) res) \<Rightarrow> bstring option \<Rightarrow> alloc
     \<Rightarrow> (bstrList option \<times> alloc) res" where
  "split_into run str al =
     (case answer al of (False, al) \<Rightarrow> Inr (None, al)
      | (True, al) \<Rightarrow>
          (case entries_alloc 4 al of (None, al) \<Rightarrow> Inr (None, al)
           | (Some es, al) \<Rightarrow>
               bind_res (run (Some (bscb str)) (\<lparr>qty = 0, room = 4, entry = Some es\<rparr>, al)) (\<lambda>(ret, bl, al).
               if ret < 0 then bind_res (bstrListDestroy (Some bl)) (\<lambda>_. Inr (None, al))
               else Inr (Some bl, al))))"

definition bsplit :: "bstring option \<Rightarrow> byte \<Rightarrow> alloc \<Rightarrow> (bstrList option \<times> alloc) res" where
  "bsplit str splitChar al =
     (case bparts str of None \<Rightarrow> Inr (None, al)
      | Some _ \<Rightarrow> split_into (\<lambda>cb. bsplitcb str splitChar 0 cb) str al)"

definition bsplitstr :: "bstring option \<Rightarrow> bstring option \<Rightarrow> alloc \<Rightarrow> (bstrList option \<times> alloc) res" where
  "bsplitstr str splitStr al =
     (case bparts str of None \<Rightarrow> Inr (None, al)
      | Some _ \<Rightarrow> split_into (\<lambda>cb. bsplitstrcb str splitStr 0 cb) str al)"

definition bsplits :: "bstring option \<Rightarrow> bstring option \<Rightarrow> alloc \<Rightarrow> (bstrList option \<times> alloc) res" where
  "bsplits str splitStr al =
     (case (bparts str, bparts splitStr) of
        (Some _, Some _) \<Rightarrow> split_into (\<lambda>cb. bsplitscb str splitStr 0 cb) str al
      | _ \<Rightarrow> Inr (None, al))"

section \<open>The pieces\<close>

text \<open>The positions and lengths of the pieces, with \<open>p\<close> the start of the one that is open at \<open>i\<close>.\<close>

fun cuts :: "(byte \<Rightarrow> bool) \<Rightarrow> nat \<Rightarrow> nat \<Rightarrow> byte list \<Rightarrow> (nat \<times> nat) list" where
  "cuts P p i [] = [(p, i - p)]"
| "cuts P p i (x # xs) = (if P x then (p, i - p) # cuts P (i + 1) (i + 1) xs else cuts P p (i + 1) xs)"

function str_cuts :: "byte list \<Rightarrow> byte list \<Rightarrow> nat \<Rightarrow> nat \<Rightarrow> (nat \<times> nat) list" where
  "str_cuts xs ys p i =
     (if i + length ys \<le> length xs then
        if take (length ys) (drop i xs) = ys then (p, i - p) # str_cuts xs ys (i + length ys) (i + length ys + 1)
        else str_cuts xs ys p (i + 1)
      else [(p, length xs - p)])"
  by pat_completeness auto
termination
  by (relation "measure (\<lambda>(xs, ys, p, i). length xs + 1 - i)") auto

declare str_cuts.simps [simp del]

fun piece_of :: "byte list \<Rightarrow> nat \<times> nat \<Rightarrow> byte list" where
  "piece_of xs (p, l) = take l (drop p xs)"

fun split_where :: "(byte \<Rightarrow> bool) \<Rightarrow> byte list \<Rightarrow> byte list list" where
  "split_where P [] = [[]]"
| "split_where P (x # xs) =
     (if P x then [] # split_where P xs
      else case split_where P xs of [] \<Rightarrow> [[x]] | y # ys \<Rightarrow> (x # y) # ys)"

fun join_with :: "byte list \<Rightarrow> byte list list \<Rightarrow> byte list" where
  "join_with sep [] = []"
| "join_with sep (y # ys) = y @ concat (map (\<lambda>z. sep @ z) ys)"

lemma split_where_Cons: "\<exists>y ys. split_where P xs = y # ys"
  by (induction xs) (auto split: list.split)

lemma cuts_slices:
  "p \<le> i \<Longrightarrow> i \<le> length xs \<Longrightarrow> map (piece_of xs) (cuts P p i (drop i xs)) =
    (case split_where P (drop i xs) of [] \<Rightarrow> [] | y # ys \<Rightarrow> (take (i - p) (drop p xs) @ y) # ys)"
proof (induction "length xs - i" arbitrary: p i)
  case 0
  then show ?case by simp
next
  case (Suc k)
  then have i: "i < length xs" by simp
  then have d: "drop i xs = xs ! i # drop (Suc i) xs" by (simp add: Cons_nth_drop_Suc)
  obtain y ys where y: "split_where P (drop (Suc i) xs) = y # ys" using split_where_Cons by blast
  have "take (Suc i - p) (drop p xs) = take (i - p) (drop p xs) @ [xs ! i]"
    using i Suc.prems by (simp add: Suc_diff_le take_Suc_conv_app_nth)
  with Suc.hyps(1) [of "Suc i" p] Suc.hyps(1) [of "Suc i" "Suc i"] Suc.hyps(2) Suc.prems i y show ?case
    by (simp add: d)
qed

lemma bsplit_pieces: "map (piece_of xs) (cuts P 0 0 xs) = split_where P xs"
  using cuts_slices [of 0 0 xs P] split_where_Cons [of P xs] by auto

lemma join_split_where: "join_with [c] (split_where (\<lambda>x. x = c) xs) = xs"
proof (induction xs)
  case (Cons x xs)
  obtain y ys where "split_where (\<lambda>x. x = c) xs = y # ys" using split_where_Cons by blast
  with Cons show ?case by auto
qed simp

lemma str_cuts_Cons: "\<exists>l qs. str_cuts xs ys p i = (p, l) # qs"
proof (induction xs ys p i rule: str_cuts.induct)
  case (1 xs ys p i)
  then show ?case by (subst str_cuts.simps) auto
qed

lemma join_str_cuts:
  "p \<le> i \<Longrightarrow> i \<le> length xs + 1 \<Longrightarrow> p \<le> length xs \<Longrightarrow> join_with ys (map (piece_of xs) (str_cuts xs ys p i)) = drop p xs"
proof (induction xs ys p i rule: str_cuts.induct)
  case (1 xs ys p i)
  show ?case
  proof (cases "i + length ys \<le> length xs \<and> take (length ys) (drop i xs) = ys")
    case True
    let ?i = "i + length ys"
    have IH: "join_with ys (map (piece_of xs) (str_cuts xs ys ?i (?i + 1))) = drop ?i xs"
      using 1 True by simp
    obtain l qs where q: "str_cuts xs ys ?i (?i + 1) = (?i, l) # qs" using str_cuts_Cons by blast
    have "drop p xs = take (i - p) (drop p xs) @ drop i xs"
      using "1.prems" by (metis append_take_drop_id drop_drop le_add_diff_inverse2)
    also have "drop i xs = ys @ drop ?i xs"
      using True by (metis add.commute append_take_drop_id drop_drop)
    also have "ys @ drop ?i xs = concat (map (\<lambda>z. ys @ z) (map (piece_of xs) (str_cuts xs ys ?i (?i + 1))))"
      unfolding IH [symmetric] q by simp
    finally have "take (i - p) (drop p xs) @ concat (map (\<lambda>z. ys @ z) (map (piece_of xs) (str_cuts xs ys ?i (?i + 1))))
        = drop p xs" by simp
    with True show ?thesis by (subst str_cuts.simps) simp
  next
    case False
    show ?thesis
    proof (cases "i + length ys \<le> length xs")
      case True
      with False 1 show ?thesis by (subst str_cuts.simps) simp
    next
      case False
      then show ?thesis by (subst str_cuts.simps) simp
    qed
  qed
qed

section \<open>The contract of a callback\<close>

text \<open>
  \<open>holds ps s\<close>: the state accounts for the pieces \<open>ps\<close>. A callback takes one more piece of the string, of
  length \<open>n\<close>, or stops with a negative number and keeps those it has. There are never more pieces
  than characters, but for the last one.

  \<open>delivered\<close> is what a loop over the pieces \<open>qs\<close> promises: they were handed over in order, all of
  them or up to one at which the callback stopped.
\<close>

definition stopped ::
    "'s callback \<Rightarrow> nat \<Rightarrow> ((nat \<times> nat) list \<Rightarrow> 's \<Rightarrow> bool) \<Rightarrow> int \<Rightarrow> 's \<Rightarrow> bool" where
  "stopped cb n holds r s' \<longleftrightarrow> (\<exists>ps p l s.
     holds ps s \<and> p + l \<le> n \<and> length ps \<le> n \<and> cb (int p) (int l) s = Inr (r, s'))"

definition delivered ::
    "'s callback \<Rightarrow> nat \<Rightarrow> ((nat \<times> nat) list \<Rightarrow> 's \<Rightarrow> bool) \<Rightarrow> (nat \<times> nat) list \<Rightarrow> (nat \<times> nat) list
     \<Rightarrow> (int \<times> 's) res \<Rightarrow> bool" where
  "delivered cb n holds ps qs out \<longleftrightarrow> (\<exists>r s' k. out = Inr (r, s') \<and> holds (ps @ take k qs) s' \<and>
     (if r < 0 then stopped cb n holds r s' else r = BSTR_OK \<and> length qs \<le> k))"

locale piece_sink =
  fixes cb :: "'s callback" and n :: nat and holds :: "(nat \<times> nat) list \<Rightarrow> 's \<Rightarrow> bool"
  assumes takes: "holds ps s \<Longrightarrow> p + l \<le> n \<Longrightarrow> length ps \<le> n \<Longrightarrow>
    \<exists>r s'. cb (int p) (int l) s = Inr (r, s') \<and> holds (if 0 \<le> r then ps @ [(p, l)] else ps) s'"
begin

lemma one_piece:
  assumes "holds ps s" and "p + l \<le> n" and "length ps \<le> n"
    and "\<And>s'. holds (ps @ [(p, l)]) s' \<Longrightarrow> delivered cb n holds (ps @ [(p, l)]) qs (k s')"
  shows "delivered cb n holds ps ((p, l) # qs)
    (bind_res (cb (int p) (int l) s) (\<lambda>(ret, s). if ret < 0 then Inr (ret, s) else k s))"
proof -
  from takes [OF assms(1-3)] obtain r s' where
    r: "cb (int p) (int l) s = Inr (r, s')" "holds (if 0 \<le> r then ps @ [(p, l)] else ps) s'" by blast
  show ?thesis
  proof (cases "r < 0")
    case True
    with r have "holds (ps @ take 0 ((p, l) # qs)) s'" by simp
    moreover have "stopped cb n holds r s'" using r(1) assms(1-3) unfolding stopped_def by blast
    ultimately show ?thesis
      using True r(1) unfolding delivered_def
      by (intro exI [of _ r] exI [of _ s'] exI [of _ 0]) simp
  next
    case False
    with r assms(4) have "delivered cb n holds (ps @ [(p, l)]) qs (k s')" by simp
    then obtain t u j where t: "k s' = Inr (t, u)" "holds ((ps @ [(p, l)]) @ take j qs) u"
      "if t < 0 then stopped cb n holds t u else t = BSTR_OK \<and> length qs \<le> j" by (auto simp: delivered_def)
    then have "holds (ps @ take (Suc j) ((p, l) # qs)) u" by simp
    with t False r(1) show ?thesis
      unfolding delivered_def by (intro exI [of _ t] exI [of _ u] exI [of _ "Suc j"]) auto
  qed
qed

lemma delivered_nothing: "holds ps s \<Longrightarrow> delivered cb n holds ps [] (Inr (BSTR_OK, s))"
  by (simp add: delivered_def BSTR_OK_def)

lemma last_piece:
  assumes "holds ps s" and "p + l \<le> n" and "length ps \<le> n"
  shows "delivered cb n holds ps [(p, l)]
    (bind_res (cb (int p) (int l) s) (\<lambda>(ret, s). if ret < 0 then Inr (ret, s) else Inr (BSTR_OK, s)))"
  using one_piece [OF assms, of "[]" "\<lambda>s. Inr (BSTR_OK, s)"] delivered_nothing by blast

lemma split_loop_pieces:
  assumes str: "slen b = int n" "length xs = n" "\<And>i. i < n \<Longrightarrow> char_at b (int i) = Inr (xs ! i)"
    and test: "\<And>c. test c = Inr (P c)"
  shows "p \<le> i \<Longrightarrow> i \<le> n \<Longrightarrow> length ps \<le> p \<Longrightarrow> holds ps s \<Longrightarrow>
    delivered cb n holds ps (cuts P p i (drop i xs)) (split_loop test b cb (int p) (int i) s)"
proof (induction "n - i" arbitrary: p i ps s rule: less_induct)
  case less
  have piece: "p + (i - p) \<le> n" "length ps \<le> n" using less.prems by simp_all
  have l: "int (i - p) = int i - int p" using less.prems by simp
  have next': "1 + int i = int (Suc i)" "int i + 1 = int (Suc i)" by simp_all
  show ?case
  proof (cases "i < n")
    case True
    then have d: "drop i xs = xs ! i # drop (Suc i) xs" using str by (simp add: Cons_nth_drop_Suc)
    show ?thesis
    proof (cases "P (xs ! i)")
      case False
      have "split_loop test b cb (int p) (int i) s = split_loop test b cb (int p) (int (Suc i)) s"
        using True False str test by (subst split_loop.simps) (simp add: next' del: of_nat_Suc)
      moreover have "delivered cb n holds ps (cuts P p (Suc i) (drop (Suc i) xs))
          (split_loop test b cb (int p) (int (Suc i)) s)"
        using True less.prems by (intro less.hyps) simp_all
      ultimately show ?thesis using False by (simp only: d cuts.simps if_False Suc_eq_plus1)
    next
      case stop: True
      have run: "split_loop test b cb (int p) (int i) s =
          bind_res (cb (int p) (int (i - p)) s) (\<lambda>(ret, s). if ret < 0 then Inr (ret, s)
            else split_loop test b cb (int (Suc i)) (int (Suc i)) s)"
        using True stop str test
        by (subst split_loop.simps) (simp add: l next' cong: if_cong del: of_nat_Suc of_nat_diff)
      have "delivered cb n holds (ps @ [(p, i - p)]) (cuts P (Suc i) (Suc i) (drop (Suc i) xs))
          (split_loop test b cb (int (Suc i)) (int (Suc i)) s')" if "holds (ps @ [(p, i - p)]) s'" for s'
        using True less.prems that by (intro less.hyps) simp_all
      with run stop one_piece [OF less.prems(4) piece] show ?thesis by (simp add: d)
    qed
  next
    case False
    with less.prems have i: "i = n" by simp
    then have "split_loop test b cb (int p) (int i) s =
        bind_res (cb (int p) (int (i - p)) s) (\<lambda>(ret, s). if ret < 0 then Inr (ret, s) else Inr (BSTR_OK, s))"
      using str less.prems(1) by (subst split_loop.simps) (simp add: of_nat_diff cong: if_cong)
    with i str last_piece [OF less.prems(4) piece] show ?thesis by simp
  qed
qed

lemma splitstr_pieces:
  assumes str: "slen b = int n" "length xs = n"
    and sep: "\<And>i. i + length ys \<le> n \<Longrightarrow> separator_at b sp (int i) = Inr (take (length ys) (drop i xs) = ys)"
      "ys \<noteq> []"
  shows "p \<le> i \<Longrightarrow> i \<le> n + 1 \<Longrightarrow> p \<le> n \<Longrightarrow> length ps \<le> p \<Longrightarrow> holds ps s \<Longrightarrow>
    delivered cb n holds ps (str_cuts xs ys p i) (splitstr_loop b sp (length ys) cb (int p) (int i) s)"
proof (induction "n + 1 - i" arbitrary: p i ps s rule: less_induct)
  case less
  let ?m = "length ys"
  have m: "0 < ?m" using sep(2) by simp
  show ?case
  proof (cases "i + ?m \<le> n")
    case True
    then have inside: "int i \<le> int n - int ?m" by simp
    have piece: "p + (i - p) \<le> n" "length ps \<le> n" using True less.prems by simp_all
    show ?thesis
    proof (cases "take ?m (drop i xs) = ys")
      case False
      then have "splitstr_loop b sp ?m cb (int p) (int i) s = splitstr_loop b sp ?m cb (int p) (int (i + 1)) s"
        using inside sep(1) [OF True] str(1) by (subst splitstr_loop.simps) (simp add: add.commute)
      moreover have "delivered cb n holds ps (str_cuts xs ys p (i + 1)) (splitstr_loop b sp ?m cb (int p) (int (i + 1)) s)"
        using True m less.prems by (intro less.hyps) simp_all
      moreover have "str_cuts xs ys p i = str_cuts xs ys p (i + 1)"
        using True False str(2) by (subst str_cuts.simps) simp
      ultimately show ?thesis by (simp only:)
    next
      case here: True
      have moves: "int i + int ?m = int (i + ?m)" "int i + int ?m + 1 = int (i + ?m + 1)" "int i - int p = int (i - p)"
        using less.prems(1) by simp_all
      have "splitstr_loop b sp ?m cb (int p) (int i) s =
          bind_res (cb (int p) (int (i - p)) s) (\<lambda>(ret, s). if ret < 0 then Inr (ret, s)
            else splitstr_loop b sp ?m cb (int (i + ?m)) (int (i + ?m + 1)) s)"
        unfolding moves [symmetric] using inside here sep(1) [OF True] str(1)
        by (subst splitstr_loop.simps) simp
      moreover have "str_cuts xs ys p i = (p, i - p) # str_cuts xs ys (i + ?m) (i + ?m + 1)"
        using True here str(2) by (subst str_cuts.simps) simp
      moreover have "delivered cb n holds (ps @ [(p, i - p)]) (str_cuts xs ys (i + ?m) (i + ?m + 1))
          (splitstr_loop b sp ?m cb (int (i + ?m)) (int (i + ?m + 1)) s')" if "holds (ps @ [(p, i - p)]) s'" for s'
        using True m less.prems that by (intro less.hyps) (simp_all del: length_greater_0_conv)
      ultimately show ?thesis using one_piece [OF less.prems(5) piece] by simp
    qed
  next
    case False
    then have "\<not> int i \<le> int n - int ?m" by linarith
    then have "splitstr_loop b sp ?m cb (int p) (int i) s =
        bind_res (cb (int p) (int n - int p) s) (\<lambda>(ret, s). Inr (if ret < 0 then ret else BSTR_OK, s))"
      using str(1) by (subst splitstr_loop.simps) simp
    also have "\<dots> = bind_res (cb (int p) (int (n - p)) s)
        (\<lambda>(ret, s). if ret < 0 then Inr (ret, s) else Inr (BSTR_OK, s))"
      using less.prems(3) by (intro bind_res_cong) (auto simp: of_nat_diff)
    finally show ?thesis
      using False str(2) last_piece [OF less.prems(5), of p "n - p"] less.prems(3,4)
      by (subst str_cuts.simps) simp
  qed
qed

lemma whole_piece:
  assumes "holds [] s"
  shows "delivered cb n holds [] [(0, n)] (bind_res (cb 0 (int n) s) (\<lambda>(ret, s). Inr (if ret > 0 then 0 else ret, s)))"
proof -
  have "bind_res (cb 0 (int n) s) (\<lambda>(ret, s). Inr (if ret > 0 then 0 else ret, s)) =
      bind_res (cb (int 0) (int n) s) (\<lambda>(ret, s). if ret < 0 then Inr (ret, s) else Inr (BSTR_OK, s))"
    by (intro bind_res_cong) (auto simp: BSTR_OK_def)
  with last_piece [OF assms, of 0 n] show ?thesis by simp
qed

lemma each_char_pieces:
  "holds ps s \<Longrightarrow> length ps \<le> i \<Longrightarrow> i + todo = n \<Longrightarrow>
    delivered cb n holds ps (map (\<lambda>i. (i, 1)) [i..<n]) (each_char cb (int i) todo s)"
proof (induction todo arbitrary: i ps s)
  case 0
  then show ?case using delivered_nothing by simp
next
  case (Suc todo)
  have step: "[i..<n] = i # [Suc i..<n]" using Suc.prems by (simp add: upt_conv_Cons)
  have "each_char cb (int i) (Suc todo) s =
      bind_res (cb (int i) (int 1) s) (\<lambda>(ret, s). if ret < 0 then Inr (ret, s) else each_char cb (int (Suc i)) todo s)"
    by (simp add: add.commute cong: if_cong)
  moreover have "delivered cb n holds (ps @ [(i, 1)]) (map (\<lambda>i. (i, 1)) [Suc i..<n]) (each_char cb (int (Suc i)) todo s')"
    if "holds (ps @ [(i, 1)]) s'" for s'
    using Suc.prems that by (intro Suc.IH) simp_all
  ultimately show ?case
    using one_piece [OF Suc.prems(1), of i 1] Suc.prems(2,3) by (simp add: step)
qed

end

text \<open>A callback that never stops gets every piece.\<close>

locale patient_sink = piece_sink +
  assumes goes_on: "\<not> (r < 0 \<and> stopped cb n holds r s)"
begin

lemma delivered_all:
  assumes "delivered cb n holds ps qs out"
  shows "\<exists>s'. out = Inr (BSTR_OK, s') \<and> holds (ps @ qs) s'"
  using assms goes_on by (auto simp: delivered_def split: if_splits)

end

section \<open>The callback of the library\<close>

definition piece_ok :: "bool \<Rightarrow> byte list \<Rightarrow> bstring option option \<Rightarrow> bool" where
  "piece_ok mem ys e \<longleftrightarrow> (\<exists>bp. e = Some bp \<and> (mem \<longrightarrow> bp \<noteq> None) \<and> (\<forall>b. bp = Some b \<longrightarrow> bs_ok b ys))"

text \<open>
  The list holds the pieces \<open>ps\<close> of \<open>xs\<close>: each is a copy, or NULL where there was no memory for it,
  which \<open>mem\<close> excludes.
\<close>

definition list_strings :: "bool \<Rightarrow> byte list list \<Rightarrow> bstrList \<Rightarrow> bool" where
  "list_strings mem yss bl \<longleftrightarrow> (\<exists>es rest. entry bl = Some (es @ rest) \<and> int (length es + length rest) = room bl \<and>
     qty bl = int (length yss) \<and> list_all2 (piece_ok mem) yss es)"

definition list_holds :: "bool \<Rightarrow> bstring \<Rightarrow> byte list \<Rightarrow> (nat \<times> nat) list \<Rightarrow> gen_list \<Rightarrow> bool" where
  "list_holds mem b xs ps = (\<lambda>(bl, al). bs_rep b xs \<and> length xs < 2 ^ 29 \<and> 0 < room bl \<and>
     list_strings mem (map (piece_of xs) ps) bl \<and> (mem \<longrightarrow> al = []))"

lemma double_room_once: "0 < r \<Longrightarrow> r < 2 ^ 30 \<Longrightarrow> double_room r r (s32 (r * 2)) = Some (Some (r * 2))"
  by (subst double_room.simps) simp

lemma bscb_store:
  assumes "bs_rep b xs" and "length xs < 2 ^ 29" and "p + l \<le> length xs"
    and "list_strings mem yss bl" and "qty bl < room bl" and "mem \<longrightarrow> al = []"
  shows "\<exists>bl' al'. bind_res (bmidstr (Some b) (int p) (int l) al) (\<lambda>(e, al).
      bind_res (set_entry bl (qty bl) e) (\<lambda>bl. Inr (BSTR_OK, bl\<lparr>qty := qty bl + 1\<rparr>, al))) =
      Inr (BSTR_OK, bl', al') \<and> list_strings mem (yss @ [piece_of xs (p, l)]) bl' \<and> (mem \<longrightarrow> al' = []) \<and>
      room bl' = room bl"
proof -
  have "int (p + l) < 2 ^ 29" using assms(2,3) by simp
  then have "\<exists>bp al'. bmidstr (Some b) (int p) (int l) al = Inr (bp, al') \<and>
    (\<forall>b'. bp = Some b' \<longrightarrow> bs_ok b' (take (nat (int p + int l) - nat (int p)) (drop (nat (int p)) xs))) \<and>
    (al = [] \<longrightarrow> bp \<noteq> None \<and> al' = [])"
    using assms(2) by (intro bmidstr_rep [OF assms(1)]) simp_all
  then obtain bp al' where m: "bmidstr (Some b) (int p) (int l) al = Inr (bp, al')"
    "\<forall>b'. bp = Some b' \<longrightarrow> bs_ok b' (piece_of xs (p, l))" "al = [] \<longrightarrow> bp \<noteq> None \<and> al' = []"
    by (auto simp: nat_int_add)
  obtain es rest where bl: "entry bl = Some (es @ rest)" "int (length es + length rest) = room bl"
    "qty bl = int (length yss)" "list_all2 (piece_ok mem) yss es"
    using assms(4) by (auto simp: list_strings_def)
  then have es: "length es = length yss" by (simp add: list_all2_lengthD)
  with bl assms(5) obtain x r where rest: "rest = x # r" by (cases rest) auto
  have "set_entry bl (qty bl) bp = Inr (bl\<lparr>entry := Some (es @ Some bp # r)\<rparr>)"
    using bl by (simp add: set_entry_def rest es [symmetric])
  moreover have "piece_ok mem (piece_of xs (p, l)) (Some bp)" using m assms(6) by (auto simp: piece_ok_def)
  with bl es have "list_strings mem (yss @ [piece_of xs (p, l)]) (bl\<lparr>entry := Some (es @ Some bp # r), qty := qty bl + 1\<rparr>)"
    unfolding list_strings_def
    by (intro exI [of _ "es @ [Some bp]"] exI [of _ r]) (simp add: rest list_all2_appendI)
  ultimately show ?thesis using m assms(6) by simp
qed

lemma bscb_takes:
  assumes holds: "list_holds mem b xs ps st" and piece: "p + l \<le> length xs" "length ps \<le> length xs"
  shows "\<exists>r st'. bscb (Some b) (int p) (int l) st = Inr (r, st') \<and>
    list_holds mem b xs (if 0 \<le> r then ps @ [(p, l)] else ps) st' \<and> (mem \<longrightarrow> 0 \<le> r)"
proof -
  obtain bl al where st: "st = (bl, al)" by (cases st)
  from holds have h: "bs_rep b xs" "length xs < 2 ^ 29" "0 < room bl"
    "list_strings mem (map (piece_of xs) ps) bl" "mem \<longrightarrow> al = []" by (simp_all add: list_holds_def st)
  note store = bscb_store [OF h(1,2) piece(1)]
  have q: "qty bl \<le> room bl" using h(4) by (auto simp: list_strings_def dest: list_all2_lengthD)
  show ?thesis
  proof (cases "qty bl < room bl")
    case True
    with store [OF h(4) True h(5)] h st show ?thesis by (auto simp: bscb_def list_holds_def BSTR_OK_def)
  next
    case False
    with q have full: "qty bl = room bl" by simp
    have "qty bl = int (length ps)" using h(4) by (auto simp: list_strings_def)
    with piece(2) h(2) have "room bl < 2 ^ 30" using full by simp
    then have grow: "double_room (qty bl) (room bl) (s32 (room bl * 2)) = Some (Some (room bl * 2))"
      using h(3) by (simp only: full double_room_once)
    obtain es where es: "entry bl = Some es" "length es = nat (room bl)" "list_all2 (piece_ok mem) (map (piece_of xs) ps) es"
    proof -
      from h(4) obtain es rest where e: "entry bl = Some (es @ rest)" "int (length es + length rest) = room bl"
        "qty bl = int (length ps)" "list_all2 (piece_ok mem) (map (piece_of xs) ps) es" by (auto simp: list_strings_def)
      then have "length es = length ps" by (simp add: list_all2_lengthD [symmetric])
      with e full have "rest = []" by simp
      with e that show ?thesis by simp
    qed
    show ?thesis
    proof (cases "fst (answer al)")
      case False
      then obtain al' where a: "answer al = (False, al')" by (cases "answer al") auto
      then have "\<not> mem" using h(5) by auto
      with a es h full grow st show ?thesis
        by (auto simp: bscb_def list_holds_def entries_realloc_def BSTR_ERR_def)
    next
      case True
      then obtain al' where a: "answer al = (True, al')" "mem \<longrightarrow> al' = []"
        using h(5) by (cases "answer al") auto
      define bl1 where "bl1 = bl\<lparr>entry := Some (es @ replicate (nat (room bl)) None), room := room bl * 2\<rparr>"
      have realloc: "entries_realloc es (room bl * 2) al = (Some (es @ replicate (nat (room bl)) None), al')"
        using a(1) es(2) h(3) by (simp add: entries_realloc_def)
      have "list_strings mem (map (piece_of xs) ps) bl1"
        using es h(3,4) unfolding list_strings_def
        by (intro exI [of _ es] exI [of _ "replicate (nat (room bl)) None"]) (auto simp: bl1_def)
      moreover have "qty bl1 < room bl1" using full h(3) by (simp add: bl1_def)
      ultimately obtain bl' al'' where stored: "bind_res (bmidstr (Some b) (int p) (int l) al') (\<lambda>(e, al).
          bind_res (set_entry bl1 (qty bl1) e) (\<lambda>bl. Inr (BSTR_OK, bl\<lparr>qty := qty bl + 1\<rparr>, al))) =
          Inr (BSTR_OK, bl', al'')" "list_strings mem (map (piece_of xs) ps @ [piece_of xs (p, l)]) bl'"
          "mem \<longrightarrow> al'' = []" "room bl' = room bl1"
        using store [of mem _ bl1 al'] a(2) by blast
      have "bscb (Some b) (int p) (int l) st = bind_res (bmidstr (Some b) (int p) (int l) al') (\<lambda>(e, al).
          bind_res (set_entry bl1 (qty bl1) e) (\<lambda>bl. Inr (BSTR_OK, bl\<lparr>qty := qty bl + 1\<rparr>, al)))"
        by (simp add: bscb_def st full es(1) realloc grow [unfolded full] bl1_def)
      with stored h show ?thesis
        by (auto simp: list_holds_def BSTR_OK_def bl1_def)
    qed
  qed
qed

interpretation listed: piece_sink "bscb (Some b)" "length xs" "list_holds mem b xs" for mem b xs
  by unfold_locales (use bscb_takes in blast)

interpretation kept: patient_sink "bscb (Some b)" "length xs" "list_holds True b xs" for b xs
proof unfold_locales
  show "\<not> (r < 0 \<and> stopped (bscb (Some b)) (length xs) (list_holds True b xs) r s)" for r s
    using bscb_takes [of True b xs] by (fastforce simp: stopped_def)
qed

section \<open>Splitting into lists\<close>

lemma char_at_rep: "bs_rep b xs \<Longrightarrow> i < length xs \<Longrightarrow> char_at b (int i) = Inr (xs ! i)"
  using cell_rep [of xs _ "int i"] by (auto simp: char_at_def elim!: bs_repE)

lemma slen_rep: "bs_rep b xs \<Longrightarrow> slen b = int (length xs)"
  by (auto simp: bs_rep_def)

lemma separator_at_rep:
  assumes "bs_rep b xs" and "bs_rep sp ys" and "i + length ys \<le> length xs"
  shows "separator_at b sp (int i) = Inr (take (length ys) (drop i xs) = ys)"
proof -
  obtain d where d: "data b = Some d" "take (length xs) d = map Some xs" using assms(1) by (rule bs_repE)
  obtain e where e: "data sp = Some e" "slen sp = int (length ys)" "take (length ys) e = map Some ys"
    using assms(2) by (rule bs_repE)
  let ?zs = "take (length ys) (drop i xs)"
  have z: "length ?zs = length ys" using assms(3) by simp
  have "take (length ys) (drop i d) = drop i (take (i + length ys) d)" by (simp add: drop_take)
  also have "take (i + length ys) d = take (i + length ys) (map Some xs)"
    using d(2) assms(3) by (metis min.absorb1 take_take)
  finally have "take (length ?zs) (drop i d) = map Some ?zs" unfolding z by (simp add: drop_take take_map drop_map)
  from same_cells_rep [OF e(3) this, of 0 "length ys"] z
  have "same_cells e (drop i d) 0 (length ys) = Inr (\<forall>k<length ys. ys ! k = ?zs ! k)" by simp
  moreover have "(\<forall>k<length ys. ys ! k = ?zs ! k) \<longleftrightarrow> ?zs = ys"
    using z by (metis nth_equalityI)
  ultimately show ?thesis using d(1) e(1,2) by (simp add: separator_at_def)
qed

lemma bsplitcb_pieces:
  assumes "bs_rep b xs" and "list_holds mem b xs [] st"
  shows "delivered (bscb (Some b)) (length xs) (list_holds mem b xs) [] (cuts (\<lambda>x. x = c) 0 0 xs)
    (bsplitcb (Some b) c 0 (Some (bscb (Some b))) st)"
proof -
  note str = slen_rep [OF assms(1)] refl char_at_rep [OF assms(1)]
  have "delivered (bscb (Some b)) (length xs) (list_holds mem b xs) [] (cuts (\<lambda>x. x = c) 0 0 (drop 0 xs))
      (split_loop (\<lambda>x. Inr (x = c)) b (bscb (Some b)) (int 0) (int 0) st)"
    by (rule listed.split_loop_pieces [OF str]) (use assms(2) in simp_all)
  with str(1) show ?thesis by (simp add: bsplitcb_def)
qed

lemma bsplitscb_pieces:
  assumes "bs_rep b xs" and "bs_rep sp cs" and "list_holds mem b xs [] st"
  shows "delivered (bscb (Some b)) (length xs) (list_holds mem b xs) []
    (if cs = [] then [(0, length xs)] else cuts (\<lambda>x. x \<in> set cs) 0 0 xs)
    (bsplitscb (Some b) (Some sp) 0 (Some (bscb (Some b))) st)"
proof -
  note len = slen_rep [OF assms(1)] slen_rep [OF assms(2)]
  consider (none) "cs = []" | (one) c where "cs = [c]" | (many) "2 \<le> length cs"
    by (metis One_nat_def Suc_1 Suc_leI length_0_conv length_Suc_conv less_one not_less_eq_eq le_antisym not_less)
  then show ?thesis
  proof cases
    case none
    with listed.whole_piece [OF assms(3)] len show ?thesis by (simp add: bsplitscb_def)
  next
    case one
    with char_at_rep [OF assms(2), of 0] bsplitcb_pieces [OF assms(1,3), of c] len show ?thesis
      by (simp add: bsplitscb_def)
  next
    case many
    then have ne: "cs \<noteq> []" "slen sp \<noteq> 0" "slen sp \<noteq> 1" using len by auto
    then obtain cf where cf: "buildCharField (Some sp) = Inr (Some cf)" "field_of cf (set cs)"
      using buildCharField_field [OF assms(2)] by auto
    note str = len(1) refl char_at_rep [OF assms(1)]
    have "delivered (bscb (Some b)) (length xs) (list_holds mem b xs) [] (cuts (\<lambda>x. x \<in> set cs) 0 0 (drop 0 xs))
        (split_loop (\<lambda>c. Inr (testInCharField cf c)) b (bscb (Some b)) (int 0) (int 0) st)"
      by (rule listed.split_loop_pieces [OF str]) (use cf(2) assms(3) in \<open>simp_all add: field_of_def\<close>)
    with len ne cf(1) show ?thesis by (simp add: bsplitscb_def)
  qed
qed

definition str_pieces :: "byte list \<Rightarrow> byte list \<Rightarrow> (nat \<times> nat) list" where
  "str_pieces ys xs =
     (case ys of [] \<Rightarrow> map (\<lambda>i. (i, 1)) [0..<length xs] | [c] \<Rightarrow> cuts (\<lambda>x. x = c) 0 0 xs
      | _ \<Rightarrow> str_cuts xs ys 0 0)"

lemma bsplitstrcb_pieces:
  assumes "bs_rep b xs" and "bs_rep sp ys" and "list_holds mem b xs [] st"
  shows "delivered (bscb (Some b)) (length xs) (list_holds mem b xs) [] (str_pieces ys xs)
    (bsplitstrcb (Some b) (Some sp) 0 (Some (bscb (Some b))) st)"
proof -
  note len = slen_rep [OF assms(1)] slen_rep [OF assms(2)]
  consider (none) "ys = []" | (one) c where "ys = [c]" | (many) x y zs where "ys = x # y # zs"
    by (metis neq_Nil_conv)
  then show ?thesis
  proof cases
    case none
    with listed.each_char_pieces [OF assms(3), of 0 "length xs"] len show ?thesis
      by (simp add: bsplitstrcb_def str_pieces_def)
  next
    case one
    with char_at_rep [OF assms(2), of 0] bsplitcb_pieces [OF assms(1,3), of c] len show ?thesis
      by (simp add: bsplitstrcb_def str_pieces_def)
  next
    case many
    then have ne: "ys \<noteq> []" "slen sp \<noteq> 0" "slen sp \<noteq> 1" using len by auto
    note str = len(1) refl separator_at_rep [OF assms(1,2)] ne(1)
    have "delivered (bscb (Some b)) (length xs) (list_holds mem b xs) [] (str_cuts xs ys 0 0)
        (splitstr_loop b sp (length ys) (bscb (Some b)) (int 0) (int 0) st)"
      by (rule listed.splitstr_pieces [OF str]) (use assms(3) in simp_all)
    moreover have "str_pieces ys xs = str_cuts xs ys 0 0" using many by (simp add: str_pieces_def)
    ultimately show ?thesis using ne len by (simp add: bsplitstrcb_def)
  qed
qed

lemma destroy_entries_ok:
  "entry bl = Some es \<Longrightarrow> i + n \<le> length es \<Longrightarrow> (\<forall>j<i + n. es ! j \<noteq> None) \<Longrightarrow>
    \<exists>bl'. destroy_entries bl (int i) n = Inr bl'"
proof (induction n arbitrary: bl es i)
  case (Suc n)
  from Suc.prems have "i < length es" "es ! i \<noteq> None" by simp_all
  then obtain e where e: "get_entry bl (int i) = Inr e" using Suc.prems(1) by (auto simp: get_entry_def)
  show ?case
  proof (cases e)
    case None
    with e Suc.IH [of bl es "Suc i"] Suc.prems show ?thesis by (simp add: add.commute)
  next
    case (Some b)
    let ?bl = "bl\<lparr>entry := Some (es[i := Some None])\<rparr>"
    have "\<exists>bl'. destroy_entries ?bl (int (Suc i)) n = Inr bl'"
      using Suc.prems by (intro Suc.IH [of _ "es[i := Some None]"]) (auto simp: nth_list_update)
    moreover have "set_entry bl (int i) None = Inr ?bl" using Suc.prems by (simp add: set_entry_def)
    ultimately show ?thesis using e Some by (simp add: add.commute)
  qed
qed simp

lemma bstrListDestroy_ok:
  assumes "list_strings mem yss bl"
  shows "bstrListDestroy (Some bl) = Inr (BSTR_OK, None)"
proof -
  from assms obtain es rest where e: "entry bl = Some (es @ rest)" "qty bl = int (length yss)"
    "list_all2 (piece_ok mem) yss es" by (auto simp: list_strings_def)
  then have len: "length es = length yss" by (simp add: list_all2_lengthD)
  have "\<forall>j<length yss. (es @ rest) ! j \<noteq> None"
    using e(3) len by (auto simp: list_all2_conv_all_nth piece_ok_def nth_append)
  with destroy_entries_ok [OF e(1), of 0 "length yss"] len e(2) show ?thesis
    by (auto simp: bstrListDestroy_def)
qed

lemma split_into_pieces:
  assumes b: "bs_rep b xs" "length xs < 2 ^ 29" and mem: "mem \<longrightarrow> al = []"
    and run: "\<And>st. list_holds mem b xs [] st \<Longrightarrow>
      delivered (bscb (Some b)) (length xs) (list_holds mem b xs) [] qs (run (Some (bscb (Some b))) st)"
  shows "\<exists>out al'. split_into run (Some b) al = Inr (out, al') \<and>
    (\<forall>bl. out = Some bl \<longrightarrow> list_strings mem (map (piece_of xs) qs) bl) \<and> (mem \<longrightarrow> out \<noteq> None \<and> al' = [])"
proof (cases "fst (answer al) \<and> fst (answer (snd (answer al)))")
  case False
  with mem have "\<not> mem" by auto
  with False show ?thesis
    by (auto simp: split_into_def entries_alloc_def split: prod.split bool.split)
next
  case True
  then obtain al1 al2 where a: "answer al = (True, al1)" "answer al1 = (True, al2)"
    by (metis prod.collapse snd_conv)
  let ?bl = "\<lparr>qty = 0, room = 4, entry = Some (replicate 4 None)\<rparr> :: bstrList"
  have al2: "mem \<longrightarrow> al2 = []" using a mem by (cases mem) auto
  have "list_strings mem (map (piece_of xs) []) ?bl"
    by (auto simp: list_strings_def intro!: exI [of _ "replicate 4 None"])
  with b al2 have "list_holds mem b xs [] (?bl, al2)" by (simp add: list_holds_def)
  note out = run [OF this]
  have start: "split_into run (Some b) al =
      bind_res (run (Some (bscb (Some b))) (?bl, al2)) (\<lambda>(ret, bl, al).
        if ret < 0 then bind_res (bstrListDestroy (Some bl)) (\<lambda>_. Inr (None, al)) else Inr (Some bl, al))"
    using a by (simp add: split_into_def entries_alloc_def numeral_eq_Suc)
  show ?thesis
  proof (cases mem)
    case True
    with out have "delivered (bscb (Some b)) (length xs) (list_holds True b xs) [] qs
        (run (Some (bscb (Some b))) (?bl, al2))" by simp
    from kept.delivered_all [OF this] obtain st where
      "run (Some (bscb (Some b))) (?bl, al2) = Inr (BSTR_OK, st)" "list_holds True b xs qs st"
      by (simp only: append_Nil) blast
    with True start show ?thesis by (cases st) (simp add: list_holds_def BSTR_OK_def)
  next
    case False
    from out obtain r st k where d: "run (Some (bscb (Some b))) (?bl, al2) = Inr (r, st)"
      "list_holds mem b xs (take k qs) st" "\<not> r < 0 \<Longrightarrow> length qs \<le> k"
      by (auto simp: delivered_def split: if_splits)
    then have strings: "list_strings mem (map (piece_of xs) (take k qs)) (fst st)"
      by (cases st) (simp add: list_holds_def)
    show ?thesis
    proof (cases "r < 0")
      case True
      with False d start bstrListDestroy_ok [OF strings] show ?thesis by (cases st) simp
    next
      case ok: False
      with False d start strings show ?thesis by (cases st) simp
    qed
  qed
qed

lemma bparts_rep: "bs_rep b xs \<Longrightarrow> \<exists>p. bparts (Some b) = Some p"
  using bs_rep_parts by blast

lemma bsplit_list:
  assumes "bs_rep b xs" and "length xs < 2 ^ 29" and "mem \<longrightarrow> al = []"
  shows "\<exists>out al'. bsplit (Some b) c al = Inr (out, al') \<and>
    (\<forall>bl. out = Some bl \<longrightarrow> list_strings mem (split_where (\<lambda>x. x = c) xs) bl) \<and> (mem \<longrightarrow> out \<noteq> None \<and> al' = [])"
proof -
  obtain p where p: "bparts (Some b) = Some p" using bparts_rep [OF assms(1)] by blast
  have "\<exists>out al'. split_into (\<lambda>cb. bsplitcb (Some b) c 0 cb) (Some b) al = Inr (out, al') \<and>
      (\<forall>bl. out = Some bl \<longrightarrow> list_strings mem (map (piece_of xs) (cuts (\<lambda>x. x = c) 0 0 xs)) bl) \<and>
      (mem \<longrightarrow> out \<noteq> None \<and> al' = [])"
    by (rule split_into_pieces [OF assms]) (rule bsplitcb_pieces [OF assms(1)])
  then show ?thesis by (simp add: bsplit_def p bsplit_pieces)
qed

lemma bsplits_list:
  assumes "bs_rep b xs" and "bs_rep sp cs" and "length xs < 2 ^ 29" and "mem \<longrightarrow> al = []"
  shows "\<exists>out al'. bsplits (Some b) (Some sp) al = Inr (out, al') \<and>
    (\<forall>bl. out = Some bl \<longrightarrow>
      list_strings mem (if cs = [] then [xs] else split_where (\<lambda>x. x \<in> set cs) xs) bl) \<and>
    (mem \<longrightarrow> out \<noteq> None \<and> al' = [])"
proof -
  obtain p q where p: "bparts (Some b) = Some p" "bparts (Some sp) = Some q"
    using bparts_rep assms(1,2) by blast
  let ?qs = "if cs = [] then [(0, length xs)] else cuts (\<lambda>x. x \<in> set cs) 0 0 xs"
  have "\<exists>out al'. split_into (\<lambda>cb. bsplitscb (Some b) (Some sp) 0 cb) (Some b) al = Inr (out, al') \<and>
      (\<forall>bl. out = Some bl \<longrightarrow> list_strings mem (map (piece_of xs) ?qs) bl) \<and> (mem \<longrightarrow> out \<noteq> None \<and> al' = [])"
    by (rule split_into_pieces [OF assms(1,3,4)]) (rule bsplitscb_pieces [OF assms(1,2)])
  moreover have "map (piece_of xs) ?qs = (if cs = [] then [xs] else split_where (\<lambda>x. x \<in> set cs) xs)"
    by (simp add: bsplit_pieces)
  ultimately show ?thesis by (simp add: bsplits_def p)
qed

lemma bsplitstr_list:
  assumes "bs_rep b xs" and "bs_rep sp ys" and "length xs < 2 ^ 29" and "mem \<longrightarrow> al = []"
  shows "\<exists>out al'. bsplitstr (Some b) (Some sp) al = Inr (out, al') \<and>
    (\<forall>bl. out = Some bl \<longrightarrow> list_strings mem (map (piece_of xs) (str_pieces ys xs)) bl) \<and>
    (mem \<longrightarrow> out \<noteq> None \<and> al' = [])"
proof -
  obtain p where p: "bparts (Some b) = Some p" using bparts_rep assms(1) by blast
  have "\<exists>out al'. split_into (\<lambda>cb. bsplitstrcb (Some b) (Some sp) 0 cb) (Some b) al = Inr (out, al') \<and>
      (\<forall>bl. out = Some bl \<longrightarrow> list_strings mem (map (piece_of xs) (str_pieces ys xs)) bl) \<and>
      (mem \<longrightarrow> out \<noteq> None \<and> al' = [])"
    by (rule split_into_pieces [OF assms(1,3,4)]) (rule bsplitstrcb_pieces [OF assms(1,2)])
  then show ?thesis by (simp add: bsplitstr_def p)
qed

section \<open>Joining a list\<close>

lemma length_join_with: "yss \<noteq> [] \<Longrightarrow>
    length (join_with sep yss) = sum_list (map length yss) + (length yss - 1) * length sep"
  by (cases yss) (auto simp: length_concat comp_def sum_list_addf sum_list_triv)

lemma join_with_snoc: "join_with sep (yss @ [y]) = (if yss = [] then y else join_with sep yss @ sep @ y)"
  by (cases yss) simp_all

definition strings_list :: "byte list list \<Rightarrow> bstrList \<Rightarrow> bool" where
  "strings_list yss bl \<longleftrightarrow> qty bl = int (length yss) \<and>
     (\<forall>i<length yss. \<exists>b. get_entry bl (int i) = Inr (Some b) \<and> bs_rep b (yss ! i))"

lemma list_strings_get:
  assumes "list_strings True yss bl"
  shows "strings_list yss bl"
proof -
  from assms obtain es rest where e: "entry bl = Some (es @ rest)" "qty bl = int (length yss)"
    "list_all2 (piece_ok True) yss es" by (auto simp: list_strings_def)
  then have len: "length es = length yss" by (simp add: list_all2_lengthD)
  have "\<exists>b. get_entry bl (int i) = Inr (Some b) \<and> bs_rep b (yss ! i)" if i: "i < length yss" for i
  proof -
    have "piece_ok True (yss ! i) (es ! i)" using e(3) i by (auto simp: list_all2_conv_all_nth)
    then obtain b where "es ! i = Some (Some b)" "bs_ok b (yss ! i)" by (auto simp: piece_ok_def)
    with e(1) i len show ?thesis by (auto simp: get_entry_def nth_append bs_ok_def)
  qed
  with e(2) show ?thesis by (simp add: strings_list_def)
qed

lemma join_len_sum:
  assumes "strings_list yss bl"
  shows "i + n = length yss \<Longrightarrow> 0 \<le> c \<Longrightarrow> c + int (sum_list (map length (drop i yss))) < 2 ^ 31 \<Longrightarrow>
    join_len bl (int i) c n = Inr (Some (c + int (sum_list (map length (drop i yss)))))"
proof (induction n arbitrary: i c)
  case (Suc n)
  then have i: "i < length yss" by simp
  then obtain b where b: "get_entry bl (int i) = Inr (Some b)" "bs_rep b (yss ! i)"
    using assms by (auto simp: strings_list_def)
  have d: "drop i yss = yss ! i # drop (Suc i) yss" using i by (simp add: Cons_nth_drop_Suc)
  have v: "slen b = int (length (yss ! i))" by (rule slen_rep [OF b(2)])
  have s: "s32 (c + int (length (yss ! i))) = c + int (length (yss ! i))"
    using Suc.prems by (intro s32_id) (simp_all add: d)
  have "join_len bl (int (Suc i)) (c + int (length (yss ! i))) n =
      Inr (Some (c + int (length (yss ! i)) + int (sum_list (map length (drop (Suc i) yss)))))"
    using Suc.prems by (intro Suc.IH) (simp_all add: d)
  with b(1) v s Suc.prems(2) show ?case by (simp add: d Let_def add.commute)
qed simp

definition separator :: "bstring option \<Rightarrow> byte list \<Rightarrow> bool" where
  "separator sp sep \<longleftrightarrow> (case sp of None \<Rightarrow> sep = [] | Some s \<Rightarrow> bs_rep s sep)"

lemma join_fill_step:
  assumes "strings_list yss bl" and "separator sp sep" and "i < length yss"
    and "length r = length (join_with sep (take (Suc i) yss)) - length (join_with sep (take i yss)) + length r'"
    and "length (join_with sep (take (Suc i) yss)) < 2 ^ 31"
  shows "\<exists>r''. length r'' = length r' \<and>
    join_fill bl sp (map Some (join_with sep (take i yss)) @ r) (int i) (int (length (join_with sep (take i yss)))) (Suc n) =
    join_fill bl sp (map Some (join_with sep (take (Suc i) yss)) @ r'') (int (Suc i))
      (int (length (join_with sep (take (Suc i) yss)))) n"
proof -
  obtain b where b: "get_entry bl (int i) = Inr (Some b)" "bs_rep b (yss ! i)"
    using assms(1,3) by (auto simp: strings_list_def)
  have v: "slen b = int (length (yss ! i))" by (rule slen_rep [OF b(2)])
  have t: "take (Suc i) yss = take i yss @ [yss ! i]" using assms(3) by (simp add: take_Suc_conv_app_nth)
  let ?pre = "join_with sep (take i yss)" and ?y = "yss ! i"
  define gap where "gap = (if i = 0 then [] else sep)"
  have new: "join_with sep (take (Suc i) yss) = ?pre @ gap @ ?y"
    using assms(3) by (auto simp: t join_with_snoc gap_def)
  then have lr: "length r = length gap + length ?y + length r'" using assms(4) by simp
  define r1 r2 r3 where "r1 = take (length gap) r" and "r2 = take (length ?y) (drop (length gap) r)"
    and "r3 = drop (length ?y) (drop (length gap) r)"
  have r: "r = r1 @ r2 @ r3" "length r1 = length gap" "length r2 = length ?y" "length r3 = length r'"
    using lr unfolding r1_def r2_def r3_def by (simp_all only: append_take_drop_id) simp_all
  have total: "int (length ?pre) + int (length gap) + int (length ?y) < 2 ^ 31"
    using assms(5) by (simp add: new)
  have first: "(case sp of Some s \<Rightarrow>
        if int i > 0 then bind_res (copy_from (map Some ?pre @ r) (int (length ?pre)) s (slen s))
          (\<lambda>d. Inr (d, s32 (int (length ?pre) + slen s))) else Inr (map Some ?pre @ r, int (length ?pre))
      | None \<Rightarrow> Inr (map Some ?pre @ r, int (length ?pre))) =
      Inr (map Some (?pre @ gap) @ r2 @ r3, int (length (?pre @ gap)))"
  proof (cases "sp = None \<or> i = 0")
    case True
    then have "gap = []" using assms(2) by (auto simp: gap_def separator_def)
    with True r show ?thesis by (auto split: option.split)
  next
    case False
    then obtain s where s: "sp = Some s" "bs_rep s sep" using assms(2) by (auto simp: separator_def)
    have g: "gap = sep" using False by (simp add: gap_def)
    have "s32 (int (length ?pre) + int (length sep)) = int (length ?pre) + int (length sep)"
      using total by (intro s32_id) (simp_all add: g)
    with False s(1) slen_rep [OF s(2)] copy_from_at [OF s(2), of "int (length ?pre)" "map Some ?pre" r1 "r2 @ r3"] r g
    show ?thesis by simp
  qed
  have second: "copy_from (map Some (?pre @ gap) @ r2 @ r3) (int (length (?pre @ gap))) b (slen b) =
      Inr (map Some (?pre @ gap) @ map Some ?y @ r3)"
    unfolding v by (rule copy_from_at [OF b(2)]) (use r in simp_all)
  have s: "s32 (int (length (?pre @ gap)) + slen b) = int (length (?pre @ gap @ ?y))"
    using total by (subst s32_id) (simp_all add: v)
  have "join_fill bl sp (map Some ?pre @ r) (int i) (int (length ?pre)) (Suc n) =
      join_fill bl sp (map Some (?pre @ gap @ ?y) @ r3) (int (Suc i)) (int (length (?pre @ gap @ ?y))) n"
    by (simp only: join_fill.simps first bind_res.simps prod.case b(1) option.case second s)
      (simp add: add.commute)
  with r(4) new show ?thesis by auto
qed

lemma length_join_mono: "i \<le> j \<Longrightarrow> length (join_with sep (take i yss)) \<le> length (join_with sep (take j yss))"
proof (induction j)
  case (Suc j)
  have "length (join_with sep (take j yss)) \<le> length (join_with sep (take (Suc j) yss))"
    by (cases "j < length yss") (auto simp: take_Suc_conv_app_nth join_with_snoc)
  with Suc show ?case by (cases "i = Suc j") auto
qed simp

lemma join_fill_all:
  assumes "strings_list yss bl" and "separator sp sep" and "length (join_with sep yss) < 2 ^ 31"
  shows "i + n = length yss \<Longrightarrow>
    length r = length (join_with sep yss) - length (join_with sep (take i yss)) + k \<Longrightarrow>
    \<exists>r'. length r' = k \<and>
      join_fill bl sp (map Some (join_with sep (take i yss)) @ r) (int i) (int (length (join_with sep (take i yss)))) n =
      Inr (map Some (join_with sep yss) @ r', int (length (join_with sep yss)))"
proof (induction n arbitrary: i r)
  case 0
  then show ?case by simp
next
  case (Suc n)
  let ?j = "\<lambda>i. length (join_with sep (take i yss))"
  have mono: "?j i \<le> ?j (Suc i)" "?j (Suc i) \<le> length (join_with sep yss)"
    using length_join_mono [of i "Suc i" sep yss] length_join_mono [of "Suc i" "length yss" sep yss] Suc.prems(1)
    by simp_all
  have len: "length r = ?j (Suc i) - ?j i + length (replicate (length (join_with sep yss) - ?j (Suc i) + k) ())"
    using Suc.prems(2) mono by simp
  have i: "i < length yss" "?j (Suc i) < 2 ^ 31" using Suc.prems(1) mono assms(3) by linarith+
  obtain r'' where r'': "length r'' = length (join_with sep yss) - ?j (Suc i) + k"
    "join_fill bl sp (map Some (join_with sep (take i yss)) @ r) (int i) (int (?j i)) (Suc n) =
     join_fill bl sp (map Some (join_with sep (take (Suc i) yss)) @ r'') (int (Suc i)) (int (?j (Suc i))) n"
    using join_fill_step [OF assms(1,2) i(1) len i(2), of n] by auto
  show ?case unfolding r''(2) using Suc.prems(1) r''(1) by (intro Suc.IH) simp_all
qed

lemma bjoin_list:
  assumes l: "strings_list yss bl" and sep: "separator sp sep" and ne: "yss \<noteq> []"
    and len: "int (length (join_with sep yss)) < 2 ^ 31 - 1"
  shows "\<exists>out al'. bjoin (Some bl) sp al = Inr (out, al') \<and>
    (\<forall>b. out = Some b \<longrightarrow> bs_ok b (join_with sep yss)) \<and> (al = [] \<longrightarrow> out \<noteq> None \<and> al' = [])"
proof -
  have q: "qty bl = int (length yss)" using l by (simp add: strings_list_def)
  let ?sum = "int (sum_list (map length yss))" and ?n = "length (join_with sep yss)"
  have gaps: "(qty bl - 1) * int (length sep) = int ((length yss - 1) * length sep)"
    using ne q by (cases yss) simp_all
  have n: "int ?n = ?sum + (qty bl - 1) * int (length sep)"
    unfolding gaps by (simp only: length_join_with [OF ne] of_nat_add)
  have sum: "join_len bl 0 1 (nat (qty bl)) = Inr (Some (1 + ?sum))"
  proof -
    have "0 \<le> (qty bl - 1) * int (length sep)" unfolding gaps by simp
    then have "1 + ?sum < 2 ^ 31" using n len by linarith
    then show ?thesis using join_len_sum [OF l, of 0 "length yss" 1] q by simp
  qed
  have size: "(case sp of None \<Rightarrow> 1 + ?sum | Some s \<Rightarrow> s32 (1 + ?sum + s32 ((qty bl - 1) * slen s))) = int ?n + 1"
  proof (cases sp)
    case None
    with sep n show ?thesis by (simp add: separator_def)
  next
    case (Some s)
    then have "slen s = int (length sep)" using sep slen_rep by (simp add: separator_def)
    moreover have "0 \<le> (qty bl - 1) * int (length sep)" "0 \<le> ?sum" unfolding gaps by simp_all
    then have "s32 ((qty bl - 1) * int (length sep)) = (qty bl - 1) * int (length sep)"
      "s32 (1 + ?sum + (qty bl - 1) * int (length sep)) = 1 + ?sum + (qty bl - 1) * int (length sep)"
      using n len by (intro s32_id; linarith)+
    ultimately show ?thesis using Some n by simp
  qed
  have valid: "\<not> (case sp of None \<Rightarrow> False | Some s \<Rightarrow> slen s < 0 \<or> data s = None)"
    using sep by (auto simp: separator_def bs_rep_def split: option.splits)
  have short: "?n < 2 ^ 31" using len by simp
  from join_fill_all [OF l sep short, of 0 "length yss" "replicate (?n + 1) None" 1] q obtain r' where
    r': "length r' = 1" "join_fill bl sp (replicate (?n + 1) None) 0 0 (nat (qty bl)) =
      Inr (map Some (join_with sep yss) @ r', int ?n)" by auto
  then obtain x where x: "r' = [x]" by (auto simp: length_Suc_conv)
  have put: "put (map Some (join_with sep yss) @ [x]) (int ?n) 0 = Inr (map Some (join_with sep yss) @ [Some 0])"
    by (simp add: put_def list_update_append)
  have run: "bjoin (Some bl) sp al =
      (case answer al of (False, al) \<Rightarrow> Inr (None, al)
       | (True, al) \<Rightarrow> (case bstr_alloc (int ?n + 1) al of (None, al) \<Rightarrow> Inr (None, al)
          | (Some d, al) \<Rightarrow> bind_res (join_fill bl sp d 0 0 (nat (qty bl))) (\<lambda>(d, n).
              bind_res (put d n 0) (\<lambda>d.
              Inr (Some \<lparr>mlen = int ?n + 1, slen = int ?n + 1 - 1, data = Some d\<rparr>, al)))))"
  proof -
    have "\<not> qty bl < 0" using q by simp
    with valid show ?thesis by (simp only: bjoin_def option.case if_False sum bind_res.simps size Let_def)
  qed
  let ?b = "\<lparr>mlen = int ?n + 1, slen = int ?n, data = Some (map Some (join_with sep yss) @ [Some 0])\<rparr> :: bstring"
  have ok: "bs_ok ?b (join_with sep yss)" using len by (auto simp: bs_ok_def bs_rep_def nat_add_distrib nth_append)
  obtain a al1 where a: "answer al = (a, al1)" by (cases "answer al")
  show ?thesis
  proof (cases "a \<and> fst (answer al1)")
    case True
    then obtain al2 where al2: "answer al1 = (True, al2)" by (metis prod.collapse)
    have "nat (int ?n + 1) = ?n + 1" by simp
    with True a al2 have "bjoin (Some bl) sp al = Inr (Some ?b, al2)"
      unfolding run by (simp add: bstr_alloc_def r'(2) [unfolded Suc_eq_plus1 [symmetric]] x put del: replicate_Suc replicate_add)
    with ok a al2 show ?thesis by (auto simp: True)
  next
    case False
    with a show ?thesis unfolding run
      by (auto simp: bstr_alloc_def split: prod.split bool.split)
  qed
qed

section \<open>Splitting and joining\<close>

lemma join_str_pieces:
  assumes "ys \<noteq> []"
  shows "join_with ys (map (piece_of xs) (str_pieces ys xs)) = xs"
proof -
  consider (one) c where "ys = [c]" | (many) x y zs where "ys = x # y # zs" using assms by (metis neq_Nil_conv)
  then show ?thesis
  proof cases
    case one
    then show ?thesis by (simp add: str_pieces_def bsplit_pieces join_split_where)
  next
    case many
    then show ?thesis using join_str_cuts [of 0 0 xs ys] by (simp add: str_pieces_def)
  qed
qed

lemma cuts_some: "cuts P p i xs \<noteq> []"
  by (induction xs arbitrary: p i) auto

lemma str_pieces_some: "ys \<noteq> [] \<Longrightarrow> str_pieces ys xs \<noteq> []"
  using str_cuts_Cons [of xs ys 0 0] cuts_some by (auto simp: str_pieces_def split: list.split)

lemma join_whole:
  assumes "list_strings True yss bl" and "bs_rep s sep" and "yss \<noteq> []" and "join_with sep yss = xs"
    and "length xs < 2 ^ 29"
  shows "\<exists>b'. bjoin (Some bl) (Some s) [] = Inr (Some b', []) \<and> bs_ok b' xs"
  using bjoin_list [OF list_strings_get [OF assms(1)], of "Some s" sep "[]"] assms(2-5)
  by (fastforce simp: separator_def)

text \<open>
  C31: splitting a string at a character yields the pieces between its occurrences, one more than
  there are, and joining a split list with what it was split at, a character or a string,
  gives the string back. All copies, the growing of the list from four entries, and the loops
  stay inside their memory and end.
\<close>

theorem split_join:
  assumes "bs_rep b xs" and "bs_rep s [c]" and "bs_rep sp ys" and "ys \<noteq> []" and "length xs < 2 ^ 29"
  shows "(\<exists>bl b'. bsplit (Some b) c [] = Inr (Some bl, []) \<and>
      list_strings True (split_where (\<lambda>x. x = c) xs) bl \<and>
      bjoin (Some bl) (Some s) [] = Inr (Some b', []) \<and> bs_ok b' xs) \<and>
    (\<exists>bl b'. bsplitstr (Some b) (Some sp) [] = Inr (Some bl, []) \<and>
      bjoin (Some bl) (Some sp) [] = Inr (Some b', []) \<and> bs_ok b' xs)"
proof
  obtain bl where bl: "bsplit (Some b) c [] = Inr (Some bl, [])" "list_strings True (split_where (\<lambda>x. x = c) xs) bl"
    using bsplit_list [OF assms(1,5), of True "[]" c] by auto
  moreover have "split_where (\<lambda>x. x = c) xs \<noteq> []" using split_where_Cons [of "\<lambda>x. x = c" xs] by auto
  ultimately show "\<exists>bl b'. bsplit (Some b) c [] = Inr (Some bl, []) \<and>
      list_strings True (split_where (\<lambda>x. x = c) xs) bl \<and>
      bjoin (Some bl) (Some s) [] = Inr (Some b', []) \<and> bs_ok b' xs"
    using join_whole [OF bl(2) assms(2) _ join_split_where assms(5)] by blast
  obtain bl where bl: "bsplitstr (Some b) (Some sp) [] = Inr (Some bl, [])"
    "list_strings True (map (piece_of xs) (str_pieces ys xs)) bl"
    using bsplitstr_list [OF assms(1,3,5), of True "[]"] by auto
  with join_whole [OF bl(2) assms(3) _ join_str_pieces [OF assms(4)] assms(5)] str_pieces_some [OF assms(4), of xs]
  show "\<exists>bl b'. bsplitstr (Some b) (Some sp) [] = Inr (Some bl, []) \<and>
      bjoin (Some bl) (Some sp) [] = Inr (Some b', []) \<and> bs_ok b' xs" by auto
qed

definition dashes :: bstring where
  "dashes = \<lparr>mlen = 4, slen = 2, data = Some [Some 45, Some 45, Some 0, None]\<rparr>"

definition dash :: bstring where
  "dash = \<lparr>mlen = 4, slen = 1, data = Some [Some 45, Some 0, None, None]\<rparr>"

definition dashed :: bstring where
  "dashed = \<lparr>mlen = 8, slen = 6, data = Some (map Some [97, 45, 45, 45, 45, 98] @ [Some 0, None])\<rparr>"

lemma dashed_rep: "bs_rep dashed [97, 45, 45, 45, 45, 98]" "bs_rep dashes [45, 45]" "bs_rep dash [45]"
  by (simp_all add: bs_rep_def dashed_def dashes_def dash_def)

theorem split_join_witness:
  "\<exists>bl b'. bsplit (Some dashed) 45 [] = Inr (Some bl, []) \<and> list_strings True [[97], [], [], [], [98]] bl \<and>
     bjoin (Some bl) (Some dash) [] = Inr (Some b', []) \<and> bs_ok b' [97, 45, 45, 45, 45, 98]"
proof -
  have "split_where (\<lambda>x. x = 45) [97, 45, 45, 45, 45, 98] = [[97], [], [], [], [98 :: byte]]" by simp
  with split_join [OF dashed_rep(1,3,2)] show ?thesis by simp
qed

section \<open>Where it goes wrong\<close>

text \<open>
  \<open>bsplitstr\<close> does not see a separator that directly follows another one: after a match, the loop
  steps over one more position.
\<close>

lemma bsplitstr_misses:
  "\<exists>bl. bsplitstr (Some dashed) (Some dashes) [] = Inr (Some bl, []) \<and> list_strings True [[97], [45, 45, 98]] bl"
proof -
  have "map (piece_of [97, 45, 45, 45, 45, 98]) (str_pieces [45, 45] [97, 45, 45, 45, 45, 98]) = [[97], [45, 45, 98]]"
    by code_simp
  with bsplitstr_list [OF dashed_rep(1,2), of True "[]"] show ?thesis by auto
qed

text \<open>
  An empty list, as \<open>bstrListCreate\<close> makes it, joined with a separator of one character: the size
  comes out as 0, and the terminator is written behind the buffer.
\<close>

lemma bjoin_empty:
  assumes "bs_rep s [c]"
  shows "\<exists>bl. bstrListCreate [] = (Some bl, []) \<and> bjoin (Some bl) (Some s) [] = Inl OutOfBounds"
  using assms by (auto simp: bstrListCreate_def entries_alloc_def bjoin_def bs_rep_def s32_def bstr_alloc_def put_def)

text \<open>
  Where there is no memory for the copy of a piece, \<open>bsplit\<close> reports success and the list has a
  NULL entry, which \<open>bjoin\<close> reads through.
\<close>

lemma bsplit_null_entry:
  "\<exists>bl. bsplit (Some dash) 44 [True, True, False] = Inr (Some bl, []) \<and>
     bjoin (Some bl) (Some dash) [] = Inl NullPointer"
proof -
  have "bsplit (Some dash) 44 [True, True, False] =
      Inr (Some \<lparr>qty = 1, room = 4, entry = Some [Some None, None, None, None]\<rparr>, [])"
    by (simp add: bsplit_def bparts_def dash_def split_into_def entries_alloc_def bsplitcb_def split_loop.simps
        char_at_def cell_def bscb_def bmidstr_def blk2bstr_def set_entry_def BSTR_OK_def numeral_eq_Suc)
  then show ?thesis by (simp add: bjoin_def dash_def get_entry_def)
qed

end
