(* ===== verification/Base64.thy ===== *)
theory Base64
  imports BSearch
begin

text \<open>
  Base64 in \<open>bstraux.c\<close>: the encoder, the decoder, and that decoding gives back what was
  encoded, whatever allocations fail on the way: a failure is reported, never a wrong content.
\<close>

section \<open>Encoding\<close>

definition b64ETable :: "byte list" where
  "b64ETable = bytes_of ''ABCDEFGHIJKLMNOPQRSTUVWXYZabcdefghijklmnopqrstuvwxyz0123456789+/''"

definition b64_at :: "int \<Rightarrow> byte res" where
  "b64_at c = (if 0 \<le> c then rd b64ETable (nat c) else Inl OutOfBounds)"

text \<open>A chain of \<open>bconchar (out, c) < 0 || ...\<close>: whether one of them has failed.\<close>

fun bconchars :: "bstring option \<Rightarrow> byte list \<Rightarrow> alloc \<Rightarrow> (bool \<times> bstring option \<times> alloc) res" where
  "bconchars out [] al = Inr (False, out, al)"
| "bconchars out (c # cs) al =
     bind_res (bconchar out c al) (\<lambda>(r, out, al).
     if r < 0 then Inr (True, out, al) else bconchars out cs al)"

text \<open>The numbers of the symbols for three bytes; \<open>int\<close> arithmetic on bytes does not overflow.\<close>

definition sym0 :: "byte \<Rightarrow> int" where
  "sym0 x = drop_bit 2 (uint x)"

definition sym1 :: "byte \<Rightarrow> byte \<Rightarrow> int" where
  "sym1 x y = (push_bit 4 (uint x) OR drop_bit 4 (uint y)) AND 0x3F"

definition sym2 :: "byte \<Rightarrow> byte \<Rightarrow> int" where
  "sym2 y z = (push_bit 2 (uint y) OR drop_bit 6 (uint z)) AND 0x3F"

definition sym3 :: "byte \<Rightarrow> int" where
  "sym3 z = uint z AND 0x3F"

text \<open>The output string after an error: it is freed, and the result is NULL.\<close>

definition encode_chars ::
    "bstring option \<Rightarrow> byte list \<Rightarrow> alloc \<Rightarrow> (bstring option \<Rightarrow> alloc \<Rightarrow> (bstring option \<times> alloc) res)
     \<Rightarrow> (bstring option \<times> alloc) res" where
  "encode_chars out cs al next_step =
     bind_res (bconchars out cs al) (\<lambda>(failed, out, al).
     if failed then Inr (None, al) else next_step out al)"

definition symbols :: "int list \<Rightarrow> (byte list \<Rightarrow> 'a res) \<Rightarrow> 'a res" where
  "symbols cs f = foldr (\<lambda>c k acc. bind_res (b64_at c) (\<lambda>b. k (acc @ [b]))) cs f []"

definition crlf :: "byte list" where
  "crlf = [13, 10]"

text \<open>The line break before the group at \<open>i\<close>, which the code has in two places.\<close>

definition line_break :: "int \<Rightarrow> byte list" where
  "line_break i = (if i \<noteq> 0 \<and> i mod 57 = 0 then crlf else [])"

function encode_loop ::
    "byte option list \<Rightarrow> int \<Rightarrow> int \<Rightarrow> bstring option \<Rightarrow> alloc \<Rightarrow> (bstring option \<times> alloc) res" where
  "encode_loop d sl i out al =
     (if i + 2 < sl then
        encode_chars out (line_break i) al (\<lambda>out al.
        bind_res (cell d i) (\<lambda>x. bind_res (cell d (i + 1)) (\<lambda>y. bind_res (cell d (i + 2)) (\<lambda>z.
        symbols [sym0 x, sym1 x y, sym2 y z, sym3 z] (\<lambda>cs.
        encode_chars out cs al (\<lambda>out al. encode_loop d sl (i + 3) out al))))))
      else
        encode_chars out (line_break i) al (\<lambda>out al.
        if i + 2 - sl = 0 then
          bind_res (cell d i) (\<lambda>x. bind_res (cell d (i + 1)) (\<lambda>y.
          symbols [sym0 x, sym1 x y, push_bit 2 (uint y) AND 0x3F] (\<lambda>cs.
          encode_chars out (cs @ [61]) al (\<lambda>out al. Inr (out, al)))))
        else if i + 2 - sl = 1 then
          bind_res (cell d i) (\<lambda>x.
          symbols [sym0 x, push_bit 4 (uint x) AND 0x3F] (\<lambda>cs.
          encode_chars out (cs @ [61, 61]) al (\<lambda>out al. Inr (out, al))))
        else Inr (out, al)))"
  by pat_completeness auto
termination
  by (relation "measure (\<lambda>(d, sl, i, out, al). nat (sl - i))") auto

declare encode_loop.simps [simp del]

definition bBase64Encode :: "bstring option \<Rightarrow> alloc \<Rightarrow> (bstring option \<times> alloc) res" where
  "bBase64Encode bp al =
     (case bparts bp of None \<Rightarrow> Inr (None, al) | Some (d, sl) \<Rightarrow>
      bind_res (bfromcstr (Some [0]) al) (\<lambda>(out, al). encode_loop d sl 0 out al))"

section \<open>Decoding\<close>

definition B64_PAD :: int where "B64_PAD = -2"
definition B64_ERR :: int where "B64_ERR = -1"

definition base64DecodeSymbol :: "byte \<Rightarrow> int" where
  "base64DecodeSymbol alpha =
     (if of_char CHR ''A'' \<le> alpha \<and> alpha \<le> of_char CHR ''Z'' then uint alpha - of_char CHR ''A''
      else if of_char CHR ''a'' \<le> alpha \<and> alpha \<le> of_char CHR ''z'' then 26 + (uint alpha - of_char CHR ''a'')
      else if of_char CHR ''0'' \<le> alpha \<and> alpha \<le> of_char CHR ''9'' then 52 + (uint alpha - of_char CHR ''0'')
      else if alpha = of_char CHR ''+'' then 62
      else if alpha = of_char CHR ''/'' then 63
      else if alpha = of_char CHR ''='' then B64_PAD
      else B64_ERR)"

text \<open>
  The four loops that look for the next symbol differ in what they do at the end of the
  string and at a \<open>=\<close>; \<open>scan\<close> is what they share. It gives the value of the symbol and the
  position behind it.
\<close>

datatype scanned = AtEnd | AtPad int | Symbol int int

function scan :: "byte option list \<Rightarrow> int \<Rightarrow> int \<Rightarrow> scanned res" where
  "scan d sl i =
     (if i \<ge> sl then Inr AtEnd
      else bind_res (cell d i) (\<lambda>c.
        if c = of_char CHR ''='' then Inr (AtPad i)
        else let v = base64DecodeSymbol c in if v < 0 then scan d sl (i + 1) else Inr (Symbol v (i + 1))))"
  by pat_completeness auto
termination
  by (relation "measure (\<lambda>(d, sl, i). nat (sl - i))") auto

declare scan.simps [simp del]

text \<open>
  \<open>trunc\<close> is what \<open>boolTruncError\<close> points to, \<open>None\<close> when it is NULL. A truncated input, or a
  \<open>bconchar\<close> that fails, sets it and returns what has been decoded, or without it frees that.
\<close>

definition give_back ::
    "int \<Rightarrow> bstring option \<Rightarrow> int option \<Rightarrow> alloc \<Rightarrow> (bstring option \<times> int option \<times> alloc) res" where
  "give_back e out trunc al =
     (case trunc of Some _ \<Rightarrow> Inr (out, Some e, al) | None \<Rightarrow> Inr (None, None, al))"

definition decode_pad2 ::
    "byte option list \<Rightarrow> int \<Rightarrow> int \<Rightarrow> byte \<Rightarrow> bstring option \<Rightarrow> int option \<Rightarrow> alloc
     \<Rightarrow> (bstring option \<times> int option \<times> alloc) res" where
  "decode_pad2 d sl i c0 out trunc al =
     (let i = i + 1 in
      if i \<ge> sl then give_back 1 out trunc al
      else bind_res (cell d i) (\<lambda>c.
        if c \<noteq> of_char CHR ''='' then give_back 1 out trunc al
        else bind_res (bconchar out c0 al) (\<lambda>(r, out, al).
          if r < 0 then give_back 1 out trunc al else Inr (out, trunc, al))))"

definition decode_pad1 ::
    "byte \<Rightarrow> byte \<Rightarrow> bstring option \<Rightarrow> int option \<Rightarrow> alloc \<Rightarrow> (bstring option \<times> int option \<times> alloc) res" where
  "decode_pad1 c0 c1 out trunc al =
     bind_res (bconchars out [c0, c1] al) (\<lambda>(failed, out, al).
     if failed then give_back 1 out trunc al
     else Inr (out, map_option (\<lambda>_. 0) trunc, al))"

lemma scan_forward: "scan d sl i = Inr (Symbol v j) \<Longrightarrow> i < j \<and> j \<le> sl"
proof (induction d sl i rule: scan.induct)
  case (1 d sl i)
  from "1.prems" obtain c where c: "\<not> i \<ge> sl" "cell d i = Inr c" "c \<noteq> of_char CHR ''=''"
    by (subst (asm) scan.simps) (auto simp: res_simps split: if_splits)
  show ?case
  proof (cases "base64DecodeSymbol c < 0")
    case True
    with "1.prems" c have "scan d sl (i + 1) = Inr (Symbol v j)"
      by (subst (asm) scan.simps) simp
    from "1.IH" [OF c refl True this] show ?thesis by simp
  next
    case False
    with "1.prems" c show ?thesis by (subst (asm) scan.simps) simp
  qed
qed

function decode_loop ::
    "byte option list \<Rightarrow> int \<Rightarrow> int \<Rightarrow> bstring option \<Rightarrow> int option \<Rightarrow> alloc
     \<Rightarrow> (bstring option \<times> int option \<times> alloc) res" where
  "decode_loop d sl i out trunc al =
     bind_res (scan d sl i) (\<lambda>s. case s of
       AtEnd \<Rightarrow> Inr (out, trunc, al)
     | AtPad i \<Rightarrow> give_back 1 out trunc al
     | Symbol v i \<Rightarrow>
         let c0 = word_of_int (push_bit 2 v) :: byte in
         bind_res (scan d sl i) (\<lambda>s. case s of
           AtEnd \<Rightarrow> give_back 1 out trunc al
         | AtPad i \<Rightarrow> give_back 1 out trunc al
         | Symbol v i \<Rightarrow>
             let c0 = c0 OR word_of_int (drop_bit 4 v); c1 = word_of_int (push_bit 4 v) in
             bind_res (scan d sl i) (\<lambda>s. case s of
               AtEnd \<Rightarrow> give_back 1 out trunc al
             | AtPad i \<Rightarrow> decode_pad2 d sl i c0 out trunc al
             | Symbol v i \<Rightarrow>
                 let c1 = c1 OR word_of_int (drop_bit 2 v); c2 = word_of_int (push_bit 6 v) in
                 bind_res (scan d sl i) (\<lambda>s. case s of
                   AtEnd \<Rightarrow> give_back 1 out trunc al
                 | AtPad i \<Rightarrow> decode_pad1 c0 c1 out trunc al
                 | Symbol v i \<Rightarrow>
                     let c2 = c2 OR word_of_int v in
                     bind_res (bconchars out [c0, c1, c2] al) (\<lambda>(failed, out, al).
                     if failed then give_back (-1) out trunc al
                     else decode_loop d sl i out trunc al)))))"
  by pat_completeness auto
termination
  by (relation "measure (\<lambda>(d, sl, i, out, trunc, al). nat (sl - i))")
    (auto dest!: scan_forward)

declare decode_loop.simps [simp del]

definition bBase64DecodeEx ::
    "bstring option \<Rightarrow> int option \<Rightarrow> alloc \<Rightarrow> (bstring option \<times> int option \<times> alloc) res" where
  "bBase64DecodeEx bp trunc al =
     (case bparts bp of None \<Rightarrow> Inr (None, trunc, al) | Some (d, sl) \<Rightarrow>
      let trunc = map_option (\<lambda>_. 0) trunc in
      bind_res (bfromcstr (Some [0]) al) (\<lambda>(out, al). decode_loop d sl 0 out trunc al))"

section \<open>The symbols\<close>

definition b64_char :: "int \<Rightarrow> byte" where
  "b64_char c = b64ETable ! nat c"

lemma b64_table: "list_all (\<lambda>n. base64DecodeSymbol (b64ETable ! n) = int n) [0..<64]"
  by code_simp

lemma b64_symbol:
  assumes "0 \<le> c" and "c < 64"
  shows "b64_at c = Inr (b64_char c)" and "base64DecodeSymbol (b64_char c) = c"
proof -
  have "length b64ETable = 64" by (simp add: b64ETable_def)
  with assms show "b64_at c = Inr (b64_char c)" by (simp add: b64_at_def b64_char_def)
  from assms have "nat c \<in> set [0..<64]" by auto
  with b64_table have "base64DecodeSymbol (b64ETable ! nat c) = int (nat c)"
    unfolding list_all_iff by blast
  with assms show "base64DecodeSymbol (b64_char c) = c" by (simp add: b64_char_def)
qed

lemma sym_bounds [simp]:
  "0 \<le> sym0 x" "sym0 x < 64" "0 \<le> sym1 x y" "sym1 x y < 64"
  "0 \<le> sym2 y z" "sym2 y z < 64" "0 \<le> sym3 z" "sym3 z < 64"
proof -
  have "uint x < 256" using uint_lt2p [of x] by simp
  then show "sym0 x < 64" by (simp add: sym0_def drop_bit_eq_div)
  have "c AND 0x3F < 64" for c :: int by (rule le_less_trans [OF AND_upper2]) simp_all
  then show "sym1 x y < 64" "sym2 y z < 64" "sym3 z < 64" by (simp_all add: sym1_def sym2_def sym3_def)
qed (simp_all add: sym0_def sym1_def sym2_def sym3_def)

lemma last_symbols: "push_bit 4 (uint x) AND 0x3F = sym1 x 0" "push_bit 2 (uint x) AND 0x3F = sym2 x 0"
  by (simp_all add: sym1_def sym2_def)

lemma bytes_back:
  "word_of_int (push_bit 2 (sym0 x)) OR word_of_int (drop_bit 4 (sym1 x y)) = x"
  "word_of_int (push_bit 4 (sym1 x y)) OR word_of_int (drop_bit 2 (sym2 y z)) = y"
  "word_of_int (push_bit 6 (sym2 y z)) OR word_of_int (sym3 z) = z"
proof -
  have m: "(0x3F :: int) = mask 6" by (simp add: mask_eq_exp_minus_1)
  have two: "Suc (Suc (n - 2)) = n" if "2 \<le> n" for n using that by simp
  show "word_of_int (push_bit 2 (sym0 x)) OR word_of_int (drop_bit 4 (sym1 x y)) = x"
    "word_of_int (push_bit 4 (sym1 x y)) OR word_of_int (drop_bit 2 (sym2 y z)) = y"
    "word_of_int (push_bit 6 (sym2 y z)) OR word_of_int (sym3 z) = z"
    unfolding sym0_def sym1_def sym2_def sym3_def m
    by (rule bit_word_eqI; auto simp: bit_simps two dest: bit_imp_le_length)+
qed

lemma symbols_map: "list_all (\<lambda>c. 0 \<le> c \<and> c < 64) cs \<Longrightarrow> symbols cs f = f (map b64_char cs)"
proof -
  have "list_all (\<lambda>c. 0 \<le> c \<and> c < 64) cs \<Longrightarrow>
      foldr (\<lambda>c k acc. bind_res (b64_at c) (\<lambda>b. k (acc @ [b]))) cs f acc = f (acc @ map b64_char cs)" for acc
    by (induction cs arbitrary: acc) (simp_all add: b64_symbol)
  then show "list_all (\<lambda>c. 0 \<le> c \<and> c < 64) cs \<Longrightarrow> symbols cs f = f (map b64_char cs)"
    by (simp add: symbols_def)
qed

section \<open>What the encoder writes\<close>

fun base64_text :: "int \<Rightarrow> byte list \<Rightarrow> byte list" where
  "base64_text i (x # y # z # xs) =
     line_break i @ map b64_char [sym0 x, sym1 x y, sym2 y z, sym3 z] @ base64_text (i + 3) xs"
| "base64_text i [x, y] = line_break i @ map b64_char [sym0 x, sym1 x y, sym2 y 0] @ [61]"
| "base64_text i [x] = line_break i @ map b64_char [sym0 x, sym1 x 0] @ [61, 61]"
| "base64_text i [] = line_break i"

lemma base64_text_length: "length (base64_text i xs) \<le> 2 * length xs + 6"
  by (induction i xs rule: base64_text.induct) (auto simp: line_break_def crlf_def)

definition rep_opt :: "bstring option \<Rightarrow> byte list \<Rightarrow> bool" where
  "rep_opt out xs \<longleftrightarrow> (case out of None \<Rightarrow> True | Some b \<Rightarrow> bs_rep b xs)"

lemma rep_opt_simps [simp]: "rep_opt None xs" "rep_opt (Some b) xs = bs_rep b xs"
  by (simp_all add: rep_opt_def)

lemma bconchars_rep:
  assumes "rep_opt out xs" and "length xs + length cs \<le> 2 ^ 30"
  shows "\<exists>failed out' al'. bconchars out cs al = Inr (failed, out', al') \<and>
    (\<not> failed \<longrightarrow> rep_opt out' (xs @ cs)) \<and>
    (al = [] \<and> out \<noteq> None \<longrightarrow> \<not> failed \<and> out' \<noteq> None \<and> al' = [])"
  using assms
proof (induction cs arbitrary: out xs al)
  case Nil
  then show ?case by (intro exI [of _ False]) simp
next
  case (Cons c cs)
  show ?case
  proof (cases out)
    case None
    then show ?thesis by (intro exI [of _ True]) (simp add: bconchar_def BSTR_ERR_def)
  next
    case (Some b)
    with Cons.prems have b: "bs_rep b xs" "int (length xs) < 2 ^ 30" by simp_all
    from bconchar_rep [OF b, of c al] obtain r b' al' where
      one: "bconchar (Some b) c al = Inr (r, Some b', al')"
        "r = BSTR_OK \<and> bs_ok b' (xs @ [c]) \<or> r = BSTR_ERR \<and> bs_rep b' xs"
        "al = [] \<longrightarrow> r = BSTR_OK \<and> al' = []" by blast
    show ?thesis
    proof (cases "r = BSTR_ERR")
      case True
      with one Some show ?thesis by (auto simp: BSTR_OK_def BSTR_ERR_def)
    next
      case False
      with one have "rep_opt (Some b') (xs @ [c])" "r = 0" by (auto simp: bs_ok_def BSTR_OK_def)
      moreover have "length (xs @ [c]) + length cs \<le> 2 ^ 30" using Cons.prems(2) by simp
      ultimately show ?thesis using Cons.IH [of "Some b'" "xs @ [c]" al'] one(1,3) Some by fastforce
    qed
  qed
qed

definition encode_ok ::
    "bstring option \<Rightarrow> alloc \<Rightarrow> (bstring option \<times> alloc) res \<Rightarrow> byte list \<Rightarrow> bool" where
  "encode_ok out al r text \<longleftrightarrow> (\<exists>out' al'. r = Inr (out', al') \<and> rep_opt out' text \<and>
     (al = [] \<and> out \<noteq> None \<longrightarrow> out' \<noteq> None \<and> al' = []))"

lemma encode_chars_ok:
  assumes "rep_opt out xs" and "length xs + length cs \<le> 2 ^ 30"
    and "\<And>out' al'. rep_opt out' (xs @ cs) \<Longrightarrow> encode_ok out' al' (k out' al') text"
  shows "encode_ok out al (encode_chars out cs al k) text"
proof -
  from bconchars_rep [OF assms(1,2), of al] obtain failed out' al' where
    run: "bconchars out cs al = Inr (failed, out', al')" "\<not> failed \<longrightarrow> rep_opt out' (xs @ cs)"
      "al = [] \<and> out \<noteq> None \<longrightarrow> \<not> failed \<and> out' \<noteq> None \<and> al' = []" by blast
  show ?thesis
  proof (cases failed)
    case True
    with run show ?thesis by (auto simp: encode_chars_def encode_ok_def)
  next
    case False
    with assms(3) run(2) have "encode_ok out' al' (k out' al') text" by blast
    with False run show ?thesis by (auto simp: encode_chars_def encode_ok_def)
  qed
qed

lemma encode_done: "rep_opt out text \<Longrightarrow> encode_ok out al (Inr (out, al)) text"
  by (simp add: encode_ok_def)

lemma cells_at:
  assumes "take (length xs) d = map Some xs" and "drop i xs = us @ rest" and "k < length us"
  shows "cell d (int i + int k) = Inr (us ! k)"
proof -
  from assms(2) have "length xs - i = length us + length rest" by (metis length_append length_drop)
  with assms(3) have i: "i + k < length xs" by linarith
  then have "xs ! (i + k) = drop i xs ! k" by simp
  with assms(2,3) have "xs ! (i + k) = us ! k" by (simp add: nth_append)
  with cell_rep [OF assms(1), of "int i + int k"] i show ?thesis by (simp add: nat_add_distrib)
qed

lemma encode_loop_ok:
  assumes "take (length xs) d = map Some xs" and "i \<le> length xs" and "rep_opt out ys"
    and "length (ys @ base64_text (int i) (drop i xs)) \<le> 2 ^ 30"
  shows "encode_ok out al (encode_loop d (int (length xs)) (int i) out al)
    (ys @ base64_text (int i) (drop i xs))"
  using assms(2-4)
proof (induction "length xs - i" arbitrary: i out ys al rule: less_induct)
  case less
  note read = cells_at [OF assms(1)]
  have len: "length xs = i + length (drop i xs)" using less.prems(1) by simp
  consider x y z rest where "drop i xs = x # y # z # rest" | x y where "drop i xs = [x, y]"
    | x where "drop i xs = [x]" | "drop i xs = []"
    by (metis list.exhaust)
  then show ?case
  proof cases
    case 1
    let ?cs = "map b64_char [sym0 x, sym1 x y, sym2 y z, sym3 z]"
    have i: "length xs = i + 3 + length rest" using len 1 by simp
    have c: "cell d (int i) = Inr x" "cell d (int i + 1) = Inr y" "cell d (int i + 2) = Inr z"
      using read [of i "[x, y, z]" rest 0] read [of i "[x, y, z]" rest 1] read [of i "[x, y, z]" rest 2] 1
      by simp_all
    have rest: "drop (i + 3) xs = rest" using 1 by (simp add: drop_drop [symmetric] add.commute [of i])
    have step: "encode_loop d (int (length xs)) (int i) out al =
      encode_chars out (line_break (int i)) al (\<lambda>out al. encode_chars out ?cs al
        (\<lambda>out al. encode_loop d (int (length xs)) (int i + 3) out al))" for out al
      by (subst encode_loop.simps) (simp add: i c symbols_map)
    show ?thesis
      unfolding step 1 base64_text.simps append_assoc [symmetric]
    proof (intro encode_chars_ok)
      show "rep_opt out ys" by (rule less.prems)
    next
      fix out' al'
      assume out': "rep_opt out' ((ys @ line_break (int i)) @ ?cs)"
      have "encode_ok out' al' (encode_loop d (int (length xs)) (int (i + 3)) out' al')
        (((ys @ line_break (int i)) @ ?cs) @ base64_text (int (i + 3)) (drop (i + 3) xs))"
        using less.prems(3) i 1 rest by (intro less.hyps out') simp_all
      then show "encode_ok out' al' (encode_loop d (int (length xs)) (int i + 3) out' al')
        (((ys @ line_break (int i)) @ ?cs) @ base64_text (int i + 3) rest)"
        by (simp add: rest)
    qed (use less.prems(3) 1 in simp_all)
  next
    case 2
    have c: "cell d (int i) = Inr x" "cell d (int i + 1) = Inr y"
      using read [of i "[x, y]" "[]" 0] read [of i "[x, y]" "[]" 1] 2 by simp_all
    have step: "encode_loop d (int (length xs)) (int i) out al =
      encode_chars out (line_break (int i)) al (\<lambda>out al.
        encode_chars out (map b64_char [sym0 x, sym1 x y, sym2 y 0] @ [61]) al (\<lambda>out al. Inr (out, al)))"
      by (subst encode_loop.simps) (simp add: len 2 c symbols_map last_symbols)
    show ?thesis
      unfolding step
      by (intro encode_chars_ok [OF less.prems(2)] encode_chars_ok encode_done, use less.prems(3) 2 in simp)
        (assumption, use less.prems(3) 2 in simp_all)
  next
    case 3
    have c: "cell d (int i) = Inr x" using read [of i "[x]" "[]" 0] 3 by simp
    have step: "encode_loop d (int (length xs)) (int i) out al =
      encode_chars out (line_break (int i)) al (\<lambda>out al.
        encode_chars out (map b64_char [sym0 x, sym1 x 0] @ [61, 61]) al (\<lambda>out al. Inr (out, al)))"
      by (subst encode_loop.simps) (simp add: len 3 c symbols_map last_symbols)
    show ?thesis
      unfolding step
      by (intro encode_chars_ok [OF less.prems(2)] encode_chars_ok encode_done, use less.prems(3) 3 in simp)
        (assumption, use less.prems(3) 3 in simp_all)
  next
    case 4
    have step: "encode_loop d (int (length xs)) (int i) out al =
      encode_chars out (line_break (int i)) al (\<lambda>out al. Inr (out, al))"
      by (subst encode_loop.simps) (simp add: len 4)
    show ?thesis
      unfolding step
      by (intro encode_chars_ok [OF less.prems(2)] encode_done) (use less.prems(3) 4 in simp_all)
  qed
qed

lemma bBase64Encode_ok:
  assumes "bs_rep b xs" and "length xs < 2 ^ 29 - 3"
  shows "\<exists>bp al'. bBase64Encode (Some b) al = Inr (bp, al') \<and> rep_opt bp (base64_text 0 xs) \<and>
    (al = [] \<longrightarrow> bp \<noteq> None \<and> al' = [])"
proof -
  obtain d where d: "bparts (Some b) = Some (d, int (length xs))" "take (length xs) d = map Some xs"
    using bs_rep_parts [OF assms(1)] by blast
  from bfromcstr_rep [of "[]" "[]" al] obtain out al1 where
    out: "bfromcstr (Some [0]) al = Inr (out, al1)" "\<forall>b. out = Some b \<longrightarrow> bs_ok b []"
      "al = [] \<longrightarrow> out \<noteq> None \<and> al1 = []" by auto
  have "length (base64_text 0 xs) \<le> 2 ^ 30" using base64_text_length [of 0 xs] assms(2) by simp
  moreover have "rep_opt out []" using out(2) by (cases out) (auto simp: bs_ok_def)
  ultimately have "encode_ok out al1 (encode_loop d (int (length xs)) (int 0) out al1) ([] @ base64_text (int 0) (drop 0 xs))"
    by (intro encode_loop_ok d) simp_all
  with d(1) out(1,3) show ?thesis by (auto simp: encode_ok_def bBase64Encode_def)
qed

section \<open>What the decoder reads\<close>

lemma pad_symbol: "base64DecodeSymbol 61 = -2" by code_simp

lemma break_symbols: "base64DecodeSymbol 13 < 0" "base64DecodeSymbol 10 < 0" by code_simp+

lemma cell_at:
  assumes "take (length t) d = map Some t" and "drop p t = c # post"
  shows "cell d (int p) = Inr c \<and> \<not> int (length t) \<le> int p"
  using cells_at [OF assms(1), of p "[c]" post 0] assms(2) by (cases "p < length t") auto

lemma scan_symbol:
  assumes "take (length t) d = map Some t" and "drop p t = c # post" and "0 \<le> base64DecodeSymbol c"
  shows "scan d (int (length t)) (int p) = Inr (Symbol (base64DecodeSymbol c) (int (p + 1)))"
proof -
  have "c \<noteq> 61" using assms(3) pad_symbol by auto
  with cell_at [OF assms(1,2)] assms(3) show ?thesis by (subst scan.simps) simp
qed

lemma scan_char:
  assumes "take (length t) d = map Some t" and "drop p t = b64_char v # post" and "0 \<le> v" and "v < 64"
  shows "scan d (int (length t)) (int p) = Inr (Symbol v (int (p + 1)))"
  using scan_symbol [OF assms(1,2)] b64_symbol(2) [of v] assms(3,4) by simp

lemma scan_pad:
  assumes "take (length t) d = map Some t" and "drop p t = 61 # post"
  shows "scan d (int (length t)) (int p) = Inr (AtPad (int p))"
  using cell_at [OF assms] by (subst scan.simps) simp

lemma scan_end: "drop p t = [] \<Longrightarrow> scan d (int (length t)) (int p) = Inr AtEnd"
  by (subst scan.simps) simp

lemma scan_skip:
  assumes "take (length t) d = map Some t" and "drop p t = c # post" and "base64DecodeSymbol c < 0" and "c \<noteq> 61"
  shows "scan d (int (length t)) (int p) = scan d (int (length t)) (int (p + 1))"
  using cell_at [OF assms(1,2)] assms(3,4) by (subst scan.simps) (simp add: add.commute)

lemma scan_line_break:
  assumes "take (length t) d = map Some t" and "drop p t = line_break i @ post"
  shows "scan d (int (length t)) (int p) = scan d (int (length t)) (int (p + length (line_break i)))"
    and "drop (p + length (line_break i)) t = post"
proof -
  show "drop (p + length (line_break i)) t = post"
    using assms(2) by (metis add.commute append_eq_conv_conj drop_drop)
  show "scan d (int (length t)) (int p) = scan d (int (length t)) (int (p + length (line_break i)))"
  proof (cases "line_break i = []")
    case False
    then have lb: "line_break i = [13, 10]" by (simp add: line_break_def crlf_def split: if_splits)
    with assms(2) have a: "drop p t = 13 # 10 # post" by simp
    then have b: "drop (p + 1) t = 10 # post" by (metis add.commute drop_drop drop_Suc_Cons drop0 One_nat_def)
    show ?thesis
      using scan_skip [OF assms(1) a] scan_skip [OF assms(1) b] break_symbols lb by simp
  qed simp
qed

definition decode_ok ::
    "bstring option \<Rightarrow> int option \<Rightarrow> alloc \<Rightarrow> (bstring option \<times> int option \<times> alloc) res \<Rightarrow> byte list \<Rightarrow> bool" where
  "decode_ok out trunc al r xs \<longleftrightarrow> (\<exists>out' trunc' al'. r = Inr (out', trunc', al') \<and>
     (trunc' = None \<or> trunc' = Some 0 \<longrightarrow> rep_opt out' xs) \<and> (trunc' = None \<longleftrightarrow> trunc = None) \<and>
     (al = [] \<and> out \<noteq> None \<longrightarrow> out' \<noteq> None \<and> trunc' = trunc \<and> al' = []))"

lemma decode_failed:
  "e \<noteq> 0 \<Longrightarrow> \<not> (al = [] \<and> out \<noteq> None) \<Longrightarrow> decode_ok out trunc al (give_back e out' trunc al') xs"
  by (cases trunc) (auto simp: decode_ok_def give_back_def)

lemma decode_chars:
  assumes "rep_opt out ys" and "length ys + length cs \<le> 2 ^ 30" and "e \<noteq> 0"
    and "\<And>out' al'. rep_opt out' (ys @ cs) \<Longrightarrow> decode_ok out' trunc al' (k out' al') xs"
  shows "decode_ok out trunc al (bind_res (bconchars out cs al) (\<lambda>(failed, out, al).
    if failed then give_back e out trunc al else k out al)) xs"
proof -
  from bconchars_rep [OF assms(1,2), of al] obtain failed out' al' where
    run: "bconchars out cs al = Inr (failed, out', al')" "\<not> failed \<longrightarrow> rep_opt out' (ys @ cs)"
      "al = [] \<and> out \<noteq> None \<longrightarrow> \<not> failed \<and> out' \<noteq> None \<and> al' = []" by blast
  show ?thesis
  proof (cases failed)
    case True
    with run assms(3) show ?thesis by (auto intro!: decode_failed)
  next
    case False
    with assms(4) run(2) have "decode_ok out' trunc al' (k out' al') xs" by blast
    with False run show ?thesis by (auto simp: decode_ok_def)
  qed
qed

lemma decode_done: "rep_opt out xs \<Longrightarrow> decode_ok out trunc al (Inr (out, trunc, al)) xs"
  by (simp add: decode_ok_def)

lemma drop_next: "drop p t = c # post \<Longrightarrow> drop (p + 1) t = post"
  by (metis Suc_eq_plus1 drop_Suc list.sel(3) tl_drop)

lemma bconchars_one: "bconchars out [c] al = bind_res (bconchar out c al) (\<lambda>(r, out, al). Inr (r < 0, out, al))"
  by (cases "bconchar out c al") (auto split: if_splits)

lemma decode_loop_ok:
  assumes "take (length t) d = map Some t" and "drop p t = base64_text i xs" and "rep_opt out ys"
    and "length ys + length xs \<le> 2 ^ 30" and "trunc = None \<or> trunc = Some 0"
  shows "decode_ok out trunc al (decode_loop d (int (length t)) (int p) out trunc al) (ys @ xs)"
  using assms(2-4)
proof (induction i xs arbitrary: p out ys al rule: base64_text.induct)
  case (1 i x y z xs)
  note scan_char = scan_char [OF assms(1)]
  from "1.prems"(1) have "drop p t = line_break i @ b64_char (sym0 x) # b64_char (sym1 x y) #
      b64_char (sym2 y z) # b64_char (sym3 z) # base64_text (i + 3) xs" by simp
  note q = scan_line_break [OF assms(1) this]
  define q where "q = p + length (line_break i)"
  note s0 = q(2) [folded q_def]
  note s1 = drop_next [OF s0] note s2 = drop_next [OF s1] note s3 = drop_next [OF s2]
  note s4 = drop_next [OF s3]
  have scans: "scan d (int (length t)) (int p) = Inr (Symbol (sym0 x) (int (q + 1)))"
    "scan d (int (length t)) (int (q + 1)) = Inr (Symbol (sym1 x y) (int (q + 1 + 1)))"
    "scan d (int (length t)) (int (q + 1 + 1)) = Inr (Symbol (sym2 y z) (int (q + 1 + 1 + 1)))"
    "scan d (int (length t)) (int (q + 1 + 1 + 1)) = Inr (Symbol (sym3 z) (int (q + 1 + 1 + 1 + 1)))"
    using scan_char [OF s0] q(1) [folded q_def] scan_char [OF s1] scan_char [OF s2] scan_char [OF s3] by simp_all
  have step: "decode_loop d (int (length t)) (int p) out trunc al =
      bind_res (bconchars out [x, y, z] al) (\<lambda>(failed, out, al).
      if failed then give_back (-1) out trunc al
      else decode_loop d (int (length t)) (int (q + 1 + 1 + 1 + 1)) out trunc al)"
    by (subst decode_loop.simps) (simp only: scans bind_res.simps scanned.case Let_def bytes_back)
  show ?case
    unfolding step
  proof (rule decode_chars [OF "1.prems"(2)])
    fix out' al' assume "rep_opt out' (ys @ [x, y, z])"
    from "1.IH" [OF s4 this] "1.prems"(3)
    show "decode_ok out' trunc al' (decode_loop d (int (length t)) (int (q + 1 + 1 + 1 + 1)) out' trunc al')
      (ys @ x # y # z # xs)" by simp
  qed (use "1.prems"(3) in simp_all)
next
  case (2 i x y)
  note scan_char = scan_char [OF assms(1)]
  from "2.prems"(1) have "drop p t = line_break i @ b64_char (sym0 x) # b64_char (sym1 x y) #
      b64_char (sym2 y 0) # [61]" by simp
  note q = scan_line_break [OF assms(1) this]
  define q where "q = p + length (line_break i)"
  note s0 = q(2) [folded q_def]
  note s1 = drop_next [OF s0] note s2 = drop_next [OF s1] note s3 = drop_next [OF s2]
  have scans: "scan d (int (length t)) (int p) = Inr (Symbol (sym0 x) (int (q + 1)))"
    "scan d (int (length t)) (int (q + 1)) = Inr (Symbol (sym1 x y) (int (q + 1 + 1)))"
    "scan d (int (length t)) (int (q + 1 + 1)) = Inr (Symbol (sym2 y 0) (int (q + 1 + 1 + 1)))"
    "scan d (int (length t)) (int (q + 1 + 1 + 1)) = Inr (AtPad (int (q + 1 + 1 + 1)))"
    using scan_char [OF s0] q(1) [folded q_def] scan_char [OF s1] scan_char [OF s2]
      scan_pad [OF assms(1) s3] by simp_all
  have step: "decode_loop d (int (length t)) (int p) out trunc al =
      bind_res (bconchars out [x, y] al) (\<lambda>(failed, out, al).
      if failed then give_back 1 out trunc al else Inr (out, trunc, al))"
    using assms(5)
    by (subst decode_loop.simps)
      (auto simp only: scans bind_res.simps scanned.case Let_def bytes_back decode_pad1_def option.map)
  show ?case
    unfolding step
    by (rule decode_chars [OF "2.prems"(2)], use "2.prems"(3) in simp, simp, rule decode_done, simp)
next
  case (3 i x)
  note scan_char = scan_char [OF assms(1)]
  from "3.prems"(1) have "drop p t = line_break i @ b64_char (sym0 x) # b64_char (sym1 x 0) # 61 # [61]" by simp
  note q = scan_line_break [OF assms(1) this]
  define q where "q = p + length (line_break i)"
  note s0 = q(2) [folded q_def]
  note s1 = drop_next [OF s0] note s2 = drop_next [OF s1] note s3 = drop_next [OF s2]
  have scans: "scan d (int (length t)) (int p) = Inr (Symbol (sym0 x) (int (q + 1)))"
    "scan d (int (length t)) (int (q + 1)) = Inr (Symbol (sym1 x 0) (int (q + 1 + 1)))"
    "scan d (int (length t)) (int (q + 1 + 1)) = Inr (AtPad (int (q + 1 + 1)))"
    using scan_char [OF s0] q(1) [folded q_def] scan_char [OF s1] scan_pad [OF assms(1) s2] by simp_all
  have last: "cell d (int (q + 1 + 1) + 1) = Inr 61" "\<not> int (length t) \<le> int (q + 1 + 1) + 1"
    using cell_at [OF assms(1) s3] by (simp_all add: algebra_simps)
  have step: "decode_loop d (int (length t)) (int p) out trunc al =
      bind_res (bconchars out [x] al) (\<lambda>(failed, out, al).
      if failed then give_back 1 out trunc al else Inr (out, trunc, al))"
  proof -
    have "decode_loop d (int (length t)) (int p) out trunc al =
        decode_pad2 d (int (length t)) (int (q + 1 + 1)) x out trunc al"
      by (subst decode_loop.simps) (simp only: scans bind_res.simps scanned.case Let_def bytes_back)
    also have "\<dots> = bind_res (bconchar out x al) (\<lambda>(r, out, al).
        if r < 0 then give_back 1 out trunc al else Inr (out, trunc, al))"
      using last by (simp add: decode_pad2_def)
    also have "\<dots> = bind_res (bconchars out [x] al) (\<lambda>(failed, out, al).
        if failed then give_back 1 out trunc al else Inr (out, trunc, al))"
      unfolding bconchars_one by (cases "bconchar out x al") auto
    finally show ?thesis .
  qed
  show ?case
    unfolding step
    by (rule decode_chars [OF "3.prems"(2)], use "3.prems"(3) in simp, simp, rule decode_done, simp)
next
  case (4 i)
  then have "drop p t = line_break i @ []" by simp
  note q = scan_line_break [OF assms(1) this]
  have "decode_loop d (int (length t)) (int p) out trunc al = Inr (out, trunc, al)"
    using scan_end [OF q(2)] q(1) by (subst decode_loop.simps) simp
  with 4 show ?case by (simp add: decode_done)
qed

section \<open>Properties\<close>

text \<open>
  C33: a content of less than half a gigabyte that is encoded and decoded again comes back.
  The encoder returns the base64 text of the content or, when it runs out of memory, NULL.
  Decoding a string with that text returns the content, or NULL, or sets the error flag that
  the caller has asked for; with enough memory both succeed. The line breaks the
  encoder puts after every 57 bytes are skipped.
\<close>

theorem base64_round_trip:
  assumes "bs_rep b xs" and "length xs < 2 ^ 29 - 3"
  shows "(\<exists>bp al'. bBase64Encode (Some b) al = Inr (bp, al') \<and>
      (\<forall>t. bp = Some t \<longrightarrow> bs_rep t (base64_text 0 xs)) \<and> (al = [] \<longrightarrow> bp \<noteq> None)) \<and>
    (\<forall>t. bs_rep t (base64_text 0 xs) \<longrightarrow>
      (\<exists>out flag al'. bBase64DecodeEx (Some t) trunc al = Inr (out, flag, al') \<and>
        (\<forall>o'. out = Some o' \<and> (flag = None \<or> flag = Some 0) \<longrightarrow> bs_rep o' xs) \<and>
        (al = [] \<longrightarrow> out \<noteq> None \<and> (flag = None \<or> flag = Some 0))))"
proof (intro conjI allI impI)
  from bBase64Encode_ok [OF assms, of al] show "\<exists>bp al'. bBase64Encode (Some b) al = Inr (bp, al') \<and>
      (\<forall>t. bp = Some t \<longrightarrow> bs_rep t (base64_text 0 xs)) \<and> (al = [] \<longrightarrow> bp \<noteq> None)"
    by auto
next
  fix t assume "bs_rep t (base64_text 0 xs)"
  from bs_rep_parts [OF this] obtain d where d: "bparts (Some t) = Some (d, int (length (base64_text 0 xs)))"
    "take (length (base64_text 0 xs)) d = map Some (base64_text 0 xs)" by blast
  from bfromcstr_rep [of "[]" "[]" al] obtain out al1 where
    out: "bfromcstr (Some [0]) al = Inr (out, al1)" "\<forall>b. out = Some b \<longrightarrow> bs_ok b []"
      "al = [] \<longrightarrow> out \<noteq> None \<and> al1 = []" by auto
  have "rep_opt out []" using out(2) by (cases out) (auto simp: bs_ok_def)
  from decode_loop_ok [OF d(2) _ this, of 0 0 xs "map_option (\<lambda>_. 0) trunc" al1] assms(2)
  have "decode_ok out (map_option (\<lambda>_. 0) trunc) al1
      (decode_loop d (int (length (base64_text 0 xs))) 0 out (map_option (\<lambda>_. 0) trunc) al1) xs"
    by (cases trunc) simp_all
  with d(1) out(1,3) show "\<exists>out flag al'. bBase64DecodeEx (Some t) trunc al = Inr (out, flag, al') \<and>
        (\<forall>o'. out = Some o' \<and> (flag = None \<or> flag = Some 0) \<longrightarrow> bs_rep o' xs) \<and>
        (al = [] \<longrightarrow> out \<noteq> None \<and> (flag = None \<or> flag = Some 0))"
    by (cases trunc) (auto simp: decode_ok_def bBase64DecodeEx_def Let_def)
qed

definition base64_demo :: bstring where
  "base64_demo = \<lparr>mlen = 8, slen = 4, data = Some (map Some [77, 97, 110, 33, 0, 0, 0, 0])\<rparr>"

theorem base64_round_trip_witness:
  "bs_rep base64_demo [77, 97, 110, 33] \<and>
   (\<exists>t al'. bBase64Encode (Some base64_demo) [] = Inr (Some t, al') \<and>
     (\<exists>out flag al'. bBase64DecodeEx (Some t) None [] = Inr (Some out, flag, al')))"
proof
  show rep: "bs_rep base64_demo [77, 97, 110, 33]" by (simp add: bs_rep_def base64_demo_def)
  have "length [77, 97, 110, 33 :: byte] < 2 ^ 29 - 3" by simp
  note rt = base64_round_trip [OF rep this, of "[]" None]
  from rt obtain t al' where "bBase64Encode (Some base64_demo) [] = Inr (Some t, al')"
    "bs_rep t (base64_text 0 [77, 97, 110, 33])" by fastforce
  with rt show "\<exists>t al'. bBase64Encode (Some base64_demo) [] = Inr (Some t, al') \<and>
     (\<exists>out flag al'. bBase64DecodeEx (Some t) None [] = Inr (Some out, flag, al'))" by fastforce
qed

end
