(* ===== verification/BReplace.thy ===== *)
theory BReplace
  imports BFind
begin

text \<open>
  Finding and replacing in \<open>bstrlib.c\<close>. The engine has three ways: overwriting in place when both
  strings have one length, closing up while it searches when the new string is shorter, and
  for a longer one collecting all matches first, growing the buffer once, and moving the
  pieces from the last to the first. All three are shown to equal one replacement on lists.

  Strings that lie in the buffer from where the search begins on are copied first. One that
  lies wholly before is read where it is: nothing before that position is written, but growing
  moves the buffer, and then a replacement string that lay in it is gone.
\<close>

section \<open>The engine\<close>

text \<open>\<open>instr_fnptr\<close>; \<open>None\<close> is a search that does not end.\<close>

type_synonym instr_fn = "bstring option \<Rightarrow> int \<Rightarrow> bstring option \<Rightarrow> int res option"

definition INITIAL_STATIC_FIND_INDEX_COUNT :: int where
  "INITIAL_STATIC_FIND_INDEX_COUNT = 32"

text \<open>The two strings have one length.\<close>

partial_function (option) overwrite_loop ::
    "instr_fn \<Rightarrow> bstring \<Rightarrow> barg \<Rightarrow> barg \<Rightarrow> int \<Rightarrow> bstring res option" where
  "overwrite_loop instr b auxf auxr pos =
     (case instr (Some b) pos (Some (arg_tag b auxf)) of None \<Rightarrow> None
      | Some (Inl e) \<Rightarrow> Some (Inl e)
      | Some (Inr i) \<Rightarrow>
          if i < 0 then Some (Inr b)
          else (case copy_arg (mlen b) b (the (data b)) i auxr (arg_slen auxr) of Inl e \<Rightarrow> Some (Inl e)
            | Inr d \<Rightarrow> overwrite_loop instr (b\<lparr>data := Some d\<rparr>) auxf auxr (s32 (i + arg_slen auxf))))"

text \<open>The new string is shorter; the state is the buffer, \<open>pos\<close> and \<open>acc\<close>, by how much it is ahead.\<close>

definition shrink_step ::
    "bstring \<Rightarrow> byte option list \<Rightarrow> barg \<Rightarrow> int \<Rightarrow> int \<Rightarrow> int \<Rightarrow> byte option list res" where
  "shrink_step b d auxr pos acc i =
     bind_res (if acc \<noteq> 0 \<and> i > pos then move_cells d (pos - acc) pos (i - pos) else Inr d) (\<lambda>d.
     if arg_slen auxr \<noteq> 0 then copy_arg (mlen b) b d (i - acc) auxr (arg_slen auxr) else Inr d)"

partial_function (option) shrink_loop ::
    "instr_fn \<Rightarrow> bstring \<Rightarrow> barg \<Rightarrow> barg \<Rightarrow> int \<Rightarrow> int \<Rightarrow> (bstring \<times> int \<times> int) res option" where
  "shrink_loop instr b auxf auxr pos acc =
     (case instr (Some b) pos (Some (arg_tag b auxf)) of None \<Rightarrow> None
      | Some (Inl e) \<Rightarrow> Some (Inl e)
      | Some (Inr i) \<Rightarrow>
          if i < 0 then Some (Inr (b, pos, acc))
          else (case shrink_step b (the (data b)) auxr pos acc i of Inl e \<Rightarrow> Some (Inl e)
            | Inr d \<Rightarrow> shrink_loop instr (b\<lparr>data := Some d\<rparr>) auxf auxr (s32 (i + arg_slen auxf))
                (s32 (acc + (arg_slen auxf - arg_slen auxr)))))"

definition close_up :: "bstring \<Rightarrow> int \<Rightarrow> int \<Rightarrow> bstring res" where
  "close_up b pos acc =
     (if acc \<noteq> 0 then
        bind_res (if slen b > pos then move_cells (the (data b)) (pos - acc) pos (slen b - pos) else Inr (the (data b)))
          (\<lambda>d. bind_res (put d (slen b - acc) 0) (\<lambda>d. Inr (b\<lparr>slen := slen b - acc, data := Some d\<rparr>)))
      else Inr b)"

text \<open>
  The new string is longer. The matches go to an array, first the one on the stack; \<open>ml\<close> is its
  size in the variable \<open>mlen\<close>. \<open>Inr None\<close>: the result is \<open>BSTR_ERR\<close>.
\<close>

definition grow_index :: "int \<Rightarrow> int \<Rightarrow> alloc \<Rightarrow> int option \<times> alloc" where
  "grow_index n ml al =
     (if n \<ge> s32 (ml - 1) then
        let ml = s32 (ml + ml); sl = s32 (8 * ml) in
        if ml \<le> 0 \<or> sl < ml then (None, al)
        else let (ok, al) = answer al in (if ok then Some ml else None, al)
      else (Some ml, al))"

partial_function (option) collect_loop ::
    "instr_fn \<Rightarrow> bstring \<Rightarrow> barg \<Rightarrow> barg \<Rightarrow> int \<Rightarrow> int list \<Rightarrow> int \<Rightarrow> int \<Rightarrow> alloc
     \<Rightarrow> ((int list \<times> int) option \<times> alloc) res option" where
  "collect_loop instr b auxf auxr pos ds acc ml al =
     (case instr (Some b) pos (Some (arg_tag b auxf)) of None \<Rightarrow> None
      | Some (Inl e) \<Rightarrow> Some (Inl e)
      | Some (Inr i) \<Rightarrow>
          if i < 0 then Some (Inr (Some (ds, acc), al))
          else (case grow_index (int (length ds)) ml al of
            (None, al) \<Rightarrow> Some (Inr (None, al))
          | (Some ml, al) \<Rightarrow>
              if int (length ds) \<ge> ml then Some (Inl OutOfBounds)
              else
                let acc = s32 (acc - (arg_slen auxf - arg_slen auxr)); pos = s32 (i + arg_slen auxf) in
                if pos < 0 \<or> acc < 0 then Some (Inr (None, al))
                else collect_loop instr b auxf auxr pos (ds @ [i]) acc ml al))"

text \<open>\<open>ds\<close> has one entry more, the end of the string; \<open>home\<close> is the size of the buffer before it grew.\<close>

fun expand_loop :: "int \<Rightarrow> bstring \<Rightarrow> barg \<Rightarrow> barg \<Rightarrow> int list \<Rightarrow> nat \<Rightarrow> int \<Rightarrow> byte option list \<Rightarrow> byte option list res" where
  "expand_loop home b auxf auxr ds 0 acc d = Inr d"
| "expand_loop home b auxf auxr ds (Suc i) acc d =
     (let s = ds ! i + arg_slen auxf; l = ds ! Suc i - s in
      bind_res (if l \<noteq> 0 then move_cells d (s + acc) s l else Inr d) (\<lambda>d.
      bind_res (if arg_slen auxr \<noteq> 0 then copy_arg home b d (s + acc - arg_slen auxr) auxr (arg_slen auxr) else Inr d) (\<lambda>d.
      expand_loop home b auxf auxr ds i (acc + (arg_slen auxf - arg_slen auxr)) d)))"

definition expand ::
    "bstring \<Rightarrow> barg \<Rightarrow> barg \<Rightarrow> int list \<Rightarrow> int \<Rightarrow> alloc \<Rightarrow> (int \<times> bstring option \<times> alloc) res" where
  "expand b auxf auxr ds acc al =
     ensure (Some b) (s32 (slen b + acc + 1)) al (\<lambda>b' d al.
     bind_res (expand_loop (mlen b) b' auxf auxr (ds @ [slen b']) (length ds) acc d)
       (\<lambda>d. finish b' d (s32 (slen b' + acc)) al))"

definition lift_res :: "'a res \<Rightarrow> ('a \<Rightarrow> 'b res option) \<Rightarrow> 'b res option" where
  "lift_res r f = (case r of Inl e \<Rightarrow> Some (Inl e) | Inr x \<Rightarrow> f x)"

definition replace_with ::
    "instr_fn \<Rightarrow> bstring \<Rightarrow> barg \<Rightarrow> barg \<Rightarrow> int \<Rightarrow> alloc \<Rightarrow> (int \<times> bstring option \<times> alloc) res option" where
  "replace_with instr b auxf auxr pos al =
     (let delta = arg_slen auxf - arg_slen auxr in
      if delta = 0 then
        map_option (\<lambda>r. bind_res r (\<lambda>b. Inr (BSTR_OK, Some b, al))) (overwrite_loop instr b auxf auxr pos)
      else if delta > 0 then
        map_option (\<lambda>r. bind_res r (\<lambda>(b, pos, acc). bind_res (close_up b pos acc) (\<lambda>b. Inr (BSTR_OK, Some b, al))))
          (shrink_loop instr b auxf auxr pos 0)
      else
        map_option (\<lambda>r. bind_res r (\<lambda>(found, al). case found of None \<Rightarrow> Inr (BSTR_ERR, Some b, al)
            | Some (ds, acc) \<Rightarrow> expand b auxf auxr ds acc al))
          (collect_loop instr b auxf auxr pos [] 0 INITIAL_STATIC_FIND_INDEX_COUNT al))"

text \<open>
  The comparison of pointers begins where the last byte of the string lies at \<open>pos\<close>. A search
  string that is not copied lies elsewhere or before \<open>pos\<close>, where the test of \<open>binstr\<close> for the
  buffer of \<open>b\<close> itself says nothing, as it asks for \<open>pos = 0\<close>.
\<close>

definition findreplaceengine ::
    "instr_fn \<Rightarrow> bstring option \<Rightarrow> barg option \<Rightarrow> barg option \<Rightarrow> int \<Rightarrow> alloc
     \<Rightarrow> (int \<times> bstring option \<times> alloc) res option" where
  "findreplaceengine instr bp findp replp pos al =
     (case (bp, findp, replp) of (Some b, Some f, Some r) \<Rightarrow>
        if data b = None \<or> arg_null f \<or> arg_null r \<or> pos < 0 \<or> arg_slen f \<le> 0 \<or> mlen b < slen b \<or>
          mlen b \<le> 0 \<or> slen b < 0 \<or> arg_slen r < 0 then Some (Inr (BSTR_ERR, bp, al))
        else if pos > slen b - arg_slen f then Some (Inr (BSTR_OK, bp, al))
        else
          lift_res (alias_copy (lies_between (pos - arg_slen f + 1) (slen b) f) b f al) (\<lambda>(auxf, al).
          case auxf of None \<Rightarrow> Some (Inr (BSTR_ERR, bp, al))
          | Some auxf \<Rightarrow>
              lift_res (alias_copy (lies_between (pos - arg_slen r + 1) (slen b) r) b r al) (\<lambda>(auxr, al).
              case auxr of None \<Rightarrow> Some (Inr (BSTR_ERR, bp, al))
              | Some auxr \<Rightarrow> replace_with instr b auxf auxr pos al))
      | _ \<Rightarrow> Some (Inr (BSTR_ERR, bp, al)))"

definition bfindreplace ::
    "bstring option \<Rightarrow> barg option \<Rightarrow> barg option \<Rightarrow> int \<Rightarrow> alloc
     \<Rightarrow> (int \<times> bstring option \<times> alloc) res option" where
  "bfindreplace b fnd repl pos al = findreplaceengine (binstr False) b fnd repl pos al"

definition bfindreplacecaseless ::
    "bstring option \<Rightarrow> barg option \<Rightarrow> barg option \<Rightarrow> int \<Rightarrow> alloc
     \<Rightarrow> (int \<times> bstring option \<times> alloc) res option" where
  "bfindreplacecaseless b fnd repl pos al =
     findreplaceengine (\<lambda>b pos f. Some (binstrcaseless False b pos f)) b fnd repl pos al"

section \<open>The replacement on lists\<close>

function replaced :: "(byte \<Rightarrow> byte \<Rightarrow> bool) \<Rightarrow> byte list \<Rightarrow> byte list \<Rightarrow> byte list \<Rightarrow> byte list" where
  "replaced eq ys rs xs =
     (case xs of [] \<Rightarrow> [] | x # xs' \<Rightarrow>
        if ys \<noteq> [] \<and> list_all2 eq ys (take (length ys) xs) then rs @ replaced eq ys rs (drop (length ys) xs)
        else x # replaced eq ys rs xs')"
  by pat_completeness auto
termination
  by (relation "measure (\<lambda>(eq, ys, rs, xs). length xs)") auto

declare replaced.simps [simp del]

lemma replaced_Nil [simp]: "replaced eq ys rs [] = []"
  by (subst replaced.simps) simp

text \<open>The replacement goes on at the first match, which \<open>first_where\<close> finds.\<close>

lemma replaced_none:
  assumes "ys \<noteq> []"
  shows "i \<le> length xs \<Longrightarrow> (\<And>p. i \<le> p \<Longrightarrow> p \<le> length xs \<Longrightarrow> \<not> matches eq ys xs p) \<Longrightarrow>
    replaced eq ys rs (drop i xs) = drop i xs"
proof (induction "length xs - i" arbitrary: i)
  case 0
  then show ?case by simp
next
  case (Suc k)
  then have i: "i < length xs" by simp
  then have d: "drop i xs = xs ! i # drop (Suc i) xs" by (simp add: Cons_nth_drop_Suc)
  have "\<not> list_all2 eq ys (take (length ys) (drop i xs))" using Suc.prems(2) [of i] i by (simp add: matches_def)
  moreover have "replaced eq ys rs (drop (Suc i) xs) = drop (Suc i) xs"
    using Suc.hyps Suc.prems i by (intro Suc.hyps(1)) simp_all
  ultimately show ?case by (subst replaced.simps) (simp add: d)
qed

lemma replaced_next:
  assumes "ys \<noteq> []" and "matches eq ys xs j" and "j \<le> length xs"
  shows "i \<le> j \<Longrightarrow> (\<And>p. i \<le> p \<Longrightarrow> p < j \<Longrightarrow> \<not> matches eq ys xs p) \<Longrightarrow>
    replaced eq ys rs (drop i xs) = take (j - i) (drop i xs) @ rs @ replaced eq ys rs (drop (j + length ys) xs)"
proof (induction "j - i" arbitrary: i)
  case 0
  then have i: "i = j" by simp
  have "j + length ys \<le> length xs" using assms(2,3) by (simp add: matches_nth)
  then have "drop j xs \<noteq> []" using assms(1) by (cases ys) auto
  then obtain z zs where z: "drop j xs = z # zs" by (cases "drop j xs") auto
  then have "drop (length ys) (z # zs) = drop (j + length ys) xs" by (metis add.commute drop_drop)
  with assms(1,2) i z show ?case
    by (subst replaced.simps) (simp add: matches_def)
next
  case (Suc k)
  then have i: "i < j" by simp
  then have d: "drop i xs = xs ! i # drop (Suc i) xs" using assms(3) by (simp add: Cons_nth_drop_Suc)
  have "\<not> list_all2 eq ys (take (length ys) (drop i xs))" using Suc.prems(2) [of i] i by (simp add: matches_def)
  then have "replaced eq ys rs (drop i xs) = xs ! i # replaced eq ys rs (drop (Suc i) xs)"
    by (subst replaced.simps) (simp add: d)
  moreover have "replaced eq ys rs (drop (Suc i) xs) =
      take (j - Suc i) (drop (Suc i) xs) @ rs @ replaced eq ys rs (drop (j + length ys) xs)"
    using Suc.hyps Suc.prems i by (intro Suc.hyps(1)) simp_all
  moreover have "j - i = Suc (j - Suc i)" using i by simp
  ultimately show ?case by (simp add: d)
qed

lemma first_where_cases:
  obtains (none) "first_where P n (int i) = BSTR_ERR" "\<And>p. i \<le> p \<Longrightarrow> p < n \<Longrightarrow> \<not> P p"
  | (found) j where "first_where P n (int i) = int j" "i \<le> j" "j < n" "P j" "\<And>p. i \<le> p \<Longrightarrow> p < j \<Longrightarrow> \<not> P p"
proof (cases "find P [i..<n]")
  case None
  then have "first_where P n (int i) = BSTR_ERR" by (simp add: first_where_def)
  moreover have "\<not> P p" if "i \<le> p" "p < n" for p using None that by (auto simp: find_None_iff)
  ultimately show thesis by (rule none)
next
  case (Some j)
  then obtain k where k: "k < length [i..<n]" "P ([i..<n] ! k)" "j = [i..<n] ! k" "\<forall>l<k. \<not> P ([i..<n] ! l)"
    by (auto simp: find_Some_iff)
  then have j: "j = i + k" "k < n - i" by simp_all
  show thesis
  proof (rule found [of j])
    show "\<not> P p" if "i \<le> p" "p < j" for p
      using k(4) that j by (auto dest: spec [of _ "p - i"])
  qed (use k j Some in \<open>auto simp: first_where_def\<close>)
qed

text \<open>A match depends on what follows only.\<close>

lemma matches_drop: "drop p xs = drop q zs \<Longrightarrow> matches eq ys xs p = matches eq ys zs q"
  by (simp add: matches_def)

text \<open>Another content of the same length.\<close>

lemma other_content:
  assumes "bs_rep b zs" and "data b = Some (map Some zs @ rest)" and "length new = length zs"
  shows "bs_rep (b\<lparr>data := Some (map Some new @ rest)\<rparr>) new"
    and "bs_ok b zs \<Longrightarrow> bs_ok (b\<lparr>data := Some (map Some new @ rest)\<rparr>) new"
proof -
  show rep: "bs_rep (b\<lparr>data := Some (map Some new @ rest)\<rparr>) new"
    using assms by (auto simp: bs_rep_def)
  assume "bs_ok b zs"
  with rep assms(2,3) show "bs_ok (b\<lparr>data := Some (map Some new @ rest)\<rparr>) new"
    by (auto simp: bs_ok_def nth_append)
qed

section \<open>Arguments before the search\<close>

text \<open>The argument is a string of its own or a part of \<open>us\<close>, with which the buffer goes on beginning.\<close>

definition kept :: "byte list \<Rightarrow> barg \<Rightarrow> byte list \<Rightarrow> bool" where
  "kept us arg ys \<longleftrightarrow> arg_slen arg = int (length ys) \<and> (ys = [] \<or> arg_rep us arg ys)"

lemma kept_slen: "kept us arg ys \<Longrightarrow> arg_slen arg = int (length ys)"
  by (simp add: kept_def)

lemma arg_rep_more: "arg_rep us arg ys \<Longrightarrow> arg_rep (us @ zs) arg ys"
  by (cases arg) auto

lemma still_begins: "take (length us) zs = us \<Longrightarrow> take (length us) (zs @ ws) = us"
proof -
  assume t: "take (length us) zs = us"
  then have "length us \<le> length zs" by (metis length_take min.cobounded2 min.commute)
  with t show ?thesis by simp
qed

lemma kept_tag:
  assumes "kept us f ys" and "ys \<noteq> []" and "bs_rep b zs" and "take (length us) zs = us"
  shows "bs_rep (arg_tag b f) ys"
proof -
  have f: "arg_rep us f ys" using assms(1,2) by (simp add: kept_def)
  have zs: "zs = us @ drop (length us) zs" by (metis append_take_drop_id assms(4))
  have le: "int (length zs) \<le> mlen b" using assms(3) by (auto elim: bs_rep_cells)
  show ?thesis
  proof (rule arg_tag_rep [OF assms(3)])
    show "arg_rep zs f ys" by (subst zs) (rule arg_rep_more [OF f])
    show "off < mlen b" if "f = Inside off n" for off n
    proof -
      have "0 < length ys" using assms(2) by simp
      moreover have "0 \<le> off" "nat off + length ys \<le> length us" using f that by auto
      ultimately have "off < int (length us)" by linarith
      also have "\<dots> \<le> int (length zs)" using arg_cong [OF zs, of length] by simp
      finally show ?thesis using le by simp
    qed
  qed
qed

lemma kept_copy:
  assumes "kept us r rs" and "mlen b = home" and "i = int (length u)" and "length v = length rs"
    and "take (length us) u = map Some us"
  shows "copy_arg home b (u @ v @ w) i r (int (length rs)) = Inr (u @ map Some rs @ w)"
proof (cases "rs = []")
  case True
  with assms(4) show ?thesis by (cases r) (simp_all add: copy_from_def)
next
  case False
  have "length us \<le> length u" using arg_cong [OF assms(5), of length] by simp
  then have "take (length us) (u @ v @ w) = map Some us" using assms(5) by simp
  with False assms(1-4) show ?thesis by (intro copy_inside_at) (simp_all add: kept_def)
qed

section \<open>The contract of the search\<close>

text \<open>What the engine needs of the function it searches with.\<close>

locale finder =
  fixes instr :: instr_fn and eq :: "byte \<Rightarrow> byte \<Rightarrow> bool"
  assumes finds: "bs_rep b xs \<Longrightarrow> bs_rep f ys \<Longrightarrow> ys \<noteq> [] \<Longrightarrow>
    instr (Some b) (int pos) (Some f) = Some (Inr (first_where (matches eq ys xs) (Suc (length xs)) (int pos)))"
begin

text \<open>One search: nothing is left to replace, or the next match is at \<open>j\<close>.\<close>

lemma search_cases:
  assumes "bs_rep b zs" and "bs_rep f ys" and "ys \<noteq> []" and "drop pos zs = drop pos xs" and "pos \<le> length xs"
    and "length zs = length xs"
  obtains (none) "instr (Some b) (int pos) (Some f) = Some (Inr BSTR_ERR)"
      "replaced eq ys rs (drop pos xs) = drop pos xs"
  | (found) j where "instr (Some b) (int pos) (Some f) = Some (Inr (int j))" "pos \<le> j" "j + length ys \<le> length xs"
      "replaced eq ys rs (drop pos xs) =
        take (j - pos) (drop pos xs) @ rs @ replaced eq ys rs (drop (j + length ys) xs)"
proof -
  have same: "matches eq ys zs p = matches eq ys xs p" if "pos \<le> p" for p
  proof (rule matches_drop)
    have "drop (p - pos) (drop pos zs) = drop (p - pos) (drop pos xs)" using assms(4) by simp
    with that show "drop p zs = drop p xs" by simp
  qed
  show thesis
  proof (cases rule: first_where_cases [of "matches eq ys zs" "Suc (length zs)" pos])
    case none
    with same finds [OF assms(1-3)] show thesis
      by (intro that(1) replaced_none [OF assms(3,5)]) (auto simp: assms(6))
  next
    case (found j)
    then have j: "matches eq ys xs j" "j \<le> length xs" using same assms(6) by auto
    then have "j + length ys \<le> length xs" by (simp add: matches_nth)
    with found j same finds [OF assms(1-3)] show thesis
      by (intro that(2) [of j] replaced_next [OF assms(3)]) auto
  qed
qed

subsection \<open>In place\<close>

lemma overwrite_loop_replaces:
  assumes f: "kept us f ys" "ys \<noteq> []" and r: "kept us r rs" and same: "length rs = length ys"
  shows "pos \<le> length xs \<Longrightarrow> length done = pos \<Longrightarrow> bs_rep b (done @ drop pos xs) \<Longrightarrow>
    take (length us) done = us \<Longrightarrow>
    \<exists>b'. overwrite_loop instr b f r (int pos) = Some (Inr b') \<and> bs_rep b' (done @ replaced eq ys rs (drop pos xs)) \<and>
      (bs_ok b (done @ drop pos xs) \<longrightarrow> bs_ok b' (done @ replaced eq ys rs (drop pos xs)))"
proof (induction "length xs - pos" arbitrary: pos "done" b rule: less_induct)
  case less
  let ?zs = "done @ drop pos xs"
  have z: "drop pos ?zs = drop pos xs" "length ?zs = length xs" using less.prems by simp_all
  have tag: "bs_rep (arg_tag b f) ys" by (rule kept_tag [OF f less.prems(3) still_begins [OF less.prems(4)]])
  show ?case
  proof (cases rule: search_cases [OF less.prems(3) tag f(2) z(1) less.prems(1) z(2), of rs])
    case 1
    with less.prems show ?thesis by (subst overwrite_loop.simps) (simp add: BSTR_ERR_def)
  next
    case (2 j)
    note found = 2
    let ?mid = "take (j - pos) (drop pos xs)" and ?next = "j + length ys"
    have split: "drop pos xs = ?mid @ take (length ys) (drop j xs) @ drop ?next xs"
      using found by (metis add.commute append_take_drop_id drop_drop le_add_diff_inverse2)
    obtain rest where b: "data b = Some (map Some ?zs @ rest)" "length ?zs + length rest = nat (mlen b)"
      "0 < mlen b" "mlen b < 2 ^ 31" "slen b = int (length ?zs)" "int (length ?zs) \<le> mlen b"
      using less.prems(3) by (rule bs_rep_cells)
    have sl: "arg_slen f = int (length ys)" "arg_slen r = int (length ys)" using kept_slen [OF f(1)] kept_slen [OF r] same by simp_all
    let ?new = "(done @ ?mid @ rs) @ drop ?next xs"
    have dat: "map Some ?zs @ rest =
        map Some (done @ ?mid) @ map Some (take (length ys) (drop j xs)) @ map Some (drop ?next xs) @ rest"
      by (subst split) simp
    have j: "int j = int (length (map Some (done @ ?mid)))" "length (take (length ys) (drop j xs)) = length rs"
      using found less.prems same by simp_all
    have begins: "take (length us) (done @ ?mid) = us" by (rule still_begins [OF less.prems(4)])
    then have "take (length us) (map Some (done @ ?mid)) = map Some us" by (metis take_map)
    from kept_copy [OF r refl j(1) _ this] j(2)
    have "copy_arg (mlen b) b (map Some ?zs @ rest) (int j) r (arg_slen r) = Inr (map Some ?new @ rest)"
      unfolding dat sl(2) same [symmetric] by simp
    moreover have new: "length ?new = length ?zs" "s32 (int j + int (length ys)) = int ?next"
      using found less.prems same b(4-6) by (simp_all add: s32_id)
    moreover define b1 where "b1 = b\<lparr>data := Some (map Some ?new @ rest)\<rparr>"
    moreover from other_content [OF less.prems(3) b(1) new(1)]
    have b1: "bs_rep b1 ?new" "bs_ok b ?zs \<longrightarrow> bs_ok b1 ?new" by (simp_all add: b1_def)
    ultimately have step: "overwrite_loop instr b f r (int pos) = overwrite_loop instr b1 f r (int ?next)"
      using b(1) sl(1) found(1) by (subst overwrite_loop.simps) simp
    have "\<exists>b'. overwrite_loop instr b1 f r (int ?next) = Some (Inr b') \<and>
        bs_rep b' ((done @ ?mid @ rs) @ replaced eq ys rs (drop ?next xs)) \<and>
        (bs_ok b1 ?new \<longrightarrow> bs_ok b' ((done @ ?mid @ rs) @ replaced eq ys rs (drop ?next xs)))"
    proof (rule less.hyps)
      show "length xs - ?next < length xs - pos" using found f(2) by (cases ys) auto
      show "take (length us) (done @ ?mid @ rs) = us" using still_begins [OF begins, of rs] by simp
    qed (use b1(1) found less.prems same in simp_all)
    with step found(4) b1(2) show ?thesis by auto
  qed
qed

end

subsection \<open>Closing up\<close>

text \<open>
  What has been done, a gap of as many cells as the result is shorter so far, and what is still
  to search.
\<close>

lemma shrink_step_gap:
  assumes r: "kept us r rs" "take (length us) done = us" and split: "drop pos xs = mid @ y @ tl'" and short: "length rs \<le> length y"
    and i: "i = int pos + int (length mid)" and pos: "length done + length jk = pos"
  shows "\<exists>jk'. length jk' = length jk + (length y - length rs) \<and>
    shrink_step b (map Some (done @ jk @ drop pos xs) @ rest) r (int pos) (int (length jk)) i =
    Inr (map Some (done @ mid @ rs @ jk' @ tl') @ rest)"
proof -
  define jk1 where "jk1 = drop (length mid) (jk @ mid)"
  let ?d = "map Some (done @ jk @ drop pos xs) @ rest"
  let ?d1 = "map Some (done @ mid @ jk1 @ y @ tl') @ rest"
  have len: "length jk1 = length jk" by (simp add: jk1_def)
  have first: "(if int (length jk) \<noteq> 0 \<and> i > int pos
      then move_cells ?d (int pos - int (length jk)) (int pos) (i - int pos) else Inr ?d) = Inr ?d1"
  proof (cases "jk = [] \<or> mid = []")
    case True
    then show ?thesis using i by (auto simp: jk1_def split)
  next
    case False
    have "?d = map Some (done @ jk) @ map Some mid @ map Some (y @ tl') @ rest" by (simp add: split)
    moreover have "move_cells (map Some (done @ jk) @ map Some mid @ map Some (y @ tl') @ rest)
        (int pos - int (length jk)) (int pos) (i - int pos) =
        Inr (map Some done @ map Some mid @ map Some jk1 @ map Some (y @ tl') @ rest)"
    proof (rule move_cells_at)
      have "jk @ mid = take (length mid) (jk @ mid) @ jk1"
        unfolding jk1_def by (rule append_take_drop_id [symmetric])
      then show "map Some (done @ jk) @ map Some mid @ map Some (y @ tl') @ rest =
          map Some done @ map Some (take (length mid) (jk @ mid)) @ map Some jk1 @ map Some (y @ tl') @ rest"
        by (metis append.assoc map_append)
    qed (use i pos in simp_all)
    ultimately show ?thesis using False i by simp
  qed
  define jk' where "jk' = drop (length rs) (jk1 @ y)"
  note sl = kept_slen [OF r(1)]
  have second: "(if arg_slen r \<noteq> 0 then copy_arg (mlen b) b ?d1 (i - int (length jk)) r (arg_slen r) else Inr ?d1) =
      Inr (map Some (done @ mid @ rs @ jk' @ tl') @ rest)"
  proof -
    have "?d1 = map Some (done @ mid) @ map Some (take (length rs) (jk1 @ y)) @ map Some (jk' @ tl') @ rest"
      by (metis append.assoc append_take_drop_id jk'_def map_append)
    moreover have "copy_arg (mlen b) b (map Some (done @ mid) @ map Some (take (length rs) (jk1 @ y)) @ map Some (jk' @ tl') @ rest)
        (i - int (length jk)) r (arg_slen r) = Inr (map Some (done @ mid) @ map Some rs @ map Some (jk' @ tl') @ rest)"
      unfolding sl by (rule kept_copy [OF r(1) refl]) (use i pos short still_begins [OF r(2), of mid] in \<open>simp_all add: take_map flip: map_append\<close>)
    ultimately have "copy_arg (mlen b) b ?d1 (i - int (length jk)) r (arg_slen r) =
        Inr (map Some (done @ mid) @ map Some rs @ map Some (jk' @ tl') @ rest)" by (simp only:)
    then have "copy_arg (mlen b) b ?d1 (i - int (length jk)) r (arg_slen r) = Inr (map Some (done @ mid @ rs @ jk' @ tl') @ rest)"
      by (simp only: map_append append_assoc)
    moreover have "?d1 = map Some (done @ mid @ rs @ jk' @ tl') @ rest" if "rs = []"
      using that by (simp add: jk'_def)
    ultimately show ?thesis using sl by (cases "rs = []") (simp_all only: if_False if_True refl, simp_all)
  qed
  have "length jk' = length jk + (length y - length rs)" using short by (simp add: jk'_def len)
  moreover have "shrink_step b ?d r (int pos) (int (length jk)) i = Inr (map Some (done @ mid @ rs @ jk' @ tl') @ rest)"
    unfolding shrink_step_def first by (simp only: bind_res.simps second)
  ultimately show ?thesis by blast
qed

context finder
begin

lemma shrink_loop_replaces:
  assumes f: "kept us f ys" "ys \<noteq> []" and r: "kept us r rs" and short: "length rs < length ys"
  shows "pos \<le> length xs \<Longrightarrow> length done + length jk = pos \<Longrightarrow> bs_rep b (done @ jk @ drop pos xs) \<Longrightarrow>
    take (length us) done = us \<Longrightarrow>
    \<exists>b' done' jk' p. shrink_loop instr b f r (int pos) (int (length jk)) = Some (Inr (b', int p, int (length jk'))) \<and>
      bs_rep b' (done' @ jk' @ drop p xs) \<and> length done' + length jk' = p \<and> p \<le> length xs \<and>
      done' @ drop p xs = done @ replaced eq ys rs (drop pos xs) \<and>
      (length jk < length jk' \<or> b' = b \<and> done' = done \<and> jk' = jk \<and> p = pos)"
proof (induction "length xs - pos" arbitrary: pos "done" jk b rule: less_induct)
  case less
  let ?zs = "done @ jk @ drop pos xs"
  have z: "drop pos ?zs = drop pos xs" "length ?zs = length xs" using less.prems(1,2) by simp_all
  have tag: "bs_rep (arg_tag b f) ys" by (rule kept_tag [OF f less.prems(3) still_begins [OF less.prems(4)]])
  show ?case
  proof (cases rule: search_cases [OF less.prems(3) tag f(2) z(1) less.prems(1) z(2), of rs])
    case 1
    then have "shrink_loop instr b f r (int pos) (int (length jk)) = Some (Inr (b, int pos, int (length jk)))"
      by (subst shrink_loop.simps) (simp add: BSTR_ERR_def)
    with 1(2) less.prems show ?thesis by fastforce
  next
    case (2 j)
    let ?mid = "take (j - pos) (drop pos xs)" and ?y = "take (length ys) (drop j xs)" and ?next = "j + length ys"
    have split: "drop pos xs = ?mid @ ?y @ drop ?next xs"
      using 2 by (metis add.commute append_take_drop_id drop_drop le_add_diff_inverse2)
    have lens: "length ?mid = j - pos" "length ?y = length ys" using 2 less.prems by simp_all
    obtain rest where b: "data b = Some (map Some ?zs @ rest)" "length ?zs + length rest = nat (mlen b)"
      "0 < mlen b" "mlen b < 2 ^ 31" "slen b = int (length ?zs)" "int (length ?zs) \<le> mlen b"
      using less.prems(3) by (rule bs_rep_cells)
    note sl = kept_slen [OF f(1)] kept_slen [OF r]
    have "int j = int pos + int (length ?mid)" "length rs \<le> length ?y" using 2 lens short by simp_all
    from shrink_step_gap [OF r less.prems(4) split this(2,1) less.prems(2), of b rest] obtain jk' where
      jk': "length jk' = length jk + (length ys - length rs)"
        "shrink_step b (map Some ?zs @ rest) r (int pos) (int (length jk)) (int j) =
         Inr (map Some ((done @ ?mid @ rs) @ jk' @ drop ?next xs) @ rest)" using lens by auto
    let ?new = "(done @ ?mid @ rs) @ jk' @ drop ?next xs"
    have new: "length ?new = length ?zs" "length (done @ ?mid @ rs) + length jk' = ?next"
      using 2 less.prems jk'(1) short lens by simp_all
    define b1 where "b1 = b\<lparr>data := Some (map Some ?new @ rest)\<rparr>"
    have b1: "bs_rep b1 ?new" unfolding b1_def by (rule other_content(1) [OF less.prems(3) b(1) new(1)])
    have "int ?next < 2 ^ 31" "int (length jk') < 2 ^ 31" using 2 less.prems b(4-6) new by simp_all
    then have s: "s32 (int j + int (length ys)) = int ?next"
      "s32 (int (length jk) + (int (length ys) - int (length rs))) = int (length jk')"
      using short jk'(1) by (simp_all add: s32_id of_nat_diff)
    have step: "shrink_loop instr b f r (int pos) (int (length jk)) = shrink_loop instr b1 f r (int ?next) (int (length jk'))"
      using 2(1) b(1) sl s jk'(2) by (subst shrink_loop.simps) (simp add: b1_def)
    have "\<exists>b' done' jk'' p. shrink_loop instr b1 f r (int ?next) (int (length jk')) =
          Some (Inr (b', int p, int (length jk''))) \<and>
        bs_rep b' (done' @ jk'' @ drop p xs) \<and> length done' + length jk'' = p \<and> p \<le> length xs \<and>
        done' @ drop p xs = (done @ ?mid @ rs) @ replaced eq ys rs (drop ?next xs) \<and>
        (length jk' < length jk'' \<or> b' = b1 \<and> done' = done @ ?mid @ rs \<and> jk'' = jk' \<and> p = ?next)"
    proof (rule less.hyps)
      show "length xs - ?next < length xs - pos" using 2 f(2) by (cases ys) auto
      show "take (length us) (done @ ?mid @ rs) = us" by (rule still_begins [OF less.prems(4)])
    qed (use b1 2 new in simp_all)
    then obtain b' done' jk'' p where
      "shrink_loop instr b1 f r (int ?next) (int (length jk')) = Some (Inr (b', int p, int (length jk'')))"
      "bs_rep b' (done' @ jk'' @ drop p xs)" "length done' + length jk'' = p" "p \<le> length xs"
      "done' @ drop p xs = (done @ ?mid @ rs) @ replaced eq ys rs (drop ?next xs)" "length jk' \<le> length jk''"
      by (metis less_imp_le le_refl)
    moreover have "length jk < length jk'" using jk'(1) short by simp
    ultimately show ?thesis using step 2(4)
      by (intro exI [of _ b'] exI [of _ done'] exI [of _ jk''] exI [of _ p]) simp
  qed
qed

end

lemma close_up_gap:
  assumes "bs_rep b (done @ jk @ drop p xs)" and "length done + length jk = p" and "p \<le> length xs"
    and "bs_ok b (done @ jk @ drop p xs) \<or> jk \<noteq> []"
  shows "\<exists>b'. close_up b (int p) (int (length jk)) = Inr b' \<and> bs_ok b' (done @ drop p xs)"
proof (cases "jk = []")
  case True
  with assms show ?thesis by (auto simp: close_up_def)
next
  case False
  let ?zs = "done @ jk @ drop p xs" and ?t = "drop p xs"
  obtain rest where b: "data b = Some (map Some ?zs @ rest)" "length ?zs + length rest = nat (mlen b)"
    "0 < mlen b" "mlen b < 2 ^ 31" "slen b = int (length ?zs)" "int (length ?zs) \<le> mlen b"
    using assms(1) by (rule bs_rep_cells)
  define w where "w = drop (length ?t) (jk @ ?t)"
  have len: "length w = length jk" by (simp add: w_def)
  have mv: "(if slen b > int p then move_cells (map Some ?zs @ rest) (int p - int (length jk)) (int p) (slen b - int p)
      else Inr (map Some ?zs @ rest)) = Inr (map Some (done @ ?t) @ map Some w @ rest)"
  proof (cases "?t = []")
    case True
    with assms(2,3) b(5) show ?thesis by (simp add: w_def)
  next
    case False
    have "move_cells (map Some (done @ jk) @ map Some ?t @ rest) (int p - int (length jk)) (int p) (slen b - int p) =
        Inr (map Some done @ map Some ?t @ map Some w @ rest)"
    proof (rule move_cells_at)
      have "jk @ ?t = take (length ?t) (jk @ ?t) @ w" unfolding w_def by (rule append_take_drop_id [symmetric])
      then show "map Some (done @ jk) @ map Some ?t @ rest =
          map Some done @ map Some (take (length ?t) (jk @ ?t)) @ map Some w @ rest"
        by (metis append.assoc map_append)
    qed (use b(5) assms(2,3) in simp_all)
    with False b(5) assms(2,3) show ?thesis by simp
  qed
  obtain c w' where w: "w = c # w'" using False len by (cases w) auto
  have n: "slen b - int (length jk) = int (length (map Some (done @ ?t)))" using b(5) by simp
  have "put (map Some (done @ ?t) @ map Some w @ rest) (slen b - int (length jk)) 0 =
      Inr (map Some (done @ ?t) @ Some 0 # map Some w' @ rest)"
    unfolding n put_def by (simp only: nat_int list_update_length w list.map append_Cons) simp
  moreover have acc: "int (length jk) \<noteq> 0" using False by simp
  ultimately have "close_up b (int p) (int (length jk)) =
      Inr (b\<lparr>slen := int (length (done @ ?t)), data := Some (map Some (done @ ?t) @ Some 0 # map Some w' @ rest)\<rparr>)"
    using mv n unfolding close_up_def b(1) by (simp only: option.sel if_True bind_res.simps length_map not_False_eq_True)
  moreover have "bs_ok (b\<lparr>slen := int (length (done @ ?t)),
      data := Some (map Some (done @ ?t) @ Some 0 # map Some w' @ rest)\<rparr>) (done @ ?t)"
  proof -
    have "length jk = Suc (length w')" using len w by simp
    with b(2-4,6) show ?thesis by (simp add: bs_ok_def bs_rep_def nth_append)
  qed
  ultimately show ?thesis by blast
qed

subsection \<open>Expanding\<close>

text \<open>The replacement of the sections of length \<open>k\<close> at the positions \<open>ps\<close>, from \<open>pos\<close> on.\<close>

fun patch :: "byte list \<Rightarrow> nat \<Rightarrow> byte list \<Rightarrow> nat \<Rightarrow> nat list \<Rightarrow> byte list" where
  "patch xs k rs pos [] = drop pos xs"
| "patch xs k rs pos (p # ps) = take (p - pos) (drop pos xs) @ rs @ patch xs k rs (p + k) ps"

fun spaced :: "nat \<Rightarrow> nat \<Rightarrow> nat list \<Rightarrow> nat \<Rightarrow> bool" where
  "spaced k pos [] n \<longleftrightarrow> pos \<le> n"
| "spaced k pos (p # ps) n \<longleftrightarrow> pos \<le> p \<and> spaced k (p + k) ps n"

lemma spaced_bound: "spaced k pos ps n \<Longrightarrow> pos + length ps * k \<le> n"
proof (induction ps arbitrary: pos)
  case (Cons p ps)
  then have "p + k + length ps * k \<le> n" and "pos \<le> p" by simp_all
  then show ?case by simp
qed simp

lemma length_patch:
  assumes "k \<le> length rs"
  shows "spaced k pos ps (length xs) \<Longrightarrow>
    length (patch xs k rs pos ps) = length xs - pos + length ps * (length rs - k)"
proof (induction ps arbitrary: pos)
  case (Cons p ps)
  then have "p + k + length ps * k \<le> length xs" using spaced_bound [of k "p + k" ps "length xs"] by simp
  then have "p + k \<le> length xs" by simp
  moreover have "pos \<le> p" using Cons.prems by simp
  moreover have "length (patch xs k rs (p + k) ps) = length xs - (p + k) + length ps * (length rs - k)"
    using Cons by simp
  ultimately show ?case using assms by simp
qed simp

context finder
begin

lemma collect_loop_patches:
  assumes b: "bs_rep b xs" "take (length us) xs = us" and f: "kept us f ys" "ys \<noteq> []" and r: "kept us r rs" and longer: "length ys < length rs"
    and small: "length xs < 2 ^ 25"
  shows "pos \<le> length xs \<Longrightarrow> length ds \<le> pos \<Longrightarrow> int (length ds) < ml \<Longrightarrow>
    2 \<le> ml \<Longrightarrow> ml \<le> 2 * int (length xs) + 32 \<Longrightarrow>
    int acc + int (length (replaced eq ys rs (drop pos xs))) < 2 ^ 30 \<Longrightarrow>
    \<exists>out al'. collect_loop instr b f r (int pos) ds (int acc) ml al = Some (Inr (out, al')) \<and>
      (al = [] \<longrightarrow> al' = [] \<and> out \<noteq> None) \<and>
      (\<forall>q. out = Some q \<longrightarrow> (\<exists>ps. q = (ds @ map int ps, int (acc + length ps * (length rs - length ys))) \<and>
        spaced (length ys) pos ps (length xs) \<and> replaced eq ys rs (drop pos xs) = patch xs (length ys) rs pos ps))"
proof (induction "length xs - pos" arbitrary: pos ds acc ml al rule: less_induct)
  case less
  show ?case
  proof (cases rule: search_cases [OF b(1) kept_tag [OF f b] f(2) refl less.prems(1) refl, of rs])
    case 1
    then have "collect_loop instr b f r (int pos) ds (int acc) ml al = Some (Inr (Some (ds, int acc), al))"
      by (subst collect_loop.simps) (simp add: BSTR_ERR_def)
    with 1(2) less.prems(1) show ?thesis by (auto intro!: exI [of _ "[] :: nat list"])
  next
    case (2 j)
    let ?next = "j + length ys" and ?acc = "acc + (length rs - length ys)"
    note sl = kept_slen [OF f(1)] kept_slen [OF r]
    have ml: "s32 (ml - 1) = ml - 1" "s32 (2 * ml) = 2 * ml" "s32 (16 * ml) = 16 * ml"
      using less.prems(4,5) small by (simp_all add: s32_id)
    have bound: "int ?acc + int (length (replaced eq ys rs (drop ?next xs))) < 2 ^ 30"
      using less.prems(6) longer by (simp add: 2(4))
    have s: "s32 (int j + int (length ys)) = int ?next"
      "s32 (int acc - (int (length ys) - int (length rs))) = int ?acc"
      using 2(3) small bound longer by (simp_all add: s32_id of_nat_diff)
    obtain found al1 where g: "grow_index (int (length ds)) ml al = (found, al1)" by (cases "grow_index (int (length ds)) ml al")
    have grown: "al = [] \<longrightarrow> al1 = [] \<and> found \<noteq> None"
      "\<forall>m. found = Some m \<longrightarrow> int (length ds) + 1 < m \<and> 2 \<le> m \<and> m \<le> 2 * int (length xs) + 32"
      using g less.prems(1-5) by (auto simp: grow_index_def ml Let_def split: if_splits prod.splits)
    show ?thesis
    proof (cases found)
      case None
      with 2(1) g have "collect_loop instr b f r (int pos) ds (int acc) ml al = Some (Inr (None, al1))"
        by (subst collect_loop.simps) simp
      with None grown(1) show ?thesis by auto
    next
      case (Some m)
      then have m: "int (length ds) + 1 < m" "2 \<le> m" "m \<le> 2 * int (length xs) + 32" using grown(2) by simp_all
      have step: "collect_loop instr b f r (int pos) ds (int acc) ml al =
          collect_loop instr b f r (int ?next) (ds @ [int j]) (int ?acc) m al1"
        using 2(1) g Some m(1) by (subst collect_loop.simps) (simp add: sl s Let_def del: of_nat_add)
      have "\<exists>out al'. collect_loop instr b f r (int ?next) (ds @ [int j]) (int ?acc) m al1 = Some (Inr (out, al')) \<and>
          (al1 = [] \<longrightarrow> al' = [] \<and> out \<noteq> None) \<and>
          (\<forall>q. out = Some q \<longrightarrow> (\<exists>ps. q = ((ds @ [int j]) @ map int ps, int (?acc + length ps * (length rs - length ys))) \<and>
            spaced (length ys) ?next ps (length xs) \<and> replaced eq ys rs (drop ?next xs) = patch xs (length ys) rs ?next ps))"
      proof (rule less.hyps)
        show "length xs - ?next < length xs - pos" using 2 f(2) by (cases ys) auto
        show "length (ds @ [int j]) \<le> ?next" using 2(2) less.prems(2) f(2) by (cases ys) auto
      qed (use m bound 2(3) in simp_all)
      then obtain out al' where o: "collect_loop instr b f r (int ?next) (ds @ [int j]) (int ?acc) m al1 = Some (Inr (out, al'))"
        "al1 = [] \<longrightarrow> al' = [] \<and> out \<noteq> None"
        "\<And>q. out = Some q \<Longrightarrow> \<exists>ps. q = ((ds @ [int j]) @ map int ps, int (?acc + length ps * (length rs - length ys))) \<and>
          spaced (length ys) ?next ps (length xs) \<and> replaced eq ys rs (drop ?next xs) = patch xs (length ys) rs ?next ps"
        by blast
      have "\<exists>ps. q = (ds @ map int ps, int (acc + length ps * (length rs - length ys))) \<and>
          spaced (length ys) pos ps (length xs) \<and> replaced eq ys rs (drop pos xs) = patch xs (length ys) rs pos ps"
        if q: "out = Some q" for q
      proof -
        from o(3) [OF q] obtain ps where ps: "q = ((ds @ [int j]) @ map int ps, int (?acc + length ps * (length rs - length ys)))"
          "spaced (length ys) ?next ps (length xs)" "replaced eq ys rs (drop ?next xs) = patch xs (length ys) rs ?next ps"
          by blast
        with 2(2,4) show ?thesis by (intro exI [of _ "j # ps"]) simp
      qed
      with step o(1,2) grown(1) show ?thesis by auto
    qed
  qed
qed

end

text \<open>Where match \<open>i\<close> begins, and what follows it in the result.\<close>

definition cut_at :: "nat list \<Rightarrow> nat \<Rightarrow> nat \<Rightarrow> nat" where
  "cut_at ps n i = (ps @ [n]) ! i"

definition from_match :: "byte list \<Rightarrow> nat \<Rightarrow> byte list \<Rightarrow> nat list \<Rightarrow> nat \<Rightarrow> byte list" where
  "from_match xs k rs ps i = (if i < length ps then rs @ patch xs k rs (ps ! i + k) (drop (Suc i) ps) else [])"

lemma spaced_nth:
  "spaced k pos ps n \<Longrightarrow> i < length ps \<Longrightarrow> pos \<le> ps ! i \<and> ps ! i + k \<le> cut_at ps n (Suc i)"
proof (induction ps arbitrary: pos i)
  case (Cons p ps)
  show ?case
  proof (cases i)
    case 0
    with Cons.prems show ?thesis by (cases ps) (simp_all add: cut_at_def)
  next
    case (Suc m)
    with Cons.IH [of "p + k" m] Cons.prems show ?thesis by (simp add: cut_at_def)
  qed
qed simp

lemma spaced_cut: "spaced k pos ps n \<Longrightarrow> i \<le> length ps \<Longrightarrow> cut_at ps n i \<le> n"
proof (induction ps arbitrary: pos i)
  case (Cons p ps)
  then have "p + k \<le> n" using spaced_bound [of k "p + k" ps n] by simp
  with Cons show ?case by (cases i) (auto simp: cut_at_def)
qed (simp add: cut_at_def)

lemma patch_from:
  assumes "length xs = n"
  shows "spaced k s qs n \<Longrightarrow> drop (Suc i) ps = qs \<Longrightarrow> i < length ps \<Longrightarrow>
    patch xs k rs s qs = take (cut_at ps n (Suc i) - s) (drop s xs) @ from_match xs k rs ps (Suc i)"
proof (cases qs)
  case Nil
  assume "drop (Suc i) ps = qs" "i < length ps"
  with Nil assms show ?thesis by (simp add: cut_at_def from_match_def nth_append)
next
  case (Cons q qs')
  assume d: "drop (Suc i) ps = qs" "i < length ps"
  then have i: "Suc i < length ps" using Cons by (metis drop_all list.distinct(1) not_less)
  with d Cons have "ps ! Suc i = q" "drop (Suc (Suc i)) ps = qs'"
    by (metis Cons_nth_drop_Suc list.inject)+
  with Cons i show ?thesis by (simp add: cut_at_def from_match_def nth_append)
qed


lemma expand_step_gap:
  assumes copy: "\<And>u v w i. front u \<Longrightarrow> i = int (length u) \<Longrightarrow> length v = length rs \<Longrightarrow>
      copy_arg home b (u @ v @ w) i r (int (length rs)) = Inr (u @ map Some rs @ w)"
    and front: "\<And>v. front (u @ v)" and sl: "arg_slen r = int (length rs)" and y: "length y = k" "k \<le> length rs" "length rs \<le> length gap + k"
    and s: "s = int (length u + k)" "n = int (length seg)" "acc = int (length gap)"
  shows "\<exists>gap'. length gap' = length gap - (length rs - k) \<and>
    bind_res (if n \<noteq> 0 then move_cells (u @ y @ seg @ gap @ tail) (s + acc) s n else Inr (u @ y @ seg @ gap @ tail)) (\<lambda>d.
    if arg_slen r \<noteq> 0 then copy_arg home b d (s + acc - arg_slen r) r (arg_slen r) else Inr d) =
    Inr (u @ gap' @ map Some rs @ seg @ tail)"
proof -
  define w where "w = y @ seg @ gap"
  define gap' v where "gap' = take (k + length gap - length rs) w" and
    "v = take (length rs) (drop (k + length gap - length rs) w)"
  have w: "length w = k + length seg + length gap" using y(1) by (simp add: w_def)
  have len: "length gap' = length gap - (length rs - k)" "length v = length rs"
    using y w by (simp_all add: gap'_def v_def)
  have "take (k + length gap) w = take ((k + length gap - length rs) + length rs) w" using y by simp
  then have cut: "take (k + length gap) w = gap' @ v" unfolding take_add gap'_def v_def .
  have first: "(if n \<noteq> 0 then move_cells (u @ y @ seg @ gap @ tail) (s + acc) s n else Inr (u @ y @ seg @ gap @ tail)) =
      Inr (u @ gap' @ v @ seg @ tail)"
  proof (cases "seg = []")
    case True
    with y s(2) have "w = gap' @ v" using cut by (simp add: w_def)
    with True s(2) show ?thesis by (simp add: w_def)
  next
    case False
    have "move_cells ((u @ y) @ seg @ gap @ tail) (s + acc) s n = Inr ((u @ take (k + length gap) w) @ seg @ tail)"
    proof (rule move_cells_at)
      have "(u @ y) @ seg @ gap @ tail = u @ w @ tail" by (simp add: w_def)
      also have "w @ tail = take (k + length gap) w @ drop (k + length gap) w @ tail"
        by (simp only: append_assoc [symmetric] append_take_drop_id)
      finally show "(u @ y) @ seg @ gap @ tail = (u @ take (k + length gap) w) @ drop (k + length gap) w @ tail"
        by (simp only: append_assoc)
      show "length (drop (k + length gap) w) = length seg" "s = int (length (u @ y))"
        "s + acc = int (length (u @ take (k + length gap) w))" "n = int (length seg)"
        using y s by (simp_all add: w_def)
    qed
    with False s(2) show ?thesis by (simp add: cut)
  qed
  have "copy_arg home b ((u @ gap') @ v @ seg @ tail) (s + acc - arg_slen r) r (arg_slen r) =
      Inr ((u @ gap') @ map Some rs @ seg @ tail)"
    unfolding sl by (rule copy [OF front]) (use len s y in \<open>simp_all add: of_nat_diff\<close>)
  then have second: "(if arg_slen r \<noteq> 0 then copy_arg home b (u @ gap' @ v @ seg @ tail) (s + acc - arg_slen r) r (arg_slen r)
      else Inr (u @ gap' @ v @ seg @ tail)) = Inr (u @ gap' @ map Some rs @ seg @ tail)"
    using len(2) sl by (cases "rs = []") simp_all
  show ?thesis using len(1) by (intro exI [of _ gap']) (simp only: first second bind_res.simps simp_thms)
qed

lemma spaced_tail: "spaced k pos ps n \<Longrightarrow> i < length ps \<Longrightarrow> spaced k (ps ! i + k) (drop (Suc i) ps) n"
proof (induction ps arbitrary: pos i)
  case (Cons p ps)
  then show ?case by (cases i) auto
qed simp

lemma expand_loop_Suc:
  "expand_loop home b f r ds (Suc i) acc d =
     bind_res (bind_res (if ds ! Suc i - (ds ! i + arg_slen f) \<noteq> 0
         then move_cells d (ds ! i + arg_slen f + acc) (ds ! i + arg_slen f) (ds ! Suc i - (ds ! i + arg_slen f)) else Inr d) (\<lambda>d.
       if arg_slen r \<noteq> 0 then copy_arg home b d (ds ! i + arg_slen f + acc - arg_slen r) r (arg_slen r) else Inr d))
     (expand_loop home b f r ds i (acc + (arg_slen f - arg_slen r)))"
  by (simp add: Let_def bind_res_assoc)

lemma expand_loop_fills:
  assumes f: "arg_slen f = int k" and r: "arg_slen r = int (length rs)"
    and copy: "\<And>u v w i. map Some us = take (length us) u \<Longrightarrow> i = int (length u) \<Longrightarrow> length v = length rs \<Longrightarrow>
      copy_arg home b (u @ v @ w) i r (int (length rs)) = Inr (u @ map Some rs @ w)"
    and us: "take (length us) xs = us" "length us \<le> pos" and longer: "k \<le> length rs" and n: "n = length xs" and spaced: "spaced k pos ps n"
  shows "i \<le> length ps \<Longrightarrow> length gap = i * (length rs - k) \<Longrightarrow>
    expand_loop home b f r (map int ps @ [int n]) i (int (length gap))
      (map Some (take (cut_at ps n i) xs) @ gap @ map Some (from_match xs k rs ps i) @ rest) =
    Inr (map Some (take (cut_at ps n 0) xs @ from_match xs k rs ps 0) @ rest)"
proof (induction i arbitrary: gap)
  case 0
  then show ?case by simp
next
  case (Suc i)
  then have i: "i < length ps" by simp
  define p e where "p = ps ! i" and "e = cut_at ps n (Suc i)"
  have p: "cut_at ps n i = p" using i by (simp add: cut_at_def p_def nth_append)
  have at: "(map int ps @ [int n]) ! j = int (cut_at ps n j)" if "j \<le> length ps" for j
    using that by (auto simp: cut_at_def nth_append)
  have le: "p + k \<le> e" "e \<le> length xs"
    using spaced_nth [OF spaced i] spaced_cut [OF spaced, of "Suc i"] i n by (simp_all add: p_def e_def)
  let ?y = "take k (drop p xs)" and ?seg = "take (e - (p + k)) (drop (p + k) xs)"
  have "take e xs = take (p + (k + (e - (p + k)))) xs" using le by simp
  also have "\<dots> = take p xs @ ?y @ ?seg" by (simp only: take_add drop_drop add.commute)
  finally have front: "take e xs = take p xs @ ?y @ ?seg" .
  have "patch xs k rs (p + k) (drop (Suc i) ps) = ?seg @ from_match xs k rs ps (Suc i)"
    using spaced_tail [OF spaced i] i n by (subst patch_from) (simp_all add: e_def p_def)
  then have fm: "from_match xs k rs ps i = rs @ ?seg @ from_match xs k rs ps (Suc i)"
    using i by (simp add: from_match_def p_def)
  have lens: "length (map Some ?y) = k" "length rs \<le> length gap + k" "int p + arg_slen f = int (length (map Some (take p xs)) + k)"
    "int e - (int p + arg_slen f) = int (length (map Some ?seg))"
    using le f Suc.prems(2) longer by simp_all
  have "length us \<le> p" "p \<le> length xs" using us(2) spaced_nth [OF spaced i] le by (simp_all add: p_def)
  then have begins: "map Some us = take (length us) (map Some (take p xs) @ v)" for v
    by (simp add: take_map min_def us(1) flip: map_append)
  let ?tail = "map Some (from_match xs k rs ps (Suc i)) @ rest" and ?s = "int p + arg_slen f"
  have "\<exists>gap'. length gap' = length gap - (length rs - k) \<and>
    bind_res (if int e - ?s \<noteq> 0
      then move_cells (map Some (take p xs) @ map Some ?y @ map Some ?seg @ gap @ ?tail) (?s + int (length gap)) ?s (int e - ?s)
      else Inr (map Some (take p xs) @ map Some ?y @ map Some ?seg @ gap @ ?tail)) (\<lambda>d.
      if arg_slen r \<noteq> 0 then copy_arg home b d (?s + int (length gap) - arg_slen r) r (arg_slen r) else Inr d) =
    Inr (map Some (take p xs) @ gap' @ map Some rs @ map Some ?seg @ ?tail)"
    by (rule expand_step_gap [where front = "\<lambda>u. map Some us = take (length us) u", OF _ begins r lens(1) longer lens(2-4) refl])
      (rule copy)
  then obtain gap' where gap': "length gap' = length gap - (length rs - k)"
    "bind_res (if int e - (int p + arg_slen f) \<noteq> 0
        then move_cells (map Some (take e xs) @ gap @ map Some (from_match xs k rs ps (Suc i)) @ rest)
          (int p + arg_slen f + int (length gap)) (int p + arg_slen f) (int e - (int p + arg_slen f))
        else Inr (map Some (take e xs) @ gap @ map Some (from_match xs k rs ps (Suc i)) @ rest)) (\<lambda>d.
      if arg_slen r \<noteq> 0 then copy_arg home b d (int p + arg_slen f + int (length gap) - arg_slen r) r (arg_slen r) else Inr d) =
      Inr (map Some (take p xs) @ gap' @ map Some (from_match xs k rs ps i) @ rest)"
    unfolding front fm by (auto simp only: map_append append_assoc)
  have acc: "int (length gap) + (arg_slen f - arg_slen r) = int (length gap')"
    using gap'(1) f r Suc.prems(2) longer by (simp add: of_nat_diff)
  have "length gap' = i * (length rs - k)" using gap'(1) Suc.prems(2) by simp
  with Suc.IH [of gap'] i show ?case
    unfolding expand_loop_Suc at [OF Suc.prems(1)] at [OF less_imp_le [OF i]] p e_def [symmetric] gap'(2)
      bind_res.simps acc by simp
qed


lemma from_first: "spaced k pos ps n \<Longrightarrow> n = length xs \<Longrightarrow>
    take (cut_at ps n 0) xs @ from_match xs k rs ps 0 = take pos xs @ patch xs k rs pos ps"
proof (cases ps)
  case (Cons p qs)
  assume "spaced k pos ps n"
  with Cons have "take p xs = take pos xs @ take (p - pos) (drop pos xs)" by (simp add: take_add [symmetric])
  with Cons show ?thesis by (simp add: cut_at_def from_match_def)
qed (simp add: cut_at_def from_match_def)

lemma expand_fills:
  assumes b: "slen b' = int (length xs)" "length xs + length r' = nat (mlen b')" "mlen b' < 2 ^ 31" "int (length xs) + acc + 1 \<le> mlen b'"
    and f: "arg_slen f = int (length ys)" and r: "arg_slen r = int (length rs)" and longer: "length ys < length rs"
    and copy: "\<And>u v w i. map Some (take pos xs) = take (length (take pos xs)) u \<Longrightarrow> i = int (length u) \<Longrightarrow>
      length v = length rs \<Longrightarrow> copy_arg home b' (u @ v @ w) i r (int (length rs)) = Inr (u @ map Some rs @ w)"
    and ps: "spaced (length ys) pos ps (length xs)" "pos \<le> length xs"
    and acc: "acc = int (length ps * (length rs - length ys))"
    and n: "s32 (int (length xs) + acc) = int (length xs) + acc"
  shows "edit_ok al (bind_res (expand_loop home b' f r (map int ps @ [slen b']) (length (map int ps)) acc (map Some xs @ r'))
    (\<lambda>d. finish b' d (s32 (slen b' + acc)) al)) xs (take pos xs @ patch xs (length ys) rs pos ps)"
proof -
  have nonneg: "0 \<le> acc" unfolding acc by (rule of_nat_0_le_iff)
  have total: "length (take pos xs @ patch xs (length ys) rs pos ps) = length xs + length ps * (length rs - length ys)"
    using length_patch [OF less_imp_le [OF longer] ps(1), of] ps(2) longer by simp
  define gap rest where "gap = take (nat acc) r'" and "rest = drop (nat acc) r'"
  have room: "nat acc < length r'" using b(2,4) nonneg by linarith
  then have gap: "length gap = length ps * (length rs - length ys)" "r' = gap @ rest" "rest \<noteq> []"
    by (simp_all only: gap_def rest_def length_take acc nat_int append_take_drop_id drop_eq_Nil min.absorb2 less_imp_le not_le)
  have us: "take (length (take pos xs)) xs = take pos xs" "length (take pos xs) \<le> pos" by (simp_all add: min_def)
  have "expand_loop home b' f r (map int ps @ [int (length xs)]) (length ps) (int (length gap))
      (map Some (take (cut_at ps (length xs) (length ps)) xs) @ gap @
       map Some (from_match xs (length ys) rs ps (length ps)) @ rest) =
    Inr (map Some (take pos xs @ patch xs (length ys) rs pos ps) @ rest)"
    using expand_loop_fills [OF f r copy us less_imp_le [OF longer] refl ps(1) le_refl gap(1)]
    unfolding from_first [OF ps(1) refl] .
  then have loop: "expand_loop home b' f r (map int ps @ [slen b']) (length (map int ps)) acc (map Some xs @ r') =
    Inr (map Some (take pos xs @ patch xs (length ys) rs pos ps) @ rest)"
    using b(1) gap acc by (simp add: cut_at_def from_match_def nth_append)
  have "length (take pos xs @ patch xs (length ys) rs pos ps) + length rest = nat (mlen b')"
    using b(2) gap unfolding total by simp
  moreover have "s32 (slen b' + acc) = int (length (take pos xs @ patch xs (length ys) rs pos ps))"
    using n unfolding b(1) total by (simp only: acc of_nat_add)
  ultimately show ?thesis
    unfolding loop bind_res.simps using b(3) gap(3) by (intro finish_cells [OF refl])
qed

text \<open>A replacement string in the buffer can only be read if the buffer need not grow.\<close>

lemma expand_edit:
  assumes b: "bs_rep b xs" and f: "arg_slen f = int (length ys)" and r: "kept (take pos xs) r rs"
    and longer: "length ys < length rs"
    and ps: "spaced (length ys) pos ps (length xs)" "pos \<le> length xs"
    and acc: "acc = int (length ps * (length rs - length ys))" and small: "int (length xs) + acc < 2 ^ 30"
    and stays: "\<And>off n. r = Inside off n \<Longrightarrow> int (length xs) + acc + 1 < mlen b"
  shows "edit_ok al (expand b f r (map int ps) acc al) xs (take pos xs @ patch xs (length ys) rs pos ps)"
proof -
  let ?n = "int (length xs) + acc + 1"
  have nonneg: "0 \<le> acc" unfolding acc by (rule of_nat_0_le_iff)
  have n: "s32 (slen b + acc + 1) = ?n" "s32 (int (length xs) + acc) = int (length xs) + acc"
    unfolding bs_rep_slen [OF b] by (rule s32_id; use small nonneg in simp)+
  note fills = expand_fills [OF _ _ _ _ f kept_slen [OF r] longer _ ps acc n(2)]
  have "rs \<noteq> []" using longer by auto
  then have rep: "arg_rep (take pos xs) r rs" using r by (simp add: kept_def)
  show ?thesis
  proof (cases r)
    case (Apart a)
    with rep have own: "own r rs" by (simp add: own_def bs_rep_slen)
    show ?thesis
      unfolding expand_def n(1)
    proof (rule ensure_edit [OF b])
      fix b' :: bstring and q :: "byte option list" and al'
      assume d: "length xs + length q = nat (mlen b')" "mlen b' < 2 ^ 31" "slen b' = int (length xs)" "?n \<le> mlen b'"
      show "edit_ok al' (bind_res (expand_loop (mlen b) b' f r (map int ps @ [slen b']) (length (map int ps)) acc (map Some xs @ q))
        (\<lambda>d. finish b' d (s32 (slen b' + acc)) al')) xs (take pos xs @ patch xs (length ys) rs pos ps)"
        by (rule fills [OF d(3,1,2,4)], rule copy_own_at [OF own])
    qed (use small nonneg bs_rep_slen [OF b] in simp_all)
  next
    case (Inside off m)
    obtain q where q: "data b = Some (map Some xs @ q)" "length xs + length q = nat (mlen b)" "mlen b < 2 ^ 31"
      using b by (rule bs_rep_cells)
    have "edit_ok al (bind_res (expand_loop (mlen b) b f r (map int ps @ [slen b]) (length (map int ps)) acc (map Some xs @ q))
        (\<lambda>d. finish b d (s32 (slen b + acc)) al)) xs (take pos xs @ patch xs (length ys) rs pos ps)"
    proof (rule fills)
      show "?n \<le> mlen b" using stays [OF Inside] by simp
    qed (use q bs_rep_slen [OF b] kept_copy [OF r refl] in auto)
    moreover have "0 < ?n" using nonneg by simp
    ultimately show ?thesis
      unfolding expand_def n(1) using ensure_same [OF b _ stays [OF Inside] q(1)] by simp
  qed
qed

section \<open>The engine replaces\<close>

lemma alias_copy_kept:
  assumes b: "bs_rep b xs" and arg: "arg_rep xs arg ys" and small: "int (length ys) < 2 ^ 31 - 1" and pos: "pos \<le> length xs"
  obtains aux al' where
    "alias_copy (lies_between (int pos - arg_slen arg + 1) (slen b) arg) b arg al = Inr (aux, al')"
    "\<forall>a. aux = Some a \<longrightarrow> kept (take pos xs) a ys \<and>
      (\<forall>off n. a = Inside off n \<longrightarrow> ys = [] \<or> arg = Inside off n \<and> off + n \<le> int pos)"
    "al = [] \<longrightarrow> aux \<noteq> None \<and> al' = []"
proof (cases "lies_between (int pos - arg_slen arg + 1) (slen b) arg")
  case True
  have "slen b \<le> mlen b" using b by (auto elim: bs_rep_cells)
  with True have "bs_rep (arg_tag b arg) ys" by (intro arg_tag_rep [OF b arg]) auto
  from bstrcpy_rep [OF this small, of al] obtain bp al' where "bstrcpy (Some (arg_tag b arg)) al = Inr (bp, al')"
    "\<forall>b'. bp = Some b' \<longrightarrow> bs_ok b' ys" "al = [] \<longrightarrow> bp \<noteq> None \<and> al' = []" by blast
  with True show thesis
    by (intro that [of "map_option Apart bp" al']) (auto simp: alias_copy_def kept_def bs_ok_def bs_rep_slen)
next
  case False
  have "kept (take pos xs) arg ys \<and> (\<forall>off n. arg = Inside off n \<longrightarrow> ys = [] \<or> off + n \<le> int pos)"
  proof (cases arg)
    case (Apart a)
    with arg show ?thesis by (simp add: kept_def bs_rep_slen)
  next
    case (Inside off n)
    with arg have y: "0 \<le> off" "n = int (length ys)" "nat off + length ys \<le> length xs"
      "ys = take (length ys) (drop (nat off) xs)" by simp_all
    show ?thesis
    proof (cases "ys = []")
      case True
      with Inside y(2) show ?thesis by (simp add: kept_def)
    next
      case False
      then have "0 < length ys" by simp
      then have "off < slen b" using y(1,3) bs_rep_slen [OF b] by linarith
      with \<open>\<not> lies_between _ _ arg\<close> Inside y(2) have le: "off + n \<le> int pos" by simp
      then have "length ys \<le> pos - nat off" using y(1,2) by linarith
      then have "take (length ys) (drop (nat off) (take pos xs)) = take (length ys) (drop (nat off) xs)"
        by (simp add: drop_take min_def)
      with Inside y le pos show ?thesis by (auto simp: kept_def)
    qed
  qed
  with False show thesis by (intro that [of "Some arg" al]) (auto simp: alias_copy_def)
qed

text \<open>
  A replacement string is not lost when it is none of the buffer, or is copied as it reaches
  beyond \<open>pos\<close>, or is not longer than what it replaces, or the buffer has room for the result.
\<close>

definition stays_put ::
    "(byte \<Rightarrow> byte \<Rightarrow> bool) \<Rightarrow> bstring \<Rightarrow> nat \<Rightarrow> byte list \<Rightarrow> barg \<Rightarrow> byte list \<Rightarrow> byte list \<Rightarrow> bool" where
  "stays_put eq b pos ys r rs xs \<longleftrightarrow>
     (case r of Apart a \<Rightarrow> True
      | Inside off n \<Rightarrow> int pos < off + n \<or> length rs \<le> length ys \<or>
          int (pos + length (replaced eq ys rs (drop pos xs))) + 1 < mlen b)"

context finder
begin

lemma replace_with_edit:
  assumes b: "bs_ok b xs" and f: "kept (take pos xs) f ys" "ys \<noteq> []" and r: "kept (take pos xs) r rs" and pos: "pos \<le> length xs"
    and small: "length xs < 2 ^ 25" "length xs + length (replaced eq ys rs (drop pos xs)) < 2 ^ 30"
    and stays: "\<forall>off n. r = Inside off n \<longrightarrow> length rs \<le> length ys \<or>
      int (pos + length (replaced eq ys rs (drop pos xs))) + 1 < mlen b"
  shows "\<exists>q. replace_with instr b f r (int pos) al = Some q \<and>
    edit_ok al q xs (take pos xs @ replaced eq ys rs (drop pos xs))"
proof -
  have rep: "bs_rep b xs" "bs_rep b (take pos xs @ [] @ drop pos xs)" "bs_rep b (take pos xs @ drop pos xs)"
    "bs_ok b (take pos xs @ drop pos xs)" and len: "length (take pos xs) = pos"
    using b pos by (simp_all add: bs_ok_def)
  have us: "take (length (take pos xs)) (take pos xs) = take pos xs" "take (length (take pos xs)) xs = take pos xs"
    by (simp_all add: min_def)
  note sl = kept_slen [OF f(1)] kept_slen [OF r]
  consider "length rs = length ys" | "length rs < length ys" | "length ys < length rs" by linarith
  then show ?thesis
  proof cases
    case 1
    from overwrite_loop_replaces [OF f r 1 pos len rep(3) us(1)] rep(4) obtain b' where
      "overwrite_loop instr b f r (int pos) = Some (Inr b')" "bs_ok b' (take pos xs @ replaced eq ys rs (drop pos xs))"
      by blast
    with 1 sl show ?thesis by (simp add: replace_with_def edit_ok_def)
  next
    case 2
    have "length (take pos xs) + length ([] :: byte list) = pos" using len by simp
    from shrink_loop_replaces [OF f r 2 pos this rep(2) us(1)] obtain b' done' jk p where
      s: "shrink_loop instr b f r (int pos) (int (length ([] :: byte list))) = Some (Inr (b', int p, int (length jk)))"
        "bs_rep b' (done' @ jk @ drop p xs)" "length done' + length jk = p" "p \<le> length xs"
        "done' @ drop p xs = take pos xs @ replaced eq ys rs (drop pos xs)"
        "jk \<noteq> [] \<or> b' = b \<and> done' = take pos xs \<and> jk = [] \<and> p = pos"
      by fastforce
    have "bs_ok b' (done' @ jk @ drop p xs) \<or> jk \<noteq> []" using s(6) b by auto
    from close_up_gap [OF s(2-4) this] obtain b'' where
      "close_up b' (int p) (int (length jk)) = Inr b''" "bs_ok b'' (done' @ drop p xs)" by blast
    with 2 sl s(1,5) show ?thesis by (simp add: replace_with_def edit_ok_def)
  next
    case 3
    let ?ml = INITIAL_STATIC_FIND_INDEX_COUNT
    have "int (length ([] :: int list)) < ?ml" "2 \<le> ?ml" "?ml \<le> 2 * int (length xs) + 32"
      "length ([] :: int list) \<le> pos" "int 0 + int (length (replaced eq ys rs (drop pos xs))) < 2 ^ 30"
      using small(2) by (simp_all add: INITIAL_STATIC_FIND_INDEX_COUNT_def)
    note start = collect_loop_patches [OF rep(1) us(2) f r 3 small(1) pos this(4,1,2,3,5)]
    obtain out al' where c: "collect_loop instr b f r (int pos) [] (int 0) ?ml al = Some (Inr (out, al'))"
      "al = [] \<longrightarrow> al' = [] \<and> out \<noteq> None"
      "\<And>q. out = Some q \<Longrightarrow> \<exists>ps. q = ([] @ map int ps, int (0 + length ps * (length rs - length ys))) \<and>
        spaced (length ys) pos ps (length xs) \<and> replaced eq ys rs (drop pos xs) = patch xs (length ys) rs pos ps"
      using start [of al] by blast
    show ?thesis
    proof (cases out)
      case None
      with c(1,2) 3 sl rep(1) show ?thesis by (simp add: replace_with_def edit_ok_def)
    next
      case (Some q)
      with c(3) obtain ps where ps: "q = (map int ps, int (length ps * (length rs - length ys)))"
        "spaced (length ys) pos ps (length xs)" "replaced eq ys rs (drop pos xs) = patch xs (length ys) rs pos ps"
        by (metis add_0 append_Nil)
      have "length (patch xs (length ys) rs pos ps) = length xs - pos + length ps * (length rs - length ys)"
        using length_patch [OF less_imp_le [OF 3] ps(2)] by simp
      then have total: "pos + length (replaced eq ys rs (drop pos xs)) = length xs + length ps * (length rs - length ys)"
        using ps(3) pos by simp
      from \<open>length (patch xs (length ys) rs pos ps) = _\<close>
      have "length xs + length ps * (length rs - length ys) < 2 ^ 30" using small(2) ps(3) by simp
      then have "int (length xs + length ps * (length rs - length ys)) < int (2 ^ 30)" by (simp only: of_nat_less_iff)
      then have "int (length xs) + int (length ps * (length rs - length ys)) < 2 ^ 30"
        by (simp only: of_nat_add of_nat_power of_nat_numeral)
      moreover have "int (length xs) + int (length ps * (length rs - length ys)) + 1 < mlen b" if "r = Inside off n" for off n
      proof -
        have "int (length xs + length ps * (length rs - length ys)) + 1 < mlen b"
          using stays that 3 unfolding total by simp
        then show ?thesis by (simp only: of_nat_add)
      qed
      ultimately have "edit_ok al' (expand b f r (map int ps) (int (length ps * (length rs - length ys))) al') xs
          (take pos xs @ patch xs (length ys) rs pos ps)"
        by (intro expand_edit [OF rep(1) kept_slen [OF f(1)] r 3 ps(2) pos refl])
      then have "edit_ok al (expand b f r (map int ps) (int (length ps * (length rs - length ys))) al') xs
          (take pos xs @ replaced eq ys rs (drop pos xs))"
        using c(2) by (auto simp: edit_ok_def ps(3))
      with 3 sl c(1) Some ps(1) show ?thesis by (simp add: replace_with_def)
    qed
  qed
qed


lemma findreplaceengine_edit:
  assumes b: "bs_ok b xs" and f: "arg_rep xs f ys" "ys \<noteq> []" and r: "arg_rep xs r rs"
    and small: "length xs < 2 ^ 25" "length ys < 2 ^ 30" "length rs < 2 ^ 30"
      "length xs + length (replaced eq ys rs (drop pos xs)) < 2 ^ 30"
    and stays: "stays_put eq b pos ys r rs xs"
  shows "\<exists>q. findreplaceengine instr (Some b) (Some f) (Some r) (int pos) al = Some q \<and>
    edit_ok al q xs (take pos xs @ replaced eq ys rs (drop pos xs))"
proof -
  have rep: "bs_rep b xs" using b by (simp add: bs_ok_def)
  have dat: "data b \<noteq> None" "\<not> arg_null f" "\<not> arg_null r" "0 < mlen b" "slen b \<le> mlen b"
    using rep arg_rep_not_null [OF f(1)] arg_rep_not_null [OF r] by (auto elim!: bs_rep_cells)
  note sl = bs_rep_slen [OF rep] arg_rep_slen [OF f(1)] arg_rep_slen [OF r]
  have big: "int (length ys) < 2 ^ 31 - 1" "int (length rs) < 2 ^ 31 - 1" using small(2,3) by simp_all
  show ?thesis
  proof (cases "length xs < pos + length ys")
    case True
    have "replaced eq ys rs (drop pos xs) = drop pos xs"
    proof (cases "pos \<le> length xs")
      case True
      then show ?thesis
        by (rule replaced_none [OF f(2)]) (use \<open>length xs < pos + length ys\<close> in \<open>auto simp: matches_nth\<close>)
    qed simp
    with True dat sl b f(2) show ?thesis
      by (cases ys) (auto simp: findreplaceengine_def edit_ok_def)
  next
    case False
    then have pos: "pos \<le> length xs" by simp
    let ?us = "take pos xs"
    obtain auxf al1 where cf: "alias_copy (lies_between (int pos - arg_slen f + 1) (slen b) f) b f al = Inr (auxf, al1)"
      "\<forall>a. auxf = Some a \<longrightarrow> kept ?us a ys \<and> (\<forall>off n. a = Inside off n \<longrightarrow> ys = [] \<or> f = Inside off n \<and> off + n \<le> int pos)"
      "al = [] \<longrightarrow> auxf \<noteq> None \<and> al1 = []" by (rule alias_copy_kept [OF rep f(1) big(1) pos])
    obtain auxr al2 where cr: "alias_copy (lies_between (int pos - arg_slen r + 1) (slen b) r) b r al1 = Inr (auxr, al2)"
      "\<forall>a. auxr = Some a \<longrightarrow> kept ?us a rs \<and> (\<forall>off n. a = Inside off n \<longrightarrow> rs = [] \<or> r = Inside off n \<and> off + n \<le> int pos)"
      "al1 = [] \<longrightarrow> auxr \<noteq> None \<and> al2 = []" by (rule alias_copy_kept [OF rep r big(2) pos])
    have run: "findreplaceengine instr (Some b) (Some f) (Some r) (int pos) al =
        (case auxf of None \<Rightarrow> Some (Inr (BSTR_ERR, Some b, al1))
         | Some a \<Rightarrow> (case auxr of None \<Rightarrow> Some (Inr (BSTR_ERR, Some b, al2))
           | Some a' \<Rightarrow> replace_with instr b a a' (int pos) al2))"
    proof -
      have tests: "\<not> (data b = None \<or> arg_null f \<or> arg_null r \<or> int pos < 0 \<or> arg_slen f \<le> 0 \<or> mlen b < slen b \<or>
          mlen b \<le> 0 \<or> slen b < 0 \<or> arg_slen r < 0)" "\<not> int pos > slen b - arg_slen f"
        using False dat f(2) unfolding sl by auto
      show ?thesis
        unfolding findreplaceengine_def option.case prod.case if_not_P [OF tests(1)] if_not_P [OF tests(2)] cf(1) lift_res_def
          sum.case
        by (cases auxf; cases auxr) (simp_all add: cr(1))
    qed
    show ?thesis
    proof (cases "auxf = None \<or> auxr = None")
      case True
      with run cf(3) cr(3) rep show ?thesis by (auto simp: edit_ok_def split: option.splits)
    next
      case False
      then obtain a a' where a: "auxf = Some a" "auxr = Some a'" by (cases auxf; cases auxr) auto
      with cf(2) cr(2) have k: "kept ?us a ys" "kept ?us a' rs"
        "\<forall>off n. a' = Inside off n \<longrightarrow> rs = [] \<or> r = Inside off n \<and> off + n \<le> int pos" by simp_all
      have "\<forall>off n. a' = Inside off n \<longrightarrow> length rs \<le> length ys \<or>
          int (pos + length (replaced eq ys rs (drop pos xs))) + 1 < mlen b"
        using k(3) stays by (auto simp: stays_put_def)
      from replace_with_edit [OF b k(1) f(2) k(2) pos small(1,4) this, where al = al2] obtain q where
        q: "replace_with instr b a a' (int pos) al2 = Some q"
          "edit_ok al2 q xs (take pos xs @ replaced eq ys rs (drop pos xs))" by blast
      moreover have "edit_ok al q xs (take pos xs @ replaced eq ys rs (drop pos xs))"
        using q(2) cf(3) cr(3) by (auto simp: edit_ok_def)
      ultimately show ?thesis using run a by simp
    qed
  qed
qed

end

section \<open>Both searches keep the contract\<close>

lemma binstr_contract:
  assumes "bs_rep b xs" and "bs_rep f ys" and "ys \<noteq> []"
  shows "binstr False (Some b) (int pos) (Some f) =
    Some (Inr (first_where (matches (=) ys xs) (Suc (length xs)) (int pos)))"
proof -
  obtain d1 where d1: "bparts (Some b) = Some (d1, int (length xs))" "take (length xs) d1 = map Some xs"
    "length xs < 2 ^ 31" using bs_rep_parts [OF assms(1)] by blast
  obtain d0 where d0: "bparts (Some f) = Some (d0, int (length ys))" "take (length ys) d0 = map Some ys"
    "length ys < 2 ^ 31" using bs_rep_parts [OF assms(2)] by blast
  have "occurs_at xs ys = matches (=) ys xs"
    by (rule ext) (auto simp: occurs_at_def matches_def list.rel_eq)
  then have "first_occurrence xs ys (int pos) = first_where (matches (=) ys xs) (Suc (length xs)) (int pos)"
    by (simp add: first_occurrence_def first_where_def)
  moreover have "binstr False (Some b) (int pos) (Some f) = Some (Inr (first_occurrence xs ys (int pos)))"
  proof (cases "pos < length xs")
    case True
    show ?thesis by (rule binstr_inside [OF d1(1,2) d0(1,2) d1(3) d0(3) True assms(3)]) simp
  next
    case False
    then show ?thesis by (intro binstr_outside [OF d1(1) d0(1)]) simp
  qed
  ultimately show ?thesis by simp
qed

interpretation exact: finder "binstr False" "(=)"
  by unfold_locales (rule binstr_contract)

interpretation nocase: finder "\<lambda>b pos f. Some (binstrcaseless False b pos f)" caseless
  by unfold_locales (simp add: binstrcaseless_rep)

text \<open>
  C26: \<open>bfindreplace\<close> and \<open>bfindreplacecaseless\<close> end, stay inside the buffer, and replace every
  match from \<open>pos\<close> on, left to right and without overlaps, as one pass over the list of
  characters does: whether the new string has the length of the old one, is shorter or is
  longer, and with more than the 31 matches the first index array takes. Both arguments may be
  other strings or sections of the buffer; only a replacement string that lies before \<open>pos\<close> and
  makes the buffer grow is excepted. Without memory the string keeps its content; that is the
  only error.
\<close>

theorem findreplace_reference:
  assumes "bs_ok b xs" and "arg_rep xs f ys" and "arg_rep xs r rs" and "ys \<noteq> []"
    and "length xs < 2 ^ 25" and "length ys < 2 ^ 30" and "length rs < 2 ^ 30"
    and "length xs + length (replaced (=) ys rs (drop pos xs)) < 2 ^ 30"
    and "length xs + length (replaced caseless ys rs (drop pos xs)) < 2 ^ 30"
    and "stays_put (=) b pos ys r rs xs" and "stays_put caseless b pos ys r rs xs"
  shows "(\<exists>q. bfindreplace (Some b) (Some f) (Some r) (int pos) al = Some q \<and>
      edit_ok al q xs (take pos xs @ replaced (=) ys rs (drop pos xs))) \<and>
    (\<exists>q. bfindreplacecaseless (Some b) (Some f) (Some r) (int pos) al = Some q \<and>
      edit_ok al q xs (take pos xs @ replaced caseless ys rs (drop pos xs)))"
  unfolding bfindreplace_def bfindreplacecaseless_def
  using exact.findreplaceengine_edit [OF assms(1,2,4,3,5-8,10)]
    nocase.findreplaceengine_edit [OF assms(1,2,4,3,5-7,9,11)] by simp

text \<open>A replacement that grows, and one that ignores case and closes up.\<close>

definition replace_old :: bstring where
  "replace_old = \<lparr>mlen = 4, slen = 2, data = Some [Some 97, Some 98, Some 0, None]\<rparr>"

definition replace_new :: bstring where
  "replace_new = \<lparr>mlen = 4, slen = 3, data = Some [Some 120, Some 121, Some 122, Some 0]\<rparr>"

definition replace_nothing :: bstring where
  "replace_nothing = \<lparr>mlen = 4, slen = 0, data = Some [Some 0, None, None, None]\<rparr>"

definition replace_text :: bstring where
  "replace_text = \<lparr>mlen = 8, slen = 6, data = Some (map Some [97, 97, 66, 97, 98, 99] @ [Some 0, None])\<rparr>"

theorem findreplace_reference_witness:
  "(\<exists>q. bfindreplace (Some replace_text) (Some (Apart replace_old)) (Some (Apart replace_new)) 1 [] = Some q \<and>
      edit_ok [] q [97, 97, 66, 97, 98, 99] [97, 97, 66, 120, 121, 122, 99]) \<and>
   (\<exists>q. bfindreplace (Some replace_text) (Some (Inside 3 2)) (Some (Inside 0 4)) 3 [] = Some q \<and>
      edit_ok [] q [97, 97, 66, 97, 98, 99] [97, 97, 66, 97, 97, 66, 97, 99]) \<and>
   (\<exists>q. bfindreplacecaseless (Some replace_text) (Some (Inside 3 2)) (Some (Apart replace_nothing)) 0 [] = Some q \<and>
      edit_ok [] q [97, 97, 66, 97, 98, 99] [97, 99])"
proof -
  have ok: "bs_ok replace_text [97, 97, 66, 97, 98, 99]" by (simp add: bs_ok_def bs_rep_def replace_text_def)
  have rep: "bs_rep replace_old [97, 98]" "bs_rep replace_new [120, 121, 122]" "bs_rep replace_nothing []"
    by (simp_all add: bs_rep_def replace_old_def replace_new_def replace_nothing_def)
  have lists: "replaced (=) [97, 98] [120, 121, 122] (drop 1 [97, 97, 66, 97, 98, 99]) = [97, 66, 120, 121, 122, 99]"
    "replaced caseless [97, 98] [120, 121, 122] (drop 1 [97, 97, 66, 97, 98, 99]) =
      [120, 121, 122, 120, 121, 122, 99]"
    "replaced (=) [97, 98] [97, 97, 66, 97] (drop 3 [97, 97, 66, 97, 98, 99]) = [97, 97, 66, 97, 99]"
    "replaced caseless [97, 98] [97, 97, 66, 97] (drop 3 [97, 97, 66, 97, 98, 99]) = [97, 97, 66, 97, 99]"
    "replaced (=) [97, 98] [] (drop 0 [97, 97, 66, 97, 98, 99]) = [97, 97, 66, 99]"
    "replaced caseless [97, 98] [] (drop 0 [97, 97, 66, 97, 98, 99]) = [97, 99]"
    by code_simp+
  show ?thesis
    using findreplace_reference [OF ok, of "Apart replace_old" "[97, 98]" "Apart replace_new" "[120, 121, 122]" 1 "[]"]
      findreplace_reference [OF ok, of "Inside 3 2" "[97, 98]" "Inside 0 4" "[97, 97, 66, 97]" 3 "[]"]
      findreplace_reference [OF ok, of "Inside 3 2" "[97, 98]" "Apart replace_nothing" "[]" 0 "[]"] rep
    unfolding lists stays_put_def by (simp add: numeral_3_eq_3)
qed

text \<open>
  The exception: the replacement string lies before the position where the search begins, is
  not copied, and the buffer moves before it is read.
\<close>

declare collect_loop.simps [code] search_loop.simps [code]

lemma replacement_dangles:
  "bfindreplace (Some replace_text) (Some (Apart replace_old)) (Some (Inside 0 3)) 3 [] =
     Some (Inl DanglingPointer)"
  by code_simp

end
