(* ===== verification/BStream.thy ===== *)
theory BStream
  imports BFind
begin

text \<open>
  Reading in \<open>bstrlib.c\<close>: whole inputs and lines through functions like \<open>fread\<close> and \<open>fgetc\<close>, and
  the buffered stream \<open>bStream\<close>, with the streams over strings of \<open>bstraux.c\<close>. A stream is
  shown to be the list of characters that are still to come.

  The strings that are read into have other buffers than the stream.
\<close>

section \<open>Functions that read\<close>

text \<open>
  \<open>bNread\<close>, with elements of one byte: from its state and the size asked for, the cells it stores,
  whose number it returns, and the next state.
\<close>

type_synonym 's nread = "'s \<Rightarrow> int \<Rightarrow> (byte option list \<times> 's) res"

definition read_at :: "'s nread \<Rightarrow> byte option list \<Rightarrow> int \<Rightarrow> int \<Rightarrow> 's \<Rightarrow> (byte option list \<times> int \<times> 's) res" where
  "read_at fn d i n p =
     bind_res (fn p n) (\<lambda>(cs, p). bind_res (overwrite d i cs) (\<lambda>d. Inr (d, s32 (int (length cs)), p)))"

text \<open>\<open>balloc\<close>, and what follows when it fails and when it succeeds.\<close>

definition with_room ::
    "bstring option \<Rightarrow> int \<Rightarrow> alloc \<Rightarrow> (bstring option \<Rightarrow> alloc \<Rightarrow> 'a res)
     \<Rightarrow> (bstring \<Rightarrow> byte option list \<Rightarrow> alloc \<Rightarrow> 'a res) \<Rightarrow> 'a res" where
  "with_room bp n al failed k =
     bind_res (balloc bp n al) (\<lambda>(c, bp, al).
     if c \<noteq> BSTR_OK then failed bp al
     else case bp of None \<Rightarrow> Inl NullPointer
     | Some b \<Rightarrow> (case data b of None \<Rightarrow> Inl NullPointer | Some d \<Rightarrow> k b d al))"

definition BS_BUFF_SZ :: int where
  "BS_BUFF_SZ = 1024"

text \<open>One round of \<open>breada\<close>; with a code it returns.\<close>

definition breada_step ::
    "'s nread \<Rightarrow> bstring option \<Rightarrow> int \<Rightarrow> int \<Rightarrow> 's \<Rightarrow> alloc \<Rightarrow> (int option \<times> bstring option \<times> int \<times> 's \<times> alloc) res" where
  "breada_step fn bp i n p al =
     with_room bp (s32 (n + 1)) al (\<lambda>bp al. Inr (Some BSTR_ERR, bp, i, p, al)) (\<lambda>b d al.
     bind_res (read_at fn d i (n - i) p) (\<lambda>(d, l, p).
     let i = s32 (i + l) in
     if i < n then bind_res (put d i 0) (\<lambda>d. Inr (Some BSTR_OK, Some (b\<lparr>data := Some d, slen := i\<rparr>), i, p, al))
     else Inr (None, Some (b\<lparr>data := Some d, slen := i\<rparr>), i, p, al)))"

partial_function (option) breada_loop ::
    "'s nread \<Rightarrow> bstring option \<Rightarrow> int \<Rightarrow> int \<Rightarrow> 's \<Rightarrow> alloc \<Rightarrow> (int \<times> bstring option \<times> 's \<times> alloc) res option" where
  "breada_loop fn bp i n p al =
     (case breada_step fn bp i n p al of
        Inl e \<Rightarrow> Some (Inl e)
      | Inr (Some c, bp, i, p, al) \<Rightarrow> Some (Inr (c, bp, p, al))
      | Inr (None, bp, i, p, al) \<Rightarrow> breada_loop fn bp i (s32 (n + (if n < BS_BUFF_SZ then n else BS_BUFF_SZ))) p al)"

definition breada ::
    "bstring option \<Rightarrow> 's nread option \<Rightarrow> 's \<Rightarrow> alloc \<Rightarrow> (int \<times> bstring option \<times> 's \<times> alloc) res option" where
  "breada bp readPtr p al =
     (case (bp, readPtr) of (Some b, Some fn) \<Rightarrow>
        if mlen b \<le> 0 \<or> slen b < 0 \<or> mlen b < slen b then Some (Inr (BSTR_ERR, bp, p, al))
        else breada_loop fn bp (slen b) (s32 (slen b + 16)) p al
      | _ \<Rightarrow> Some (Inr (BSTR_ERR, bp, p, al)))"

definition bread :: "'s nread option \<Rightarrow> 's \<Rightarrow> alloc \<Rightarrow> (bstring option \<times> 's \<times> alloc) res option" where
  "bread readPtr p al =
     (case bfromcstr (Some [0]) al of Inl e \<Rightarrow> Some (Inl e) | Inr (buff, al) \<Rightarrow>
        map_option (\<lambda>r. bind_res r (\<lambda>(c, buff, p, al). Inr (if 0 > c then None else buff, p, al)))
          (breada buff readPtr p al))"

text \<open>
  \<open>bNgetc\<close>: the list of its results; behind its end, it returns -1. \<open>d\<close> is how far the string
  is filled, \<open>e\<close> how far it can be; the terminator is a \<open>char\<close>, compared as an \<open>int\<close>. At the end
  the string, \<open>d\<close>, and the last result, unless there is no memory.
\<close>

fun gets_loop ::
    "bstring option \<Rightarrow> int \<Rightarrow> int \<Rightarrow> int \<Rightarrow> int list \<Rightarrow> alloc \<Rightarrow> ((int \<times> int) option \<times> bstring option \<times> int list \<times> alloc) res" where
  "gets_loop bp d e t [] al = Inr (Some (d, -1), bp, [], al)"
| "gets_loop bp d e t (c # cs) al =
     (if c < 0 then Inr (Some (d, c), bp, cs, al)
      else
        bind_res (if d > e then
            (case bp of None \<Rightarrow> Inl NullPointer | Some b \<Rightarrow> balloc (Some (b\<lparr>slen := d\<rparr>)) (s32 (d + 2)) al)
          else Inr (BSTR_OK, bp, al)) (\<lambda>(r, bp, al).
        if r \<noteq> BSTR_OK then Inr (None, bp, cs, al)
        else case bp of None \<Rightarrow> Inl NullPointer
        | Some b \<Rightarrow> (case data b of None \<Rightarrow> Inl NullPointer | Some x \<Rightarrow>
          bind_res (put x d (word_of_int c)) (\<lambda>x.
          let bp = Some (b\<lparr>data := Some x\<rparr>); e = (if d > e then mlen b - 2 else e) in
          if c = t then Inr (Some (s32 (d + 1), c), bp, cs, al)
          else gets_loop bp (s32 (d + 1)) e t cs al))))"

definition gets_into ::
    "bstring option \<Rightarrow> int \<Rightarrow> int list \<Rightarrow> int \<Rightarrow> alloc \<Rightarrow> (int \<times> bstring option \<times> int list \<times> alloc) res" where
  "gets_into bp d cs t al =
     (case bp of None \<Rightarrow> Inl NullPointer | Some b \<Rightarrow>
      bind_res (gets_loop bp d (s32 (mlen b - 2)) t cs al) (\<lambda>(got, bp, cs, al).
      case got of None \<Rightarrow> Inr (BSTR_ERR, bp, cs, al)
      | Some (d, c) \<Rightarrow>
          (case bp of None \<Rightarrow> Inl NullPointer
           | Some b \<Rightarrow> (case data b of None \<Rightarrow> Inl NullPointer | Some x \<Rightarrow>
               bind_res (put x d 0) (\<lambda>x. Inr (if d = 0 \<and> c < 0 then 1 else 0, Some (b\<lparr>data := Some x, slen := d\<rparr>), cs, al))))))"

definition bassigngets ::
    "bstring option \<Rightarrow> int list \<Rightarrow> int \<Rightarrow> alloc \<Rightarrow> (int \<times> bstring option \<times> int list \<times> alloc) res" where
  "bassigngets bp cs t al =
     (case bp of None \<Rightarrow> Inr (BSTR_ERR, bp, cs, al) | Some b \<Rightarrow>
      if mlen b \<le> 0 \<or> slen b < 0 \<or> mlen b < slen b then Inr (BSTR_ERR, bp, cs, al)
      else gets_into bp 0 cs t al)"

definition bgetsa ::
    "bstring option \<Rightarrow> int list \<Rightarrow> int \<Rightarrow> alloc \<Rightarrow> (int \<times> bstring option \<times> int list \<times> alloc) res" where
  "bgetsa bp cs t al =
     (case bp of None \<Rightarrow> Inr (BSTR_ERR, bp, cs, al) | Some b \<Rightarrow>
      if mlen b \<le> 0 \<or> slen b < 0 \<or> mlen b < slen b then Inr (BSTR_ERR, bp, cs, al)
      else gets_into bp (slen b) cs t al)"

definition bgets :: "int list \<Rightarrow> int \<Rightarrow> alloc \<Rightarrow> (bstring option \<times> int list \<times> alloc) res" where
  "bgets cs t al =
     bind_res (bfromcstr (Some [0]) al) (\<lambda>(buff, al).
     bind_res (bgetsa buff cs t al) (\<lambda>(c, buff, cs, al).
     if 0 > c then Inr (None, cs, al)
     else case buff of None \<Rightarrow> Inl NullPointer | Some b \<Rightarrow> Inr (if 0 \<ge> slen b then None else buff, cs, al)))"

section \<open>Streams\<close>

record 's bStream =
  buff :: "bstring option"
  parm :: 's
  readFnPtr :: "'s nread option"
  isEOF :: bool
  maxBuffSz :: int

definition bsopen :: "'s nread option \<Rightarrow> 's \<Rightarrow> alloc \<Rightarrow> ('s bStream option \<times> alloc) res" where
  "bsopen readPtr p al =
     (case readPtr of None \<Rightarrow> Inr (None, al) | Some _ \<Rightarrow>
      (case answer al of (False, al) \<Rightarrow> Inr (None, al)
       | (True, al) \<Rightarrow>
           bind_res (bfromcstr (Some [0]) al) (\<lambda>(b, al).
           Inr (Some \<lparr>buff = b, parm = p, readFnPtr = readPtr, isEOF = False, maxBuffSz = BS_BUFF_SZ\<rparr>, al))))"

definition bsbufflength :: "'s bStream option \<Rightarrow> int \<Rightarrow> int \<times> 's bStream option" where
  "bsbufflength sp sz =
     (case sp of None \<Rightarrow> (BSTR_ERR, sp) | Some s \<Rightarrow>
      if sz < 0 then (BSTR_ERR, sp)
      else (maxBuffSz s, Some (if sz > 0 then s\<lparr>maxBuffSz := sz\<rparr> else s)))"

definition bseof :: "'s bStream option \<Rightarrow> int res" where
  "bseof sp =
     (case sp of None \<Rightarrow> Inr BSTR_ERR | Some s \<Rightarrow>
      if readFnPtr s = None then Inr BSTR_ERR
      else if isEOF s then (case buff s of None \<Rightarrow> Inl NullPointer | Some u \<Rightarrow> Inr (if slen u = 0 then 1 else 0))
      else Inr 0)"

text \<open>The stream is freed; \<open>None\<close> is the result NULL.\<close>

definition bsclose :: "'s bStream option \<Rightarrow> 's option" where
  "bsclose sp = map_option parm sp"

subsection \<open>Lines\<close>

text \<open>The search for a terminator, which ends at the sentinel.\<close>

fun scan_cells :: "(byte \<Rightarrow> bool) \<Rightarrow> byte option list \<Rightarrow> int res" where
  "scan_cells stop [] = Inl OutOfBounds"
| "scan_cells stop (None # cs) = Inl Uninitialised"
| "scan_cells stop (Some c # cs) =
     (if stop c then Inr 0 else bind_res (scan_cells stop cs) (\<lambda>i. Inr (i + 1)))"

text \<open>The local \<open>struct tagbstring x\<close>, whose \<open>mlen\<close> is neither set nor looked at.\<close>

definition local_tag :: "byte option list \<Rightarrow> int \<Rightarrow> bstring" where
  "local_tag d n = \<lparr>mlen = 0, slen = n, data = Some d\<rparr>"

text \<open>
  \<open>bsreadlna\<close> and \<open>bsreadlnsa\<close> differ in the test \<open>stop\<close> for a terminator and in the sentinel. First
  the buffer, then one round of the loop of direct reads.
\<close>

definition line_start ::
    "(byte \<Rightarrow> bool) \<Rightarrow> byte \<Rightarrow> bstring \<Rightarrow> 's bStream \<Rightarrow> alloc
     \<Rightarrow> (int option \<times> bstring option \<times> 's bStream \<times> alloc) res" where
  "line_start stop sentinel r s al =
     with_room (buff s) (s32 (maxBuffSz s + 1)) al (\<lambda>u al. Inr (Some BSTR_ERR, Some r, s\<lparr>buff := u\<rparr>, al)) (\<lambda>u d al.
     let l = slen u in
     bind_res (put d l sentinel) (\<lambda>d.
     bind_res (scan_cells stop d) (\<lambda>i.
     let u = u\<lparr>data := Some d\<rparr> in
     if i < l then
       bind_res (bconcat (Some r) (Some (Apart (local_tag d (i + 1)))) al) (\<lambda>(c, r, al).
       if c = BSTR_OK then bind_res (bdelete (Some u) 0 (i + 1)) (\<lambda>(_, u). Inr (Some BSTR_OK, r, s\<lparr>buff := u\<rparr>, al))
       else Inr (Some BSTR_OK, r, s\<lparr>buff := Some u\<rparr>, al))
     else
       bind_res (bconcat (Some r) (Some (Apart (local_tag d l))) al) (\<lambda>(c, r, al).
       Inr (if c \<noteq> BSTR_OK then Some BSTR_ERR else None, r, s\<lparr>buff := Some u\<rparr>, al)))))"

text \<open>The terminator has been found at \<open>i\<close> of the \<open>l\<close> characters read.\<close>

definition push_back ::
    "bstring \<Rightarrow> bstring \<Rightarrow> byte option list \<Rightarrow> int \<Rightarrow> int \<Rightarrow> 's bStream \<Rightarrow> alloc
     \<Rightarrow> (int option \<times> bstring option \<times> 's bStream \<times> alloc) res" where
  "push_back r u d i l s al =
     (let i = i + 1; n = s32 (slen r + i) in
      case data u of None \<Rightarrow> Inl NullPointer | Some x \<Rightarrow>
        bind_res (copy_cells x 0 (drop (nat n) d) (l - i)) (\<lambda>x.
        bind_res (put d n 0) (\<lambda>d.
        Inr (Some BSTR_OK, Some (r\<lparr>data := Some d, slen := n\<rparr>),
             s\<lparr>buff := Some (u\<lparr>data := Some x, slen := l - i\<rparr>)\<rparr>, al))))"

definition line_step ::
    "(byte \<Rightarrow> bool) \<Rightarrow> byte \<Rightarrow> int \<Rightarrow> bstring option \<Rightarrow> 's bStream \<Rightarrow> alloc
     \<Rightarrow> (int option \<times> bstring option \<times> 's bStream \<times> alloc) res" where
  "line_step stop sentinel rlo rp s al =
     (case rp of None \<Rightarrow> Inl NullPointer | Some r \<Rightarrow>
      with_room rp (s32 (slen r + maxBuffSz s + 1)) al (\<lambda>rp al. Inr (Some BSTR_ERR, rp, s, al)) (\<lambda>r d al.
      case (readFnPtr s, buff s) of (Some fn, Some u) \<Rightarrow>
        bind_res (read_at fn d (slen r) (maxBuffSz s) (parm s)) (\<lambda>(d, l, p).
        let s = s\<lparr>parm := p\<rparr> in
        if l \<le> 0 then
          bind_res (put d (slen r) 0) (\<lambda>d.
          Inr (Some (if slen r = rlo then BSTR_ERR else BSTR_OK), Some (r\<lparr>data := Some d\<rparr>),
               s\<lparr>buff := Some (u\<lparr>slen := 0\<rparr>), isEOF := True\<rparr>, al))
        else
          bind_res (put d (slen r + l) sentinel) (\<lambda>d.
          bind_res (scan_cells stop (drop (nat (slen r)) d)) (\<lambda>i.
          if i < l then push_back r u d i l s al
          else Inr (None, Some (r\<lparr>data := Some d, slen := s32 (slen r + l)\<rparr>), s, al))))
      | _ \<Rightarrow> Inl NullPointer))"

partial_function (option) line_loop ::
    "(byte \<Rightarrow> bool) \<Rightarrow> byte \<Rightarrow> int \<Rightarrow> bstring option \<Rightarrow> 's bStream \<Rightarrow> alloc
     \<Rightarrow> (int \<times> bstring option \<times> 's bStream option \<times> alloc) res option" where
  "line_loop stop sentinel rlo rp s al =
     (case line_step stop sentinel rlo rp s al of
        Inl e \<Rightarrow> Some (Inl e)
      | Inr (Some c, rp, s, al) \<Rightarrow> Some (Inr (c, rp, Some s, al))
      | Inr (None, rp, s, al) \<Rightarrow> line_loop stop sentinel rlo rp s al)"

definition read_line ::
    "(byte \<Rightarrow> bool) \<Rightarrow> byte \<Rightarrow> bstring \<Rightarrow> 's bStream \<Rightarrow> alloc
     \<Rightarrow> (int \<times> bstring option \<times> 's bStream option \<times> alloc) res option" where
  "read_line stop sentinel r s al =
     (case line_start stop sentinel r s al of
        Inl e \<Rightarrow> Some (Inl e)
      | Inr (Some c, rp, s, al) \<Rightarrow> Some (Inr (c, rp, Some s, al))
      | Inr (None, rp, s, al) \<Rightarrow> line_loop stop sentinel (slen r) rp s al)"

definition bsreadlna ::
    "bstring option \<Rightarrow> 's bStream option \<Rightarrow> byte \<Rightarrow> alloc
     \<Rightarrow> (int \<times> bstring option \<times> 's bStream option \<times> alloc) res option" where
  "bsreadlna rp sp t al =
     (case (rp, sp) of (Some r, Some s) \<Rightarrow>
        if buff s = None \<or> mlen r \<le> 0 \<or> slen r < 0 \<or> mlen r < slen r then Some (Inr (BSTR_ERR, rp, sp, al))
        else read_line (\<lambda>c. c = t) t r s al
      | _ \<Rightarrow> Some (Inr (BSTR_ERR, rp, sp, al)))"

definition bsreadlnsa ::
    "bstring option \<Rightarrow> 's bStream option \<Rightarrow> bstring option \<Rightarrow> alloc
     \<Rightarrow> (int \<times> bstring option \<times> 's bStream option \<times> alloc) res option" where
  "bsreadlnsa rp sp tp al =
     (case (rp, sp, tp) of (Some r, Some s, Some term) \<Rightarrow>
        if buff s = None \<or> data term = None \<or> mlen r \<le> 0 \<or> slen r < 0 \<or> mlen r < slen r
        then Some (Inr (BSTR_ERR, rp, sp, al))
        else if slen term = 1 then
          (case cell (the (data term)) 0 of Inl e \<Rightarrow> Some (Inl e) | Inr c \<Rightarrow> bsreadlna rp sp c al)
        else if slen term < 1 then Some (Inr (BSTR_ERR, rp, sp, al))
        else
          (case buildCharField tp of
             Inl e \<Rightarrow> Some (Inl e)
           | Inr None \<Rightarrow> Some (Inr (BSTR_ERR, rp, sp, al))
           | Inr (Some cf) \<Rightarrow>
               (case cell (the (data term)) 0 of Inl e \<Rightarrow> Some (Inl e)
                | Inr c \<Rightarrow> read_line (testInCharField cf) c r s al))
      | _ \<Rightarrow> Some (Inr (BSTR_ERR, rp, sp, al)))"

subsection \<open>Blocks\<close>

text \<open>
  One round of the loop of \<open>bsreada\<close>, which reads up to a length of \<open>n\<close>; \<open>l\<close> characters are in
  the buffer \<open>u\<close>. It goes on with the new \<open>l\<close>, or returns.
\<close>

definition read_done :: "int \<Rightarrow> int \<Rightarrow> bstring \<Rightarrow> bstring option \<Rightarrow> 's bStream \<Rightarrow> alloc
     \<Rightarrow> (int option \<times> int \<times> bstring option \<times> 's bStream \<times> alloc) res" where
  "read_done orslen l u rp s al =
     (case rp of None \<Rightarrow> Inl NullPointer | Some r \<Rightarrow>
      let l = (if l < 0 then 0 else l) in
      Inr (Some (if slen r = orslen then BSTR_ERR else BSTR_OK), l, rp,
           s\<lparr>buff := Some (u\<lparr>slen := l\<rparr>), isEOF := (isEOF s \<or> l = 0)\<rparr>, al))"

definition read_step ::
    "int \<Rightarrow> int \<Rightarrow> int \<Rightarrow> bstring option \<Rightarrow> 's bStream \<Rightarrow> alloc
     \<Rightarrow> (int option \<times> int \<times> bstring option \<times> 's bStream \<times> alloc) res" where
  "read_step n orslen l rp s al =
     (case (rp, buff s) of (Some r, Some u) \<Rightarrow>
       (case data u of None \<Rightarrow> Inl NullPointer | Some d \<Rightarrow>
        if s32 (l + slen r) \<ge> n then
          let k = n - slen r; u = u\<lparr>slen := l\<rparr> in
          bind_res (bconcat rp (Some (Apart (local_tag d k))) al) (\<lambda>(c, rp, al).
          bind_res (if c = BSTR_OK then bind_res (bdelete (Some u) 0 k) (\<lambda>(_, u). Inr u) else Inr (Some u)) (\<lambda>u.
          case rp of None \<Rightarrow> Inl NullPointer
          | Some r \<Rightarrow> Inr (Some (if slen r = orslen then BSTR_ERR else BSTR_OK), l, rp, s\<lparr>buff := u\<rparr>, al)))
        else
          bind_res (bconcat rp (Some (Apart (local_tag d l))) al) (\<lambda>(c, rp, al).
          if c \<noteq> BSTR_OK then read_done orslen l u rp s al
          else case (rp, readFnPtr s) of (Some r, Some fn) \<Rightarrow>
            let m = n - slen r; m = (if m > maxBuffSz s then maxBuffSz s else m) in
            bind_res (read_at fn d 0 m (parm s)) (\<lambda>(d, l, p).
            let s = s\<lparr>parm := p, buff := Some (u\<lparr>data := Some d\<rparr>)\<rparr> in
            if l > 0 then Inr (None, l, rp, s, al) else read_done orslen l (u\<lparr>data := Some d\<rparr>) rp s al)
          | _ \<Rightarrow> Inl NullPointer))
     | _ \<Rightarrow> Inl NullPointer)"

partial_function (option) read_loop ::
    "int \<Rightarrow> int \<Rightarrow> int \<Rightarrow> bstring option \<Rightarrow> 's bStream \<Rightarrow> alloc
     \<Rightarrow> (int \<times> bstring option \<times> 's bStream option \<times> alloc) res option" where
  "read_loop n orslen l rp s al =
     (case read_step n orslen l rp s al of
        Inl e \<Rightarrow> Some (Inl e)
      | Inr (Some c, l, rp, s, al) \<Rightarrow> Some (Inr (c, rp, Some s, al))
      | Inr (None, l, rp, s, al) \<Rightarrow> read_loop n orslen l rp s al)"

text \<open>With an empty buffer and room in the string, one read goes directly to the string.\<close>

definition read_direct ::
    "int \<Rightarrow> bstring \<Rightarrow> 's bStream \<Rightarrow> alloc \<Rightarrow> (int \<times> bstring option \<times> 's bStream option \<times> alloc) res" where
  "read_direct n r s al =
     (case (data r, readFnPtr s) of (Some d, Some fn) \<Rightarrow>
        bind_res (read_at fn d (slen r) (n - slen r) (parm s)) (\<lambda>(d, l, p).
        if 0 \<ge> l \<or> l > n - slen r then
          Inr (BSTR_ERR, Some (r\<lparr>data := Some d\<rparr>), Some (s\<lparr>parm := p, isEOF := True\<rparr>), al)
        else
          bind_res (put d (slen r + l) 0) (\<lambda>d.
          Inr (BSTR_OK, Some (r\<lparr>data := Some d, slen := slen r + l\<rparr>), Some (s\<lparr>parm := p\<rparr>), al)))
      | _ \<Rightarrow> Inl NullPointer)"

definition bsreada ::
    "bstring option \<Rightarrow> 's bStream option \<Rightarrow> int \<Rightarrow> alloc
     \<Rightarrow> (int \<times> bstring option \<times> 's bStream option \<times> alloc) res option" where
  "bsreada rp sp n al =
     (case (rp, sp) of (Some r, Some s) \<Rightarrow>
       (case buff s of None \<Rightarrow> Some (Inr (BSTR_ERR, rp, sp, al)) | Some u \<Rightarrow>
        if mlen r \<le> 0 \<or> slen r < 0 \<or> mlen r < slen r \<or> n \<le> 0 then Some (Inr (BSTR_ERR, rp, sp, al))
        else
          let n = s32 (n + slen r) in
          if n \<le> 0 then Some (Inr (BSTR_ERR, rp, sp, al))
          else if slen u = 0 \<and> isEOF s then Some (Inr (BSTR_ERR, rp, sp, al))
          else if slen u = 0 \<and> mlen r > n then Some (read_direct n r s al)
          else
            (case with_room (Some u) (s32 (maxBuffSz s + 1)) al (\<lambda>u al. Inr (False, u, al)) (\<lambda>u d al. Inr (True, Some u, al)) of
               Inl e \<Rightarrow> Some (Inl e)
             | Inr (False, u', al) \<Rightarrow> Some (Inr (BSTR_ERR, rp, Some (s\<lparr>buff := u'\<rparr>), al))
             | Inr (True, u', al) \<Rightarrow> read_loop n (slen r) (slen u) rp (s\<lparr>buff := u'\<rparr>) al))
     | _ \<Rightarrow> Some (Inr (BSTR_ERR, rp, sp, al)))"

subsection \<open>Reading into an emptied string, and the other operations\<close>

definition read_fresh ::
    "bstring option \<Rightarrow> 's bStream option \<Rightarrow> alloc
     \<Rightarrow> (bstring option \<Rightarrow> 's bStream option \<Rightarrow> alloc \<Rightarrow> (int \<times> bstring option \<times> 's bStream option \<times> alloc) res option)
     \<Rightarrow> (int \<times> bstring option \<times> 's bStream option \<times> alloc) res option" where
  "read_fresh rp sp al k =
     (case (rp, sp) of (Some r, Some s) \<Rightarrow>
        if buff s = None \<or> mlen r \<le> 0 then Some (Inr (BSTR_ERR, rp, sp, al))
        else
          (case balloc (buff s) (s32 (maxBuffSz s + 1)) al of
             Inl e \<Rightarrow> Some (Inl e)
           | Inr (c, u, al) \<Rightarrow>
               if c \<noteq> BSTR_OK then Some (Inr (BSTR_ERR, rp, Some (s\<lparr>buff := u\<rparr>), al))
               else k (Some (r\<lparr>slen := 0\<rparr>)) (Some (s\<lparr>buff := u\<rparr>)) al)
      | _ \<Rightarrow> Some (Inr (BSTR_ERR, rp, sp, al)))"

definition bsreadln ::
    "bstring option \<Rightarrow> 's bStream option \<Rightarrow> byte \<Rightarrow> alloc
     \<Rightarrow> (int \<times> bstring option \<times> 's bStream option \<times> alloc) res option" where
  "bsreadln rp sp t al = read_fresh rp sp al (\<lambda>rp sp al. bsreadlna rp sp t al)"

definition bsreadlns ::
    "bstring option \<Rightarrow> 's bStream option \<Rightarrow> bstring option \<Rightarrow> alloc
     \<Rightarrow> (int \<times> bstring option \<times> 's bStream option \<times> alloc) res option" where
  "bsreadlns rp sp tp al =
     (case (rp, sp, tp) of (Some r, Some s, Some term) \<Rightarrow>
        if buff s = None \<or> data term = None \<or> mlen r \<le> 0 then Some (Inr (BSTR_ERR, rp, sp, al))
        else if slen term = 1 then
          (case cell (the (data term)) 0 of Inl e \<Rightarrow> Some (Inl e) | Inr c \<Rightarrow> bsreadln rp sp c al)
        else if slen term < 1 then Some (Inr (BSTR_ERR, rp, sp, al))
        else read_fresh rp sp al (\<lambda>rp sp al. bsreadlnsa rp sp tp al)
      | _ \<Rightarrow> Some (Inr (BSTR_ERR, rp, sp, al)))"

definition bsread ::
    "bstring option \<Rightarrow> 's bStream option \<Rightarrow> int \<Rightarrow> alloc
     \<Rightarrow> (int \<times> bstring option \<times> 's bStream option \<times> alloc) res option" where
  "bsread rp sp n al =
     (if n \<le> 0 then Some (Inr (BSTR_ERR, rp, sp, al)) else read_fresh rp sp al (\<lambda>rp sp al. bsreada rp sp n al))"

definition bsunread ::
    "'s bStream option \<Rightarrow> barg option \<Rightarrow> alloc \<Rightarrow> (int \<times> 's bStream option \<times> alloc) res" where
  "bsunread sp bp al =
     (case sp of None \<Rightarrow> Inr (BSTR_ERR, sp, al) | Some s \<Rightarrow>
      if buff s = None then Inr (BSTR_ERR, sp, al)
      else bind_res (binsert (buff s) 0 bp 63 al) (\<lambda>(c, u, al). Inr (c, Some (s\<lparr>buff := u\<rparr>), al)))"

definition bspeek ::
    "bstring option \<Rightarrow> 's bStream option \<Rightarrow> alloc \<Rightarrow> (int \<times> bstring option \<times> alloc) res" where
  "bspeek rp sp al =
     (case sp of None \<Rightarrow> Inr (BSTR_ERR, rp, al) | Some s \<Rightarrow>
      if buff s = None then Inr (BSTR_ERR, rp, al) else bassign rp (map_option Apart (buff s)) al)"

section \<open>Streams over strings\<close>

definition readNothing :: "unit nread" where
  "readNothing p n = Inr ([], p)"

definition bsFromBstr :: "bstring option \<Rightarrow> alloc \<Rightarrow> (unit bStream option \<times> alloc) res" where
  "bsFromBstr bp al =
     bind_res (bsopen (Some readNothing) () al) (\<lambda>(sp, al).
     bind_res (bsunread sp (map_option Apart bp) al) (\<lambda>(_, sp, al). Inr (sp, al)))"

text \<open>The state is the structure that \<open>parm\<close> points to; \<open>t->data += tsz\<close> drops cells.\<close>

definition readRef :: "bstring nread" where
  "readRef t n =
     (let tsz = (if 0 \<le> slen t \<and> slen t < n then slen t else n) in
      if tsz > 0 then
        (case data t of None \<Rightarrow> Inl NullPointer | Some d \<Rightarrow>
         bind_res (first_cells d tsz) (\<lambda>cs. Inr (cs, t\<lparr>slen := s32 (slen t - tsz), data := Some (drop (nat tsz) d)\<rparr>)))
      else Inr ([], t))"

definition bsFromBstrRef :: "bstring option \<Rightarrow> alloc \<Rightarrow> (bstring bStream option \<times> alloc) res" where
  "bsFromBstrRef tp al = (case tp of None \<Rightarrow> Inr (None, al) | Some t \<Rightarrow> bsopen (Some readRef) t al)"

section \<open>Room\<close>

lemma rep_cells:
  assumes "data b = Some (map Some xs @ r)" and "length xs + length r = nat (mlen b)" and "0 < mlen b"
    and "mlen b < 2 ^ 31" and "slen b = int (length xs)"
  shows "bs_rep b xs" and "r = Some 0 # r' \<Longrightarrow> bs_ok b xs"
proof -
  show rep: "bs_rep b xs" using assms by (simp add: bs_rep_def)
  assume "r = Some 0 # r'"
  with rep assms show "bs_ok b xs" by (simp add: bs_ok_def nth_append)
qed

lemma balloc_room:
  assumes "bs_rep b xs" and "0 < n" and "n < 2 ^ 30" and "slen b < mlen b \<or> slen b < n"
  obtains b' r where "balloc (Some b) n [] = Inr (BSTR_OK, Some b', [])" "data b' = Some (map Some xs @ r)"
    "length xs + length r = nat (mlen b')" "0 < mlen b'" "mlen b' < 2 ^ 31" "slen b' = int (length xs)"
    "bs_rep b' xs" "n < mlen b'" "int (length xs) < mlen b'"
proof -
  have "n < 2 ^ 31" using assms(3) by simp
  from balloc_rep [OF assms(1,2) this assms(4), of "[]"] obtain b' where
    b': "balloc (Some b) n [] = Inr (BSTR_OK, Some b', [])" "bs_rep b' xs" by auto
  have n: "n < mlen b'" using assms(1-3) b'(1) by (rule balloc_strict)
  have "int (length xs) < mlen b'"
  proof (cases "slen b < n")
    case True
    with n bs_rep_slen [OF assms(1)] show ?thesis by simp
  next
    case False
    with assms(4) have "n < mlen b" "slen b < mlen b" by simp_all
    with b'(1) assms(1) have "b' = b" by (auto simp: balloc_def bs_rep_def split: if_splits)
    with \<open>slen b < mlen b\<close> bs_rep_slen [OF assms(1)] show ?thesis by simp
  qed
  moreover obtain r where "data b' = Some (map Some xs @ r)" "length xs + length r = nat (mlen b')"
    "0 < mlen b'" "mlen b' < 2 ^ 31" "slen b' = int (length xs)" using b'(2) by (rule bs_rep_cells)
  ultimately show thesis using that b' n by blast
qed

lemma put_at: "i = int (length u) \<Longrightarrow> put (u @ v # w) i c = Inr (u @ Some c # w)"
  by (simp add: put_def)

lemma bconcat_tag:
  "bconcat bp (Some (Apart (local_tag d n))) al = bconcat bp (Some (Apart \<lparr>mlen = m, slen = n, data = Some d\<rparr>)) al"
  by (cases bp) (simp_all add: bconcat_def alias_copy_def copy_from_def local_tag_def Let_def)

lemma bdelete_mlen: "bdelete (Some b) p n = Inr (c, Some b') \<Longrightarrow> mlen b' = mlen b"
  by (auto simp: bdelete_def res_simps Let_def split: if_splits)

lemma append_cells:
  assumes "bs_rep b xs" and "int (length xs) + int (length ys) < 2 ^ 30" and "0 < length ys + length r" and "length ys + length r < 2 ^ 31"
  obtains b' where "bconcat (Some b) (Some (Apart (local_tag (map Some ys @ r) (int (length ys))))) [] = Inr (BSTR_OK, Some b', [])"
    "bs_ok b' (xs @ ys)"
proof -
  let ?m = "int (length ys + length r)"
  have "arg_rep xs (Apart \<lparr>mlen = ?m, slen = int (length ys), data = Some (map Some ys @ r)\<rparr>) ys"
    unfolding arg_rep.simps using assms(3,4) by (intro rep_cells [of _ _ r]) (simp_all flip: of_nat_add)
  from bconcat_edit [OF assms(1) this assms(2), of "[]"] show thesis
    using that by (auto simp: edit_ok_def bconcat_tag [of _ _ _ _ ?m])
qed

section \<open>Lines on lists\<close>

text \<open>How many characters the first line of \<open>xs\<close> has, its terminator included.\<close>

fun line_len :: "(byte \<Rightarrow> bool) \<Rightarrow> byte list \<Rightarrow> nat" where
  "line_len stop [] = 0"
| "line_len stop (x # xs) = (if stop x then 1 else Suc (line_len stop xs))"

lemma line_len_le: "line_len stop xs \<le> length xs"
  by (induction xs) auto

lemma line_len_append:
  "line_len stop (xs @ ys) = (if \<exists>x\<in>set xs. stop x then line_len stop xs else length xs + line_len stop ys)"
  by (induction xs) auto

lemma line_len_none: "\<not> (\<exists>x\<in>set xs. stop x) \<Longrightarrow> line_len stop xs = length xs"
  by (induction xs) auto

lemma scan_sentinel:
  "stop c \<Longrightarrow> scan_cells stop (map Some xs @ Some c # r) =
    Inr (int (line_len stop xs) - (if \<exists>x\<in>set xs. stop x then 1 else 0))"
  by (induction xs) auto

lemma line_len_pos: "\<exists>x\<in>set xs. stop x \<Longrightarrow> 0 < line_len stop xs"
  by (cases xs) auto

section \<open>The contract of a function that reads\<close>

text \<open>
  \<open>rest p\<close> is what is still to come in a state \<open>p\<close>. Nothing is read only at the end; a function
  like \<open>fread\<close> also reads less than what was asked for only at the end.
\<close>

text \<open>How many characters one read of the source gives that is asked for \<open>n\<close>.\<close>

definition read_size :: "'s nread \<Rightarrow> 's \<Rightarrow> int \<Rightarrow> nat" where
  "read_size nread p n = (case nread p n of Inr (cs, p) \<Rightarrow> length cs | Inl e \<Rightarrow> 0)"

locale stream_source =
  fixes nread :: "'s nread" and rest :: "'s \<Rightarrow> byte list" and good :: "'s \<Rightarrow> bool"
  assumes reads: "good p \<Longrightarrow> 0 < n \<Longrightarrow> \<exists>bs p'. nread p n = Inr (map Some bs, p') \<and> good p' \<and>
    rest p = bs @ rest p' \<and> int (length bs) \<le> n \<and> (bs = [] \<longrightarrow> rest p = [])"
begin

lemma read_at_cells:
  assumes "good p" and "0 < n" and "i = int (length u)" and "n \<le> int (length v)" and "n < 2 ^ 31"
  obtains bs p' where "read_at nread (u @ v) i n p = Inr (u @ map Some bs @ drop (length bs) v, int (length bs), p')"
    "good p'" "rest p = bs @ rest p'" "int (length bs) \<le> n" "bs = [] \<longrightarrow> rest p = []"
proof -
  from reads [OF assms(1,2)] obtain bs p' where r: "nread p n = Inr (map Some bs, p')" "good p'"
    "rest p = bs @ rest p'" "int (length bs) \<le> n" "bs = [] \<longrightarrow> rest p = []" by blast
  have "overwrite (u @ take (length bs) v @ drop (length bs) v) i (map Some bs) =
      Inr (u @ map Some bs @ drop (length bs) v)"
    using assms(3,4) r(4) by (intro overwrite_at) simp_all
  then have "read_at nread (u @ v) i n p = Inr (u @ map Some bs @ drop (length bs) v, int (length bs), p')"
    using r(1,4) assms(5) by (simp add: read_at_def)
  with r(2-5) show thesis by (rule that [rotated])
qed

end

text \<open>A stream with \<open>xs\<close> to come: first what is in its buffer, which has room for a sentinel.\<close>

definition stream_ok ::
    "'s nread \<Rightarrow> ('s \<Rightarrow> byte list) \<Rightarrow> ('s \<Rightarrow> bool) \<Rightarrow> 's bStream \<Rightarrow> byte list \<Rightarrow> bool" where
  "stream_ok nread rest good s xs \<longleftrightarrow>
     readFnPtr s = Some nread \<and> good (parm s) \<and> 0 < maxBuffSz s \<and> maxBuffSz s < 2 ^ 28 \<and>
     (isEOF s \<longrightarrow> rest (parm s) = []) \<and>
     (\<exists>u ys. buff s = Some u \<and> bs_rep u ys \<and> int (length ys) < mlen u \<and> xs = ys @ rest (parm s))"

text \<open>\<open>q\<close> is the outcome of appending the first \<open>k\<close> characters to come to a string with content \<open>w\<close>.\<close>

definition has_read ::
    "'s nread \<Rightarrow> ('s \<Rightarrow> byte list) \<Rightarrow> ('s \<Rightarrow> bool) \<Rightarrow> byte list \<Rightarrow> byte list \<Rightarrow> nat \<Rightarrow> int
     \<Rightarrow> (int \<times> bstring option \<times> 's bStream option \<times> alloc) res option \<Rightarrow> bool" where
  "has_read nread rest good w xs k c q \<longleftrightarrow>
     (\<exists>r s. q = Some (Inr (c, Some r, Some s, [])) \<and> bs_ok r (w @ take k xs) \<and>
       stream_ok nread rest good s (drop k xs))"

text \<open>What one round of the loop does once the source has given \<open>bs\<close>.\<close>

lemma copy_front:
  assumes "bs_rep u ys" and "int (length zs) < mlen u" and "data u = Some x"
  obtains x' where "copy_cells x 0 (map Some zs @ r) (int (length zs)) = Inr x'"
    "bs_rep (u\<lparr>data := Some x', slen := int (length zs)\<rparr>) zs"
proof -
  obtain q where u: "data u = Some (map Some ys @ q)" "length ys + length q = nat (mlen u)" "0 < mlen u" "mlen u < 2 ^ 31"
    using assms(1) by (rule bs_rep_cells)
  then have "length x = nat (mlen u)" using assms(3) by auto
  then have len: "length zs < length x" "length x = nat (mlen u)" using assms(2) by simp_all
  have "overwrite ([] @ take (length zs) x @ drop (length zs) x) 0 (map Some zs) = Inr ([] @ map Some zs @ drop (length zs) x)"
    using len by (intro overwrite_at) simp_all
  then have "copy_cells x 0 (map Some zs @ r) (int (length zs)) = Inr (map Some zs @ drop (length zs) x)"
    by (simp add: copy_cells_def first_cells_def)
  moreover have "bs_rep (u\<lparr>data := Some (map Some zs @ drop (length zs) x), slen := int (length zs)\<rparr>) zs"
    using len u by (intro rep_cells) auto
  ultimately show thesis by (rule that)
qed

context stream_source
begin

lemma line_step_read:
  assumes s: "good (parm s)" "readFnPtr s = Some nread" "0 < maxBuffSz s" "maxBuffSz s < 2 ^ 28" "buff s = Some u"
    and r: "bs_rep r w" "int (length w) < mlen r" "int (length w) < 2 ^ 29"
  obtains bs p r1 z v where "good p" "rest (parm s) = bs @ rest p" "int (length bs) \<le> maxBuffSz s" "bs = [] \<longrightarrow> rest (parm s) = []"
    "length w + length bs + Suc (length v) = nat (mlen r1)" "0 < mlen r1" "mlen r1 < 2 ^ 31" "slen r1 = int (length w)"
    "line_step stop t rlo (Some r) s [] =
      (if bs = [] then Inr (Some (if int (length w) = rlo then BSTR_ERR else BSTR_OK),
          Some (r1\<lparr>data := Some (map Some w @ Some 0 # v)\<rparr>), s\<lparr>parm := p, buff := Some (u\<lparr>slen := 0\<rparr>), isEOF := True\<rparr>, [])
       else bind_res (scan_cells stop (map Some bs @ Some t # v)) (\<lambda>i.
          if i < int (length bs) then push_back r1 u (map Some (w @ bs) @ Some t # v) i (int (length bs)) (s\<lparr>parm := p\<rparr>) []
          else Inr (None, Some (r1\<lparr>data := Some (map Some (w @ bs) @ Some t # v), slen := s32 (int (length w) + int (length bs))\<rparr>),
                 s\<lparr>parm := p\<rparr>, [])))"
proof -
  let ?m = "maxBuffSz s" and ?w = "int (length w)"
  have n: "0 < ?w + ?m + 1" "?w + ?m + 1 < 2 ^ 30" "s32 (?w + ?m + 1) = ?w + ?m + 1"
    using s(3,4) r(3) by (simp_all add: s32_id)
  have sl: "slen r = ?w" using r(1) by (rule bs_rep_slen)
  then have "slen r < mlen r \<or> slen r < ?w + ?m + 1" using r(2) by simp
  with r(1) n(1,2) obtain r1 v0 where
    r1: "balloc (Some r) (?w + ?m + 1) [] = Inr (BSTR_OK, Some r1, [])" "data r1 = Some (map Some w @ v0)"
      "length w + length v0 = nat (mlen r1)" "0 < mlen r1" "mlen r1 < 2 ^ 31" "slen r1 = ?w" "?w + ?m + 1 < mlen r1"
    by (rule balloc_room)
  have v: "?m + 1 < int (length v0)" using r1(3,7) by linarith
  have m31: "?m < 2 ^ 31" using s(4) by simp
  obtain bs p where bs: "read_at nread (map Some w @ v0) ?w ?m (parm s) =
      Inr (map Some w @ map Some bs @ drop (length bs) v0, int (length bs), p)"
    "good p" "rest (parm s) = bs @ rest p" "int (length bs) \<le> ?m" "bs = [] \<longrightarrow> rest (parm s) = []"
    by (rule read_at_cells [OF s(1,3), of ?w "map Some w" v0]) (use v m31 in simp_all)
  obtain z v' where z: "drop (length bs) v0 = z # v'" using v bs(4) by (cases "drop (length bs) v0") auto
  have len: "length v0 = length bs + Suc (length v')" using arg_cong [OF z, of length] v bs(4) by simp
  have p0: "put (map Some w @ z # v') ?w 0 = Inr (map Some w @ Some 0 # v')" by (rule put_at) simp
  have p1: "put (map Some w @ map Some bs @ z # v') (?w + int (length bs)) t = Inr (map Some w @ map Some bs @ Some t # v')"
    using put_at [of "?w + int (length bs)" "map Some w @ map Some bs" z v' t] by simp
  show thesis
    by (rule that [OF bs(2-5), of v' r1])
      (use r1 len bs(1) z p0 p1 n(3) sl s(2,5) in
        \<open>simp_all add: line_step_def with_room_def Let_def cong: if_cong\<close>)
qed

lemma line_loop_reads:
  assumes "stop t"
  shows "good (parm s) \<Longrightarrow> readFnPtr s = Some nread \<Longrightarrow> 0 < maxBuffSz s \<Longrightarrow> maxBuffSz s < 2 ^ 28 \<Longrightarrow>
    buff s = Some u \<Longrightarrow> bs_rep u ys \<Longrightarrow> maxBuffSz s < mlen u \<Longrightarrow> isEOF s \<longrightarrow> rest (parm s) = [] \<Longrightarrow>
    int (length w) + int (length (rest (parm s))) < 2 ^ 29 \<Longrightarrow> bs_rep r w \<Longrightarrow> int (length w) < mlen r \<Longrightarrow>
    rlo \<le> int (length w) \<Longrightarrow>
    has_read nread rest good w (rest (parm s)) (line_len stop (rest (parm s)))
      (if int (length w) = rlo \<and> rest (parm s) = [] then BSTR_ERR else BSTR_OK) (line_loop stop t rlo (Some r) s [])"
proof (induction "length (rest (parm s))" arbitrary: s r w rule: less_induct)
  case less
  let ?w = "int (length w)"
  have small: "?w < 2 ^ 29" using less.prems(9) by simp
  obtain bs p r1 z v where st: "good p" "rest (parm s) = bs @ rest p" "int (length bs) \<le> maxBuffSz s"
    "bs = [] \<longrightarrow> rest (parm s) = []"
    "length w + length bs + Suc (length v) = nat (mlen r1)" "0 < mlen r1" "mlen r1 < 2 ^ 31" "slen r1 = ?w"
    and run: "line_step stop t rlo (Some r) s [] =
      (if bs = [] then Inr (Some (if ?w = rlo then BSTR_ERR else BSTR_OK),
          Some (r1\<lparr>data := Some (map Some w @ Some 0 # v)\<rparr>), s\<lparr>parm := p, buff := Some (u\<lparr>slen := 0\<rparr>), isEOF := True\<rparr>, [])
       else bind_res (scan_cells stop (map Some bs @ Some t # v)) (\<lambda>i.
          if i < int (length bs) then push_back r1 u (map Some (w @ bs) @ Some t # v) i (int (length bs)) (s\<lparr>parm := p\<rparr>) []
          else Inr (None, Some (r1\<lparr>data := Some (map Some (w @ bs) @ Some t # v), slen := s32 (?w + int (length bs))\<rparr>),
                 s\<lparr>parm := p\<rparr>, [])))"
    by (rule line_step_read [OF less.prems(1-5,10,11) small])
  obtain q where u: "data u = Some (map Some ys @ q)" "length ys + length q = nat (mlen u)" "0 < mlen u" "mlen u < 2 ^ 31"
    using less.prems(6) by (rule bs_rep_cells)
  consider "bs = []" | "bs \<noteq> []" "\<exists>x\<in>set bs. stop x" | "bs \<noteq> []" "\<not> (\<exists>x\<in>set bs. stop x)" by blast
  then show ?case
  proof cases
    case 1
    have "bs_rep (u\<lparr>slen := 0\<rparr>) []" using u by (intro rep_cells [of _ _ "map Some ys @ q"]) simp_all
    moreover have "bs_ok (r1\<lparr>data := Some (map Some w @ Some 0 # v)\<rparr>) w" using st 1 by (intro rep_cells(2)) simp_all
    ultimately show ?thesis using 1 run st less.prems u(3)
      by (subst line_loop.simps) (simp add: has_read_def stream_ok_def)
  next
    case 2
    define k where "k = line_len stop bs"
    have k: "0 < k" "k \<le> length bs" using line_len_pos [OF 2(2)] line_len_le by (simp_all add: k_def)
    have scan: "scan_cells stop (map Some bs @ Some t # v) = Inr (int k - 1)"
      using scan_sentinel [where stop = stop, OF assms] 2(2) by (simp add: k_def)
    have n: "s32 (?w + int k) = ?w + int k" using small k(2) st(3) less.prems(4) by (intro s32_id) simp_all
    have "int (length (drop k bs)) < mlen u" using st(3) less.prems(7) by simp
    from copy_front [OF less.prems(6) this u(1), of "Some t # v"] obtain x' where
      x': "copy_cells (map Some ys @ q) 0 (map Some (drop k bs) @ Some t # v) (int (length (drop k bs))) = Inr x'"
        "bs_rep (u\<lparr>data := Some x', slen := int (length (drop k bs))\<rparr>) (drop k bs)" by blast
    obtain z' v' where z: "map Some (drop k bs) @ Some t # v = z' # v'" by (cases "map Some (drop k bs) @ Some t # v") auto
    have len: "length bs + length v = k + length v'" using arg_cong [OF z, of length] k(2) by simp
    have d: "map Some (w @ bs) @ Some t # v = map Some (w @ take k bs) @ map Some (drop k bs) @ Some t # v"
      by (metis append.assoc append_take_drop_id map_append)
    have put: "put (map Some (w @ bs) @ Some t # v) (?w + int k) 0 = Inr (map Some (w @ take k bs) @ Some 0 # v')"
      unfolding d z by (rule put_at) (use k in simp)
    have drop: "drop (nat (?w + int k)) (map Some (w @ bs) @ Some t # v) = map Some (drop k bs) @ Some t # v"
      using k by (simp add: nat_add_distrib drop_map)
    have left: "int (length bs) - int k = int (length (drop k bs))" using k by simp
    have "push_back r1 u (map Some (w @ bs) @ Some t # v) (int k - 1) (int (length bs)) (s\<lparr>parm := p\<rparr>) [] = Inr (Some BSTR_OK,
        Some (r1\<lparr>data := Some (map Some (w @ take k bs) @ Some 0 # v'), slen := ?w + int k\<rparr>),
        s\<lparr>parm := p, buff := Some (u\<lparr>data := Some x', slen := int (length (drop k bs))\<rparr>)\<rparr>, [])"
      by (simp only: push_back_def Let_def st(8) u(1) option.case diff_add_cancel n drop left x'(1) put bind_res.simps)
    then have step: "line_step stop t rlo (Some r) s [] = Inr (Some BSTR_OK,
        Some (r1\<lparr>data := Some (map Some (w @ take k bs) @ Some 0 # v'), slen := ?w + int k\<rparr>),
        s\<lparr>parm := p, buff := Some (u\<lparr>data := Some x', slen := int (length (drop k bs))\<rparr>)\<rparr>, [])"
      using 2(1) k unfolding run scan by (simp del: map_append)
    have "bs_ok (r1\<lparr>data := Some (map Some (w @ take k bs) @ Some 0 # v'), slen := ?w + int k\<rparr>) (w @ take k bs)"
    proof (rule rep_cells(2))
      have "length (w @ take k bs) = length w + k" using k(2) by simp
      then show "length (w @ take k bs) + length (Some 0 # v') = nat (mlen (r1\<lparr>data := Some (map Some (w @ take k bs) @ Some 0 # v'),
          slen := ?w + int k\<rparr>))"
        using st(5) len by (simp del: length_append)
    qed (use st(6,7) k(2) in simp_all)
    moreover have "line_len stop (rest (parm s)) = k" using 2(2) by (simp add: st(2) line_len_append k_def)
    ultimately show ?thesis
      using step st k less.prems x'(2) 2(1)
      by (subst line_loop.simps) (auto simp: has_read_def stream_ok_def intro!: exI [of _ "drop k bs"])
  next
    case 3
    have scan: "scan_cells stop (map Some bs @ Some t # v) = Inr (int (length bs))"
      using scan_sentinel [where stop = stop, OF assms] 3(2) line_len_none [OF 3(2)] by simp
    let ?r = "r1\<lparr>data := Some (map Some (w @ bs) @ Some t # v), slen := ?w + int (length bs)\<rparr>" and ?s = "s\<lparr>parm := p\<rparr>"
    have n: "s32 (?w + int (length bs)) = ?w + int (length bs)" using small st(3) less.prems(4) by (intro s32_id) simp_all
    have "line_step stop t rlo (Some r) s [] = Inr (None, Some ?r, ?s, [])"
      using 3(1) unfolding run scan by (simp add: n)
    then have step: "line_loop stop t rlo (Some r) s [] = line_loop stop t rlo (Some ?r) ?s []"
      by (subst line_loop.simps) simp
    have "has_read nread rest good (w @ bs) (rest (parm ?s)) (line_len stop (rest (parm ?s)))
        (if int (length (w @ bs)) = rlo \<and> rest (parm ?s) = [] then BSTR_ERR else BSTR_OK) (line_loop stop t rlo (Some ?r) ?s [])"
    proof (rule less.hyps)
      show "bs_rep ?r (w @ bs)" using st by (intro rep_cells [of _ _ "Some t # v"]) simp_all
      show "int (length (w @ bs)) < mlen ?r" using st(5) by simp
    qed (use st less.prems 3(1) in auto)
    moreover have not_end: "\<not> (int (length (w @ bs)) = rlo \<and> rest (parm ?s) = [])" "\<not> (?w = rlo \<and> rest (parm s) = [])"
      using 3(1) less.prems(12) st(2) by auto
    moreover have "parm ?s = p" by simp
    ultimately have "has_read nread rest good (w @ bs) (rest p) (line_len stop (rest p)) BSTR_OK
        (line_loop stop t rlo (Some r) s [])"
      unfolding step by (simp only: if_False)
    moreover have "line_len stop (rest (parm s)) = length bs + line_len stop (rest p)"
      using 3(2) by (simp add: st(2) line_len_append)
    ultimately show ?thesis using not_end(2) unfolding if_not_P [OF not_end(2)]
      by (simp add: has_read_def st(2))
  qed
qed

lemma line_start_cases:
  assumes "stop t" and s: "stream_ok nread rest good s xs" and r: "bs_rep r w"
    and small: "int (length w) + int (length xs) < 2 ^ 29"
  obtains (line) r' s' where "line_start stop t r s [] = Inr (Some BSTR_OK, Some r', s', [])"
      "bs_ok r' (w @ take (line_len stop xs) xs)" "stream_ok nread rest good s' (drop (line_len stop xs) xs)" "xs \<noteq> []"
  | (go_on) ys r' s' u where "line_start stop t r s [] = Inr (None, Some r', s', [])" "bs_ok r' (w @ ys)"
      "xs = ys @ rest (parm s)" "line_len stop xs = length ys + line_len stop (rest (parm s))"
      "parm s' = parm s" "readFnPtr s' = Some nread" "maxBuffSz s' = maxBuffSz s" "isEOF s' = isEOF s"
      "buff s' = Some u" "bs_rep u ys" "maxBuffSz s < mlen u"
proof -
  from s obtain u ys where st: "readFnPtr s = Some nread" "good (parm s)" "0 < maxBuffSz s" "maxBuffSz s < 2 ^ 28"
    "isEOF s \<longrightarrow> rest (parm s) = []" "buff s = Some u" "bs_rep u ys" "int (length ys) < mlen u" "xs = ys @ rest (parm s)"
    by (auto simp: stream_ok_def)
  let ?m = "maxBuffSz s"
  have n: "0 < ?m + 1" "?m + 1 < 2 ^ 30" "s32 (?m + 1) = ?m + 1" using st(3,4) by (simp_all add: s32_id)
  have "slen u < mlen u \<or> slen u < ?m + 1" using st(7,8) bs_rep_slen by simp
  with st(7) n(1,2) obtain u1 v where
    u1: "balloc (Some u) (?m + 1) [] = Inr (BSTR_OK, Some u1, [])" "data u1 = Some (map Some ys @ v)"
      "length ys + length v = nat (mlen u1)" "0 < mlen u1" "mlen u1 < 2 ^ 31" "slen u1 = int (length ys)"
      "?m + 1 < mlen u1" "int (length ys) < mlen u1"
    by (rule balloc_room)
  have "0 < length v" using u1(3,8) by linarith
  then obtain z v' where v: "v = z # v'" by (cases v) auto
  have put: "put (map Some ys @ v) (int (length ys)) t = Inr (map Some ys @ Some t # v')" unfolding v by (rule put_at) simp
  define u2 where "u2 = u1\<lparr>data := Some (map Some ys @ Some t # v')\<rparr>"
  have u2: "bs_rep u2 ys" "int (length ys) < mlen u2" "?m < mlen u2" using u1 v by (auto simp: u2_def intro!: rep_cells)
  define k where "k = line_len stop ys"
  have scan: "scan_cells stop (map Some ys @ Some t # v') = Inr (int k - (if \<exists>x\<in>set ys. stop x then 1 else 0))"
    using scan_sentinel [where stop = stop, OF assms(1)] by (simp add: k_def)
  have len: "length ys + Suc (length v') = nat (mlen u1)" using u1(3) v by simp
  show thesis
  proof (cases "\<exists>x\<in>set ys. stop x")
    case True
    have k: "0 < k" "k \<le> length ys" using line_len_pos [OF True] line_len_le by (simp_all add: k_def)
    have "map Some ys @ Some t # v' = map Some (take k ys) @ map Some (drop k ys) @ Some t # v'"
      by (metis append.assoc append_take_drop_id map_append)
    moreover have "int (length w) + int (length (take k ys)) < 2 ^ 30" using small st(9) k by simp
    moreover have "length (take k ys) + length (map Some (drop k ys) @ Some t # v') < 2 ^ 31" using len u1(5) by simp
    ultimately obtain r' where r': "bconcat (Some r) (Some (Apart (local_tag (map Some ys @ Some t # v') (int k)))) [] =
        Inr (BSTR_OK, Some r', [])" "bs_ok r' (w @ take k ys)"
      using append_cells [OF r, of "take k ys" "map Some (drop k ys) @ Some t # v'"] k by auto
    from bdelete_rep [OF u2(1), of 0 "int k"] k u1(5,8) obtain u' where
      u': "bdelete (Some u2) 0 (int k) = Inr (BSTR_OK, Some u')" "bs_rep u' (drop k ys)" by auto
    have u'_room: "int (length (drop k ys)) < mlen u'" using bdelete_mlen [OF u'(1)] u2(2) k by simp
    have "line_start stop t r s [] = Inr (Some BSTR_OK, Some r', s\<lparr>buff := Some u'\<rparr>, [])"
      using st(6) u1 n(3) put scan True k r'(1) u'(1)
      by (simp add: line_start_def with_room_def Let_def u2_def [symmetric] cong: if_cong)
    moreover have "line_len stop xs = k" using True by (simp add: st(9) line_len_append k_def)
    ultimately show thesis
      using r'(2) u' u'_room st k by (intro line [of r' "s\<lparr>buff := Some u'\<rparr>"]) (auto simp: stream_ok_def)
  next
    case False
    have "int (length w) + int (length ys) < 2 ^ 30" using small st(9) by simp
    moreover have "length ys + length (Some t # v') < 2 ^ 31" using len u1(5) by simp
    ultimately obtain r' where r': "bconcat (Some r) (Some (Apart (local_tag (map Some ys @ Some t # v') (int (length ys))))) [] =
        Inr (BSTR_OK, Some r', [])" "bs_ok r' (w @ ys)"
      using append_cells [OF r, of ys "Some t # v'"] by auto
    have "line_start stop t r s [] = Inr (None, Some r', s\<lparr>buff := Some u2\<rparr>, [])"
      using st(6) u1 n(3) put scan False r'(1) line_len_none [OF False]
      by (simp add: line_start_def with_room_def Let_def u2_def [symmetric] k_def cong: if_cong)
    then show thesis
      by (rule go_on [of r' _ ys u2]) (use r'(2) st u2 line_len_append [of stop ys] False in auto)
  qed
qed

lemma read_line_reads:
  assumes "stop t" and "stream_ok nread rest good s xs" and "bs_rep r w" and "int (length w) + int (length xs) < 2 ^ 29"
  shows "has_read nread rest good w xs (line_len stop xs) (if xs = [] then BSTR_ERR else BSTR_OK) (read_line stop t r s [])"
proof (cases rule: line_start_cases [where stop = stop, OF assms])
  case (1 r' s')
  then show ?thesis by (simp add: read_line_def has_read_def)
next
  case (2 ys r' s' u)
  from assms(2) have s: "good (parm s)" "0 < maxBuffSz s" "maxBuffSz s < 2 ^ 28" "isEOF s \<longrightarrow> rest (parm s) = []"
    by (auto simp: stream_ok_def)
  have r': "bs_rep r' (w @ ys)" "int (length (w @ ys)) < mlen r'"
    using 2(2) bs_rep_slen by (auto simp: bs_ok_def)
  have "has_read nread rest good (w @ ys) (rest (parm s')) (line_len stop (rest (parm s')))
      (if int (length (w @ ys)) = slen r \<and> rest (parm s') = [] then BSTR_ERR else BSTR_OK)
      (line_loop stop t (slen r) (Some r') s' [])"
    using 2 r' s assms(4) bs_rep_slen [OF assms(3)] by (intro line_loop_reads [where stop = stop, OF assms(1)]) auto
  moreover have "(int (length (w @ ys)) = slen r \<and> rest (parm s') = []) = (xs = [])"
    using 2(3,5) bs_rep_slen [OF assms(3)] by auto
  moreover have "read_line stop t r s [] = line_loop stop t (slen r) (Some r') s' []"
    using 2(1) by (simp add: read_line_def)
  ultimately show ?thesis using 2(3-5) by (simp add: has_read_def)
qed

end

subsection \<open>Blocks\<close>

text \<open>
  How long a block is when there is something to read: what was asked for, as far as there are
  characters; but with an empty buffer, and where the string has room for the block, what one
  read of the source gives.
\<close>

definition block_size :: "'s nread \<Rightarrow> bool \<Rightarrow> 's bStream \<Rightarrow> int \<Rightarrow> byte list \<Rightarrow> nat" where
  "block_size nread room s n xs =
     (if slen (the (buff s)) = 0 \<and> room then read_size nread (parm s) n else min (nat n) (length xs))"

context stream_source
begin

lemma read_loop_reads:
  assumes n: "n < 2 ^ 30"
  shows "good (parm s) \<Longrightarrow> readFnPtr s = Some nread \<Longrightarrow> 0 < maxBuffSz s \<Longrightarrow> maxBuffSz s < 2 ^ 28 \<Longrightarrow>
    buff s = Some u \<Longrightarrow> data u = Some (map Some ys @ q) \<Longrightarrow> length ys + length q = nat (mlen u) \<Longrightarrow>
    mlen u < 2 ^ 31 \<Longrightarrow> int (length ys) < mlen u \<Longrightarrow> maxBuffSz s < mlen u \<Longrightarrow> isEOF s \<longrightarrow> rest (parm s) = [] \<Longrightarrow>
    int (length w) + int (length (ys @ rest (parm s))) < 2 ^ 29 \<Longrightarrow> bs_rep r w \<Longrightarrow> int (length w) < n \<Longrightarrow>
    rlo \<le> int (length w) \<Longrightarrow>
    has_read nread rest good w (ys @ rest (parm s)) (min (nat (n - int (length w))) (length (ys @ rest (parm s))))
      (if int (length w) = rlo \<and> ys @ rest (parm s) = [] then BSTR_ERR else BSTR_OK)
      (read_loop n rlo (int (length ys)) (Some r) s [])"
proof (induction "length (rest (parm s))" arbitrary: s u ys q r w rule: less_induct)
  case less
  let ?w = "int (length w)" and ?l = "int (length ys)"
  have sl: "slen r = ?w" using less.prems(13) by (rule bs_rep_slen)
  have sum: "s32 (?l + ?w) = ?l + ?w" using less.prems(12) by (simp add: s32_id)
  have rep: "bs_rep (u\<lparr>slen := ?l\<rparr>) ys" using less.prems(6-9) by (intro rep_cells) auto
  show ?case
  proof (cases "?l + ?w \<ge> n")
    case True
    define k where "k = nat (n - ?w)"
    have k: "0 < k" "k \<le> length ys" "int k = n - ?w" using True less.prems(14) by (simp_all add: k_def)
    have cells: "map Some (take k ys) @ map Some (drop k ys) @ q = map Some ys @ q" "length (take k ys) = k"
      using k(2) by (metis append.assoc append_take_drop_id map_append, simp)
    have "?w + int (length (take k ys)) < 2 ^ 30" "0 < length (take k ys) + length (map Some (drop k ys) @ q)"
      "length (take k ys) + length (map Some (drop k ys) @ q) < 2 ^ 31" using less.prems(7,8,12) k by simp_all
    from append_cells [OF less.prems(13) this] obtain r' where
      r': "bconcat (Some r) (Some (Apart (local_tag (map Some ys @ q) (int k)))) [] = Inr (BSTR_OK, Some r', [])"
        "bs_ok r' (w @ take k ys)" unfolding cells by blast
    from bdelete_rep [OF rep, of 0 "int k"] k(1,2) less.prems(8,9) obtain u' where
      u': "bdelete (Some (u\<lparr>slen := ?l\<rparr>)) 0 (int k) = Inr (BSTR_OK, Some u')" "bs_rep u' (drop k ys)" by auto
    have room: "int (length (drop k ys)) < mlen u'" using bdelete_mlen [OF u'(1)] less.prems(9) k by simp
    have "slen r' = int (length (w @ take k ys))" using r'(2) by (intro bs_rep_slen) (simp add: bs_ok_def)
    then have "slen r' \<noteq> rlo" using k less.prems(15) by simp
    then have "read_step n rlo ?l (Some r) s [] = Inr (Some BSTR_OK, ?l, Some r', s\<lparr>buff := Some u'\<rparr>, [])"
      using less.prems(5,6) r'(1) u'(1) True sum sl k(3) by (simp add: read_step_def Let_def)
    then have "read_loop n rlo ?l (Some r) s [] = Some (Inr (BSTR_OK, Some r', Some (s\<lparr>buff := Some u'\<rparr>), []))"
      by (subst read_loop.simps) simp
    moreover have "min (nat (n - ?w)) (length (ys @ rest (parm s))) = k" using k by (simp add: k_def)
    ultimately show ?thesis
      using r'(2) u'(2) room less.prems k by (auto simp: has_read_def stream_ok_def)
  next
    case False
    have "?w + ?l < 2 ^ 30" "0 < length ys + length q" "length ys + length q < 2 ^ 31"
      using less.prems(7,8,9,12) by simp_all
    from append_cells [OF less.prems(13) this] obtain r' where
      r': "bconcat (Some r) (Some (Apart (local_tag (map Some ys @ q) ?l))) [] = Inr (BSTR_OK, Some r', [])"
        "bs_ok r' (w @ ys)" by blast
    have r'_rep: "bs_rep r' (w @ ys)" using r'(2) by (simp add: bs_ok_def)
    then have sl': "slen r' = ?w + ?l" using bs_rep_slen by fastforce
    define m where "m = (if n - slen r' > maxBuffSz s then maxBuffSz s else n - slen r')"
    have m: "0 < m" "m \<le> maxBuffSz s" "m \<le> n - (?w + ?l)" using False less.prems(3) sl' by (auto simp: m_def)
    have room: "m \<le> int (length (map Some ys @ q))" using m(2) less.prems(7,10) by simp
    have m31: "m < 2 ^ 31" using m(2) less.prems(4) by simp
    obtain bs p where bs: "read_at nread ([] @ map Some ys @ q) 0 m (parm s) =
        Inr ([] @ map Some bs @ drop (length bs) (map Some ys @ q), int (length bs), p)"
      "good p" "rest (parm s) = bs @ rest p" "int (length bs) \<le> m" "bs = [] \<longrightarrow> rest (parm s) = []"
      by (rule read_at_cells [OF less.prems(1) m(1) _ room m31, of 0 "[]"]) simp
    define q' where "q' = drop (length bs) (map Some ys @ q)"
    let ?u = "u\<lparr>data := Some (map Some bs @ q')\<rparr>"
    let ?s = "s\<lparr>parm := p, buff := Some ?u\<rparr>"
    have "length bs \<le> length (map Some ys @ q)" using bs(4) room by linarith
    then have "length bs + length q' = length (map Some ys @ q)" unfolding q'_def length_drop by (rule le_add_diff_inverse)
    then have q': "length bs + length q' = nat (mlen u)" using less.prems(7) by simp
    have code: "(if int (length w) = rlo \<and> ys @ rest (parm s) = [] then BSTR_ERR else BSTR_OK) =
        (if ?w + ?l = rlo \<and> rest (parm s) = [] then BSTR_ERR else BSTR_OK)"
      using less.prems(15) by auto
    have count: "take (min (nat (n - ?w)) (length (ys @ rest (parm s)))) (ys @ rest (parm s)) =
        ys @ take (min (nat (n - (?w + ?l))) (length (rest (parm s)))) (rest (parm s))"
      "drop (min (nat (n - ?w)) (length (ys @ rest (parm s)))) (ys @ rest (parm s)) =
        drop (min (nat (n - (?w + ?l))) (length (rest (parm s)))) (rest (parm s))"
    proof -
      have "nat (n - ?w) = length ys + nat (n - (?w + ?l))" using False by simp
      then show "take (min (nat (n - ?w)) (length (ys @ rest (parm s)))) (ys @ rest (parm s)) =
          ys @ take (min (nat (n - (?w + ?l))) (length (rest (parm s)))) (rest (parm s))"
        "drop (min (nat (n - ?w)) (length (ys @ rest (parm s)))) (ys @ rest (parm s)) =
          drop (min (nat (n - (?w + ?l))) (length (rest (parm s)))) (rest (parm s))"
        by (simp_all only: length_append min_add_distrib_right [symmetric] nat_add_left_cancel_le) simp_all
    qed
    show ?thesis
    proof (cases "bs = []")
      case True
      then have none: "rest (parm s) = []" "rest p = []" using bs(3,5) by simp_all
      have "read_step n rlo ?l (Some r) s [] = read_done rlo 0 ?u (Some r') ?s []"
        using less.prems(2,5,6) r'(1) False sum sl bs(1) True
        by (simp add: read_step_def Let_def m_def [symmetric] q'_def)
      then have "read_step n rlo ?l (Some r) s [] = Inr (Some (if ?w + ?l = rlo then BSTR_ERR else BSTR_OK), 0, Some r',
          ?s\<lparr>buff := Some (?u\<lparr>slen := 0\<rparr>), isEOF := True\<rparr>, [])"
        by (simp add: read_done_def sl')
      then have "read_loop n rlo ?l (Some r) s [] = Some (Inr (if ?w + ?l = rlo then BSTR_ERR else BSTR_OK, Some r',
          Some (?s\<lparr>buff := Some (?u\<lparr>slen := 0\<rparr>), isEOF := True\<rparr>), []))"
        by (subst read_loop.simps) simp
      moreover have "bs_rep (?u\<lparr>slen := 0\<rparr>) []"
        using q' True less.prems(8,9) by (intro rep_cells [of _ _ q']) simp_all
      ultimately show ?thesis
        unfolding code has_read_def count
        using r'(2) none bs(2) less.prems(2-4,9) by (simp add: stream_ok_def)
    next
      case more: False
      have "read_step n rlo ?l (Some r) s [] = Inr (None, int (length bs), Some r', ?s, [])"
        using less.prems(2,5,6) r'(1) False sum sl bs(1) more
        by (simp add: read_step_def Let_def m_def [symmetric] q'_def)
      then have step: "read_loop n rlo ?l (Some r) s [] = read_loop n rlo (int (length bs)) (Some r') ?s []"
        by (subst read_loop.simps) simp
      have "has_read nread rest good (w @ ys) (bs @ rest (parm ?s))
          (min (nat (n - int (length (w @ ys)))) (length (bs @ rest (parm ?s))))
          (if int (length (w @ ys)) = rlo \<and> bs @ rest (parm ?s) = [] then BSTR_ERR else BSTR_OK)
          (read_loop n rlo (int (length bs)) (Some r') ?s [])"
      proof (rule less.hyps)
        show "length (rest (parm ?s)) < length (rest (parm s))" using bs(3) more by simp
        show "int (length (w @ ys)) < n" using False by simp
        show "buff ?s = Some ?u" "data ?u = Some (map Some bs @ q')" by simp_all
      qed (use less.prems bs m q' r'_rep in auto)
      then have "has_read nread rest good (w @ ys) (rest (parm s))
          (min (nat (n - (?w + ?l))) (length (rest (parm s))))
          (if ?w + ?l = rlo \<and> rest (parm s) = [] then BSTR_ERR else BSTR_OK) (read_loop n rlo ?l (Some r) s [])"
        unfolding step by (simp add: bs(3))
      then show ?thesis unfolding code has_read_def count by simp
    qed
  qed
qed

lemma read_direct_reads:
  assumes s: "stream_ok nread rest good s xs" "slen (the (buff s)) = 0" and r: "bs_rep r w" "n + int (length w) < mlen r"
    and n: "0 < n" "n < 2 ^ 29" "int (length w) < 2 ^ 29"
  shows "if xs = [] then \<exists>r' s'. read_direct (n + int (length w)) r s [] = Inr (BSTR_ERR, Some r', Some s', []) \<and>
      bs_rep r' w \<and> stream_ok nread rest good s' []
    else 0 < read_size nread (parm s) n \<and> int (read_size nread (parm s) n) \<le> n \<and>
      read_size nread (parm s) n \<le> length xs \<and>
      has_read nread rest good w xs (read_size nread (parm s) n) BSTR_OK (Some (read_direct (n + int (length w)) r s []))"
proof -
  let ?w = "int (length w)"
  from s obtain u ys where st0: "readFnPtr s = Some nread" "good (parm s)" "0 < maxBuffSz s" "maxBuffSz s < 2 ^ 28"
    "isEOF s \<longrightarrow> rest (parm s) = []" "buff s = Some u" "bs_rep u ys" "int (length ys) < mlen u" "xs = ys @ rest (parm s)"
    by (auto simp: stream_ok_def)
  then have "ys = []" using s(2) bs_rep_slen by fastforce
  with st0 have st: "readFnPtr s = Some nread" "good (parm s)" "0 < maxBuffSz s" "maxBuffSz s < 2 ^ 28"
    "isEOF s \<longrightarrow> rest (parm s) = []" "buff s = Some u" "bs_rep u []" "0 < mlen u" "xs = rest (parm s)" by simp_all
  obtain v where rr: "data r = Some (map Some w @ v)" "length w + length v = nat (mlen r)" "0 < mlen r" "mlen r < 2 ^ 31"
    "slen r = ?w" using r(1) by (rule bs_rep_cells)
  have v: "n < int (length v)" using r(2) rr(2) by linarith
  have n31: "n < 2 ^ 31" using n(2) by simp
  obtain bs p where bs: "read_at nread (map Some w @ v) ?w n (parm s) =
      Inr (map Some w @ map Some bs @ drop (length bs) v, int (length bs), p)"
    "good p" "rest (parm s) = bs @ rest p" "int (length bs) \<le> n" "bs = [] \<longrightarrow> rest (parm s) = []"
    by (rule read_at_cells [OF st(2) n(1) _ _ n31, of ?w "map Some w" v]) (use v in simp_all)
  have k: "read_size nread (parm s) n = length bs"
  proof -
    from reads [OF st(2) n(1)] obtain bs1 p1 where "nread (parm s) n = Inr (map Some bs1, p1)" "int (length bs1) \<le> n"
      by blast
    with bs(1) n31 show ?thesis by (auto simp: read_at_def read_size_def res_simps)
  qed
  show ?thesis
  proof (cases "bs = []")
    case True
    then have "read_direct (n + ?w) r s [] = Inr (BSTR_ERR, Some (r\<lparr>data := Some (map Some w @ v)\<rparr>),
        Some (s\<lparr>parm := p, isEOF := True\<rparr>), [])"
      using rr(1,5) st(1) bs(1) by (simp add: read_direct_def)
    moreover have "bs_rep (r\<lparr>data := Some (map Some w @ v)\<rparr>) w" using rr by (intro rep_cells) simp_all
    ultimately show ?thesis using True bs st by (auto simp: stream_ok_def)
  next
    case False
    have "length bs < length v" using v bs(4) by linarith
    then obtain z v' where z: "drop (length bs) v = z # v'" by (cases "drop (length bs) v") auto
    have len: "length v = length bs + Suc (length v')" using arg_cong [OF z, of length] \<open>length bs < length v\<close> by simp
    have put: "put (map Some w @ map Some bs @ z # v') (?w + int (length bs)) 0 = Inr (map Some w @ map Some bs @ Some 0 # v')"
      using put_at [of "?w + int (length bs)" "map Some w @ map Some bs" z v' 0] by simp
    have "read_direct (n + ?w) r s [] = Inr (BSTR_OK,
        Some (r\<lparr>data := Some (map Some w @ map Some bs @ Some 0 # v'), slen := ?w + int (length bs)\<rparr>), Some (s\<lparr>parm := p\<rparr>), [])"
      using False rr(1,5) st(1) bs(1,4) put by (simp add: read_direct_def z)
    moreover have "bs_ok (r\<lparr>data := Some (map Some w @ map Some bs @ Some 0 # v'), slen := ?w + int (length bs)\<rparr>) (w @ bs)"
      using rr len by (intro rep_cells(2)) (simp_all add: add.assoc)
    ultimately have "has_read nread rest good w xs (length bs) BSTR_OK (Some (read_direct (n + ?w) r s []))"
      using st bs by (auto simp: has_read_def stream_ok_def)
    with False st(9) bs(3,4) show ?thesis by (simp add: k)
  qed
qed

lemma bsreada_reads:
  assumes s: "stream_ok nread rest good s xs" and r: "bs_rep r w"
    and n: "0 < n" "int (length w) + n < 2 ^ 29" and small: "int (length w) + int (length xs) < 2 ^ 29"
  shows "if xs = [] then \<exists>r' s'. bsreada (Some r) (Some s) n [] = Some (Inr (BSTR_ERR, Some r', Some s', [])) \<and>
      bs_rep r' w \<and> stream_ok nread rest good s' []
    else 0 < block_size nread (n + int (length w) < mlen r) s n xs \<and> int (block_size nread (n + int (length w) < mlen r) s n xs) \<le> n \<and>
      block_size nread (n + int (length w) < mlen r) s n xs \<le> length xs \<and> has_read nread rest good w xs (block_size nread (n + int (length w) < mlen r) s n xs) BSTR_OK (bsreada (Some r) (Some s) n [])"
proof -
  from s obtain u ys where st: "readFnPtr s = Some nread" "good (parm s)" "0 < maxBuffSz s" "maxBuffSz s < 2 ^ 28"
    "isEOF s \<longrightarrow> rest (parm s) = []" "buff s = Some u" "bs_rep u ys" "int (length ys) < mlen u" "xs = ys @ rest (parm s)"
    by (auto simp: stream_ok_def)
  have rr: "0 < mlen r" "slen r = int (length w)" "int (length w) \<le> mlen r" using r by (auto elim: bs_rep_cells)
  let ?n = "n + int (length w)"
  have sum: "s32 (n + slen r) = ?n" "s32 (maxBuffSz s + 1) = maxBuffSz s + 1" using n rr(2) st(3,4) by (simp_all add: s32_id)
  have len: "slen u = int (length ys)" using st(7) by (rule bs_rep_slen)
  consider "slen u = 0" "isEOF s" | "slen u = 0" "\<not> isEOF s" "?n < mlen r" | "\<not> (slen u = 0 \<and> isEOF s)" "\<not> (slen u = 0 \<and> ?n < mlen r)"
    by blast
  then show ?thesis
  proof cases
    case 1
    then have "bsreada (Some r) (Some s) n [] = Some (Inr (BSTR_ERR, Some r, Some s, []))"
      using st(6) n rr sum by (simp add: bsreada_def)
    moreover have "xs = []" using 1 st(5,9) len by simp
    ultimately show ?thesis using s r by auto
  next
    case 2
    then have "bsreada (Some r) (Some s) n [] = Some (read_direct ?n r s [])"
      using st(6) n rr sum by (simp add: bsreada_def)
    with read_direct_reads [OF s _ r 2(3) n(1)] 2(1,3) st(6) n small show ?thesis by (auto simp: block_size_def split: if_splits)
  next
    case 3
    have m: "0 < maxBuffSz s + 1" "maxBuffSz s + 1 < 2 ^ 30" using st(3,4) by simp_all
    have "slen u < mlen u \<or> slen u < maxBuffSz s + 1" using st(8) len by simp
    with st(7) m obtain u1 v where u1: "balloc (Some u) (maxBuffSz s + 1) [] = Inr (BSTR_OK, Some u1, [])"
      "data u1 = Some (map Some ys @ v)" "length ys + length v = nat (mlen u1)" "0 < mlen u1" "mlen u1 < 2 ^ 31"
      "maxBuffSz s + 1 < mlen u1" "int (length ys) < mlen u1"
      by (rule balloc_room)
    let ?s = "s\<lparr>buff := Some u1\<rparr>"
    have run: "bsreada (Some r) (Some s) n [] = read_loop ?n (slen r) (int (length ys)) (Some r) ?s []"
      using 3 st(6) n rr sum u1(1,2) len by (auto simp: bsreada_def with_room_def Let_def)
    have "?n < 2 ^ 30" using n(2) by simp
    then have "has_read nread rest good w (ys @ rest (parm ?s)) (min (nat (?n - int (length w))) (length (ys @ rest (parm ?s))))
      (if int (length w) = slen r \<and> ys @ rest (parm ?s) = [] then BSTR_ERR else BSTR_OK)
      (read_loop ?n (slen r) (int (length ys)) (Some r) ?s [])"
      by (rule read_loop_reads [of _ _ u1 ys v]) (use st u1 n r small rr in auto)
    then have *: "has_read nread rest good w xs (min (nat n) (length xs)) (if xs = [] then BSTR_ERR else BSTR_OK)
        (bsreada (Some r) (Some s) n [])"
      unfolding run by (simp add: rr(2) st(9))
    show ?thesis
    proof (cases "xs = []")
      case True
      with * show ?thesis by (auto simp: has_read_def bs_ok_def)
    next
      case False
      have "block_size nread (?n < mlen r) s n xs = min (nat n) (length xs)"
        using 3(2) st(6) by (auto simp: block_size_def)
      with * False n(1) show ?thesis by simp
    qed
  qed
qed

end

subsection \<open>The operations of a stream\<close>

context stream_source
begin

lemma read_fresh_ok:
  assumes "stream_ok nread rest good s xs" and "bs_rep r w"
  obtains s' where "\<forall>k. read_fresh (Some r) (Some s) [] k = k (Some (r\<lparr>slen := 0\<rparr>)) (Some s') []"
    "stream_ok nread rest good s' xs" "bs_rep (r\<lparr>slen := 0\<rparr>) []" "slen (the (buff s')) = slen (the (buff s))" "parm s' = parm s"
proof -
  from assms(1) obtain u ys where st: "readFnPtr s = Some nread" "good (parm s)" "0 < maxBuffSz s" "maxBuffSz s < 2 ^ 28"
    "isEOF s \<longrightarrow> rest (parm s) = []" "buff s = Some u" "bs_rep u ys" "int (length ys) < mlen u" "xs = ys @ rest (parm s)"
    by (auto simp: stream_ok_def)
  have m: "0 < maxBuffSz s + 1" "maxBuffSz s + 1 < 2 ^ 30" "s32 (maxBuffSz s + 1) = maxBuffSz s + 1"
    using st(3,4) by (simp_all add: s32_id)
  have "slen u < mlen u \<or> slen u < maxBuffSz s + 1" using st(7,8) bs_rep_slen by simp
  with st(7) m(1,2) obtain u1 v where u1: "balloc (Some u) (maxBuffSz s + 1) [] = Inr (BSTR_OK, Some u1, [])"
    "slen u1 = int (length ys)" "bs_rep u1 ys" "int (length ys) < mlen u1" by (rule balloc_room)
  obtain q where r: "data r = Some (map Some w @ q)" "length w + length q = nat (mlen r)" "0 < mlen r" "mlen r < 2 ^ 31"
    using assms(2) by (rule bs_rep_cells)
  show thesis
  proof (rule that [of "s\<lparr>buff := Some u1\<rparr>"])
    show "\<forall>k. read_fresh (Some r) (Some s) [] k = k (Some (r\<lparr>slen := 0\<rparr>)) (Some (s\<lparr>buff := Some u1\<rparr>)) []"
      using st(6) m(3) u1(1) r(3) by (simp add: read_fresh_def)
    show "stream_ok nread rest good (s\<lparr>buff := Some u1\<rparr>) xs" using st u1 by (auto simp: stream_ok_def)
    show "bs_rep (r\<lparr>slen := 0\<rparr>) []" using r by (intro rep_cells [of _ _ "map Some w @ q"]) simp_all
    show "slen (the (buff (s\<lparr>buff := Some u1\<rparr>))) = slen (the (buff s))" using st(6,7) u1(2) bs_rep_slen by simp
    show "parm (s\<lparr>buff := Some u1\<rparr>) = parm s" by simp
  qed
qed

lemma bsreadlna_reads:
  assumes "stream_ok nread rest good s xs" and "bs_rep r w" and "int (length w) + int (length xs) < 2 ^ 29"
  shows "has_read nread rest good w xs (line_len (\<lambda>c. c = t) xs) (if xs = [] then BSTR_ERR else BSTR_OK)
    (bsreadlna (Some r) (Some s) t [])"
proof -
  have "buff s \<noteq> None" "0 < mlen r" "0 \<le> slen r" "slen r \<le> mlen r"
    using assms(1,2) by (auto simp: stream_ok_def elim: bs_rep_cells)
  then have "bsreadlna (Some r) (Some s) t [] = read_line (\<lambda>c. c = t) t r s []" by (auto simp: bsreadlna_def)
  with read_line_reads [of "\<lambda>c. c = t" t, OF refl assms] show ?thesis by simp
qed

lemma bsreadlnsa_reads:
  assumes "stream_ok nread rest good s xs" and "bs_rep r w" and "int (length w) + int (length xs) < 2 ^ 29"
    and "bs_rep term ts" and "ts \<noteq> []"
  shows "has_read nread rest good w xs (line_len (\<lambda>c. c \<in> set ts) xs) (if xs = [] then BSTR_ERR else BSTR_OK)
    (bsreadlnsa (Some r) (Some s) (Some term) [])"
proof -
  have st: "buff s \<noteq> None" "0 < mlen r" "0 \<le> slen r" "slen r \<le> mlen r"
    using assms(1,2) by (auto simp: stream_ok_def elim: bs_rep_cells)
  obtain d where d: "data term = Some d" "take (length ts) d = map Some ts" "slen term = int (length ts)"
    using assms(4) by (rule bs_repE)
  have c: "cell d 0 = Inr (ts ! 0)" using cell_rep [OF d(2), of 0] assms(5) by simp
  show ?thesis
  proof (cases "length ts = 1")
    case True
    then have ts: "ts = [ts ! 0]" by (cases ts) auto
    then have "(\<lambda>x. x \<in> set ts) = (\<lambda>x. x = ts ! 0)" by (metis empty_iff insert_iff list.set(1,2))
    with bsreadlna_reads [OF assms(1-3), of "ts ! 0"] True st d(1,3) c show ?thesis
      by (auto simp: bsreadlnsa_def)
  next
    case False
    then have two: "slen term \<noteq> 1" "\<not> slen term < 1" using assms(5) d(3) by (auto simp: Suc_le_eq)
    obtain cf where cf: "buildCharField (Some term) = Inr (Some cf)" "testInCharField cf = (\<lambda>c. c \<in> set ts)"
      using buildCharField_field [OF assms(4)] assms(5) by (auto simp: field_of_def fun_eq_iff)
    have "ts ! 0 \<in> set ts" using assms(5) by simp
    from read_line_reads [of "\<lambda>c. c \<in> set ts" "ts ! 0", OF this assms(1-3)] two st d(1) c cf show ?thesis
      by (auto simp: bsreadlnsa_def)
  qed
qed

lemma bsreadln_reads:
  assumes "stream_ok nread rest good s xs" and "bs_rep r w" and "int (length xs) < 2 ^ 29"
  shows "has_read nread rest good [] xs (line_len (\<lambda>c. c = t) xs) (if xs = [] then BSTR_ERR else BSTR_OK)
    (bsreadln (Some r) (Some s) t [])"
proof -
  obtain s' where "\<forall>k. read_fresh (Some r) (Some s) [] k = k (Some (r\<lparr>slen := 0\<rparr>)) (Some s') []"
    "stream_ok nread rest good s' xs" "bs_rep (r\<lparr>slen := 0\<rparr>) []" using read_fresh_ok [OF assms(1,2)] by blast
  with bsreadlna_reads [of s' xs "r\<lparr>slen := 0\<rparr>" "[]" t] assms(3) show ?thesis by (simp add: bsreadln_def)
qed

lemma bsreadlns_reads:
  assumes "stream_ok nread rest good s xs" and "bs_rep r w" and "int (length xs) < 2 ^ 29"
    and "bs_rep term ts" and "ts \<noteq> []"
  shows "has_read nread rest good [] xs (line_len (\<lambda>c. c \<in> set ts) xs) (if xs = [] then BSTR_ERR else BSTR_OK)
    (bsreadlns (Some r) (Some s) (Some term) [])"
proof -
  have st: "buff s \<noteq> None" "0 < mlen r"
    using assms(1,2) by (auto simp: stream_ok_def elim: bs_rep_cells)
  obtain d where d: "data term = Some d" "take (length ts) d = map Some ts" "slen term = int (length ts)"
    using assms(4) by (rule bs_repE)
  have c: "cell d 0 = Inr (ts ! 0)" using cell_rep [OF d(2), of 0] assms(5) by simp
  show ?thesis
  proof (cases "length ts = 1")
    case True
    then have ts: "ts = [ts ! 0]" by (cases ts) auto
    then have "(\<lambda>x. x \<in> set ts) = (\<lambda>x. x = ts ! 0)" by (metis empty_iff insert_iff list.set(1,2))
    with bsreadln_reads [OF assms(1-3), of "ts ! 0"] True st d(1,3) c show ?thesis
      by (auto simp: bsreadlns_def)
  next
    case False
    then have two: "slen term \<noteq> 1" "\<not> slen term < 1" using assms(5) d(3) by (auto simp: Suc_le_eq)
    obtain s' where "\<forall>k. read_fresh (Some r) (Some s) [] k = k (Some (r\<lparr>slen := 0\<rparr>)) (Some s') []"
      "stream_ok nread rest good s' xs" "bs_rep (r\<lparr>slen := 0\<rparr>) []" using assms(1,2) by (rule read_fresh_ok)
    with bsreadlnsa_reads [of s' xs "r\<lparr>slen := 0\<rparr>" "[]", OF _ _ _ assms(4,5)] assms(3) two st d(1) show ?thesis
      by (auto simp: bsreadlns_def)
  qed
qed

lemma bsread_reads:
  assumes "stream_ok nread rest good s xs" and "bs_rep r w" and "0 < n" and "n < 2 ^ 29" and "int (length xs) < 2 ^ 29"
  shows "if xs = [] then \<exists>r' s'. bsread (Some r) (Some s) n [] = Some (Inr (BSTR_ERR, Some r', Some s', [])) \<and>
      bs_rep r' [] \<and> stream_ok nread rest good s' []
    else 0 < block_size nread (n < mlen r) s n xs \<and> int (block_size nread (n < mlen r) s n xs) \<le> n \<and>
      block_size nread (n < mlen r) s n xs \<le> length xs \<and> has_read nread rest good [] xs (block_size nread (n < mlen r) s n xs) BSTR_OK (bsread (Some r) (Some s) n [])"
proof -
  obtain s' where fr: "\<forall>k. read_fresh (Some r) (Some s) [] k = k (Some (r\<lparr>slen := 0\<rparr>)) (Some s') []"
    "stream_ok nread rest good s' xs" "bs_rep (r\<lparr>slen := 0\<rparr>) []" "slen (the (buff s')) = slen (the (buff s))" "parm s' = parm s"
    using assms(1,2) by (rule read_fresh_ok)
  have run: "bsread (Some r) (Some s) n [] = bsreada (Some (r\<lparr>slen := 0\<rparr>)) (Some s') n []"
    using fr(1) assms(3) by (simp add: bsread_def)
  have "int (length ([] :: byte list)) + n < 2 ^ 29" "int (length ([] :: byte list)) + int (length xs) < 2 ^ 29"
    using assms(4,5) by simp_all
  note * = bsreada_reads [OF fr(2,3) assms(3) this]
  have "block_size nread (n + int (length ([] :: byte list)) < mlen (r\<lparr>slen := 0\<rparr>)) s' n xs = block_size nread (n < mlen r) s n xs"
    by (simp add: block_size_def fr(4,5))
  with * show ?thesis unfolding run by (simp only:)
qed

end

text \<open>What is put back may be a section of the buffer itself.\<close>

lemma bsunread_ok:
  assumes "stream_ok nread rest good s xs" and "arg_rep (content (the (buff s))) arg ys"
    and "int (length xs) + int (length ys) < 2 ^ 30"
  obtains s' where "bsunread (Some s) (Some arg) [] = Inr (BSTR_OK, Some s', [])"
    "stream_ok nread rest good s' (ys @ xs)"
proof -
  from assms(1) obtain u zs where st: "readFnPtr s = Some nread" "good (parm s)" "0 < maxBuffSz s" "maxBuffSz s < 2 ^ 28"
    "isEOF s \<longrightarrow> rest (parm s) = []" "buff s = Some u" "bs_rep u zs" "int (length zs) < mlen u" "xs = zs @ rest (parm s)"
    by (auto simp: stream_ok_def)
  have "arg_rep zs arg ys" using assms(2) st(6) content_rep [OF st(7)] by simp
  then have "edit_ok [] (binsert (Some u) (int 0) (Some arg) 63 []) zs (replace_section 63 0 0 ys zs)"
    by (intro binsert_room [OF st(7)]) (use st(7-9) assms(3) bs_rep_slen in auto)
  then obtain u' where "binsert (Some u) 0 (Some arg) 63 [] = Inr (BSTR_OK, Some u', [])" "bs_ok u' (ys @ zs)"
    by (auto simp: edit_ok_def replace_section_def)
  with st bs_rep_slen show thesis
    by (intro that [of "s\<lparr>buff := Some u'\<rparr>"]) (auto simp: bsunread_def stream_ok_def bs_ok_def)
qed

text \<open>What peeking shows is what the buffer holds, with which the characters to come begin.\<close>

lemma bspeek_ok:
  assumes "stream_ok nread rest good s xs" and "bs_ok r w" and "int (length xs) < 2 ^ 30"
  shows "\<exists>r'. bspeek (Some r) (Some s) [] = Inr (BSTR_OK, Some r', []) \<and> bs_ok r' (content (the (buff s)))"
    and "xs = content (the (buff s)) @ rest (parm s)"
proof -
  from assms(1) obtain u zs where st: "buff s = Some u" "bs_rep u zs" "xs = zs @ rest (parm s)"
    by (auto simp: stream_ok_def)
  then have zs: "content (the (buff s)) = zs" by (simp add: content_rep)
  with st show "xs = content (the (buff s)) @ rest (parm s)" by simp
  have "edit_ok [] (bassign (Some r) (Some (Apart u)) []) w zs"
    by (rule bassign_edit [OF assms(2)]) (use st assms(3) in simp_all)
  then obtain r' where "bassign (Some r) (Some (Apart u)) [] = Inr (BSTR_OK, Some r', [])" "bs_ok r' zs"
    by (auto simp: edit_ok_def)
  with st(1) show "\<exists>r'. bspeek (Some r) (Some s) [] = Inr (BSTR_OK, Some r', []) \<and> bs_ok r' (content (the (buff s)))"
    unfolding zs by (simp add: bspeek_def)
qed

section \<open>Reading everything\<close>

text \<open>The source reads less than what is asked for only at the end, as \<open>fread\<close> does.\<close>

locale full_source = stream_source +
  assumes short: "good p \<Longrightarrow> 0 < n \<Longrightarrow> nread p n = Inr (map Some bs, p') \<Longrightarrow> int (length bs) < n \<Longrightarrow> rest p' = []"
begin

lemma breada_loop_reads:
  "good p \<Longrightarrow> bs_rep b w \<Longrightarrow> int (length w) < n \<Longrightarrow> int (length w) < mlen b \<or> int (length w) \<le> n \<Longrightarrow>
    n \<le> 2 * int (length w) + 2048 \<Longrightarrow> int (length w) + int (length (rest p)) < 2 ^ 28 \<Longrightarrow>
    \<exists>b' p'. breada_loop nread (Some b) (int (length w)) n p [] = Some (Inr (BSTR_OK, Some b', p', [])) \<and>
      bs_ok b' (w @ rest p) \<and> rest p' = []"
proof (induction "length (rest p)" arbitrary: p b w n rule: less_induct)
  case less
  let ?w = "int (length w)"
  have n: "0 < n + 1" "n + 1 < 2 ^ 30" "s32 (n + 1) = n + 1" "0 < n - ?w" "n - ?w < 2 ^ 31"
    using less.prems(3,5,6) by (simp_all add: s32_id)
  have "slen b < mlen b \<or> slen b < n + 1" using less.prems(2,3) bs_rep_slen by simp
  with less.prems(2) n(1,2) obtain b1 v where b1: "balloc (Some b) (n + 1) [] = Inr (BSTR_OK, Some b1, [])"
    "data b1 = Some (map Some w @ v)" "length w + length v = nat (mlen b1)" "0 < mlen b1" "mlen b1 < 2 ^ 31"
    "n + 1 < mlen b1" by (rule balloc_room)
  have v: "n - ?w + 1 < int (length v)" using b1(3,4,6) by linarith
  from reads [OF less.prems(1) n(4)] obtain bs p' where r: "nread p (n - ?w) = Inr (map Some bs, p')" "good p'"
    "rest p = bs @ rest p'" "int (length bs) \<le> n - ?w" "bs = [] \<longrightarrow> rest p = []" by blast
  have len: "length bs < length v" using v r(4) by linarith
  then obtain z v' where z: "drop (length bs) v = z # v'" by (cases "drop (length bs) v") auto
  have v': "length v = length bs + Suc (length v')" using arg_cong [OF z, of length] len by simp
  have "overwrite (map Some w @ take (length bs) v @ drop (length bs) v) ?w (map Some bs) =
      Inr (map Some w @ map Some bs @ drop (length bs) v)"
    using len by (intro overwrite_at) simp_all
  then have "overwrite (map Some w @ v) ?w (map Some bs) = Inr (map Some w @ map Some bs @ drop (length bs) v)"
    by (simp only: append_take_drop_id)
  then have run: "read_at nread (map Some w @ v) ?w (n - ?w) p = Inr (map Some w @ map Some bs @ z # v', int (length bs), p')"
    using r(1,4) n(5) by (simp add: read_at_def z)
  have sum: "s32 (?w + int (length bs)) = ?w + int (length bs)" using less.prems(6) r(3) by (simp add: s32_id)
  show ?case
  proof (cases "int (length bs) < n - ?w")
    case True
    then have "rest p' = []" using short [OF less.prems(1) n(4) r(1)] by simp
    have put: "put (map Some w @ map Some bs @ z # v') (?w + int (length bs)) 0 = Inr (map Some w @ map Some bs @ Some 0 # v')"
      using put_at [of "?w + int (length bs)" "map Some w @ map Some bs" z v' 0] by simp
    let ?b = "b1\<lparr>data := Some (map Some w @ map Some bs @ Some 0 # v'), slen := ?w + int (length bs)\<rparr>"
    have "breada_step nread (Some b) ?w n p [] = Inr (Some BSTR_OK, Some ?b, ?w + int (length bs), p', [])"
      using True n(3) b1(1,2) run sum put by (simp add: breada_step_def with_room_def Let_def)
    then have "breada_loop nread (Some b) ?w n p [] = Some (Inr (BSTR_OK, Some ?b, p', []))"
      by (subst breada_loop.simps) simp
    moreover have "bs_ok ?b (w @ bs)" using b1 v' by (intro rep_cells(2)) (simp_all add: add.assoc)
    ultimately show ?thesis using r(3) \<open>rest p' = []\<close> by simp
  next
    case False
    then have full: "int (length bs) = n - ?w" using r(4) by simp
    then have i: "int (length (w @ bs)) = n" "bs \<noteq> []" using n(4) by auto
    let ?b = "b1\<lparr>data := Some (map Some w @ map Some bs @ z # v'), slen := n\<rparr>"
    let ?n = "n + (if n < BS_BUFF_SZ then n else BS_BUFF_SZ)"
    have up: "s32 ?n = ?n" using less.prems(3,5,6) by (simp add: BS_BUFF_SZ_def s32_id)
    have "breada_step nread (Some b) ?w n p [] = Inr (None, Some ?b, n, p', [])"
      using False n(3) b1(1,2) run sum full by (simp add: breada_step_def with_room_def Let_def)
    then have step: "breada_loop nread (Some b) ?w n p [] = breada_loop nread (Some ?b) (int (length (w @ bs))) ?n p' []"
      unfolding i(1) by (subst breada_loop.simps) (simp add: up)
    have "\<exists>b' p''. breada_loop nread (Some ?b) (int (length (w @ bs))) ?n p' [] = Some (Inr (BSTR_OK, Some b', p'', [])) \<and>
        bs_ok b' ((w @ bs) @ rest p') \<and> rest p'' = []"
    proof (rule less.hyps)
      show "length (rest p') < length (rest p)" using r(3) i(2) by simp
      show "bs_rep ?b (w @ bs)" using b1 v' i(1) by (intro rep_cells [of _ _ "z # v'"]) (simp_all add: add.assoc)
      show "int (length (w @ bs)) < ?n" using i(1) less.prems(3) by (simp add: BS_BUFF_SZ_def)
    qed (use r less.prems i(1) in \<open>auto simp: BS_BUFF_SZ_def\<close>)
    with step r(3) show ?thesis by simp
  qed
qed

lemma breada_reads:
  assumes "good p" and "bs_rep b w" and "int (length w) + int (length (rest p)) < 2 ^ 28"
  shows "\<exists>b' p'. breada (Some b) (Some nread) p [] = Some (Inr (BSTR_OK, Some b', p', [])) \<and> bs_ok b' (w @ rest p) \<and> rest p' = []"
proof -
  have b: "slen b = int (length w)" "0 < mlen b" "int (length w) \<le> mlen b" using assms(2) by (auto elim: bs_rep_cells)
  have "s32 (int (length w) + 16) = int (length w) + 16" using assms(3) by (simp add: s32_id)
  with b have "breada (Some b) (Some nread) p [] = breada_loop nread (Some b) (int (length w)) (int (length w) + 16) p []"
    by (simp add: breada_def)
  with breada_loop_reads [OF assms(1,2), of "int (length w) + 16"] assms(3) show ?thesis by simp
qed

lemma bread_reads:
  assumes "good p" and "int (length (rest p)) < 2 ^ 28"
  shows "\<exists>b p'. bread (Some nread) p [] = Some (Inr (Some b, p', [])) \<and> bs_ok b (rest p) \<and> rest p' = []"
proof -
  from bfromcstr_rep [of "[]" "[]" "[]"] obtain b where b: "bfromcstr (Some [0]) [] = Inr (Some b, [])" "bs_ok b []" by auto
  with breada_reads [OF assms(1), of b "[]"] assms(2) show ?thesis
    by (auto simp: bread_def bs_ok_def BSTR_OK_def)
qed

end

subsection \<open>Character by character\<close>

text \<open>\<open>bgetsa\<close> and \<open>bassigngets\<close> read the characters up to and including the terminator.\<close>

lemma gets_loop_reads:
  "data b = Some (map Some w @ v) \<Longrightarrow> length w + length v = nat (mlen b) \<Longrightarrow> 0 < mlen b \<Longrightarrow> mlen b < 2 ^ 31 \<Longrightarrow>
    v \<noteq> [] \<Longrightarrow> e = mlen b - 2 \<Longrightarrow> int (length w) + int (length xs) < 2 ^ 29 \<Longrightarrow>
    \<exists>c b' v'. gets_loop (Some b) (int (length w)) e t (map uint xs) [] =
        Inr (Some (int (length w) + int (line_len (\<lambda>x. uint x = t) xs), c), Some b',
          map uint (drop (line_len (\<lambda>x. uint x = t) xs) xs), []) \<and> (xs = [] \<longrightarrow> c < 0) \<and>
      data b' = Some (map Some (w @ take (line_len (\<lambda>x. uint x = t) xs) xs) @ v') \<and> v' \<noteq> [] \<and>
      length w + line_len (\<lambda>x. uint x = t) xs + length v' = nat (mlen b') \<and> 0 < mlen b' \<and> mlen b' < 2 ^ 31"
proof (induction xs arbitrary: b w v e)
  case Nil
  then show ?case by simp
next
  case (Cons x xs)
  let ?w = "int (length w)"
  have n: "0 < ?w + 2" "?w + 2 < 2 ^ 30" "s32 (?w + 2) = ?w + 2" "s32 (?w + 1) = ?w + 1"
    using Cons.prems(7) by (simp_all add: s32_id)
  have room: "?w < mlen b" using Cons.prems(2,3,5) by (cases v) auto
  have rep: "bs_rep (b\<lparr>slen := ?w\<rparr>) w" using Cons.prems by (intro rep_cells [of _ _ v]) simp_all
  obtain b1 v1 where b1: "(if ?w > e then balloc (Some (b\<lparr>slen := ?w\<rparr>)) (?w + 2) [] else Inr (BSTR_OK, Some b, [])) =
      Inr (BSTR_OK, Some b1, [])" "data b1 = Some (map Some w @ v1)" "length w + length v1 = nat (mlen b1)" "0 < mlen b1"
      "mlen b1 < 2 ^ 31" "?w + 1 < mlen b1" "\<not> ?w > e \<Longrightarrow> e = mlen b1 - 2"
  proof (cases "?w > e")
    case True
    have "slen (b\<lparr>slen := ?w\<rparr>) < mlen (b\<lparr>slen := ?w\<rparr>) \<or> slen (b\<lparr>slen := ?w\<rparr>) < ?w + 2" by simp
    with rep n(1,2) obtain b1 v1 where "balloc (Some (b\<lparr>slen := ?w\<rparr>)) (?w + 2) [] = Inr (BSTR_OK, Some b1, [])"
      "data b1 = Some (map Some w @ v1)" "length w + length v1 = nat (mlen b1)" "0 < mlen b1" "mlen b1 < 2 ^ 31"
      "?w + 2 < mlen b1" by (rule balloc_room)
    with True show thesis by (intro that [of b1 v1]) simp_all
  next
    case False
    with Cons.prems show thesis by (intro that [of b v]) simp_all
  qed
  have "1 < length v1" using b1(3,6) by linarith
  then obtain z v2 where v1: "v1 = z # v2" "v2 \<noteq> []" by (cases v1) (auto simp: neq_Nil_conv)
  let ?b = "b1\<lparr>data := Some (map Some (w @ [x]) @ v2)\<rparr>" and ?e = "mlen b1 - 2"
  have put: "put (map Some w @ z # v2) ?w x = Inr (map Some w @ Some x # v2)" by (rule put_at) simp
  have len: "length w + 1 + length v2 = nat (mlen b1)" using b1(3) v1(1) by simp
  have e: "(if ?w > e then mlen b1 - 2 else e) = ?e" using b1(7) by simp
  have run: "gets_loop (Some b) ?w e t (map uint (x # xs)) [] =
      (if uint x = t then Inr (Some (?w + 1, uint x), Some ?b, map uint xs, [])
       else gets_loop (Some ?b) (int (length (w @ [x]))) ?e t (map uint xs) [])"
  proof -
    have "(if ?w > e then (case Some b of None \<Rightarrow> Inl NullPointer | Some b \<Rightarrow> balloc (Some (b\<lparr>slen := ?w\<rparr>)) (s32 (?w + 2)) [])
        else Inr (BSTR_OK, Some b, [])) = Inr (BSTR_OK, Some b1, [])" using b1(1) n(3) by (cases "?w > e") simp_all
    then show ?thesis
      unfolding list.map gets_loop.simps by (simp add: put e n(4) v1(1) b1(2) Let_def add.commute [of 1 ?w])
  qed
  show ?case
  proof (cases "uint x = t")
    case True
    with run v1(2) len b1(4,5) show ?thesis by auto
  next
    case False
    have "\<exists>c b' v'. gets_loop (Some ?b) (int (length (w @ [x]))) ?e t (map uint xs) [] =
        Inr (Some (int (length (w @ [x])) + int (line_len (\<lambda>x. uint x = t) xs), c), Some b',
          map uint (drop (line_len (\<lambda>x. uint x = t) xs) xs), []) \<and> (xs = [] \<longrightarrow> c < 0) \<and>
      data b' = Some (map Some ((w @ [x]) @ take (line_len (\<lambda>x. uint x = t) xs) xs) @ v') \<and> v' \<noteq> [] \<and>
      length (w @ [x]) + line_len (\<lambda>x. uint x = t) xs + length v' = nat (mlen b') \<and> 0 < mlen b' \<and> mlen b' < 2 ^ 31"
      by (rule Cons.IH [of ?b _ v2]) (use Cons.prems(7) v1(2) len b1(4,5) in simp_all)
    with False run show ?thesis by auto
  qed
qed

lemma gets_into_reads:
  assumes "bs_rep b zs" and "w = [] \<or> w = zs \<and> int (length zs) < mlen b" and "int (length w) + int (length xs) < 2 ^ 29"
  shows "\<exists>b'. gets_into (Some b) (int (length w)) (map uint xs) t [] =
      Inr (if w = [] \<and> xs = [] then 1 else 0, Some b', map uint (drop (line_len (\<lambda>x. uint x = t) xs) xs), []) \<and>
    bs_ok b' (w @ take (line_len (\<lambda>x. uint x = t) xs) xs)"
proof -
  let ?k = "line_len (\<lambda>x. uint x = t) xs"
  obtain q where b: "data b = Some (map Some zs @ q)" "length zs + length q = nat (mlen b)" "0 < mlen b" "mlen b < 2 ^ 31"
    using assms(1) by (rule bs_rep_cells)
  have e: "s32 (mlen b - 2) = mlen b - 2" using b(3,4) by (simp add: s32_id)
  obtain v where v: "data b = Some (map Some w @ v)" "length w + length v = nat (mlen b)" "v \<noteq> []"
  proof (cases "w = []")
    case True
    with b that [of "map Some zs @ q"] show thesis by (cases zs; cases q) auto
  next
    case False
    then have "w = zs" "int (length zs) < mlen b" using assms(2) by simp_all
    moreover from this(2) b(2) have "0 < length q" by linarith
    ultimately show thesis using b that [of q] by simp
  qed
  from gets_loop_reads [OF v(1,2) b(3,4) v(3) refl assms(3), of t] obtain c b' v' where
    g: "gets_loop (Some b) (int (length w)) (mlen b - 2) t (map uint xs) [] =
        Inr (Some (int (length w) + int ?k, c), Some b', map uint (drop ?k xs), [])" "xs = [] \<longrightarrow> c < 0"
      "data b' = Some (map Some (w @ take ?k xs) @ v')" "v' \<noteq> []" "length w + ?k + length v' = nat (mlen b')"
      "0 < mlen b'" "mlen b' < 2 ^ 31" by blast
  obtain z v'' where v': "v' = z # v''" using g(4) by (cases v') auto
  have k: "?k \<le> length xs" "?k = 0 \<longleftrightarrow> xs = []" using line_len_le by (auto, cases xs) (auto split: if_splits)
  have put: "put (map Some (w @ take ?k xs) @ z # v'') (int (length w) + int ?k) 0 = Inr (map Some (w @ take ?k xs) @ Some 0 # v'')"
    by (rule put_at) (use k(1) in simp)
  let ?b = "b'\<lparr>data := Some (map Some (w @ take ?k xs) @ Some 0 # v''), slen := int (length w) + int ?k\<rparr>"
  have "(int (length w) + int ?k = 0 \<and> c < 0) = (w = [] \<and> xs = [])" using k(2) g(2) by auto
  then have "gets_into (Some b) (int (length w)) (map uint xs) t [] =
      Inr (if w = [] \<and> xs = [] then 1 else 0, Some ?b, map uint (drop ?k xs), [])"
    using g(1,3) e put v' by (simp add: gets_into_def del: map_append)
  moreover have "bs_ok ?b (w @ take ?k xs)" using g(5-7) v' k(1) by (intro rep_cells(2)) simp_all
  ultimately show ?thesis by blast
qed

lemma bgetsa_reads:
  assumes "bs_ok b w" and "int (length w) + int (length xs) < 2 ^ 29"
  shows "\<exists>b'. bgetsa (Some b) (map uint xs) t [] =
      Inr (if w = [] \<and> xs = [] then 1 else 0, Some b', map uint (drop (line_len (\<lambda>x. uint x = t) xs) xs), []) \<and>
    bs_ok b' (w @ take (line_len (\<lambda>x. uint x = t) xs) xs)"
proof -
  have b: "bs_rep b w" "int (length w) < mlen b" "slen b = int (length w)"
    using assms(1) bs_rep_slen by (auto simp: bs_ok_def)
  with gets_into_reads [of b w w xs t] assms(2) show ?thesis by (simp add: bgetsa_def)
qed

lemma bassigngets_reads:
  assumes "bs_rep b w" and "int (length xs) < 2 ^ 29"
  shows "\<exists>b'. bassigngets (Some b) (map uint xs) t [] =
      Inr (if xs = [] then 1 else 0, Some b', map uint (drop (line_len (\<lambda>x. uint x = t) xs) xs), []) \<and>
    bs_ok b' (take (line_len (\<lambda>x. uint x = t) xs) xs)"
proof -
  have "0 < mlen b" "0 \<le> slen b" "slen b \<le> mlen b" using assms(1) by (auto elim: bs_rep_cells)
  with gets_into_reads [of b w "[]" xs t] assms show ?thesis by (simp add: bassigngets_def)
qed

text \<open>A terminator with its top bit set is a negative \<open>char\<close> and is never found.\<close>

lemma bgetsa_negative_terminator:
  assumes "bs_ok b w" and "int (length w) + int (length xs) < 2 ^ 29" and "t < 0"
  shows "\<exists>b'. bgetsa (Some b) (map uint xs) t [] = Inr (if w = [] \<and> xs = [] then 1 else 0, Some b', [], []) \<and> bs_ok b' (w @ xs)"
proof -
  have "uint x \<noteq> t" for x :: byte using uint_ge_0 [of x] assms(3) by linarith
  then have "line_len (\<lambda>x. uint x = t) xs = length xs" by (intro line_len_none) simp
  with bgetsa_reads [OF assms(1,2), of t] show ?thesis by simp
qed

text \<open>A full buffer and nothing to read: the terminator is written behind it.\<close>

lemma bgetsa_full:
  assumes "bs_rep b w" and "slen b = mlen b"
  shows "bgetsa (Some b) [] t [] = Inl OutOfBounds"
proof -
  obtain q where b: "data b = Some (map Some w @ q)" "length w + length q = nat (mlen b)" "0 < mlen b" "slen b = int (length w)"
    using assms(1) by (rule bs_rep_cells)
  with assms(2) show ?thesis by (simp add: bgetsa_def gets_into_def put_def)
qed

section \<open>The sources over strings keep the contract\<close>

definition ref_ok :: "bstring \<Rightarrow> byte list \<Rightarrow> bool" where
  "ref_ok t xs \<longleftrightarrow> (\<exists>r. data t = Some (map Some xs @ r) \<and> slen t = int (length xs) \<and> length xs < 2 ^ 31)"

definition ref_rest :: "bstring \<Rightarrow> byte list" where
  "ref_rest t = map the (take (nat (slen t)) (the (data t)))"

lemma ref_rest_ok: "ref_ok t xs \<Longrightarrow> ref_rest t = xs"
  by (auto simp: ref_ok_def ref_rest_def comp_def)

lemma readRef_ok:
  assumes "ref_ok t xs" and "0 < n"
  obtains t' where "readRef t n = Inr (map Some (take (nat n) xs), t')" "ref_ok t' (drop (nat n) xs)"
proof -
  from assms(1) obtain r where t: "data t = Some (map Some xs @ r)" "slen t = int (length xs)" "length xs < 2 ^ 31"
    by (auto simp: ref_ok_def)
  define k where "k = min (length xs) (nat n)"
  have k: "(if 0 \<le> slen t \<and> slen t < n then slen t else n) = int k" using t(2) assms(2) by (auto simp: k_def)
  have xs: "take (nat n) xs = take k xs" "drop (nat n) xs = drop k xs" by (auto simp: k_def min_def)
  have sub: "s32 (int (length xs) - int k) = int (length (drop k xs))" using t(3) by (simp add: k_def s32_id of_nat_diff)
  show thesis
  proof (cases "k = 0")
    case True
    then have "readRef t n = Inr ([], t)" using k by (simp add: readRef_def Let_def)
    with True that [of t] assms(1) show thesis unfolding xs by simp
  next
    case False
    then have "readRef t n = Inr (map Some (take k xs), t\<lparr>slen := int (length (drop k xs)), data := Some (map Some (drop k xs) @ r)\<rparr>)"
      using t k sub by (simp add: readRef_def Let_def first_cells_def k_def take_map drop_map)
    then show thesis
      by (rule that [unfolded xs]) (use t(3) in \<open>simp add: ref_ok_def\<close>)
  qed
qed

interpretation nothing: full_source readNothing "\<lambda>_. []" "\<lambda>_. True"
  by unfold_locales (auto simp: readNothing_def)

interpretation ref: full_source readRef ref_rest "\<lambda>t. \<exists>xs. ref_ok t xs"
proof unfold_locales
  fix t :: bstring and n :: int
  assume "\<exists>xs. ref_ok t xs" and n: "0 < n"
  then obtain xs where xs: "ref_ok t xs" by blast
  from readRef_ok [OF xs n] obtain t' where t': "readRef t n = Inr (map Some (take (nat n) xs), t')" "ref_ok t' (drop (nat n) xs)"
    by blast
  with xs n show "\<exists>bs t'. readRef t n = Inr (map Some bs, t') \<and> (\<exists>xs. ref_ok t' xs) \<and> ref_rest t = bs @ ref_rest t' \<and>
      int (length bs) \<le> n \<and> (bs = [] \<longrightarrow> ref_rest t = [])"
    by (intro exI [of _ "take (nat n) xs"] exI [of _ t']) (auto simp: ref_rest_ok)
next
  fix t t' :: bstring and n :: int and bs
  assume "\<exists>xs. ref_ok t xs" and n: "0 < n" and run: "readRef t n = Inr (map Some bs, t')" and short: "int (length bs) < n"
  then obtain xs where xs: "ref_ok t xs" by blast
  from readRef_ok [OF xs n] run have "ref_ok t' (drop (nat n) xs)" "map Some bs = map Some (take (nat n) xs)" by auto
  then have "ref_rest t' = drop (nat n) xs" "length bs = length (take (nat n) xs)" using ref_rest_ok map_eq_imp_length_eq by blast+
  with short show "ref_rest t' = []" by simp
qed

lemma bsopen_stream:
  assumes "stream_source nread rest good" and "good p"
  obtains s where "bsopen (Some nread) p [] = Inr (Some s, [])" "stream_ok nread rest good s (rest p)"
proof -
  from bfromcstr_rep [of "[]" "[]" "[]"] obtain b where b: "bfromcstr (Some [0]) [] = Inr (Some b, [])" "bs_ok b []" by auto
  show thesis
    by (rule that [of "\<lparr>buff = Some b, parm = p, readFnPtr = Some nread, isEOF = False, maxBuffSz = BS_BUFF_SZ\<rparr>"])
      (use b assms(2) bs_rep_slen in \<open>auto simp: bsopen_def stream_ok_def bs_ok_def BS_BUFF_SZ_def\<close>)
qed

lemma bsFromBstr_stream:
  assumes "bs_rep b xs" and "int (length xs) < 2 ^ 30"
  obtains s where "bsFromBstr (Some b) [] = Inr (Some s, [])" "stream_ok readNothing (\<lambda>_. []) (\<lambda>_. True) s xs"
proof -
  obtain s0 where s0: "bsopen (Some readNothing) () [] = Inr (Some s0, [])" "stream_ok readNothing (\<lambda>_. []) (\<lambda>_. True) s0 []"
    by (rule bsopen_stream [OF nothing.stream_source_axioms TrueI, of "()"])
  obtain s where "bsunread (Some s0) (Some (Apart b)) [] = Inr (BSTR_OK, Some s, [])"
    "stream_ok readNothing (\<lambda>_. []) (\<lambda>_. True) s (xs @ [])"
    by (rule bsunread_ok [OF s0(2), of "Apart b" xs]) (use assms in simp_all)
  with s0(1) show thesis by (intro that [of s]) (simp_all add: bsFromBstr_def)
qed

lemma bsFromBstrRef_stream:
  assumes "ref_ok t xs"
  obtains s where "bsFromBstrRef (Some t) [] = Inr (Some s, [])" "stream_ok readRef ref_rest (\<lambda>t. \<exists>xs. ref_ok t xs) s xs"
proof -
  have "\<exists>xs. ref_ok t xs" using assms by blast
  with ref.stream_source_axioms show thesis
    by (rule bsopen_stream) (use that assms in \<open>simp add: bsFromBstrRef_def ref_rest_ok\<close>)
qed

text \<open>
  C27: with enough memory, and with less than half a gigabyte still to come, a buffered stream
  is the list of the characters to come, whatever the sizes of its reads and of its buffer.
  Reading a line takes the characters up to and including the first terminator, or all.
  Reading a block takes the number asked for, or all; but when the buffer is empty and the
  string has room for the block, what one read of the source gives, which may be fewer though
  more are to come. At the end both report \<open>BSTR_ERR\<close> and add nothing. What is put back, another
  string or a section of the buffer, comes next. Peeking changes nothing and shows exactly what the
  buffer holds, with which the characters to come begin.
\<close>

theorem stream_reads:
  assumes "stream_source nread rest good" and "stream_ok nread rest good s xs" and "bs_ok r w"
    and "bs_rep term ts" and "ts \<noteq> []" and "arg_rep (content (the (buff s))) b ys" and "0 < n" and "n < 2 ^ 29"
    and "int (length xs) + int (length ys) < 2 ^ 29"
  shows "has_read nread rest good [] xs (line_len (\<lambda>c. c = t) xs) (if xs = [] then BSTR_ERR else BSTR_OK)
      (bsreadln (Some r) (Some s) t []) \<and>
    has_read nread rest good [] xs (line_len (\<lambda>c. c \<in> set ts) xs) (if xs = [] then BSTR_ERR else BSTR_OK)
      (bsreadlns (Some r) (Some s) (Some term) []) \<and>
    (if xs = [] then \<exists>r' s'. bsread (Some r) (Some s) n [] = Some (Inr (BSTR_ERR, Some r', Some s', [])) \<and>
       bs_rep r' [] \<and> stream_ok nread rest good s' []
     else 0 < block_size nread (n < mlen r) s n xs \<and> int (block_size nread (n < mlen r) s n xs) \<le> n \<and>
      block_size nread (n < mlen r) s n xs \<le> length xs \<and>
       has_read nread rest good [] xs (block_size nread (n < mlen r) s n xs) BSTR_OK (bsread (Some r) (Some s) n [])) \<and>
    (\<exists>s'. bsunread (Some s) (Some b) [] = Inr (BSTR_OK, Some s', []) \<and> stream_ok nread rest good s' (ys @ xs)) \<and>
    (\<exists>r'. bspeek (Some r) (Some s) [] = Inr (BSTR_OK, Some r', []) \<and> bs_ok r' (content (the (buff s)))) \<and>
    xs = content (the (buff s)) @ rest (parm s)"
proof -
  have r: "bs_rep r w" using assms(3) by (simp add: bs_ok_def)
  have small: "int (length xs) < 2 ^ 29" "int (length xs) + int (length ys) < 2 ^ 30" "int (length xs) < 2 ^ 30"
    using assms(9) by simp_all
  show ?thesis
  proof (intro conjI)
    show "has_read nread rest good [] xs (line_len (\<lambda>c. c = t) xs) (if xs = [] then BSTR_ERR else BSTR_OK)
        (bsreadln (Some r) (Some s) t [])"
      by (rule stream_source.bsreadln_reads [OF assms(1,2) r small(1)])
    show "has_read nread rest good [] xs (line_len (\<lambda>c. c \<in> set ts) xs) (if xs = [] then BSTR_ERR else BSTR_OK)
        (bsreadlns (Some r) (Some s) (Some term) [])"
      by (rule stream_source.bsreadlns_reads [OF assms(1,2) r small(1) assms(4,5)])
    show "\<exists>s'. bsunread (Some s) (Some b) [] = Inr (BSTR_OK, Some s', []) \<and> stream_ok nread rest good s' (ys @ xs)"
      using bsunread_ok [OF assms(2,6) small(2)] by metis
    show "\<exists>r'. bspeek (Some r) (Some s) [] = Inr (BSTR_OK, Some r', []) \<and> bs_ok r' (content (the (buff s)))"
      by (rule bspeek_ok(1) [OF assms(2,3) small(3)])
    show "xs = content (the (buff s)) @ rest (parm s)" by (rule bspeek_ok(2) [OF assms(2,3) small(3)])
  qed (rule stream_source.bsread_reads [OF assms(1,2) r assms(7,8) small(1)])
qed

text \<open>Two lines and a piece behind a pointer, the first line partly read before.\<close>

definition ref_text :: bstring where
  "ref_text = \<lparr>mlen = 8, slen = 5, data = Some (map Some [98, 10, 99, 10, 100] @ [Some 0, None, None])\<rparr>"

definition small_buffer :: bstring where
  "small_buffer = \<lparr>mlen = 8, slen = 1, data = Some [Some 97, Some 0, None, None, None, None, None, None]\<rparr>"

definition ref_stream :: "bstring bStream" where
  "ref_stream = \<lparr>buff = Some small_buffer, parm = ref_text, readFnPtr = Some readRef, isEOF = False, maxBuffSz = 2\<rparr>"

definition line_feed :: bstring where
  "line_feed = \<lparr>mlen = 2, slen = 1, data = Some [Some 10, Some 0]\<rparr>"

lemma ref_stream_ok:
  "stream_ok readRef ref_rest (\<lambda>t. \<exists>xs. ref_ok t xs) ref_stream [97, 98, 10, 99, 10, 100]"
proof -
  have t: "ref_ok ref_text [98, 10, 99, 10, 100]" by (simp add: ref_ok_def ref_text_def)
  have "bs_rep small_buffer [97]" "mlen small_buffer = 8" by (simp_all add: bs_rep_def small_buffer_def)
  with t ref_rest_ok [OF t] have "\<exists>xs. ref_ok (parm ref_stream) xs"
    "\<exists>u ys. buff ref_stream = Some u \<and> bs_rep u ys \<and> int (length ys) < mlen u \<and>
      [97, 98, 10, 99, 10, 100] = ys @ ref_rest (parm ref_stream)"
    by (simp_all only: ref_stream_def bStream.simps option.inject) (blast, intro exI [of _ small_buffer] exI [of _ "[97]"], simp)
  then show ?thesis unfolding stream_ok_def by (simp add: ref_stream_def)
qed

theorem stream_reads_witness:
  "\<exists>r s. bsreadln (Some line_feed) (Some ref_stream) 10 [] = Some (Inr (BSTR_OK, Some r, Some s, [])) \<and>
    bs_ok r [97, 98, 10] \<and> stream_ok readRef ref_rest (\<lambda>t. \<exists>xs. ref_ok t xs) s [99, 10, 100]"
proof -
  have ok: "bs_ok line_feed [10]" by (simp add: bs_ok_def bs_rep_def line_feed_def)
  then have rep: "bs_rep line_feed [10]" by (simp add: bs_ok_def)
  have "line_len (\<lambda>c. c = 10) [97, 98, 10, 99, 10, 100 :: byte] = Suc (Suc (Suc 0))" by code_simp
  moreover have "arg_rep (content (the (buff ref_stream))) (Apart line_feed) [10]" using rep by simp
  note stream_reads [OF ref.stream_source_axioms ref_stream_ok ok rep _ this, of 1 10, THEN conjunct1]
  then have "has_read readRef ref_rest (\<lambda>t. \<exists>xs. ref_ok t xs) [] [97, 98, 10, 99, 10, 100]
      (line_len (\<lambda>c. c = 10) [97, 98, 10, 99, 10, 100]) (if [97, 98, 10, 99, 10, 100 :: byte] = [] then BSTR_ERR else BSTR_OK)
      (bsreadln (Some line_feed) (Some ref_stream) 10 [])"
    by simp
  ultimately show ?thesis by (simp add: has_read_def)
qed

section \<open>Without memory\<close>

declare line_loop.simps [code] read_loop.simps [code] breada_loop.simps [code]

text \<open>A line whose copy finds no memory is left in the buffer, but reported as read.\<close>

definition tiny :: bstring where
  "tiny = \<lparr>mlen = 2, slen = 0, data = Some [Some 0, None]\<rparr>"

definition lined_buffer :: bstring where
  "lined_buffer = \<lparr>mlen = 8, slen = 4, data = Some [Some 97, Some 98, Some 99, Some 10, Some 0, None, None, None]\<rparr>"

lemma bsreadln_false_success:
  "map_option (map_sum id (\<lambda>(c, r, s, al). (c, map_option slen r, map_option (slen \<circ> the \<circ> buff) s)))
     (bsreadln (Some tiny) (Some (ref_stream\<lparr>buff := Some lined_buffer\<rparr>)) 10 [False, False, False, False]) =
   Some (Inr (BSTR_OK, Some 0, Some 4))"
  by code_simp

text \<open>
  When memory runs out between two reads, what the first one got is gone from the stream,
  and what was in the buffer comes again.
\<close>

definition long_text :: bstring where
  "long_text = \<lparr>mlen = 8, slen = 6, data = Some (map Some [98, 99, 100, 101, 102, 10] @ [Some 0, None])\<rparr>"

lemma bsreadln_loses:
  "map_option (map_sum id (\<lambda>(c, r, s, al). (c, map_option (slen \<circ> the \<circ> buff) s, map_option (ref_rest \<circ> parm) s)))
     (bsreadln (Some \<lparr>mlen = 6, slen = 0, data = Some (Some 0 # replicate 5 None)\<rparr>)
       (Some (ref_stream\<lparr>parm := long_text\<rparr>)) 10 [False, False, False, False]) =
   Some (Inr (BSTR_ERR, Some 1, Some [100, 101, 102, 10]))"
  by code_simp

end
