(* ===== verification/BStreamSplit.thy ===== *)
theory BStreamSplit
  imports BStream
begin

text \<open>
  Splitting a stream in \<open>bstrlib.c\<close>, at the characters of a set or at a string. The pieces go to a
  callback with their offsets. Splitting at characters is shown to give the pieces between
  the separators, however the stream is read; splitting at a string misses separators at the
  end of the stream.
\<close>

section \<open>The loops\<close>

definition BSSSC_BUFF_LEN :: int where
  "BSSSC_BUFF_LEN = 256"

text \<open>
  The callback may read from the stream and put back into it. The \<open>mlen\<close> of the local
  \<open>struct tagbstring t\<close>, which \<open>blk2tbstr\<close> makes negative, is not looked at.
\<close>

type_synonym ('s, 'q) entry_cb =
  "'q \<Rightarrow> int \<Rightarrow> bstring option \<Rightarrow> 's bStream option \<Rightarrow> alloc \<Rightarrow> (int \<times> 'q \<times> 's bStream option \<times> alloc) res"

definition last_entry ::
    "('s, 'q) entry_cb \<Rightarrow> 'q \<Rightarrow> int \<Rightarrow> bstring option \<Rightarrow> 's bStream option \<Rightarrow> alloc
     \<Rightarrow> (int \<times> 'q \<times> 's bStream option \<times> alloc) res" where
  "last_entry cb q p bp sp al =
     bind_res (cb q p bp sp al) (\<lambda>(ret, q, sp, al). Inr (if ret > 0 then 0 else ret, q, sp, al))"

partial_function (option) read_all_loop ::
    "bstring option \<Rightarrow> 's bStream option \<Rightarrow> alloc \<Rightarrow> (bstring option \<times> 's bStream option \<times> alloc) res option" where
  "read_all_loop bp sp al =
     (case bsreada bp sp BSSSC_BUFF_LEN al of None \<Rightarrow> None
      | Some (Inl e) \<Rightarrow> Some (Inl e)
      | Some (Inr (c, bp, sp, al)) \<Rightarrow> if c \<ge> 0 then read_all_loop bp sp al else Some (Inr (bp, sp, al)))"

text \<open>The character at \<open>i\<close> separates; with a code the loop ends.\<close>

definition split_here ::
    "('s, 'q) entry_cb \<Rightarrow> int \<Rightarrow> int \<Rightarrow> bstring \<Rightarrow> 's bStream option \<Rightarrow> 'q \<Rightarrow> alloc
     \<Rightarrow> (int option \<times> int \<times> bstring \<times> 's bStream option \<times> 'q \<times> alloc) res" where
  "split_here cb i p b sp q al =
     (case data b of None \<Rightarrow> Inl NullPointer | Some d \<Rightarrow>
      bind_res (bsunread sp (Some (Apart (local_tag (drop (nat (i + 1)) d) (slen b - (i + 1))))) al) (\<lambda>(ret, sp, al).
      if ret < 0 then Inr (Some ret, p, b, sp, q, al)
      else
        bind_res (cell d i) (\<lambda>c.
        bind_res (put d i 0) (\<lambda>d.
        bind_res (cb q p (Some (b\<lparr>slen := i, data := Some d\<rparr>)) sp al) (\<lambda>(ret, q, sp, al).
        if ret < 0 then Inr (Some ret, p, b, sp, q, al)
        else bind_res (put d i c) (\<lambda>d. Inr (None, s32 (p + (i + 1)), b\<lparr>slen := 0, data := Some d\<rparr>, sp, q, al)))))))"

partial_function (option) ssplit_loop ::
    "('s, 'q) entry_cb \<Rightarrow> char_field \<Rightarrow> int \<Rightarrow> int \<Rightarrow> bstring \<Rightarrow> 's bStream option \<Rightarrow> 'q \<Rightarrow> alloc
     \<Rightarrow> (int \<times> 'q \<times> 's bStream option \<times> alloc) res option" where
  "ssplit_loop cb chrs i p b sp q al =
     (case (if i \<ge> slen b then bsreada (Some b) sp BSSSC_BUFF_LEN al else Some (Inr (BSTR_OK, Some b, sp, al))) of
        None \<Rightarrow> None
      | Some (Inl e) \<Rightarrow> Some (Inl e)
      | Some (Inr (c, None, sp, al)) \<Rightarrow> Some (Inl NullPointer)
      | Some (Inr (c, Some b, sp, al)) \<Rightarrow>
          if i \<ge> slen b then Some (last_entry cb q p (Some b) sp al)
          else
            (case (case data b of None \<Rightarrow> Inl NullPointer | Some d \<Rightarrow> cell d i) of
               Inl e \<Rightarrow> Some (Inl e)
             | Inr c \<Rightarrow>
                 if testInCharField chrs c then
                   (case split_here cb i p b sp q al of
                      Inl e \<Rightarrow> Some (Inl e)
                    | Inr (Some ret, p, b, sp, q, al) \<Rightarrow> Some (Inr (ret, q, sp, al))
                    | Inr (None, p, b, sp, q, al) \<Rightarrow> ssplit_loop cb chrs 0 p b sp q al)
                 else ssplit_loop cb chrs (i + 1) p b sp q al))"

text \<open>The tests with which both functions begin.\<close>

definition split_args :: "'s bStream option \<Rightarrow> bstring option \<Rightarrow> bool" where
  "split_args sp tp = (case (sp, tp) of (Some s, Some t) \<Rightarrow> readFnPtr s \<noteq> None \<and> 0 \<le> slen t | _ \<Rightarrow> False)"

definition bssplitscb ::
    "'s bStream option \<Rightarrow> bstring option \<Rightarrow> ('s, 'q) entry_cb \<Rightarrow> 'q \<Rightarrow> alloc
     \<Rightarrow> (int \<times> 'q \<times> 's bStream option \<times> alloc) res option" where
  "bssplitscb sp tp cb q al =
     (if \<not> split_args sp tp then Some (Inr (BSTR_ERR, q, sp, al))
      else
        (case bfromcstr (Some [0]) al of
           Inl e \<Rightarrow> Some (Inl e)
         | Inr (None, al) \<Rightarrow> Some (Inr (BSTR_ERR, q, sp, al))
         | Inr (Some b, al) \<Rightarrow>
             if slen (the tp) = 0 then
               map_option (\<lambda>r. bind_res r (\<lambda>(bp, sp, al). last_entry cb q 0 bp sp al)) (read_all_loop (Some b) sp al)
             else
               (case buildCharField tp of
                  Inl e \<Rightarrow> Some (Inl e)
                | Inr None \<Rightarrow> Some (Inl Uninitialised)
                | Inr (Some chrs) \<Rightarrow> ssplit_loop cb chrs 0 0 b sp q al)))"

partial_function (option) each_block ::
    "('s, 'q) entry_cb \<Rightarrow> bstring option \<Rightarrow> 's bStream option \<Rightarrow> 'q \<Rightarrow> alloc
     \<Rightarrow> (int \<times> 'q \<times> 's bStream option \<times> alloc) res option" where
  "each_block cb bp sp q al =
     (case bsreada bp sp BSSSC_BUFF_LEN al of None \<Rightarrow> None
      | Some (Inl e) \<Rightarrow> Some (Inl e)
      | Some (Inr (c, bp, sp, al)) \<Rightarrow>
          if c \<ge> 0 then
            (case cb q 0 bp sp al of
               Inl e \<Rightarrow> Some (Inl e)
             | Inr (ret, q, sp, al) \<Rightarrow>
                 if ret < 0 then Some (Inr (ret, q, sp, al))
                 else each_block cb (map_option (slen_update (\<lambda>_. 0)) bp) sp q al)
          else Some (Inr (BSTR_OK, q, sp, al)))"

partial_function (option) ssplitstr_loop ::
    "('s, 'q) entry_cb \<Rightarrow> bstring option \<Rightarrow> int \<Rightarrow> bstring option \<Rightarrow> 's bStream option \<Rightarrow> 'q \<Rightarrow> alloc
     \<Rightarrow> (int \<times> 'q \<times> 's bStream option \<times> alloc) res option" where
  "ssplitstr_loop cb tp p bp sp q al =
     (case binstr False bp 0 tp of None \<Rightarrow> None
      | Some (Inl e) \<Rightarrow> Some (Inl e)
      | Some (Inr ret) \<Rightarrow>
          if ret \<ge> 0 then
            (case (bp, tp) of (Some b, Some t) \<Rightarrow>
               let i = s32 (ret + slen t) in
               (case data b of None \<Rightarrow> Some (Inl NullPointer) | Some d \<Rightarrow>
                (case cb q p (Some (local_tag d ret)) sp al of
                   Inl e \<Rightarrow> Some (Inl e)
                 | Inr (r, q, sp, al) \<Rightarrow>
                     if r < 0 then Some (Inr (r, q, sp, al))
                     else
                       (case bdelete bp 0 i of
                          Inl e \<Rightarrow> Some (Inl e)
                        | Inr (_, bp) \<Rightarrow> ssplitstr_loop cb tp (s32 (p + i)) bp sp q al)))
             | _ \<Rightarrow> Some (Inl NullPointer))
          else
            (case bsreada bp sp BSSSC_BUFF_LEN al of None \<Rightarrow> None
             | Some (Inl e) \<Rightarrow> Some (Inl e)
             | Some (Inr (_, bp, sp, al)) \<Rightarrow>
                 (case bseof sp of
                    Inl e \<Rightarrow> Some (Inl e)
                  | Inr c \<Rightarrow> if c \<noteq> 0 then Some (last_entry cb q p bp sp al) else ssplitstr_loop cb tp p bp sp q al)))"

definition bssplitstrcb ::
    "'s bStream option \<Rightarrow> bstring option \<Rightarrow> ('s, 'q) entry_cb \<Rightarrow> 'q \<Rightarrow> alloc
     \<Rightarrow> (int \<times> 'q \<times> 's bStream option \<times> alloc) res option" where
  "bssplitstrcb sp tp cb q al =
     (if \<not> split_args sp tp then Some (Inr (BSTR_ERR, q, sp, al))
      else if slen (the tp) = 1 then bssplitscb sp tp cb q al
      else
        (case bfromcstr (Some [0]) al of
           Inl e \<Rightarrow> Some (Inl e)
         | Inr (None, al) \<Rightarrow> Some (Inr (BSTR_ERR, q, sp, al))
         | Inr (Some b, al) \<Rightarrow>
             if slen (the tp) = 0 then each_block cb (Some b) sp q al
             else ssplitstr_loop cb tp 0 (Some b) sp q al))"

section \<open>Splitting at characters\<close>

text \<open>The pieces of \<open>xs\<close> with their offsets, which begin at \<open>p\<close>.\<close>

function stream_pieces :: "(byte \<Rightarrow> bool) \<Rightarrow> int \<Rightarrow> byte list \<Rightarrow> (int \<times> byte list) list" where
  "stream_pieces stop p xs =
     (if \<exists>x\<in>set xs. stop x then
        (p, take (line_len stop xs - 1) xs) # stream_pieces stop (p + int (line_len stop xs)) (drop (line_len stop xs) xs)
      else [(p, xs)])"
  by pat_completeness auto
termination
  by (relation "measure (\<lambda>(stop, p, xs). length xs)") (auto intro!: diff_less line_len_pos length_pos_if_in_set)

declare stream_pieces.simps [simp del]

text \<open>A callback that leaves the stream alone and never stops.\<close>

definition quiet :: "('s, 'q) entry_cb \<Rightarrow> ('q \<Rightarrow> int \<times> byte list \<Rightarrow> 'q) \<Rightarrow> bool" where
  "quiet cb f \<longleftrightarrow> (\<forall>q p b xs sp al. bs_rep b xs \<longrightarrow> cb q p (Some b) sp al = Inr (0, f q (p, xs), sp, al))"

lemma copy_from_cells:
  "copy_from x i \<lparr>mlen = m, slen = n, data = Some d\<rparr> k = (if k > 0 then copy_cells x i d k else Inr x)"
  by (simp add: copy_from_def)

lemma bsunread_tag:
  assumes "stream_ok nread rest good s xs" and "data b = Some (map Some u @ map Some ys @ c # r)"
    and "length u + length ys + Suc (length r) < 2 ^ 31" and "int (length xs) + int (length ys) < 2 ^ 30"
  obtains s' where "bsunread (Some s) (Some (Apart (local_tag (map Some ys @ c # r) (int (length ys))))) [] = Inr (BSTR_OK, Some s', [])"
    "stream_ok nread rest good s' (ys @ xs)"
proof -
  let ?m = "int (length ys + Suc (length r))"
  let ?b = "Apart \<lparr>mlen = ?m, slen = int (length ys), data = Some (map Some ys @ c # r)\<rparr>"
  have same: "binsert bp p (Some (Apart (local_tag d n))) fill al = binsert bp p (Some (Apart \<lparr>mlen = m, slen = n, data = Some d\<rparr>)) fill al"
    for bp p d n fill al m
    by (cases bp) (simp_all add: binsert_def alias_copy_def binsert_aux_def local_tag_def copy_from_cells)
  have "arg_rep (content (the (buff s))) ?b ys"
    unfolding arg_rep.simps using assms(3) by (intro rep_cells [of _ _ "c # r"]) (simp_all flip: of_nat_add)
  from bsunread_ok [OF assms(1) this assms(4)] obtain s' where
    "bsunread (Some s) (Some ?b) [] = Inr (BSTR_OK, Some s', [])"
    "stream_ok nread rest good s' (ys @ xs)" by blast
  moreover have "bsunread (Some s) (Some (Apart (local_tag (map Some ys @ c # r) (int (length ys))))) [] =
      bsunread (Some s) (Some ?b) []"
    by (simp only: bsunread_def same [where m = ?m])
  ultimately show thesis by (intro that [of s']) (simp_all only:)
qed

lemma line_len_at:
  assumes "i < length xs" and "stop (xs ! i)" and "\<not> (\<exists>x\<in>set (take i xs). stop x)"
  shows "line_len stop (xs @ ys) = Suc i"
proof -
  have "xs @ ys = take i xs @ xs ! i # drop (Suc i) xs @ ys" using assms(1) by (metis append.assoc append_Cons id_take_nth_drop)
  moreover have "line_len stop (take i xs @ xs ! i # drop (Suc i) xs @ ys) = Suc i"
    unfolding line_len_append using assms by simp
  ultimately show ?thesis by metis
qed

context stream_source
begin

text \<open>What one round has to look at: it ends, or there is a character at \<open>i\<close>.\<close>

lemma refill_cases:
  assumes s: "stream_ok nread rest good s xs" and b: "bs_rep b w" "i \<le> length w" "i < length w \<Longrightarrow> int (length w) < mlen b"
    and small: "int (length w) + int (length xs) < 2 ^ 28"
  obtains c b' s' w' xs' where
    "(if int i \<ge> slen b then bsreada (Some b) (Some s) BSSSC_BUFF_LEN [] else Some (Inr (BSTR_OK, Some b, Some s, []))) =
      Some (Inr (c, Some b', Some s', []))"
    "bs_rep b' w'" "stream_ok nread rest good s' xs'" "w' @ xs' = w @ xs" "take i w' = take i w"
    "i < length w' \<Longrightarrow> int (length w') < mlen b'" "i < length w' \<or> w' = w \<and> i = length w \<and> xs = []"
proof (cases "i < length w")
  case True
  with assms bs_rep_slen [OF b(1)] show thesis by (intro that [of BSTR_OK b s w xs]) auto
next
  case False
  then have i: "i = length w" using b(2) by simp
  have n: "0 < BSSSC_BUFF_LEN" "int (length w) + BSSSC_BUFF_LEN < 2 ^ 29" "int (length w) + int (length xs) < 2 ^ 29"
    using small by (simp_all add: BSSSC_BUFF_LEN_def)
  note r = bsreada_reads [OF s b(1) n]
  show thesis
  proof (cases "xs = []")
    case True
    with r obtain b' s' where "bsreada (Some b) (Some s) BSSSC_BUFF_LEN [] = Some (Inr (BSTR_ERR, Some b', Some s', []))"
      "bs_rep b' w" "stream_ok nread rest good s' []" by auto
    with True i bs_rep_slen [OF b(1)] show thesis by (intro that [of BSTR_ERR b' s' w "[]"]) simp_all
  next
    case False
    define k where "k = block_size nread (BSSSC_BUFF_LEN + int (length w) < mlen b) s BSSSC_BUFF_LEN xs"
    from False r have k: "0 < k" "k \<le> length xs"
      "has_read nread rest good w xs k BSTR_OK (bsreada (Some b) (Some s) BSSSC_BUFF_LEN [])" by (simp_all add: k_def)
    from k(3) obtain b' s' where b': "bsreada (Some b) (Some s) BSSSC_BUFF_LEN [] = Some (Inr (BSTR_OK, Some b', Some s', []))"
      "bs_ok b' (w @ take k xs)" "stream_ok nread rest good s' (drop k xs)" by (auto simp: has_read_def)
    have "bs_rep b' (w @ take k xs)" "int (length (w @ take k xs)) < mlen b'"
      using b'(2) bs_rep_slen [of b' "w @ take k xs"] by (simp_all add: bs_ok_def)
    with b' k i bs_rep_slen [OF b(1)] show thesis
      by (intro that [of BSTR_OK b' s' "w @ take k xs" "drop k xs"]) simp_all
  qed
qed

lemma split_here_piece:
  assumes cb: "quiet cb f" and s: "stream_ok nread rest good s xs" and b: "bs_rep b w" "int (length w) < mlen b" "i < length w"
    and small: "int (length w) + int (length xs) < 2 ^ 28" "0 \<le> p" "p + int (length w) + int (length xs) < 2 ^ 31"
  obtains b' s' where "split_here cb (int i) p b (Some s) q [] = Inr (None, p + int (Suc i), b', Some s', f q (p, take i w), [])"
    "bs_rep b' []" "0 < mlen b'" "stream_ok nread rest good s' (drop (Suc i) w @ xs)"
proof -
  obtain v where bb: "data b = Some (map Some w @ v)" "length w + length v = nat (mlen b)" "0 < mlen b" "mlen b < 2 ^ 31"
    "slen b = int (length w)" using b(1) by (rule bs_rep_cells)
  have "0 < length v" using bb(2) b(2) by linarith
  then obtain c v' where v: "v = c # v'" by (cases v) auto
  define u y t where "u = take i w" and "y = w ! i" and "t = drop (Suc i) w"
  have w: "w = u @ y # t" "length u = i" using b(3) by (simp_all add: u_def y_def t_def id_take_nth_drop)
  have d: "data b = Some (map Some u @ Some y # map Some t @ c # v')" unfolding bb(1) w v by simp
  have rest: "drop (nat (int i + 1)) (map Some u @ Some y # map Some t @ c # v') = map Some t @ c # v'"
    using w(2) by (simp add: nat_add_distrib)
  have left: "slen b - (int i + 1) = int (length t)" using bb(5) w by simp
  have "length (u @ [y]) + length t + Suc (length v') < 2 ^ 31" using bb(2,4) w v by simp
  moreover have "int (length xs) + int (length t) < 2 ^ 30" using small w by simp
  moreover have "data b = Some (map Some (u @ [y]) @ map Some t @ c # v')" using d by simp
  ultimately obtain s' where s': "bsunread (Some s) (Some (Apart (local_tag (map Some t @ c # v') (int (length t))))) [] =
      Inr (BSTR_OK, Some s', [])" "stream_ok nread rest good s' (t @ xs)"
    by (metis bsunread_tag [OF s])
  let ?d = "map Some u @ Some 0 # map Some t @ c # v'"
  have len: "length u + Suc (length t + Suc (length v')) = nat (mlen b)" using bb(2) w v by simp
  have at: "cell (map Some u @ Some y # map Some t @ c # v') (int i) = Inr y"
    "put (map Some u @ Some y # map Some t @ c # v') (int i) 0 = Inr ?d"
    "put ?d (int i) y = Inr (map Some u @ Some y # map Some t @ c # v')"
    by (simp add: cell_def nth_append w(2) [symmetric], (rule put_at, simp add: w(2))+)
  have "bs_rep (b\<lparr>slen := int i, data := Some ?d\<rparr>) u"
    using bb(3,4) w(2) len by (intro rep_cells [of _ _ "Some 0 # map Some t @ c # v'"]) simp_all
  then have call: "cb q p (Some (b\<lparr>slen := int i, data := Some ?d\<rparr>)) (Some s') [] = Inr (0, f q (p, u), Some s', [])"
    using cb by (simp add: quiet_def)
  have sum: "s32 (p + (int i + 1)) = p + int (Suc i)" using small b(3) by (simp add: s32_id)
  let ?b = "b\<lparr>slen := 0, data := Some (map Some u @ Some y # map Some t @ c # v')\<rparr>"
  have "split_here cb (int i) p b (Some s) q [] = Inr (None, p + int (Suc i), ?b, Some s', f q (p, u), [])"
    unfolding split_here_def d option.case rest left s'(1) bind_res.simps prod.case at call sum
    by (simp add: BSTR_OK_def)
  moreover have "bs_rep ?b []" using bb(3,4) len by (intro rep_cells [of _ _ "map Some u @ Some y # map Some t @ c # v'"]) simp_all
  ultimately show thesis using bb(3) s'(2) by (intro that [of ?b s']) (simp_all add: u_def t_def)
qed

lemma ssplit_loop_pieces:
  assumes cb: "quiet cb f" and chrs: "\<And>c. testInCharField chrs c = stop c"
  shows "stream_ok nread rest good s xs \<Longrightarrow> bs_rep b w \<Longrightarrow> i \<le> length w \<Longrightarrow> int (length w) < mlen b \<Longrightarrow>
    \<not> (\<exists>x\<in>set (take i w). stop x) \<Longrightarrow> int (length w) + int (length xs) < 2 ^ 28 \<Longrightarrow> 0 \<le> p \<Longrightarrow>
    p + int (length w) + int (length xs) < 2 ^ 31 \<Longrightarrow>
    \<exists>s'. ssplit_loop cb chrs (int i) p b (Some s) q [] =
        Some (Inr (0, fold (\<lambda>e q. f q e) (stream_pieces stop p (w @ xs)) q, Some s', [])) \<and>
      stream_ok nread rest good s' []"
proof (induction "2 * (length w + length xs) - i" arbitrary: s xs b w i p q rule: less_induct)
  case less
  obtain c b' s' w' xs' where r:
    "(if int i \<ge> slen b then bsreada (Some b) (Some s) BSSSC_BUFF_LEN [] else Some (Inr (BSTR_OK, Some b, Some s, []))) =
      Some (Inr (c, Some b', Some s', []))"
    "bs_rep b' w'" "stream_ok nread rest good s' xs'" "w' @ xs' = w @ xs" "take i w' = take i w"
    "i < length w' \<Longrightarrow> int (length w') < mlen b'" "i < length w' \<or> w' = w \<and> i = length w \<and> xs = []"
    using refill_cases [OF less.prems(1-4,6)] by metis
  have sl: "slen b' = int (length w')" using r(2) by (rule bs_rep_slen)
  have same: "length w' + length xs' = length w + length xs" using arg_cong [OF r(4), of length] by simp
  show ?case
  proof (cases "i < length w'")
    case False
    then have w': "w' = w" "i = length w" "xs = []" "xs' = []" using r(4,7) by auto
    have "cb q p (Some b') (Some s') [] = Inr (0, f q (p, w), Some s', [])" using cb r(2) w'(1) by (simp add: quiet_def)
    then have "ssplit_loop cb chrs (int i) p b (Some s) q [] = Some (Inr (0, f q (p, w), Some s', []))"
      using r(1) sl w' by (subst ssplit_loop.simps) (simp add: last_entry_def)
    moreover have "stream_pieces stop p (w @ xs) = [(p, w)]"
      using less.prems(5) w' by (subst stream_pieces.simps) simp
    ultimately show ?thesis using r(3) w'(4) by simp
  next
    case True
    obtain d where d: "data b' = Some d" "take (length w') d = map Some w'" using r(2) by (rule bs_repE)
    have ch: "cell d (int i) = Inr (w' ! i)" using cell_rep [OF d(2), of "int i"] True by simp
    show ?thesis
    proof (cases "stop (w' ! i)")
      case hit: True
      have small: "int (length w') + int (length xs') < 2 ^ 28" "p + int (length w') + int (length xs') < 2 ^ 31"
        using same less.prems(6,8) by linarith+
      obtain b2 s2 where h: "split_here cb (int i) p b' (Some s') q [] = Inr (None, p + int (Suc i), b2, Some s2, f q (p, take i w'), [])"
        "bs_rep b2 []" "0 < mlen b2" "stream_ok nread rest good s2 (drop (Suc i) w' @ xs')"
        by (rule split_here_piece [OF cb r(3,2) r(6) [OF True] True small(1) less.prems(7) small(2), of q])
      have step: "ssplit_loop cb chrs (int i) p b (Some s) q [] =
          ssplit_loop cb chrs (int 0) (p + int (Suc i)) b2 (Some s2) (f q (p, take i w')) []"
        using r(1) sl True d(1) ch chrs hit h(1) by (subst ssplit_loop.simps) simp
      have "\<exists>s'. ssplit_loop cb chrs (int 0) (p + int (Suc i)) b2 (Some s2) (f q (p, take i w')) [] =
          Some (Inr (0, fold (\<lambda>e q. f q e) (stream_pieces stop (p + int (Suc i)) ([] @ drop (Suc i) w' @ xs')) (f q (p, take i w')), Some s', [])) \<and>
        stream_ok nread rest good s' []"
        by (rule less.hyps) (use h less.prems same small True in \<open>auto simp: of_nat_diff\<close>)
      moreover have "stream_pieces stop p (w @ xs) = (p, take i w') # stream_pieces stop (p + int (Suc i)) (drop (Suc i) w' @ xs')"
      proof -
        have k: "line_len stop (w' @ xs') = Suc i" using less.prems(5) r(5) by (intro line_len_at True hit) simp
        have "\<exists>x\<in>set (w' @ xs'). stop x" using hit True by (auto intro!: bexI [of _ "w' ! i"])
        then show ?thesis
          unfolding r(4) [symmetric] using k True by (subst stream_pieces.simps) simp
      qed
      ultimately show ?thesis unfolding step by simp
    next
      case miss: False
      have step: "ssplit_loop cb chrs (int i) p b (Some s) q [] = ssplit_loop cb chrs (int (Suc i)) p b' (Some s') q []"
        using r(1) sl True d(1) ch chrs miss by (subst ssplit_loop.simps) (simp add: add.commute)
      have "\<exists>s''. ssplit_loop cb chrs (int (Suc i)) p b' (Some s') q [] =
          Some (Inr (0, fold (\<lambda>e q. f q e) (stream_pieces stop p (w' @ xs')) q, Some s'', [])) \<and>
        stream_ok nread rest good s'' []"
      proof (rule less.hyps)
        show "2 * (length w' + length xs') - Suc i < 2 * (length w + length xs) - i" using same True by simp
        show "\<not> (\<exists>x\<in>set (take (Suc i) w'). stop x)"
          using True miss less.prems(5) r(5) by (auto simp: take_Suc_conv_app_nth)
      qed (use r True less.prems same in auto)
      then show ?thesis unfolding step r(4) .
    qed
  qed
qed

end

text \<open>
  C32: \<open>bssplitscb\<close> hands a callback that leaves the stream alone the pieces of the stream between
  the separators, in order and with their offsets, whatever the sizes of the reads, and
  leaves the stream at its end.
\<close>

theorem stream_split:
  assumes "stream_source nread rest good" and "stream_ok nread rest good s xs" and "bs_rep t ts" and "ts \<noteq> []"
    and "quiet cb f" and "int (length xs) < 2 ^ 28"
  shows "\<exists>s'. bssplitscb (Some s) (Some t) cb q [] =
      Some (Inr (0, fold (\<lambda>e q. f q e) (stream_pieces (\<lambda>c. c \<in> set ts) 0 xs) q, Some s', [])) \<and>
    stream_ok nread rest good s' []"
proof -
  obtain b where b: "bfromcstr (Some [0]) [] = Inr (Some b, [])" "bs_ok b []"
    using bfromcstr_rep [of "[]" "[]" "[]"] by auto
  then have rep: "bs_rep b []" "int (length ([] :: byte list)) < mlen b" using bs_rep_slen by (auto simp: bs_ok_def)
  obtain cf where cf: "buildCharField (Some t) = Inr (Some cf)" "\<And>c. testInCharField cf c = (c \<in> set ts)"
    using buildCharField_field [OF assms(3)] assms(4) by (auto simp: field_of_def)
  have args: "split_args (Some s) (Some t)" "slen t \<noteq> 0"
    using assms(2-4) bs_rep_slen [OF assms(3)] by (auto simp: split_args_def stream_ok_def)
  have run: "bssplitscb (Some s) (Some t) cb q [] = ssplit_loop cb cf (int 0) 0 b (Some s) q []"
    using args b(1) cf(1) by (simp add: bssplitscb_def)
  have small: "int (length ([] :: byte list)) + int (length xs) < 2 ^ 28"
    "0 + int (length ([] :: byte list)) + int (length xs) < 2 ^ 31" using assms(6) by simp_all
  show ?thesis
    unfolding run using stream_source.ssplit_loop_pieces [OF assms(1,5) cf(2) assms(2) rep(1) _ rep(2) _ small(1) _ small(2), of 0 q]
    by simp
qed

text \<open>A callback that collects what it is given.\<close>

definition collect :: "('s, (int \<times> byte list) list) entry_cb" where
  "collect q p bp sp al = (case bp of None \<Rightarrow> Inl NullPointer | Some b \<Rightarrow> Inr (0, q @ [(p, content b)], sp, al))"

lemma collect_quiet: "quiet collect (\<lambda>q e. q @ [e])"
  by (auto simp: quiet_def collect_def content_rep)

theorem stream_split_witness:
  "\<exists>s'. bssplitscb (Some ref_stream) (Some line_feed) collect [] [] =
      Some (Inr (0, [(0, [97, 98]), (3, [99]), (5, [100])], Some s', [])) \<and>
    stream_ok readRef ref_rest (\<lambda>t. \<exists>xs. ref_ok t xs) s' []"
proof -
  have rep: "bs_rep line_feed [10]" by (simp add: bs_rep_def line_feed_def)
  have "fold (\<lambda>e q. q @ [e]) (stream_pieces (\<lambda>c. c \<in> set [10]) 0 [97, 98, 10, 99, 10, 100 :: byte]) [] =
      [(0, [97, 98]), (3, [99]), (5, [100])]" by code_simp
  with stream_split [OF ref.stream_source_axioms ref_stream_ok rep _ collect_quiet, of "[]"] show ?thesis by simp
qed

section \<open>Splitting at a string\<close>

text \<open>
  A stream over \<open>a--b\<close>: the separator is not seen, since the end of the stream has been reached
  when the characters are in the buffer. Over a longer stream this happens at its end.
\<close>

declare ssplitstr_loop.simps [code] ssplit_loop.simps [code] search_loop.simps [code] each_block.simps [code]

definition dashes :: bstring where
  "dashes = \<lparr>mlen = 4, slen = 2, data = Some [Some 45, Some 45, Some 0, None]\<rparr>"

definition dashed_text :: bstring where
  "dashed_text = \<lparr>mlen = 8, slen = 4, data = Some [Some 97, Some 45, Some 45, Some 98, Some 0, None, None, None]\<rparr>"

lemma bssplitstrcb_misses:
  "map_option (map_sum id (\<lambda>(c, q, sp, al). (c, q)))
     (case bsFromBstrRef (Some dashed_text) [] of Inr (sp, al) \<Rightarrow> bssplitstrcb sp (Some dashes) collect [] al | Inl e \<Rightarrow> None) =
   Some (Inr (0, [(0, [97, 45, 45, 98])]))"
  by code_simp

text \<open>An empty separator gives blocks, not characters.\<close>

lemma bssplitstrcb_blocks:
  "map_option (map_sum id (\<lambda>(c, q, sp, al). (c, q)))
     (case bsFromBstrRef (Some dashed_text) [] of Inr (sp, al) \<Rightarrow>
        bssplitstrcb sp (Some \<lparr>mlen = 1, slen = 0, data = Some [Some 0]\<rparr>) collect [] al | Inl e \<Rightarrow> None) =
   Some (Inr (0, [(0, [97, 45, 45, 98])]))"
  by code_simp

end
