(* ===== verification/MainProgram.thy ===== *)
theory MainProgram
  imports Callbacks Connection
begin

text \<open>
  \<open>main.c\<close>: the configuration, the set-up of the accessory, and the loop that serves one
  Android connection after the other, which composes the other parts of the program. The
  configuration library is an argument: what reading a file gives.
\<close>

section \<open>Configuration\<close>

text \<open>
  A configuration: its strings, and the elements of the setting \<open>UUIDS\<close>, when there is one
  (\<open>None\<close> for an element that is no string). \<open>config_setting_get_string_elem\<close> returns NULL
  behind the last element.
\<close>

record settings =
  string_of :: "string \<Rightarrow> byte list option"
  uuid_elems :: "byte list option list option"

definition no_settings :: settings where
  "no_settings = \<lparr>string_of = (\<lambda>_. None), uuid_elems = None\<rparr>"

text \<open>The two files are tried in order; what was read is \<open>None\<close> when it could not be.\<close>

definition readConfig :: "(string \<Rightarrow> settings option) \<Rightarrow> bool \<times> settings" where
  "readConfig config_read_file =
     (case config_read_file ''./AAP-Bridge.config'' of
        Some conf \<Rightarrow> (True, conf)
      | None \<Rightarrow>
          (case config_read_file ''/etc/AAP-Bridge/AAP-Bridge.config'' of
             Some conf \<Rightarrow> (True, conf)
           | None \<Rightarrow> (False, no_settings)))"

datatype bus_type = DBUS_BUS_SESSION | DBUS_BUS_SYSTEM

definition configured_bus :: "settings \<Rightarrow> bus_type" where
  "configured_bus conf =
     (case string_of conf ''BUS'' of
        Some s \<Rightarrow> if c_str s = Inr (bytes_of ''DBUS_BUS_SYSTEM'') then DBUS_BUS_SYSTEM else DBUS_BUS_SESSION
      | None \<Rightarrow> DBUS_BUS_SESSION)"

definition default_uuid :: "byte list" where
  "default_uuid = bytes_of ''a48e5d50-188b-4fca-b261-89c13914e118'' @ [0]"

text \<open>
  The cells of \<open>uuids[100]\<close>: \<open>None\<close> before they are written, \<open>Some None\<close> for NULL. The loop
  runs over \<open>i\<close>, with \<open>todo = 100 - i\<close> rounds left.
\<close>

type_synonym uuid_cells = "byte list option option list"

fun fill_uuids :: "byte list option list \<Rightarrow> nat \<Rightarrow> nat \<Rightarrow> uuid_cells \<Rightarrow> uuid_cells res" where
  "fill_uuids elems 0 i uuids = Inr uuids"
| "fill_uuids elems (Suc todo) i uuids =
     (case (if i < length elems then elems ! i else None) of
        Some u \<Rightarrow> fill_uuids elems todo (i + 1) (uuids[i := Some (Some u)])
      | None \<Rightarrow>
          if i + 1 < length uuids
          then Inr (uuids[i := Some (Some default_uuid), i + 1 := Some None])
          else Inl OutOfBounds)"

definition configured_uuids :: "settings \<Rightarrow> uuid_cells res" where
  "configured_uuids conf =
     (let uuids = replicate 100 None in
      case uuid_elems conf of
        Some elems \<Rightarrow> fill_uuids elems 100 0 uuids
      | None \<Rightarrow> Inr (uuids[0 := Some (Some default_uuid), 1 := Some None]))"

text \<open>What a reader of the array can read: the cells before the first that is not written.\<close>

definition readable :: "uuid_cells \<Rightarrow> byte list option list" where
  "readable uuids = map the (takeWhile (\<lambda>c. c \<noteq> None) uuids)"

definition setting_or :: "settings \<Rightarrow> string \<Rightarrow> string \<Rightarrow> byte list" where
  "setting_or conf name dflt =
     (case string_of conf name of Some s \<Rightarrow> s | None \<Rightarrow> bytes_of dflt @ [0])"

definition configured_ids :: "settings \<Rightarrow> identification" where
  "configured_ids conf =
     \<lparr>manufacturer = setting_or conf ''manufacturer'' ''ICT'',
      modelName = setting_or conf ''modelName'' ''AAP'',
      description = setting_or conf ''description'' ''AAP Bridge Prototype'',
      version = setting_or conf ''version'' ''1.0'',
      uri = setting_or conf ''uri'' ''http://www.ict.nl'',
      serialNumber = setting_or conf ''modelName'' ''0''\<rparr>"

text \<open>The start of \<open>main\<close>, up to the loop.\<close>

definition main_start ::
    "(string \<Rightarrow> settings option) \<Rightarrow> init_env \<Rightarrow> (bus_type \<times> accessory \<times> acc_call list) res" where
  "main_start config_read_file env =
     (let (_, conf) = readConfig config_read_file in
      bind_res (configured_uuids conf) (\<lambda>uuids.
      bind_res (initAccessory env (configured_ids conf) (readable uuids)) (\<lambda>(acc, cs).
      case acc of None \<Rightarrow> Inl (ExitProcess 1)
      | Some accessory \<Rightarrow> Inr (configured_bus conf, accessory, cs))))"

section \<open>Serving connections\<close>

text \<open>
  The environment of one turn of the loop: the rounds of waiting, the messages the receiver
  thread queues with the answers to their handlers, the mutex, and the thread of \<open>main\<close> with
  what it meets where the shutdown waits: the lock, the threads of the services, room in the
  send queue for the null pointer, and whether the receive and the send thread end.
\<close>

record session =
  se_rounds :: "poll_round list"
  se_msgs :: "(mmsg option \<times> handler_env) list"
  se_lock :: nat
  se_self :: caller
  se_receiver_ends :: bool
  se_sender_ends :: bool

text \<open>The rest of \<open>deInitServer\<close>: the joins of both threads, then closing the connection.\<close>

definition serve_connection ::
    "accessory \<Rightarrow> session \<Rightarrow> usb_state \<Rightarrow> acc_call list \<Rightarrow> (bridge \<times> usb_state \<times> acc_call list) res" where
  "serve_connection acc se us cs =
     bind_res (getNextAndroidConnection acc (se_rounds se) us cs) (\<lambda>(con, us, cs).
     bind_res (messaging_loop (se_msgs se) (initServer (se_lock se))) (\<lambda>bridge.
     bind_res (deInitServer (se_self se) bridge) (\<lambda>bridge.
     if \<not> se_receiver_ends se then Inl Blocked else
     if \<not> se_sender_ends se then Inl Blocked else
     bind_res (closeAndroidConnection con us) (\<lambda>(us, cs').
     Inr (bridge, us, cs @ cs')))))"

fun main_loop :: "accessory \<Rightarrow> session list \<Rightarrow> usb_state \<Rightarrow> acc_call list \<Rightarrow> unit res" where
  "main_loop acc [] us cs = Inl Blocked"
| "main_loop acc (se # ses) us cs =
     bind_res (serve_connection acc se us cs) (\<lambda>(_, us, cs). main_loop acc ses us cs)"

section \<open>The UUIDs\<close>

lemma fill_uuids_all:
  assumes "i + todo = 100" and "length cells = 100" and "i \<le> length us"
    and "take i cells = map (Some \<circ> Some) (take i us)"
  shows "case fill_uuids (map Some us) todo i cells of
      Inl f \<Rightarrow> f = OutOfBounds \<and> length us = 99
    | Inr cells' \<Rightarrow> length us \<noteq> 99 \<and> length cells' = 100 \<and>
        (if length us < 99 then take (length us + 2) cells' = map (Some \<circ> Some) us @ [Some (Some default_uuid), Some None]
         else cells' = map (Some \<circ> Some) (take 100 us))"
  using assms
proof (induction todo arbitrary: i cells)
  case 0
  then show ?case by (simp add: min_def split: if_splits)
next
  case (Suc todo)
  show ?case
  proof (cases "i < length us")
    case True
    let ?cells = "cells[i := Some (Some (us ! i))]"
    have "take (i + 1) ?cells = map (Some \<circ> Some) (take (i + 1) us)"
      using Suc.prems True by (simp add: take_Suc_conv_app_nth)
    with Suc.IH [of "i + 1" ?cells] Suc.prems True show ?thesis by simp
  next
    case False
    with Suc.prems have i: "i = length us" by simp
    show ?thesis
    proof (cases "i < 99")
      case True
      have "take (i + 2) (cells[i := Some (Some default_uuid), i + 1 := Some None]) =
          take i cells @ [Some (Some default_uuid), Some None]"
        using True Suc.prems(2) by (simp add: take_Suc_conv_app_nth numeral_2_eq_2 nth_list_update)
      with True i Suc.prems show ?thesis by simp
    next
      case False
      with i Suc.prems show ?thesis by simp
    qed
  qed
qed

lemma takeWhile_written:
  "takeWhile (\<lambda>c. c \<noteq> None) (map (Some \<circ> Some) us @ Some (Some u) # Some None # after) =
     map (Some \<circ> Some) us @ Some (Some u) # Some None # takeWhile (\<lambda>c. c \<noteq> None) after"
  by (induction us) auto

lemma readable_terminated:
  assumes "take (length us + 2) cells = map (Some \<circ> Some) us @ [Some (Some u), Some None]"
  shows "\<exists>after. readable cells = map Some (us @ [u]) @ None # after"
proof -
  have "cells = map (Some \<circ> Some) us @ Some (Some u) # Some None # drop (length us + 2) cells"
    using append_take_drop_id [of "length us + 2" cells] unfolding assms by simp
  from takeWhile_written [of us u "drop (length us + 2) cells", folded this] show ?thesis
    by (simp add: readable_def comp_def)
qed

lemma readable_full: "readable (map (Some \<circ> Some) us) = map Some us"
  by (induction us) (auto simp: readable_def)

lemma uuid_classes_stop: "uuid_classes (map Some us @ None # after) i = uuid_classes (map Some us @ [None]) i"
  by (induction us arbitrary: i) (simp_all cong: if_cong)

lemma uuid_classes_unterminated:
  "list_all2 uuid_text us pss \<Longrightarrow> uuid_classes (map Some us) i = Inl OutOfBounds"
proof (induction us pss arbitrary: i rule: list_all2_induct)
  case Nil
  then show ?case by simp
next
  case (Cons u us ps pss)
  from uuid_text_parsed [OF Cons.hyps(1)] obtain n where
    "c_strlen u = Inr n" "32 \<le> n" "sdp_strn2uuid u n = Inr (0, map pair_value ps)" by blast
  with Cons.IH [of "i + 1"] show ?case by auto
qed

text \<open>
  At most 98 configured UUIDs are offered over bluetooth, in order, with the UUID of the
  bridge behind them. With 99 the terminator is written behind the array \<open>uuids\<close>; with more
  there is no terminator at all, and \<open>register_service\<close> runs over the end of the array.
\<close>

theorem configured_uuids_offered:
  assumes "uuid_elems conf = Some (map Some us)" and "list_all2 uuid_text us pss"
    and "bte_bind env \<noteq> -1" and "bte_listen env \<noteq> -1"
  shows "bind_res (configured_uuids conf) (\<lambda>cells. bt_listen env name dsc prov (readable cells)) =
    (if length us < 99 then bt_listen env name dsc prov (map Some (us @ [default_uuid]) @ [None])
     else Inl OutOfBounds)"
proof -
  have fill: "case configured_uuids conf of Inl f \<Rightarrow> f = OutOfBounds \<and> length us = 99
    | Inr cells' \<Rightarrow> length us \<noteq> 99 \<and> length cells' = 100 \<and>
        (if length us < 99 then take (length us + 2) cells' = map (Some \<circ> Some) us @ [Some (Some default_uuid), Some None]
         else cells' = map (Some \<circ> Some) (take 100 us))"
    using fill_uuids_all [of 0 100 "replicate 100 None" us] assms(1) by (simp add: configured_uuids_def)
  show ?thesis
  proof (cases "configured_uuids conf")
    case (Inl f)
    with fill show ?thesis by simp
  next
    case (Inr cells)
    show ?thesis
    proof (cases "length us < 99")
      case True
      with fill Inr readable_terminated obtain after where
        "readable cells = map Some (us @ [default_uuid]) @ None # after" by fastforce
      with True Inr show ?thesis
        using uuid_classes_stop [of "us @ [default_uuid]" after 0]
        by (simp add: bt_listen_def register_service_def Let_def cong: if_cong)
    next
      case False
      with fill Inr have "readable cells = map Some (take 100 us)" using readable_full by simp
      moreover have "list_all2 uuid_text (take 100 us) (take 100 pss)"
        using assms(2) by (rule list_all2_takeI)
      ultimately show ?thesis
        using False Inr assms(3,4) uuid_classes_unterminated
        by (simp add: bt_listen_def register_service_def)
    qed
  qed
qed

section \<open>Connections one after the other\<close>

lemma messaging_loop_safe:
  "messaging_loop msgs (initServer lock) \<noteq> Inl TypeConfusion"
  "messaging_loop msgs (initServer lock) = Inr b \<Longrightarrow> bridge_inv b"
  using connection_keeps [of msgs lock] by (auto simp: keeps_inv_def)

text \<open>
  The shutdown of a connection waits for ever nowhere: not for the lock or a thread in the
  cleanup of a service that is still open, not for room for the null pointer, not for the
  receive or the send thread.
\<close>

definition shutdown_returns :: "session \<Rightarrow> bridge \<Rightarrow> bool" where
  "shutdown_returns se b \<longleftrightarrow>
     (\<forall>i<400. services b ! i = closed_service \<or> cleanup_returns (se_self se) (services b ! i)) \<and>
     send_room (se_self se) \<and> se_receiver_ends se \<and> se_sender_ends se"

lemma serve_cases:
  assumes "list_all round_ok (se_rounds se)"
    and "getNextAndroidConnection acc (se_rounds se) us cs = Inr (con, us1, cs1)"
    and "messaging_loop (se_msgs se) (initServer (se_lock se)) = Inr b"
  shows "if shutdown_returns se b then \<exists>b' us' cs'. serve_connection acc se us cs = Inr (b', us', cs') \<and>
      (\<forall>i<400. services b' ! i = closed_service) \<and>
      (case physicalConnection con of USBConn c \<Rightarrow> held us1 = dev_handle c # held us'
       | BTConn c \<Rightarrow> us' = us1 \<and> cs' = cs1 @ [CloseConnectionFd (bt_fd c)])
    else serve_connection acc se us cs = Inl Blocked"
proof -
  note shutdown = deInitServer_cases [OF messaging_loop_safe(2) [OF assms(3)], of "se_self se"]
  show ?thesis
  proof (cases "shutdown_returns se b")
    case False
    with shutdown assms show ?thesis
      by (auto simp: serve_connection_def shutdown_returns_def split: if_splits)
  next
    case True
    with shutdown obtain b' where
      b': "deInitServer (se_self se) b = Inr b'" "\<forall>i<400. services b' ! i = closed_service"
      by (auto simp: shutdown_returns_def split: if_splits)
    from next_connection [OF assms(2,1)] obtain us' cs2 where
      close: "closeAndroidConnection con us1 = Inr (us', cs2)"
        "case physicalConnection con of USBConn c \<Rightarrow> held us1 = dev_handle c # held us'
         | BTConn c \<Rightarrow> us' = us1 \<and> cs2 = [CloseConnectionFd (bt_fd c)]"
      by (auto simp: closes_clean_def)
    from assms b' close(1) True have "serve_connection acc se us cs = Inr (b', us', cs1 @ cs2)"
      by (simp add: serve_connection_def shutdown_returns_def)
    with b'(2) close(2) True show ?thesis by (auto split: physical.splits)
  qed
qed


text \<open>The loop of \<open>main\<close> never ends, so \<open>deInitaccessory\<close> is never reached.\<close>

lemma main_never_returns: "main_loop acc ses us cs \<noteq> Inr ()"
  by (induction acc ses us cs rule: main_loop.induct) (auto simp: res_simps)

definition demo_session :: session where
  "demo_session = \<lparr>se_rounds = [demo_round], se_msgs = [(None, demo_env)], se_lock = 7, se_self = demo_caller,
     se_receiver_ends = True, se_sender_ends = True\<rparr>"


theorem configured_uuids_offered_witness:
  "bind_res (configured_uuids \<lparr>string_of = (\<lambda>_. None), uuid_elems = Some [Some bridge_uuid]\<rparr>)
     (\<lambda>cells. bt_listen demo_bt_env [65, 0] [66, 0] None (readable cells)) =
   bt_listen demo_bt_env [65, 0] [66, 0] None [Some bridge_uuid, Some default_uuid, None]"
  using configured_uuids_offered [of "\<lparr>string_of = (\<lambda>_. None), uuid_elems = Some [Some bridge_uuid]\<rparr>"
      "[bridge_uuid]" "[bridge_pairs]" demo_bt_env] bridge_uuid_text
  by (simp add: demo_bt_env_def)

end
