(* ===== verification/Audio.thy ===== *)
theory Audio
  imports Prelude
begin

text \<open>
  Audio from the Android device, \<open>accessoryAudio.c\<close>: the callbacks that PulseAudio's main loop
  runs in its own thread. They watch the sources of the sound server and load a loopback
  module for each source that is an Android accessory. PulseAudio calls back with events and
  is called; the calls are recorded.
\<close>

section \<open>Events and calls\<close>

text \<open>
  The value of a property of a source: absent, binary (\<open>pa_proplist_contains\<close> holds but
  \<open>pa_proplist_gets\<close> returns NULL), or a text.
\<close>

datatype pa_prop = Absent | Binary | Text string

record source =
  src_index :: uint32
  vendor_id :: pa_prop
  product_id :: pa_prop

datatype pa_state =
    PA_CONTEXT_UNCONNECTED | PA_CONTEXT_CONNECTING | PA_CONTEXT_AUTHORIZING
  | PA_CONTEXT_SETTING_NAME | PA_CONTEXT_READY | PA_CONTEXT_FAILED | PA_CONTEXT_TERMINATED

datatype pa_call =
    NewMainloop
  | NewContext string
  | SetStateCallback
  | Connect
  | StartMainloop
  | GetServerInfo
  | SetSubscribeCallback
  | Subscribe
  | GetSourceInfoList
  | LoadModule string string

section \<open>The callbacks\<close>

text \<open>\<open>argument[20]\<close> holds the text and its terminator.\<close>

definition source_argument :: "uint32 \<Rightarrow> string res" where
  "source_argument i =
     (let argument = ''source='' @ show_int (sint i) in
      if length argument < 20 then Inr argument else Inl OutOfBounds)"

definition gets :: "pa_prop \<Rightarrow> string res" where
  "gets p = (case p of Text s \<Rightarrow> Inr s | _ \<Rightarrow> Inl NullPointer)"

text \<open>One call for a source, \<open>None\<close> for the end of the list (\<open>eol\<close>).\<close>

definition on_new_source :: "source option \<Rightarrow> uint32 \<Rightarrow> (uint32 \<times> pa_call list) res" where
  "on_new_source i lastIndexChecked =
     (case i of None \<Rightarrow> Inr (lastIndexChecked, [])
      | Some src \<Rightarrow>
          if \<not> lastIndexChecked < src_index src then Inr (lastIndexChecked, [])
          else if vendor_id src \<noteq> Absent \<and> product_id src \<noteq> Absent then
            bind_res (gets (vendor_id src)) (\<lambda>vendor.
            bind_res (if vendor = ''18d1'' then gets (product_id src) else Inr ''any'') (\<lambda>product.
            if vendor = ''18d1'' \<and> product \<in> {''2d02'', ''2d03'', ''2d04'', ''2d05''} then
              bind_res (source_argument (src_index src)) (\<lambda>argument.
              Inr (src_index src, [LoadModule ''module-loopback'' argument]))
            else Inr (src_index src, [])))
          else Inr (src_index src, []))"

definition my_subscription_callback :: "bool \<Rightarrow> bool \<Rightarrow> pa_call list" where
  "my_subscription_callback event_source event_new =
     (if event_source then if event_new then [GetSourceInfoList] else [] else [])"

definition on_new_context_state :: "pa_state \<Rightarrow> pa_call list" where
  "on_new_context_state state =
     (case state of
        PA_CONTEXT_READY \<Rightarrow> [GetServerInfo, SetSubscribeCallback, Subscribe, GetSourceInfoList]
      | _ \<Rightarrow> [])"

definition accessory_audio_start :: "pa_call list" where
  "accessory_audio_start =
     [NewMainloop, NewContext ''AAP-Bridge'', SetStateCallback, Connect, StartMainloop]"

text \<open>The answers to any number of \<open>GetSourceInfoList\<close>, one after the other.\<close>

fun on_sources :: "source option list \<Rightarrow> uint32 \<Rightarrow> (uint32 \<times> pa_call list) res" where
  "on_sources [] lastIndexChecked = Inr (lastIndexChecked, [])"
| "on_sources (i # is) lastIndexChecked =
     bind_res (on_new_source i lastIndexChecked) (\<lambda>(lastIndexChecked, cs).
     bind_res (on_sources is lastIndexChecked) (\<lambda>(lastIndexChecked, cs').
     Inr (lastIndexChecked, cs @ cs')))"

section \<open>Every source once\<close>

text \<open>The argument always fits its buffer.\<close>

lemma source_argument_fits: "source_argument i = Inr (''source='' @ show_int (sint i))"
proof -
  have "- (2 ^ 31) \<le> sint i" "sint i < 2 ^ 31"
    using sint_ge [of i] sint_lt [of i] by simp_all
  then have "nat \<bar>sint i\<bar> < 10 ^ Suc 9" by simp
  from length_digits [OF this] have "length (show_int (sint i)) \<le> 11"
    by (cases "sint i < 0") (simp_all add: show_int_def abs_if)
  then show ?thesis by (simp add: source_argument_def Let_def)
qed

definition readable_props :: "source \<Rightarrow> bool" where
  "readable_props src \<longleftrightarrow> vendor_id src \<noteq> Binary \<and> product_id src \<noteq> Binary"

definition accessory_source :: "source \<Rightarrow> bool" where
  "accessory_source src \<longleftrightarrow> vendor_id src = Text ''18d1'' \<and>
     product_id src \<in> Text ` {''2d02'', ''2d03'', ''2d04'', ''2d05''}"

text \<open>The sources with an index above all that were seen before.\<close>

fun new_sources :: "uint32 \<Rightarrow> source option list \<Rightarrow> source list" where
  "new_sources hi [] = []"
| "new_sources hi (None # is) = new_sources hi is"
| "new_sources hi (Some src # is) =
     (if hi < src_index src then src # new_sources (src_index src) is else new_sources hi is)"

definition load_loopback :: "source \<Rightarrow> pa_call" where
  "load_loopback src = LoadModule ''module-loopback'' (''source='' @ show_int (sint (src_index src)))"

lemma on_new_source_readable:
  assumes "readable_props src" and "hi < src_index src"
  shows "on_new_source (Some src) hi =
    Inr (src_index src, if accessory_source src then [load_loopback src] else [])"
  using assms
  by (cases "vendor_id src"; cases "product_id src")
    (auto simp: on_new_source_def readable_props_def accessory_source_def gets_def load_loopback_def
      source_argument_fits)

lemma on_sources_new:
  "\<forall>src. Some src \<in> set is \<longrightarrow> readable_props src \<Longrightarrow>
     \<exists>hi'. on_sources is hi = Inr (hi', map load_loopback (filter accessory_source (new_sources hi is)))"
proof (induction "is" arbitrary: hi)
  case Nil
  then show ?case by simp
next
  case (Cons i ls)
  show ?case
  proof (cases i)
    case None
    with Cons.IH [of hi] Cons.prems show ?thesis by (auto simp: on_new_source_def)
  next
    case (Some src)
    show ?thesis
    proof (cases "hi < src_index src")
      case True
      with Some Cons.IH [of "src_index src"] Cons.prems on_new_source_readable [of src hi] show ?thesis
        by auto
    next
      case False
      with Some Cons.IH [of hi] Cons.prems show ?thesis by (auto simp: on_new_source_def)
    qed
  qed
qed

lemma new_sources_above: "src \<in> set (new_sources hi is) \<Longrightarrow> hi < src_index src \<and> Some src \<in> set is"
  by (induction hi "is" rule: new_sources.induct) (auto split: if_splits)

lemma new_sources_sorted: "sorted_wrt (\<lambda>a b. src_index a < src_index b) (new_sources hi is)"
  by (induction hi "is" rule: new_sources.induct) (auto dest: new_sources_above)

lemma new_sources_all:
  "sorted_wrt (\<lambda>a b. src_index a < src_index b) srcs \<Longrightarrow> \<forall>src\<in>set srcs. hi < src_index src \<Longrightarrow>
     new_sources hi (map Some srcs) = srcs"
  by (induction srcs arbitrary: hi) auto

text \<open>
  From the start on, whatever sources PulseAudio lists and however often, a loopback is
  loaded for no source index twice, only for Android accessories with audio, and for all of
  them when the list is in the order of the indices, from 1 on.
\<close>

theorem loopback_once:
  assumes "\<forall>src. Some src \<in> set is \<longrightarrow> readable_props src"
  shows "\<exists>hi loaded. on_sources is 0 = Inr (hi, map load_loopback loaded) \<and>
    sorted_wrt (\<lambda>a b. src_index a < src_index b) loaded \<and>
    (\<forall>src\<in>set loaded. accessory_source src \<and> Some src \<in> set is) \<and>
    (\<forall>srcs. is = map Some srcs \<and> sorted_wrt (\<lambda>a b. src_index a < src_index b) srcs \<and>
        (\<forall>src\<in>set srcs. 0 < src_index src) \<longrightarrow> loaded = filter accessory_source srcs)"
proof -
  obtain hi where "on_sources is 0 = Inr (hi, map load_loopback (filter accessory_source (new_sources 0 is)))"
    using on_sources_new [OF assms] by blast
  moreover have "sorted_wrt (\<lambda>a b. src_index a < src_index b) (filter accessory_source (new_sources 0 is))"
    using new_sources_sorted by (rule sorted_wrt_filter)
  ultimately show ?thesis
    using new_sources_all new_sources_above
    by (intro exI [of _ hi] exI [of _ "filter accessory_source (new_sources 0 is)"]) fastforce
qed

definition demo_source :: "uint32 \<Rightarrow> source" where
  "demo_source i = \<lparr>src_index = i, vendor_id = Text ''18d1'', product_id = Text ''2d02''\<rparr>"

theorem loopback_once_witness:
  "\<exists>hi. on_sources [Some (demo_source 0), Some (demo_source 2), None, Some (demo_source 2), Some (demo_source 1)] 0 =
     Inr (hi, [LoadModule ''module-loopback'' ''source=2''])"
proof -
  let ?is = "[Some (demo_source 0), Some (demo_source 2), None, Some (demo_source 2), Some (demo_source 1)]"
  have "\<forall>src. Some src \<in> set ?is \<longrightarrow> readable_props src"
    by (auto simp: readable_props_def demo_source_def)
  from loopback_once [OF this] obtain hi loaded where "on_sources ?is 0 = Inr (hi, map load_loopback loaded)"
    by blast
  moreover have "case on_sources ?is 0 of Inr (hi, cs) \<Rightarrow> cs = [LoadModule ''module-loopback'' ''source=2''] | _ \<Rightarrow> False"
    by code_simp
  ultimately show ?thesis by auto
qed

end
