(* ===== verification/DbusPrint.thy ===== *)
theory DbusPrint
  imports Bluetooth
begin

text \<open>
  The printing of D-Bus messages, \<open>dbuslib.c\<close>. Output is the text that was printed. A null
  pointer for \<open>%s\<close> prints as glibc prints it. What libdbus says of a message is a record.
\<close>

section \<open>Binary data\<close>

definition hex_char :: "nat \<Rightarrow> char" where
  "hex_char n = (if n < 10 then char_of (48 + n) else char_of (87 + n))"

text \<open>\<open>printf\<close> with \<open>%02hhx\<close>.\<close>

definition hex2 :: "byte \<Rightarrow> string" where
  "hex2 b = [hex_char (unat b div 16), hex_char (unat b mod 16)]"

fun print_bytes :: "byte list \<Rightarrow> nat \<Rightarrow> nat \<Rightarrow> string res" where
  "print_bytes p i 0 = Inr []"
| "print_bytes p i (Suc todo) =
     bind_res (rd p i) (\<lambda>b.
     bind_res (print_bytes p (i + 1) todo) (\<lambda>out.
     Inr (hex2 b @ out)))"

definition PrintBin :: "byte list \<Rightarrow> int \<Rightarrow> string res" where
  "PrintBin p len = print_bytes p 0 (nat len)"

section \<open>Messages\<close>

text \<open>An argument of a message: its type, and its text when the type is 115, a string.\<close>

record dbus_arg =
  arg_type :: nat
  arg_signature :: string
  arg_str :: "string option"

record dbus_message =
  sender :: "string option"
  destination :: "string option"
  response_type :: string
  object_path :: "string option"
  msg_interface :: "string option"
  member_name :: "string option"
  error_name :: "string option"
  marshalled :: "byte list"
  signature_str :: string
  msg_args :: "dbus_arg list"

definition newline :: string where
  "newline = [CHR 0x0A]"

definition print_line :: "string \<Rightarrow> string option \<Rightarrow> string" where
  "print_line label s = label @ (case s of None \<Rightarrow> ''(null)'' | Some t \<Rightarrow> t) @ newline"

fun show_nat :: "nat \<Rightarrow> string" where
  "show_nat n = (if n < 10 then [char_of (48 + n)] else show_nat (n div 10) @ [char_of (48 + n mod 10)])"

declare show_nat.simps [simp del]

text \<open>The loop over the arguments; the pointer that is returned is the text it points to.\<close>

fun print_args :: "dbus_arg list \<Rightarrow> string option \<Rightarrow> string \<times> string option" where
  "print_args [] retval = ([], retval)"
| "print_args (a # as) retval =
     (if arg_type a = 115 then
        (case arg_str a of
           None \<Rightarrow> print_args as retval
         | Some s \<Rightarrow>
             if s = [] then print_args as retval
             else
               (let (out, retval) = print_args as (Some s) in
                (''type          : '' @ arg_signature a @ '' ('' @ show_nat (arg_type a) @ '')'' @ newline
                 @ s @ newline @ out, retval)))
      else print_args as retval)"

definition PrintDBusMessage :: "dbus_message option \<Rightarrow> (string \<times> string option) res" where
  "PrintDBusMessage message =
     (case message of
        None \<Rightarrow> Inr (''dbus message is NULL'' @ newline @ newline, None)
      | Some msg \<Rightarrow>
          bind_res (PrintBin (marshalled msg) (int (length (marshalled msg)))) (\<lambda>bin.
          let head =
                print_line ''Sender        : '' (sender msg) @
                print_line ''Destination   : '' (destination msg) @
                print_line ''Response type : '' (Some (response_type msg)) @
                print_line ''Object path   : '' (object_path msg) @
                print_line ''Interface     : '' (msg_interface msg) @
                print_line ''Member(method): '' (member_name msg) @
                print_line ''Error name    : '' (error_name msg) @
                print_line ''Marshalled len: '' (Some (show_nat (length (marshalled msg)))) @
                ''Marshalled data follows as hexidecimal'' @ newline @ bin @ newline @
                print_line ''Signature     : '' (Some (signature_str msg));
              (out, retval) =
                (if msg_args msg = [] then (''Return message has no arguments.'' @ newline, None)
                 else print_args (msg_args msg) None)
          in Inr (head @ out @ newline, retval)))"

section \<open>Properties\<close>

lemma print_bytes_all: "i + n \<le> length p \<Longrightarrow> print_bytes p i n = Inr (concat (map hex2 (take n (drop i p))))"
proof (induction n arbitrary: i)
  case 0
  then show ?case by simp
next
  case (Suc n)
  then have "take (Suc n) (drop i p) = p ! i # take n (drop (Suc i) p)"
    by (metis Cons_nth_drop_Suc Suc_le_lessD add_Suc_right le_add1 le_less_trans less_Suc_eq_le not_less_eq take_Suc_Cons)
  with Suc show ?case by simp
qed

lemma print_bytes_over: "i + n > length p \<Longrightarrow> i \<le> length p \<Longrightarrow> print_bytes p i n = Inl OutOfBounds"
proof (induction n arbitrary: i)
  case 0
  then show ?case by simp
next
  case (Suc n)
  then show ?case by (cases "i < length p") (auto simp: rd_def)
qed

text \<open>Reading the text back, two characters at a time, as \<open>sdp_strn2uuid\<close> reads a UUID.\<close>

fun read_hex :: "byte list \<Rightarrow> byte list option" where
  "read_hex [] = Some []"
| "read_hex [c] = None"
| "read_hex (c # d # cs) =
     (case (scan_hex c d, read_hex cs) of (Some v, Some bs) \<Rightarrow> Some (ucast v # bs) | _ \<Rightarrow> None)"

lemma byte_of_char_of:
  assumes "k < 256"
  shows "(of_char (char_of k) :: byte) = of_nat k"
proof -
  have "(of_char (char_of k) :: byte) = of_nat (of_char (char_of k))"
    by (rule of_nat_of_char [symmetric])
  also have "(of_char (char_of k) :: nat) = k" using assms by simp
  finally show ?thesis .
qed

lemma hex_digit_of_nat:
  "k < 256 \<Longrightarrow> hex_digit (of_nat k) =
     (if 48 \<le> k \<and> k \<le> 57 then Some (k - 48) else if 97 \<le> k \<and> k \<le> 102 then Some (k - 87)
      else if 65 \<le> k \<and> k \<le> 70 then Some (k - 55) else None)"
  by (simp add: hex_digit_def word_le_nat_alt unat_of_nat)

lemma hex_char_digit: "n < 16 \<Longrightarrow> hex_digit (of_char (hex_char n)) = Some n"
  using byte_of_char_of [of "48 + n"] hex_digit_of_nat [of "48 + n"]
    byte_of_char_of [of "87 + n"] hex_digit_of_nat [of "87 + n"]
  by (simp add: hex_char_def)

lemma narrow_again: "(ucast (ucast b :: uint32) :: byte) = b"
  by (rule bit_word_eqI) (auto simp: bit_simps dest: bit_imp_le_length)

lemma bytes_of_simps: "bytes_of [] = []" "bytes_of (s @ t) = bytes_of s @ bytes_of t"
  by (simp_all add: bytes_of_def)

lemma read_hex2:
  "read_hex (bytes_of (hex2 b) @ cs) = map_option (Cons b) (read_hex cs)"
proof -
  have lt: "unat b < 256" using unsigned_less [of b] by simp
  then have "hex_digit (of_char (hex_char (unat b div 16))) = Some (unat b div 16)"
    "hex_digit (of_char (hex_char (unat b mod 16))) = Some (unat b mod 16)"
    by (simp_all add: hex_char_digit less_mult_imp_div_less)
  then have "scan_hex (of_char (hex_char (unat b div 16))) (of_char (hex_char (unat b mod 16))) =
      Some (of_nat (16 * (unat b div 16) + unat b mod 16))"
    by (rule scan_hex_pair)
  also have "16 * (unat b div 16) + unat b mod 16 = unat b" by simp
  finally show ?thesis
    by (simp add: hex2_def bytes_of_def narrow_again split: option.split)
qed

text \<open>
  \<open>PrintBin\<close> prints exactly the first \<open>len\<close> bytes, and they can be read back from the text;
  it reads past the buffer exactly when \<open>len\<close> is larger than the buffer.
\<close>

theorem PrintBin_readable:
  "case PrintBin p len of
      Inr out \<Rightarrow> nat len \<le> length p \<and> read_hex (bytes_of out) = Some (take (nat len) p)
    | Inl f \<Rightarrow> f = OutOfBounds \<and> length p < nat len"
proof (cases "nat len \<le> length p")
  case True
  have "read_hex (bytes_of (concat (map hex2 bs))) = Some bs" for bs
    by (induction bs) (simp_all add: read_hex2 bytes_of_simps)
  with True print_bytes_all [of 0 "nat len" p] show ?thesis by (simp add: PrintBin_def)
next
  case False
  with print_bytes_over [of p 0 "nat len"] show ?thesis by (simp add: PrintBin_def)
qed

fun string_args :: "dbus_arg list \<Rightarrow> string list" where
  "string_args [] = []"
| "string_args (a # as) =
     (if arg_type a = 115 \<and> arg_str a \<noteq> None \<and> arg_str a \<noteq> Some []
      then the (arg_str a) # string_args as else string_args as)"

lemma print_args_last:
  "snd (print_args as r) = (if string_args as = [] then r else Some (last (string_args as)))"
proof (induction as arbitrary: r)
  case (Cons a as)
  show ?case
  proof (cases "arg_type a = 115 \<and> arg_str a \<noteq> None \<and> arg_str a \<noteq> Some []")
    case True
    then obtain s where "arg_type a = 115" "arg_str a = Some s" "s \<noteq> []" by auto
    with Cons [of "Some s"] show ?thesis by (simp add: case_prod_beta Let_def)
  next
    case False
    with Cons [of r] show ?thesis by (auto split: option.split)
  qed
qed simp

text \<open>The pointer \<open>PrintDBusMessage\<close> returns is that of the last non-empty string argument.\<close>

lemma PrintDBusMessage_last:
  "\<exists>out. PrintDBusMessage (Some msg) =
     Inr (out, if string_args (msg_args msg) = [] then None else Some (last (string_args (msg_args msg))))"
proof -
  have "PrintBin (marshalled msg) (int (length (marshalled msg))) =
      Inr (concat (map hex2 (marshalled msg)))"
    using print_bytes_all [of 0 "length (marshalled msg)" "marshalled msg"] by (simp add: PrintBin_def)
  then show ?thesis
    using print_args_last [of "msg_args msg" None]
    by (cases "msg_args msg") (auto simp: PrintDBusMessage_def Let_def case_prod_beta)
qed

end
