(* ===== verification/Spec2Isabelle.thy ===== *)
theory Spec2Isabelle
  imports QueueThreads Frames CleanupLock BridgeThreads Echo BSplit Base64 BReplace BStreamSplit MainProgram Audio DbusPrint
begin

text \<open>
  A verification development for the accessory side of the Android accessory protocol bridge:
  \<open>libAndroidAccessory\<close> (\<open>src/Accessory/AndroidAccessory/src\<close>) and the bridge program
  (\<open>src/Accessory/AAP-Bridge/src\<close>).

  The program. \<open>main\<close> reads its configuration, sets up an accessory, and serves one Android
  device after the other. A device arrives over USB (it is first switched to accessory mode)
  or over bluetooth; either way the bridge gets a byte stream. Over it travel frames, a port,
  a size and that many bytes, which the receiver thread queues for the main thread and which
  the sender thread takes from a queue the services fill. The main thread hands each message
  to the service of its port. Three services are always there: port status, which carries the
  end-of-file and close messages of all other ports; the service spawner, through which
  Android asks for a new service; and a keepalive. What can be spawned is a bulk transfer
  (two fifos to a local program and a thread), a caller of D-Bus methods, and a D-Bus signal
  subscription (a thread).

  The theories, from the bottom up, with the files they model.

  \<^item> \<open>Prelude\<close>: C integer widths, faults as values (\<open>fault + 'a\<close>), byte buffers, C strings.
  \<^item> \<open>MsgQueue\<close> (\<open>Message/receivequeue.c\<close>, \<open>Message/sendqueue.c\<close>): the ring buffers of 64
    messages with their two semaphores; the receive queue refines a bounded FIFO list.
  \<^item> \<open>QueueThreads\<close>: any number of threads over a queue, cut at the semaphores; order, no loss,
    no standstill, by rule induction over the reachable states.
  \<^item> \<open>Transport\<close> (\<open>accessory.c\<close>, \<open>usb.c\<close>, \<open>bt.c\<close>: reading and writing): the locales
    \<open>byte_source\<close>, \<open>live_source\<close>, \<open>byte_sink\<close>, \<open>live_sink\<close> state the contract of a transport, the
    loops \<open>readAllAccessory\<close> and \<open>writeAllAccessory\<close> are proved against it, and both
    transports and the connection that dispatches to them are its interpretations.
  \<^item> \<open>Frames\<close> (\<open>receiver\<close> and \<open>sender\<close> of \<open>bridge.c\<close>): what one end sends the other receives.
  \<^item> \<open>Services\<close>: the structs \<open>BridgeService\<close> and \<open>BridgeConnection\<close>, the private data of the
    services, the callbacks by name, \<open>writeAllPort\<close>. A service is the index of its slot.
  \<^item> \<open>Bulk\<close> (\<open>bulkTransfer.c\<close>), \<open>Listener\<close> (\<open>Dbus/listener.c\<close>), \<open>Method\<close> (\<open>Dbus/method.c\<close>): the
    services that can be spawned.
  \<^item> \<open>BString\<close> (\<open>bStrLib/bstrlib.c\<close>): the functions of the string library the listener builds
    its rules with, down to buffers and failing allocations; locale \<open>string_buffer\<close>. Further
    functions of the library: \<open>BSearch\<close> shows that the unrolled search of \<open>binstr\<close> ends and
    equals the naive one, \<open>BEdit\<close> copies, cuts and compares strings on their contents, and
    has the section that \<open>bdelete\<close> fails to clamp.
  \<^item> \<open>BInsert\<close> (the same file): concatenation, assignment, setting, inserting and replacing
    sections, filling, repeating. The locale \<open>string_editor\<close> states what one edit promises and
    proves it for sequences; its interpretation is the datatype of all these edits. An argument
    of type \<open>barg\<close> is another string or a section of the buffer that is edited; the comparisons
    of pointers are those of the source, and an argument in the buffer is read from the cells
    as they are at that moment, which is a fault after the buffer has moved.
  \<^item> \<open>BCase\<close>: case conversion, trimming and the order of strings. \<open>BFind\<close>: the other searches,
    and the sets of characters with their bits.
  \<^item> \<open>BSplit\<close>: lists of strings, splitting and joining. The locale \<open>piece_sink\<close> is the contract of a
    callback that takes pieces, \<open>patient_sink\<close> of one that never stops; the loops that split are
    proved against them, and the callback of the library interprets both.
  \<^item> \<open>BReplace\<close>: finding and replacing. The locale \<open>finder\<close> is the contract of the search that is
    passed to the engine; its three ways equal one replacement on lists, and \<open>binstr\<close> and
    \<open>binstrcaseless\<close> interpret it. One kind of argument in the buffer is not safe
    (\<open>replacement_dangles\<close>).
  \<^item> \<open>BStream\<close>: reading whole inputs, lines and blocks. The locale \<open>stream_source\<close> is the contract of
    a function that reads, \<open>full_source\<close> extends it to functions like \<open>fread\<close>; the buffered
    stream is proved against them, and the two sources over strings of \<open>bstraux.c\<close> interpret
    them. \<open>BStreamSplit\<close>: splitting a stream.
  \<^item> \<open>Base64\<close> (\<open>bStrLib/bstraux.c\<close>): the base64 codec.
  \<^item> \<open>Bridge\<close> (\<open>bridge.c\<close>, \<open>keepalive.c\<close>): ports, the close protocol, clean-up. \<open>bridge_inv\<close> is
    the invariant of the 400 slots; the close protocol refines a machine of two flags. A record
    \<open>caller\<close> says who calls and what its calls would wait for: whether \<open>cleanupLock\<close> is to be had,
    which threads end when they are joined, whether the send queue takes a message. A call that
    waits for ever is the value \<open>Inl Blocked\<close>.
  \<^item> \<open>Spawner\<close> (\<open>servicespawner.c\<close>), \<open>Server\<close> (\<open>initServer\<close>, dispatch, messaging loop of \<open>main\<close>,
    \<open>deInitServer\<close>), \<open>Callbacks\<close>: no message leads to a wrong cast of \<open>service_data\<close>, and
    every message keeps the invariant; what a hostile Android can bring about.
  \<^item> \<open>CleanupLock\<close>: the main thread and a bulk thread over one slot, as a step relation: the flags,
    \<open>cleanupLock\<close>, the reads of the fifo, the writes to the payload, the room in the send queue and
    the join. All its standstills, the deadlock over the lock, and three further bad ends that
    are reached.
  \<^item> \<open>BridgeThreads\<close>: the main, receive and send thread and the signal watchers of one connection
    over both queues and \<open>bridge->work\<close>, as a step relation, for connections on which every
    request for a bulk transfer is refused, as a bulk thread also writes into the slots. It
    refines the messaging loop; where it can stand still (one such state is the full send
    queue after a write error); the order in which a connection ends.
  \<^item> \<open>UsbInit\<close> (\<open>initialize.c\<close>, \<open>config.h\<close>, part of \<open>usb.c\<close>): the search for a device, the
    accessory protocol, the endpoints, and that handles are not lost but in the cases shown.
  \<^item> \<open>Bluetooth\<close> (\<open>bt.c\<close>): UUIDs, the registered record, the listening socket.
  \<^item> \<open>Connection\<close> (\<open>accessory.c\<close>): set-up, waiting on both transports, closing, release.
  \<^item> \<open>MainProgram\<close> (\<open>main.c\<close>): configuration, start, and a turn of the main loop, which composes
    waiting, \<open>initServer\<close>, the messaging loop, \<open>deInitServer\<close> with its joins, and closing.
  \<^item> \<open>Echo\<close> (\<open>AndroidAccessory/doc/echo.c\<close>): the example program, over the models of the library.
  \<^item> \<open>Audio\<close> (\<open>accessoryAudio.c\<close>) and \<open>DbusPrint\<close> (\<open>Dbus/dbuslib.c\<close>).

  The environment. Results of the kernel, libusb, BlueZ, libdbus, PulseAudio, the
  configuration library and \<open>malloc\<close> are arguments: scripts that are consumed call by call,
  records of answers, or functions of the trace of calls made so far. All statements quantify
  over them; where one relies on documented behaviour it is a named hypothesis (\<open>round_ok\<close>:
  no USB transfer exceeds its buffer, error codes are not positive). Calls that matter to the
  statements are recorded in traces. Undefined behaviour of C is a \<open>fault\<close>, so that a theorem
  with \<open>Inr\<close> says it does not happen and one with \<open>Inl\<close> that it does.

  Bounds and fuel. \<open>readAllAccessory\<close> and \<open>writeAllAccessory\<close> are \<open>partial_function\<close>s: \<open>None\<close> is
  a call that never returns, and returning is proved. The search of \<open>openNewPort\<close> has fuel
  401, one step more than there are ports; that it suffices is part of the theorem on the
  first free port. Other loops recurse on their data; an empty script is \<open>Blocked\<close>, a call that
  waits for ever. In the step relations waiting is a step that is not enabled, and a call that
  spins is a step that changes nothing.

  Not modelled, and why. Printing to the terminal, but for \<open>dbuslib.c\<close>: it has no effect on
  the state. The signal handler of \<open>main.c\<close>: it exits. \<open>getPortNr\<close>: it returns nothing. The
  starting lock of spawned services: it only delays them. \<open>flags.c\<close>: one global variable.
  \<open>BUGGY_KEEPALIVE_SERVICE\<close>: a debugging build. Of \<open>bStrLib\<close>, which is vendored and mostly not
  called: formatting, \<open>uuencode\<close>, yEnc, netstrings, writing streams; callbacks that change the
  string they are given pieces of. The Java side in the repository is another program.
\<close>

end
